(* ===== verification/Py_Prelude.thy ===== *)
theory Py_Prelude
  imports Main "HOL-Library.Char_ord"
begin

section \<open>Prelude: Python values, exceptions and sequences\<close>

text \<open>
  What every component of the development shares: the exceptions of the interpreter as a
  datatype, results that may be exceptions, mutable objects as explicit state passing (an
  operation that raises still returns the state it leaves behind, as the Python object keeps
  its partial updates), the slices \<open>s[i:j]\<close>, \<open>s[i:]\<close> and \<open>s[:j]\<close> with
  the interpreter's treatment of negative and out-of-range bounds, and characters as bytes.
  A Python string of this release is a sequence of bytes, which is \<open>string\<close>.
  Python integers are \<open>int\<close>; where the code keeps a value non-negative by construction
  (a loop index running up from 0) it is a \<open>nat\<close>.
\<close>

named_theorems py_defs \<open>definitions of the small operations that proofs unfold\<close>

subsection \<open>Exceptions and results\<close>

text \<open>
  The built-in exceptions the modelled modules raise or let escape. \<open>ModError m t\<close> is a
  module's own exception: the string exception \<open>m\<close> raised with the text \<open>t\<close>.
\<close>

datatype pyexc =
    ValueError string
  | IndexError
  | KeyError
  | TypeError
  | EOFError
  | AttributeError
  | RuntimeError
  | OverflowError
  | ZeroDivisionError
  | IOError string
  | ModError string string

type_synonym 'a res = "pyexc + 'a"

definition bindR :: "'a res \<Rightarrow> ('a \<Rightarrow> 'b res) \<Rightarrow> 'b res" where
  "bindR m f = (case m of Inl e \<Rightarrow> Inl e | Inr x \<Rightarrow> f x)"

lemma bindR_simps [simp]:
  "bindR (Inl e) f = Inl e"
  "bindR (Inr x) f = f x"
  by (simp_all add: bindR_def)

lemma bindR_cong [fundef_cong]:
  assumes "m = m'" and "\<And>x. m' = Inr x \<Longrightarrow> f x = f' x"
  shows "bindR m f = bindR m' f'"
  using assms by (cases m') simp_all

lemma bindR_Inr_iff: "bindR m f = Inr y \<longleftrightarrow> (\<exists>x. m = Inr x \<and> f x = Inr y)"
  by (cases m) simp_all

lemma bindR_assoc: "bindR (bindR m f) g = bindR m (\<lambda>x. bindR (f x) g)"
  by (cases m) simp_all

text \<open>An action on an object: the new state comes back also when an exception is raised.\<close>

type_synonym ('s, 'a) act = "'s \<Rightarrow> 'a res \<times> 's"

definition retA :: "'a \<Rightarrow> ('s, 'a) act" where
  "retA x s = (Inr x, s)"

definition raiseA :: "pyexc \<Rightarrow> ('s, 'a) act" where
  "raiseA e s = (Inl e, s)"

definition bindA :: "('s, 'a) act \<Rightarrow> ('a \<Rightarrow> ('s, 'b) act) \<Rightarrow> ('s, 'b) act" where
  "bindA m f s = (case m s of (Inl e, t) \<Rightarrow> (Inl e, t) | (Inr x, t) \<Rightarrow> f x t)"

definition thenA :: "('s, 'a) act \<Rightarrow> ('s, 'b) act \<Rightarrow> ('s, 'b) act" where
  "thenA m k = bindA m (\<lambda>_. k)"

definition getA :: "('s \<Rightarrow> 'a) \<Rightarrow> ('s, 'a) act" where
  "getA f s = (Inr (f s), s)"

definition updA :: "('s \<Rightarrow> 's) \<Rightarrow> ('s, unit) act" where
  "updA f s = (Inr (), f s)"

definition guardA :: "('s \<Rightarrow> bool) \<Rightarrow> pyexc \<Rightarrow> ('s, unit) act" where
  \<comment> \<open>\<open>if not P: raise e\<close>\<close>
  "guardA P e s = (if P s then (Inr (), s) else (Inl e, s))"

definition liftA :: "'a res \<Rightarrow> ('s, 'a) act" where
  "liftA r s = (r, s)"

lemma act_simps [simp]:
  "retA x s = (Inr x, s)"
  "raiseA e s = (Inl e, s)"
  "getA f s = (Inr (f s), s)"
  "updA g s = (Inr (), g s)"
  "guardA P e s = (if P s then (Inr (), s) else (Inl e, s))"
  "liftA r s = (r, s)"
  by (simp_all add: retA_def raiseA_def getA_def updA_def guardA_def liftA_def)

lemma bindA_Inr [simp]: "m s = (Inr x, t) \<Longrightarrow> bindA m f s = f x t"
  by (simp add: bindA_def)

lemma bindA_Inl [simp]: "m s = (Inl e, t) \<Longrightarrow> bindA m f s = (Inl e, t)"
  by (simp add: bindA_def)

lemma thenA_Inr [simp]: "m s = (Inr x, t) \<Longrightarrow> thenA m k s = k t"
  by (simp add: thenA_def)

lemma thenA_Inl [simp]: "m s = (Inl e, t) \<Longrightarrow> thenA m k s = (Inl e, t)"
  by (simp add: thenA_def)

lemma bindA_cong [fundef_cong]:
  assumes "s = s'" and "m s' = m' s'" and "\<And>x t. m' s' = (Inr x, t) \<Longrightarrow> f x t = f' x t"
  shows "bindA m f s = bindA m' f' s'"
  using assms by (auto simp: bindA_def split: prod.splits sum.splits)

lemma thenA_cong [fundef_cong]:
  assumes "s = s'" and "m s' = m' s'" and "\<And>x t. m' s' = (Inr x, t) \<Longrightarrow> k t = k' t"
  shows "thenA m k s = thenA m' k' s'"
  using assms by (auto simp: bindA_def thenA_def split: prod.splits sum.splits)

lemma bindA_split:
  "P (bindA m f s) \<longleftrightarrow>
     (\<forall>e t. m s = (Inl e, t) \<longrightarrow> P (Inl e, t)) \<and> (\<forall>x t. m s = (Inr x, t) \<longrightarrow> P (f x t))"
  by (auto simp: bindA_def split: prod.splits sum.splits)

text \<open>\<open>for x in xs: body(x)\<close>, stopping at the first exception.\<close>

primrec forA :: "('x \<Rightarrow> ('s, 'r) act) \<Rightarrow> 'x list \<Rightarrow> ('s, unit) act" where
  "forA body [] = retA ()"
| "forA body (x # xs) = thenA (body x) (forA body xs)"

text \<open>The state an action leaves, and what it returns when it does not raise.\<close>

definition state_of :: "('s, 'a) act \<Rightarrow> 's \<Rightarrow> 's" where
  "state_of m s = snd (m s)"

lemma forA_append:
  "forA body (xs @ ys) s = thenA (forA body xs) (forA body ys) s"
proof (induction xs arbitrary: s)
  case Nil
  then show ?case by simp
next
  case (Cons x xs)
  then show ?case
    by (cases "body x s") (auto simp: thenA_def bindA_def split: sum.splits prod.splits)
qed

subsection \<open>Slices\<close>

text \<open>
  \<open>s[i:j]\<close>: a negative bound has the length added once, then both are clamped to the
  sequence (\<open>apply_slice\<close> of \<open>Python/ceval.c\<close> and \<open>string_slice\<close> of
  \<open>Objects/stringobject.c\<close>).
\<close>

definition norm_bound :: "int \<Rightarrow> int \<Rightarrow> nat" where
  "norm_bound n i = nat (min n (if i < 0 then i + n else i))"

definition pslice :: "int \<Rightarrow> int \<Rightarrow> 'a list \<Rightarrow> 'a list" where
  "pslice i j s =
     (let a = norm_bound (int (length s)) i; b = norm_bound (int (length s)) j
      in take (b - a) (drop a s))"

definition pfrom :: "int \<Rightarrow> 'a list \<Rightarrow> 'a list" where
  "pfrom i s = drop (norm_bound (int (length s)) i) s"

definition pupto :: "int \<Rightarrow> 'a list \<Rightarrow> 'a list" where
  "pupto j s = take (norm_bound (int (length s)) j) s"

text \<open>\<open>s[i]\<close>: negative indices count from the end, otherwise out of range raises.\<close>

definition pindex :: "'a list \<Rightarrow> int \<Rightarrow> 'a res" where
  "pindex s i =
     (let n = int (length s); k = (if i < 0 then i + n else i)
      in if 0 \<le> k \<and> k < n then Inr (s ! nat k) else Inl IndexError)"

lemma norm_bound_nat [simp]: "norm_bound (int n) (int i) = min n i"
  by (simp add: norm_bound_def)

lemma norm_bound_nonneg: "0 \<le> i \<Longrightarrow> norm_bound (int n) i = min n (nat i)"
  by (simp add: norm_bound_def)

lemma norm_bound_minus: "0 < m \<Longrightarrow> norm_bound (int n) (- int m) = n - m"
  by (simp add: norm_bound_def)

lemma norm_bound_numeral [simp]:
  "norm_bound (int n) 0 = 0"
  "norm_bound (int n) 1 = min n 1"
  "norm_bound (int n) (numeral k) = min n (numeral k)"
  "norm_bound (int n) (- 1) = n - 1"
  "norm_bound (int n) (- numeral k) = n - numeral k"
  using norm_bound_nat [of n "numeral k"] norm_bound_nat [of n 1]
    norm_bound_minus [of "numeral k" n] norm_bound_minus [of 1 n]
  by (simp_all add: norm_bound_def)

lemma pslice_nat: "pslice (int i) (int j) s = take (j - i) (drop i s)"
  by (auto simp: pslice_def Let_def min_def)

lemma pslice_nonneg:
  "0 \<le> i \<Longrightarrow> 0 \<le> j \<Longrightarrow> pslice i j s = take (nat j - nat i) (drop (nat i) s)"
  using pslice_nat [of "nat i" "nat j" s] by simp

lemma pfrom_nat [simp]: "pfrom (int i) s = drop i s"
  by (auto simp: pfrom_def min_def)

lemma pupto_nat [simp]: "pupto (int j) s = take j s"
  by (auto simp: pupto_def min_def)

lemma pfrom_nonneg: "0 \<le> i \<Longrightarrow> pfrom i s = drop (nat i) s"
  using pfrom_nat [of "nat i" s] by simp

lemma pupto_nonneg: "0 \<le> j \<Longrightarrow> pupto j s = take (nat j) s"
  using pupto_nat [of "nat j" s] by simp

lemma pupto_pfrom [simp]: "pupto i s @ pfrom i s = s"
  by (simp add: pupto_def pfrom_def)

lemma pfrom_minus1: "pfrom (- 1) s = (if s = [] then [] else [last s])"
proof -
  have "pfrom (- 1) s = drop (length s - 1) s"
    unfolding pfrom_def norm_bound_numeral ..
  then show ?thesis by (cases s rule: rev_cases) simp_all
qed

lemma pupto_minus1: "pupto (- 1) s = butlast s"
  unfolding pupto_def norm_bound_numeral by (simp add: butlast_conv_take)

lemma length_pslice_le: "length (pslice i j s) \<le> length s"
  by (simp add: pslice_def Let_def)

lemma pindex_nat: "i < length s \<Longrightarrow> pindex s (int i) = Inr (s ! i)"
  by (simp add: pindex_def)

subsection \<open>Characters and bytes\<close>

abbreviation ord :: "char \<Rightarrow> nat" where
  "ord \<equiv> of_char"

abbreviation chr :: "nat \<Rightarrow> char" where
  "chr \<equiv> char_of"

abbreviation NL :: char where
  "NL \<equiv> CHR 0x0A"

abbreviation TAB :: char where
  "TAB \<equiv> CHR 0x09"

abbreviation CR :: char where
  "CR \<equiv> CHR 0x0D"

abbreviation NUL :: char where
  "NUL \<equiv> CHR 0x00"

abbreviation BSLASH :: char where
  "BSLASH \<equiv> CHR 0x5C"

abbreviation DQUOTE :: char where
  "DQUOTE \<equiv> CHR 0x22"

abbreviation SQUOTE :: char where
  "SQUOTE \<equiv> CHR 0x27"

lemma ord_less_256: "ord c < 256"
  by simp

lemma ord_chr: "n < 256 \<Longrightarrow> ord (chr n) = n"
  by simp

subsection \<open>Scanning loops\<close>

text \<open>
  The two loops that most of the string code is written with:
  \<^verbatim>\<open>while i < n and P(s[i]): i = i+1\<close> and \<^verbatim>\<open>while i < j and P(s[j-1]): j = j-1\<close>.
\<close>

function scan_up :: "('a \<Rightarrow> bool) \<Rightarrow> 'a list \<Rightarrow> nat \<Rightarrow> nat \<Rightarrow> nat" where
  "scan_up P s i n = (if i < n \<and> P (s ! i) then scan_up P s (Suc i) n else i)"
  by pat_completeness auto
termination
  by (relation "measure (\<lambda>(P, s, i, n). n - i)") auto

fun scan_down :: "('a \<Rightarrow> bool) \<Rightarrow> 'a list \<Rightarrow> nat \<Rightarrow> nat \<Rightarrow> nat" where
  "scan_down P s i 0 = 0"
| "scan_down P s i (Suc j) = (if i < Suc j \<and> P (s ! j) then scan_down P s i j else Suc j)"

declare scan_up.simps [simp del]

lemma scan_up_ge: "i \<le> scan_up P s i n"
proof (induction P s i n rule: scan_up.induct)
  case (1 P s i n)
  then show ?case
    by (subst scan_up.simps) (auto dest: Suc_leD)
qed

lemma scan_up_le: "i \<le> n \<Longrightarrow> scan_up P s i n \<le> n"
proof (induction P s i n rule: scan_up.induct)
  case (1 P s i n)
  then show ?case by (subst scan_up.simps) auto
qed

lemma scan_up_takeWhile:
  "n \<le> length s \<Longrightarrow> i \<le> n \<Longrightarrow>
     scan_up P s i n = i + length (takeWhile P (take (n - i) (drop i s)))"
proof (induction P s i n rule: scan_up.induct)
  case (1 P s i n)
  show ?case
  proof (cases "i < n")
    case True
    then have "take (n - i) (drop i s) = s ! i # take (n - Suc i) (drop (Suc i) s)"
      using 1 by (metis Suc_diff_Suc Cons_nth_drop_Suc less_le_trans take_Suc_Cons)
    with True 1 show ?thesis
      by (subst scan_up.simps) simp
  next
    case False
    then show ?thesis by (subst scan_up.simps) simp
  qed
qed

corollary scan_up_length:
  assumes "i \<le> length s"
  shows "scan_up P s i (length s) = i + length (takeWhile P (drop i s))"
  using scan_up_takeWhile [OF le_refl assms] by simp

lemma scan_down_le: "scan_down P s i j \<le> j"
  by (induction j) auto

lemma scan_down_ge: "i \<le> j \<Longrightarrow> i \<le> scan_down P s i j"
  by (induction j) (auto simp: le_Suc_eq)

lemma scan_down_takeWhile:
  "j \<le> length s \<Longrightarrow> i \<le> j \<Longrightarrow>
     scan_down P s i j = j - length (takeWhile P (rev (take (j - i) (drop i s))))"
proof (induction j)
  case 0
  then show ?case by simp
next
  case (Suc j)
  show ?case
  proof (cases "i < Suc j")
    case True
    then have "take (Suc j - i) (drop i s) = take (j - i) (drop i s) @ [s ! j]"
      using Suc.prems by (simp add: Suc_diff_le take_Suc_conv_app_nth)
    with True Suc show ?thesis by simp
  next
    case False
    with Suc.prems have "i = Suc j" by simp
    then show ?thesis by simp
  qed
qed

lemma drop_length_takeWhile: "drop (length (takeWhile P xs)) xs = dropWhile P xs"
  by (simp add: dropWhile_eq_drop)

lemma take_length_takeWhile: "take (length (takeWhile P xs)) xs = takeWhile P xs"
  by (metis takeWhile_eq_take)

lemma length_dropWhile_Suc [termination_simp]: "length (dropWhile P xs) < Suc (length xs)"
  using length_dropWhile_le [of P xs] by simp

end
