(* ===== verification/Str.thy ===== *)
theory Str
  imports Py_Prelude
begin

section \<open>\<open>Lib/string.py\<close>: string operations\<close>

text \<open>
  The string functions as \<open>Lib/string.py\<close> writes them (the fallback definitions that the
  module replaces by \<open>strop\<close> only where that extension exists).  A loop over an index is a
  recursion on that index; \<open>for c in s: res = res + f(c)\<close> is a \<open>foldl\<close>.  Functions
  that raise return a \<open>res\<close>.  \<open>atof\<close>, which needs \<open>regex\<close> and floats, is
  not modelled.
\<close>

subsection \<open>Character classes and tables\<close>

definition whitespace :: string where
  "whitespace = [CHR '' '', TAB, NL, CR, CHR 0x0B, CHR 0x0C]"

definition lowercase :: string where
  "lowercase = ''abcdefghijklmnopqrstuvwxyz''"

definition uppercase :: string where
  "uppercase = ''ABCDEFGHIJKLMNOPQRSTUVWXYZ''"

definition letters :: string where
  "letters = lowercase @ uppercase"

definition digits :: string where
  "digits = ''0123456789''"

definition hexdigits :: string where
  "hexdigits = digits @ ''abcdef'' @ ''ABCDEF''"

definition octdigits :: string where
  "octdigits = ''01234567''"

definition idmap :: string where
  "idmap = map chr [0..<256]"

definition lower_tab :: string where
  "lower_tab = take (ord CHR ''A'') idmap @ lowercase @ drop (ord CHR ''Z'' + 1) idmap"

definition upper_tab :: string where
  "upper_tab = take (ord CHR ''a'') idmap @ uppercase @ drop (ord CHR ''z'' + 1) idmap"

definition swapcase_tab :: string where
  "swapcase_tab =
     take (ord CHR ''A'') upper_tab @ lowercase @ drop (ord CHR ''Z'' + 1) upper_tab"

abbreviation is_ws :: "char \<Rightarrow> bool" where
  "is_ws c \<equiv> c \<in> set whitespace"

definition lower :: "string \<Rightarrow> string" where
  "lower s = foldl (\<lambda>res c. res @ [lower_tab ! ord c]) [] s"

definition upper :: "string \<Rightarrow> string" where
  "upper s = foldl (\<lambda>res c. res @ [upper_tab ! ord c]) [] s"

definition swapcase :: "string \<Rightarrow> string" where
  "swapcase s = foldl (\<lambda>res c. res @ [swapcase_tab ! ord c]) [] s"

subsection \<open>Stripping\<close>

definition strip :: "string \<Rightarrow> string" where
  "strip s =
     (let i = scan_up is_ws s 0 (length s);
          j = scan_down is_ws s i (length s)
      in take (j - i) (drop i s))"

definition lstrip :: "string \<Rightarrow> string" where
  "lstrip s = (let j = length s; i = scan_up is_ws s 0 j in take (j - i) (drop i s))"

definition rstrip :: "string \<Rightarrow> string" where
  "rstrip s = (let i = 0; j = scan_down is_ws s i (length s) in take (j - i) (drop i s))"

subsection \<open>Splitting and joining\<close>

lemma scan_up_stops: "scan_up P s i n < n \<Longrightarrow> \<not> P (s ! scan_up P s i n)"
proof (induction P s i n rule: scan_up.induct)
  case (1 P s i n)
  then show ?case
    by (cases "i < n \<and> P (s ! i)") (auto simp: scan_up.simps [of P s i n])
qed

lemma scan_up_progress: "i < n \<Longrightarrow> P (s ! i) \<Longrightarrow> i < scan_up P s i n"
  using scan_up_ge [of "Suc i" P s n] by (simp add: scan_up.simps [of P s i n])

text \<open>\<open>split(s)\<close>, splitting at runs of white space.\<close>

function split_loop :: "string \<Rightarrow> nat \<Rightarrow> string list \<Rightarrow> string list" where
  "split_loop s i res =
     (let n = length s in
      if i < n then
        let i' = scan_up is_ws s i n in
        if i' = n then res
        else let j = scan_up (\<lambda>c. \<not> is_ws c) s i' n
             in split_loop s j (res @ [take (j - i') (drop i' s)])
      else res)"
  by pat_completeness auto
termination
proof (relation "measure (\<lambda>(s, i, res). length s - i)", simp, clarsimp)
  fix s :: string and i :: nat
  let ?n = "length s" and ?i = "scan_up is_ws s i (length s)"
  assume "i < ?n" and ne: "?i \<noteq> ?n"
  then have "?i < ?n" using scan_up_le [of i ?n is_ws s] by simp
  moreover from this have "\<not> is_ws (s ! ?i)" by (rule scan_up_stops)
  ultimately have "?i < scan_up (\<lambda>c. \<not> is_ws c) s ?i ?n"
    by (intro scan_up_progress) auto
  with scan_up_ge [of i is_ws s ?n] \<open>i < ?n\<close>
  show "?n - scan_up (\<lambda>c. \<not> is_ws c) s ?i ?n < ?n - i" by linarith
qed

declare split_loop.simps [simp del]

text \<open>
  \<open>splitfields(s, sep, maxsplit)\<close> for a given separator.  The loop repeats the caller's
  check that the separator is not empty, which makes each step advance.
\<close>

function splitfields_loop ::
  "string \<Rightarrow> string \<Rightarrow> int \<Rightarrow> nat \<Rightarrow> nat \<Rightarrow> int \<Rightarrow> string list \<Rightarrow> string list"
where
  "splitfields_loop s sep maxsplit i j cnt res =
     (if sep \<noteq> [] \<and> j + length sep \<le> length s then
        if take (length sep) (drop j s) = sep then
          let cnt' = cnt + 1; res' = res @ [take (j - i) (drop i s)]; j' = j + length sep
          in if maxsplit \<noteq> 0 \<and> cnt' \<ge> maxsplit then res' @ [drop j' s]
             else splitfields_loop s sep maxsplit j' j' cnt' res'
        else splitfields_loop s sep maxsplit i (j + 1) cnt res
      else res @ [drop i s])"
  by pat_completeness auto
termination
  by (relation "measure (\<lambda>(s, sep, m, i, j, cnt, res). length s + 1 - j)")
    (auto intro: diff_less_mono2 simp: less_Suc_eq_le)

declare splitfields_loop.simps [simp del]

definition splitfields :: "string \<Rightarrow> string \<Rightarrow> int \<Rightarrow> string list" where
  "splitfields s sep maxsplit =
     (if length sep = 0 then [s] else splitfields_loop s sep maxsplit 0 0 0 [])"

definition split_s :: "string \<Rightarrow> string option \<Rightarrow> int \<Rightarrow> string list" where
  "split_s s sep maxsplit =
     (case sep of Some p \<Rightarrow> splitfields s p maxsplit | None \<Rightarrow> split_loop s 0 [])"

definition joinfields :: "string list \<Rightarrow> string \<Rightarrow> string" where
  "joinfields ws sep = drop (length sep) (foldl (\<lambda>res w. res @ (sep @ w)) [] ws)"

definition join_s :: "string list \<Rightarrow> string \<Rightarrow> string" where
  "join_s ws sep = joinfields ws sep"

subsection \<open>Searching\<close>

definition start_index :: "string \<Rightarrow> int \<Rightarrow> int" where
  \<comment> \<open>\<open>if i < 0: i = max(0, i + len(s))\<close>\<close>
  "start_index s i = (if i < 0 then max 0 (i + int (length s)) else i)"

function find_loop :: "string \<Rightarrow> string \<Rightarrow> nat \<Rightarrow> int" where
  "find_loop s sub i =
     (if i + length sub < length s + 1 then
        if sub = take (length sub) (drop i s) then int i else find_loop s sub (i + 1)
      else - 1)"
  by pat_completeness auto
termination
  by (relation "measure (\<lambda>(s, sub, i). length s + 1 - i)") auto

definition find_s :: "string \<Rightarrow> string \<Rightarrow> int \<Rightarrow> int" where
  "find_s s sub i = find_loop s sub (nat (start_index s i))"

function rfind_loop :: "string \<Rightarrow> string \<Rightarrow> nat \<Rightarrow> int \<Rightarrow> int" where
  "rfind_loop s sub i r =
     (if i + length sub < length s + 1 then
        rfind_loop s sub (i + 1) (if sub = take (length sub) (drop i s) then int i else r)
      else r)"
  by pat_completeness auto
termination
  by (relation "measure (\<lambda>(s, sub, i, r). length s + 1 - i)") auto

definition rfind :: "string \<Rightarrow> string \<Rightarrow> int \<Rightarrow> int" where
  "rfind s sub i = rfind_loop s sub (nat (start_index s i)) (- 1)"

definition index_s :: "string \<Rightarrow> string \<Rightarrow> int \<Rightarrow> int res" where
  "index_s s sub i =
     (let res = find_s s sub i
      in if res < 0 then Inl (ValueError ''substring not found in string.index'') else Inr res)"

definition rindex :: "string \<Rightarrow> string \<Rightarrow> int \<Rightarrow> int res" where
  "rindex s sub i =
     (let res = rfind s sub i
      in if res < 0 then Inl (ValueError ''substring not found in string.index'') else Inr res)"

function count_loop :: "string \<Rightarrow> string \<Rightarrow> nat \<Rightarrow> int \<Rightarrow> int" where
  "count_loop s sub i r =
     (if sub \<noteq> [] \<and> i + length sub < length s + 1 then
        if sub = take (length sub) (drop i s) then count_loop s sub (i + length sub) (r + 1)
        else count_loop s sub (i + 1) r
      else r)"
  by pat_completeness auto
termination
  by (relation "measure (\<lambda>(s, sub, i, r). length s + 1 - i)")
    (auto intro: diff_less_mono2 simp: less_Suc_eq_le)

definition count_s :: "string \<Rightarrow> string \<Rightarrow> int \<Rightarrow> int" where
  "count_s s sub i =
     (let i = start_index s i; n = int (length sub); m = int (length s) + 1 - n
      in if n = 0 then m - i else count_loop s sub (nat i) 0)"

declare find_loop.simps [simp del] rfind_loop.simps [simp del] count_loop.simps [simp del]

subsection \<open>Numbers and padding\<close>

text \<open>\<open>while s[0] == '0' and len(s) > 1: s = s[1:]\<close>\<close>

fun strip_zeros :: "string \<Rightarrow> string" where
  "strip_zeros (c # d # s) = (if c = CHR ''0'' then strip_zeros (d # s) else c # d # s)"
| "strip_zeros s = s"

text \<open>The value of a decimal literal, which is what \<open>eval\<close> returns for a string of digits.\<close>

definition dec_val :: "string \<Rightarrow> int" where
  "dec_val s = foldl (\<lambda>n c. 10 * n + (int (ord c) - int (ord CHR ''0''))) 0 s"

definition atoi :: "string \<Rightarrow> int \<Rightarrow> int res" where
  "atoi str base =
     (if base \<noteq> 10 then Inl (ValueError ''this string.atoi doesn't support base != 10'')
      else
        let (sign, s) = (case str of c # t \<Rightarrow> if c \<in> set ''+-'' then ([c], t) else ([], str)
                                   | [] \<Rightarrow> ([], str))
        in if s = [] then Inl (ValueError ''non-integer argument to string.atoi'')
           else let s = strip_zeros s
                in if list_all (\<lambda>c. c \<in> set digits) s
                   then Inr (if sign = ''-'' then - dec_val s else dec_val s)
                   else Inl (ValueError ''non-integer argument to string.atoi''))"

definition atol :: "string \<Rightarrow> int \<Rightarrow> int res" where
  "atol str base =
     (if base \<noteq> 10 then Inl (ValueError ''this string.atol doesn't support base != 10'')
      else
        let (sign, s) = (case str of c # t \<Rightarrow> if c \<in> set ''+-'' then ([c], t) else ([], str)
                                   | [] \<Rightarrow> ([], str))
        in if s = [] then Inl (ValueError ''non-integer argument to string.atol'')
           else let s = strip_zeros s
                in if list_all (\<lambda>c. c \<in> set digits) s
                   then Inr (if sign = ''-'' then - dec_val s else dec_val s)
                   else Inl (ValueError ''non-integer argument to string.atol''))"

text \<open>\<open>c*n\<close> for a character and a count that may be negative.\<close>

definition rep :: "char \<Rightarrow> int \<Rightarrow> string" where
  "rep c n = replicate (nat n) c"

definition ljust :: "string \<Rightarrow> int \<Rightarrow> string" where
  "ljust s width =
     (let n = width - int (length s) in if n \<le> 0 then s else s @ rep CHR '' '' n)"

definition rjust :: "string \<Rightarrow> int \<Rightarrow> string" where
  "rjust s width =
     (let n = width - int (length s) in if n \<le> 0 then s else rep CHR '' '' n @ s)"

definition center :: "string \<Rightarrow> int \<Rightarrow> string" where
  "center s width =
     (let n = width - int (length s) in
      if n \<le> 0 then s
      else let half = n div 2;
               half = (if n mod 2 \<noteq> 0 \<and> width mod 2 \<noteq> 0 then half + 1 else half)
           in rep CHR '' '' half @ s @ rep CHR '' '' (n - half))"

text \<open>\<open>zfill\<close> for a string argument; \<open>s[0]\<close> of an empty string raises.\<close>

definition zfill :: "string \<Rightarrow> int \<Rightarrow> string res" where
  "zfill x width =
     (let s = x; n = int (length s) in
      if n \<ge> width then Inr s
      else case s of
             [] \<Rightarrow> Inl IndexError
           | c # t \<Rightarrow>
               let (sign, s) = (if c \<in> set ''-+'' then ([c], t) else ([], s))
               in Inr (sign @ rep CHR ''0'' (width - n) @ s))"

fun expandtabs_loop :: "int \<Rightarrow> string \<Rightarrow> string \<Rightarrow> string \<Rightarrow> string res" where
  "expandtabs_loop tabsize [] res line = Inr (res @ line)"
| "expandtabs_loop tabsize (c # s) res line =
     (if c = TAB then
        if tabsize = 0 then Inl ZeroDivisionError
        else expandtabs_loop tabsize s res
               (line @ rep CHR '' '' (tabsize - int (length line) mod tabsize))
      else
        let line = line @ [c]
        in if c = NL then expandtabs_loop tabsize s (res @ line) []
           else expandtabs_loop tabsize s res line)"

definition expandtabs :: "string \<Rightarrow> int \<Rightarrow> string res" where
  "expandtabs s tabsize = expandtabs_loop tabsize s [] []"

subsection \<open>Translation tables and capitals\<close>

definition translate :: "string \<Rightarrow> string \<Rightarrow> string \<Rightarrow> string res" where
  "translate s table deletions =
     (if length table \<noteq> 256 then Inl TypeError
      else Inr (foldl (\<lambda>res c. if c \<notin> set deletions then res @ [table ! ord c] else res) [] s))"

definition capitalize :: "string \<Rightarrow> string" where
  "capitalize s = upper (take 1 s) @ lower (drop 1 s)"

definition capwords :: "string \<Rightarrow> string option \<Rightarrow> string" where
  "capwords s sep =
     join_s (map capitalize (split_s s sep 0))
       (case sep of None \<Rightarrow> '' '' | Some p \<Rightarrow> if p = [] then '' '' else p)"

definition maketrans :: "string \<Rightarrow> string \<Rightarrow> string res" where
  "maketrans fromstr tostr =
     (if length fromstr \<noteq> length tostr
      then Inl (ValueError ''maketrans arguments must have same length'')
      else let L = foldl (\<lambda>L i. L[ord (fromstr ! i) := tostr ! i]) idmap [0..<length fromstr]
           in Inr (joinfields (map (\<lambda>c. [c]) L) []))"


subsection \<open>Facts: tables and case\<close>

lemma foldl_snoc: "foldl (\<lambda>res c. res @ [f c]) acc s = acc @ map f s"
  by (induction s arbitrary: acc) simp_all

lemma foldl_snoc_if:
  "foldl (\<lambda>res c. if P c then res @ [f c] else res) acc s = acc @ map f (filter P s)"
  by (induction s arbitrary: acc) simp_all

definition lower_c :: "char \<Rightarrow> char" where
  "lower_c c = (if 65 \<le> ord c \<and> ord c \<le> 90 then chr (ord c + 32) else c)"

definition upper_c :: "char \<Rightarrow> char" where
  "upper_c c = (if 97 \<le> ord c \<and> ord c \<le> 122 then chr (ord c - 32) else c)"

definition swap_c :: "char \<Rightarrow> char" where
  "swap_c c = (if 65 \<le> ord c \<and> ord c \<le> 90 then chr (ord c + 32) else upper_c c)"

lemma case_lengths [simp]: "length lowercase = 26" "length uppercase = 26"
  by (simp_all add: lowercase_def uppercase_def)

lemma case_ords: "map ord lowercase = [97..<123]" "map ord uppercase = [65..<91]"
  by (simp_all add: lowercase_def uppercase_def)

lemma nth_of_ords:
  assumes "map ord s = [a..<b]" and "k < length s"
  shows "s ! k = chr (a + k)"
proof -
  have "length s = b - a" using assms(1) by (metis length_map length_upt)
  with assms have "ord (s ! k) = a + k" by (metis less_diff_conv add.commute nth_map nth_upt)
  then show ?thesis by (metis char_of_char)
qed

lemmas lowercase_nth = nth_of_ords [OF case_ords(1)]
  and uppercase_nth = nth_of_ords [OF case_ords(2)]

lemma idmap_nth [simp]: "n < 256 \<Longrightarrow> idmap ! n = chr n"
  by (simp add: idmap_def)

lemma length_idmap [simp]: "length idmap = 256"
  by (simp add: idmap_def)

lemma lower_tab_nth:
  "n < 256 \<Longrightarrow> lower_tab ! n = (if 65 \<le> n \<and> n \<le> 90 then chr (n + 32) else chr n)"
  by (auto simp: lower_tab_def lowercase_nth nth_append)

lemma upper_tab_nth:
  "n < 256 \<Longrightarrow> upper_tab ! n = (if 97 \<le> n \<and> n \<le> 122 then chr (n - 32) else chr n)"
  by (auto simp: upper_tab_def uppercase_nth nth_append)

lemma length_upper_tab [simp]: "length upper_tab = 256"
  by (simp add: upper_tab_def)

lemma swapcase_tab_nth:
  "n < 256 \<Longrightarrow>
     swapcase_tab ! n = (if 65 \<le> n \<and> n \<le> 90 then chr (n + 32) else upper_tab ! n)"
  by (auto simp: swapcase_tab_def lowercase_nth nth_append)

lemma table_chars:
  "lower_tab ! ord c = lower_c c"
  "upper_tab ! ord c = upper_c c"
  "swapcase_tab ! ord c = swap_c c"
  by (simp_all add: lower_tab_nth upper_tab_nth swapcase_tab_nth lower_c_def upper_c_def
      swap_c_def)

lemma lower_map [code]: "lower s = map lower_c s"
  by (simp add: lower_def foldl_snoc table_chars)

lemma upper_map [code]: "upper s = map upper_c s"
  by (simp add: upper_def foldl_snoc table_chars)

lemma swapcase_map [code]: "swapcase s = map swap_c s"
  by (simp add: swapcase_def foldl_snoc table_chars)

lemma lower_c_idem [simp]: "lower_c (lower_c c) = lower_c c"
  by (simp add: lower_c_def)

lemma swap_c_swap_c [simp]: "swap_c (swap_c c) = c"
  by (auto simp: swap_c_def upper_c_def)

lemma lower_lower [simp]: "lower (lower s) = lower s"
  by (simp add: lower_map)

lemma length_lower [simp]: "length (lower s) = length s"
  by (simp add: lower_map)

lemma lower_append: "lower (s @ t) = lower s @ lower t"
  by (simp add: lower_map)

lemma swapcase_swapcase: "swapcase (swapcase s) = s"
  by (simp add: swapcase_map comp_def)

subsection \<open>Facts: stripping\<close>

lemma lstrip_dropWhile: "lstrip s = dropWhile is_ws s"
proof -
  have "scan_up is_ws s 0 (length s) = length (takeWhile is_ws s)"
    using scan_up_length [of 0 s is_ws] by simp
  then show ?thesis
    by (simp add: lstrip_def Let_def drop_length_takeWhile flip: length_drop)
qed

lemma take_rev_dropWhile: "take (length s - length (takeWhile P (rev s))) s = rev (dropWhile P (rev s))"
  by (metis drop_length_takeWhile length_rev rev_drop rev_rev_ident)

lemma rstrip_dropWhile: "rstrip s = rev (dropWhile is_ws (rev s))"
  using scan_down_takeWhile [of "length s" s 0 is_ws]
  by (simp add: rstrip_def take_rev_dropWhile)

lemma strip_lstrip_rstrip: "strip s = rstrip (lstrip s)"
proof -
  let ?i = "scan_up is_ws s 0 (length s)"
  have le: "?i \<le> length s" by (rule scan_up_le) simp
  have i: "lstrip s = drop ?i s" by (simp add: lstrip_def Let_def)
  have "scan_down is_ws s ?i (length s) - ?i =
      length (drop ?i s) - length (takeWhile is_ws (rev (drop ?i s)))"
    using scan_down_takeWhile [of "length s" s ?i is_ws] le by simp
  then have "strip s =
      take (length (drop ?i s) - length (takeWhile is_ws (rev (drop ?i s)))) (drop ?i s)"
    by (simp only: strip_def Let_def)
  then show ?thesis
    by (simp only: take_rev_dropWhile rstrip_dropWhile i)
qed

lemma dropWhile_hd: "dropWhile P xs = y # ys \<Longrightarrow> \<not> P y"
  by (metis dropWhile_eq_Cons_conv)

lemma strip_ends:
  assumes "strip s = t" and "t \<noteq> []"
  shows "\<not> is_ws (hd t)" and "\<not> is_ws (last t)"
proof -
  have t: "t = rev (dropWhile is_ws (rev (dropWhile is_ws s)))"
    using assms by (simp add: strip_lstrip_rstrip lstrip_dropWhile rstrip_dropWhile)
  then show "\<not> is_ws (last t)"
    using assms(2) hd_dropWhile [of is_ws "rev (dropWhile is_ws s)"]
    by (metis Nil_is_rev_conv hd_rev last_rev rev_rev_ident)
  obtain u where u: "dropWhile is_ws s = t @ u"
    using t by (metis rev_append rev_rev_ident takeWhile_dropWhile_id)
  then have "hd t = hd (dropWhile is_ws s)" and "dropWhile is_ws s \<noteq> []"
    using assms(2) by auto
  then show "\<not> is_ws (hd t)" using hd_dropWhile by metis
qed

lemma strip_fixpoint:
  assumes "s \<noteq> [] \<Longrightarrow> \<not> is_ws (hd s) \<and> \<not> is_ws (last s)"
  shows "strip s = s"
proof (cases "s = []")
  case True
  then show ?thesis by (simp add: strip_def)
next
  case False
  with assms have "dropWhile is_ws s = s" and "dropWhile is_ws (rev s) = rev s"
    by (simp_all add: dropWhile_eq_self_iff hd_rev)
  then show ?thesis by (simp add: strip_lstrip_rstrip lstrip_dropWhile rstrip_dropWhile)
qed

lemma strip_idem: "strip (strip s) = strip s"
  using strip_ends [OF refl, of s] by (intro strip_fixpoint) blast

subsection \<open>Facts: white-space splitting\<close>

text \<open>The words of a string, as a recursion on the string.\<close>

fun words :: "string \<Rightarrow> string list" where
  "words [] = []"
| "words (c # s) =
     (if is_ws c then words s
      else (c # takeWhile (\<lambda>d. \<not> is_ws d) s) # words (dropWhile (\<lambda>d. \<not> is_ws d) s))"

lemma words_dropWhile: "words (dropWhile is_ws s) = words s"
  by (induction s) auto

lemma split_loop_words: "i \<le> length s \<Longrightarrow> split_loop s i res = res @ words (drop i s)"
proof (induction s i res rule: split_loop.induct)
  case (1 s i res)
  let ?n = "length s" and ?i = "scan_up is_ws s i (length s)"
  let ?j = "scan_up (\<lambda>c. \<not> is_ws c) s ?i ?n"
  have i: "?i = i + length (takeWhile is_ws (drop i s))" and ilen: "?i \<le> ?n"
    using 1 by (auto intro: scan_up_length scan_up_le)
  then have di: "drop ?i s = dropWhile is_ws (drop i s)"
    by (metis add.commute drop_drop drop_length_takeWhile)
  have j: "?j = ?i + length (takeWhile (\<lambda>c. \<not> is_ws c) (drop ?i s))" and jlen: "?j \<le> ?n"
    using ilen by (auto intro: scan_up_length scan_up_le)
  then have dj: "drop ?j s = dropWhile (\<lambda>c. \<not> is_ws c) (drop ?i s)"
    and tj: "take (?j - ?i) (drop ?i s) = takeWhile (\<lambda>c. \<not> is_ws c) (drop ?i s)"
    by (metis add.commute drop_drop drop_length_takeWhile,
        metis add_diff_cancel_left' take_length_takeWhile)
  show ?case
  proof (cases "?i = ?n")
    case True
    then have "words (drop i s) = []" using di words_dropWhile [of "drop i s"] by simp
    with True show ?thesis by (simp add: split_loop.simps [of s i res] Let_def)
  next
    case False
    with ilen obtain c t where ct: "drop ?i s = c # t"
      by (metis Cons_nth_drop_Suc le_neq_implies_less)
    then have "\<not> is_ws c" using di by (metis dropWhile_eq_Cons_conv)
    then have "words (drop i s) = (c # takeWhile (\<lambda>c. \<not> is_ws c) t) #
        words (dropWhile (\<lambda>c. \<not> is_ws c) t)"
      using di ct words_dropWhile [of "drop i s"] words.simps(2) [of c t] by metis
    then have w: "words (drop i s) = take (?j - ?i) (drop ?i s) # words (drop ?j s)"
      using \<open>\<not> is_ws c\<close> by (simp only: tj dj) (simp add: ct)
    have "i < ?n" using False ilen scan_up_ge [of i is_ws s ?n] by linarith
    then show ?thesis
      using "1.IH" [OF refl _ refl False refl] jlen False w
      by (simp add: split_loop.simps [of s i res] Let_def)
  qed
qed

lemma split_words: "split_s s None m = words s"
  by (simp add: split_s_def split_loop_words)

lemma words_nonempty: "w \<in> set (words s) \<Longrightarrow> w \<noteq> [] \<and> (\<forall>c \<in> set w. \<not> is_ws c)"
proof (induction s rule: words.induct)
  case (2 c s)
  show ?case
  proof (cases "is_ws c")
    case True
    with 2 show ?thesis by simp
  next
    case False
    with "2.prems" consider "w = c # takeWhile (\<lambda>d. \<not> is_ws d) s"
      | "w \<in> set (words (dropWhile (\<lambda>d. \<not> is_ws d) s))"
      by auto
    then show ?thesis
    proof cases
      case 1
      with False show ?thesis by (metis list.distinct(1) set_ConsD set_takeWhileD)
    next
      case 2
      with False "2.IH"(2) show ?thesis by blast
    qed
  qed
qed simp

lemma concat_words: "concat (words s) = filter (\<lambda>c. \<not> is_ws c) s"
proof (induction s rule: words.induct)
  case (2 c s)
  let ?P = "\<lambda>d. \<not> is_ws d"
  have "filter ?P s = takeWhile ?P s @ filter ?P (dropWhile ?P s)"
    by (induction s) auto
  with 2 show ?case by (cases "is_ws c") simp_all
qed simp

lemma words_word: 
  assumes "w \<noteq> []" and "\<forall>c \<in> set w. \<not> is_ws c"
  shows "words (w @ CHR '' '' # s) = w # words s" and "words w = [w]"
proof -
  have ws: "is_ws CHR '' ''" by (simp add: whitespace_def)
  obtain c v where w: "w = c # v" using assms(1) by (cases w) auto
  then have "\<forall>d \<in> set v. \<not> is_ws d" and "\<not> is_ws c" using assms(2) by auto
  then show "words (w @ CHR '' '' # s) = w # words s" and "words w = [w]"
    using ws by (simp_all add: w takeWhile_append2 dropWhile_append2 takeWhile_eq_all_conv
        dropWhile_eq_Nil_conv [THEN iffD2])
qed

subsection \<open>Facts: joining\<close>

lemma joinfields_Nil [simp]: "joinfields [] sep = []"
  by (simp add: joinfields_def)

lemma foldl_join: "foldl (\<lambda>res w. res @ (sep @ w)) acc ws = acc @ concat (map ((@) sep) ws)"
  by (induction ws arbitrary: acc) simp_all

lemma joinfields_Cons [simp]:
  "joinfields (w # ws) sep = w @ concat (map ((@) sep) ws)"
  by (simp add: joinfields_def foldl_join)

lemma joinfields_snoc:
  "joinfields (ws @ [w]) sep = (if ws = [] then w else joinfields ws sep @ sep @ w)"
  by (cases ws) simp_all

lemma joinfields_snoc2:
  "joinfields (ws @ [u, v]) sep = joinfields (ws @ [u @ sep @ v]) sep"
  by (cases ws) simp_all

lemma joinfields_empty_sep: "joinfields ws [] = concat ws"
  by (cases ws) (simp_all add: map_idI)

lemma words_join_words:
  assumes "\<forall>w \<in> set ws. w \<noteq> [] \<and> (\<forall>c \<in> set w. \<not> is_ws c)"
  shows "words (joinfields ws '' '') = ws"
  using assms
proof (induction ws)
  case (Cons w ws)
  show ?case
  proof (cases ws)
    case Nil
    with Cons.prems show ?thesis by (simp add: words_word)
  next
    case (Cons v vs)
    then have "joinfields (w # ws) '' '' = w @ CHR '' '' # joinfields ws '' ''" by simp
    with Cons.IH Cons.prems show ?thesis by (simp only:) (simp add: words_word)
  qed
qed simp

subsection \<open>Facts: splitting at a separator\<close>

text \<open>\<open>occurs sub s k\<close>: the string \<open>sub\<close> stands in \<open>s\<close> at position \<open>k\<close>.\<close>

definition occurs :: "string \<Rightarrow> string \<Rightarrow> nat \<Rightarrow> bool" where
  "occurs sub s k \<longleftrightarrow> k + length sub \<le> length s \<and> take (length sub) (drop k s) = sub"

lemma occurs_iff_append: "occurs sub s k \<longleftrightarrow> (\<exists>u v. s = u @ sub @ v \<and> length u = k)"
proof
  assume a: "occurs sub s k"
  then have "drop k s = sub @ drop (length sub) (drop k s)"
    unfolding occurs_def by (metis append_take_drop_id)
  then have "s = take k s @ sub @ drop (length sub) (drop k s)" and "length (take k s) = k"
    using a by (metis append_take_drop_id) (use a in \<open>simp add: occurs_def\<close>)
  then show "\<exists>u v. s = u @ sub @ v \<and> length u = k" by blast
qed (auto simp: occurs_def)

lemma splitfields_loop_join:
  assumes "i \<le> j" and "j \<le> length s"
  shows "joinfields (splitfields_loop s sep m i j c res) sep = joinfields (res @ [drop i s]) sep"
  using assms
proof (induction s sep m i j c res rule: splitfields_loop.induct)
  case (1 s sep m i j c res)
  show ?case
  proof (cases "sep \<noteq> [] \<and> j + length sep \<le> length s")
    case outer: True
    show ?thesis
    proof (cases "take (length sep) (drop j s) = sep")
      case True
      have "drop i s = take (j - i) (drop i s) @ drop j s"
        using 1 by (metis append_take_drop_id drop_drop le_add_diff_inverse2)
      also have "drop j s = sep @ drop (j + length sep) s"
        using True by (metis add.commute append_take_drop_id drop_drop)
      finally have d: "take (j - i) (drop i s) @ sep @ drop (j + length sep) s = drop i s"
        by simp
      with 1 outer True show ?thesis
        by (auto simp: splitfields_loop.simps [of s sep m i j] Let_def joinfields_snoc2 d)
    next
      case False
      moreover have "Suc j \<le> length s" using outer by (cases sep) auto
      ultimately show ?thesis
        using 1 outer by (simp add: splitfields_loop.simps [of s sep m i j])
    qed
  next
    case False
    then show ?thesis by (subst splitfields_loop.simps) auto
  qed
qed

lemma joinfields_splitfields: "joinfields (splitfields s sep m) sep = s"
  by (simp add: splitfields_def splitfields_loop_join)

lemma splitfields_loop_no_sep:
  assumes "i \<le> j" and "\<And>k. i \<le> k \<Longrightarrow> k < j \<Longrightarrow> \<not> occurs sep s k" and "sep \<noteq> []"
    and "\<forall>w \<in> set res. \<forall>k. \<not> occurs sep w k" and "m = 0"
  shows "\<forall>w \<in> set (splitfields_loop s sep m i j c res). \<forall>k. \<not> occurs sep w k"
  using assms
proof (induction s sep m i j c res rule: splitfields_loop.induct)
  case (1 s sep m i j c res)
  have field: "\<not> occurs sep (take (j - i) (drop i s)) k" for k
  proof
    assume a: "occurs sep (take (j - i) (drop i s)) k"
    then obtain u v where "take (j - i) (drop i s) = u @ sep @ v" and k: "length u = k"
      by (auto simp: occurs_iff_append)
    then have "s = (take i s @ u) @ sep @ v @ drop (j - i) (drop i s)"
      and b: "k + length sep \<le> j - i"
      by (metis append_assoc append_take_drop_id)
        (metis \<open>occurs sep (take (j - i) (drop i s)) k\<close> occurs_def length_take min.boundedE)
    moreover have "i \<le> length s"
      using "1.prems"(3) \<open>take (j - i) (drop i s) = u @ sep @ v\<close>
      by (cases "i \<le> length s") simp_all
    ultimately have "occurs sep s (i + k)"
      unfolding occurs_iff_append using k
      by (metis length_append length_take min.absorb2)
    moreover have "i + k < j" using b "1.prems"(3) by (cases sep) simp_all
    ultimately show False using "1.prems"(2) [of "i + k"] by simp
  qed
  show ?case
  proof (cases "j + length sep \<le> length s")
    case outer: True
    show ?thesis
    proof (cases "take (length sep) (drop j s) = sep")
      case True
      let ?res = "res @ [take (j - i) (drop i s)]" and ?j = "j + length sep"
      have "\<forall>w \<in> set (splitfields_loop s sep m ?j ?j (c + 1) ?res). \<forall>k. \<not> occurs sep w k"
        using "1.prems"(3-5) outer True field by (intro "1.IH"(1)) auto
      then show ?thesis
        using outer True "1.prems"(3,5)
        by (simp add: splitfields_loop.simps [of s sep 0 i j] Let_def)
    next
      case False
      then have "\<not> occurs sep s j" by (simp add: occurs_def)
      then have "\<not> occurs sep s k" if "i \<le> k" and "k < j + 1" for k
        using "1.prems"(2) [of k] that by (cases "k = j") auto
      then have "\<forall>w \<in> set (splitfields_loop s sep m i (j + 1) c res). \<forall>k. \<not> occurs sep w k"
        using "1.prems"(1,3-5) outer False by (intro "1.IH"(2)) auto
      then show ?thesis
        using outer False "1.prems"(3)
        by (simp add: splitfields_loop.simps [of s sep m i j])
    qed
  next
    case False
    have "\<not> occurs sep (drop i s) k" for k
    proof
      assume "occurs sep (drop i s) k"
      then have "k + length sep \<le> length s - i" and "occurs sep s (i + k)" and "i \<le> length s"
        using "1.prems"(3) by (cases "i \<le> length s"; force simp: occurs_def ac_simps)+
      moreover from this have "i + k < j" using False by (simp add: occurs_def)
      ultimately show False using "1.prems"(2) [of "i + k"] by simp
    qed
    with False "1.prems"(4) show ?thesis
      by (simp add: splitfields_loop.simps [of s sep m i j])
  qed
qed

lemma splitfields_no_sep:
  "sep \<noteq> [] \<Longrightarrow> w \<in> set (splitfields s sep 0) \<Longrightarrow> \<not> occurs sep w k"
  using splitfields_loop_no_sep [of 0 0 sep s "[]" 0 0] by (auto simp: splitfields_def)

text \<open>For a one-character separator, splitting is the recursion on the string.\<close>

fun split_on :: "char \<Rightarrow> string \<Rightarrow> string list" where
  "split_on c [] = [[]]"
| "split_on c (x # s) =
     (if x = c then [] # split_on c s
      else case split_on c s of w # ws \<Rightarrow> (x # w) # ws | [] \<Rightarrow> [[x]])"

lemma split_on_not_Nil [simp]: "split_on c s \<noteq> []"
  by (cases s) (auto split: list.splits)

lemma split_on_fields:
  assumes "\<forall>w \<in> set ws. c \<notin> set w" and "ws \<noteq> []"
  shows "split_on c (joinfields ws [c]) = ws"
  using assms
proof (induction ws)
  case (Cons w ws)
  have base: "c \<notin> set w \<Longrightarrow> split_on c w = [w]" for w by (induction w) auto
  have step: "c \<notin> set w \<Longrightarrow> split_on c (w @ c # s) = w # split_on c s" for w s
    by (induction w) auto
  show ?case
  proof (cases ws)
    case Nil
    with Cons.prems base show ?thesis by simp
  next
    case (Cons v vs)
    then have "joinfields (w # ws) [c] = w @ c # joinfields ws [c]" by simp
    with Cons.IH Cons.prems step Cons show ?thesis by simp
  qed
qed simp

lemma occurs_single: "(\<exists>k. occurs [c] w k) \<longleftrightarrow> c \<in> set w"
  by (auto simp: occurs_iff_append in_set_conv_decomp) 

lemma splitfields_not_Nil [simp]: "splitfields s sep m \<noteq> []"
proof -
  have "splitfields_loop s sep m i j c res \<noteq> []" for i j c res
    by (induction s sep m i j c res rule: splitfields_loop.induct)
      (subst splitfields_loop.simps, auto simp: Let_def)
  then show ?thesis by (simp add: splitfields_def)
qed

lemma splitfields_split_on: "splitfields s [c] 0 = split_on c s"
proof -
  have "\<forall>w \<in> set (splitfields s [c] 0). c \<notin> set w"
    using splitfields_no_sep [of "[c]" _ s] occurs_single by blast
  then have "split_on c (joinfields (splitfields s [c] 0) [c]) = splitfields s [c] 0"
    by (rule split_on_fields) simp
  then show ?thesis by (simp add: joinfields_splitfields)
qed

lemma joinfields_split_on [simp]: "joinfields (split_on c s) [c] = s"
  by (metis joinfields_splitfields splitfields_split_on)

lemma split_on_no_sep: "w \<in> set (split_on c s) \<Longrightarrow> c \<notin> set w"
  using splitfields_no_sep [of "[c]" w s] occurs_single [of c w]
  by (auto simp: splitfields_split_on)

subsection \<open>Facts: searching\<close>

lemma occurs_Suc_len: "occurs sub s k \<longleftrightarrow> k + length sub < length s + 1 \<and> sub = take (length sub) (drop k s)"
  by (auto simp: occurs_def)

lemma find_loop_spec:
  "(find_loop s sub i = - 1 \<and> (\<forall>k \<ge> i. \<not> occurs sub s k)) \<or>
   (\<exists>r \<ge> i. find_loop s sub i = int r \<and> occurs sub s r \<and> (\<forall>k. i \<le> k \<longrightarrow> k < r \<longrightarrow> \<not> occurs sub s k))"
proof (induction s sub i rule: find_loop.induct)
  case (1 s sub i)
  show ?case
  proof (cases "occurs sub s i")
    case True
    then have "find_loop s sub i = int i"
      by (simp add: find_loop.simps [of s sub i] occurs_Suc_len)
    with True show ?thesis by auto
  next
    case False
    show ?thesis
    proof (cases "i + length sub < length s + 1")
      case True
      then have eq: "find_loop s sub i = find_loop s sub (i + 1)"
        using False by (simp add: find_loop.simps [of s sub i] occurs_Suc_len)
      have "i = k \<or> i + 1 \<le> k" if "i \<le> k" for k using that by auto
      then show ?thesis
        using "1.IH" [OF True] False True unfolding eq occurs_Suc_len by (metis add_leD1)
    next
      case out: False
      then have "find_loop s sub i = - 1" by (simp add: find_loop.simps [of s sub i])
      moreover have "\<not> occurs sub s k" if "i \<le> k" for k
        using out that by (auto simp: occurs_def)
      ultimately show ?thesis by blast
    qed
  qed
qed

lemma find_loop_cases:
  obtains (none) "find_loop s sub i = - 1" "\<And>k. i \<le> k \<Longrightarrow> \<not> occurs sub s k"
  | (found) r where "find_loop s sub i = int r" "i \<le> r" "occurs sub s r"
      "\<And>k. i \<le> k \<Longrightarrow> k < r \<Longrightarrow> \<not> occurs sub s k"
  using find_loop_spec [of s sub i] by blast

lemma find_s_cases:
  obtains (none) "find_s s sub i = - 1" "\<And>k. nat (start_index s i) \<le> k \<Longrightarrow> \<not> occurs sub s k"
  | (found) r where "find_s s sub i = int r" "nat (start_index s i) \<le> r" "occurs sub s r"
      "\<And>k. nat (start_index s i) \<le> k \<Longrightarrow> k < r \<Longrightarrow> \<not> occurs sub s k"
  using find_loop_spec [of s sub "nat (start_index s i)"] unfolding find_s_def by blast

lemma start_index_0 [simp]: "start_index s 0 = 0"
  by (simp add: start_index_def)

lemma start_index_nat [simp]: "start_index s (int i) = int i"
  by (simp add: start_index_def)

lemma find_s_ge: "- 1 \<le> find_s s sub i"
  by (cases rule: find_s_cases [of s sub i]) simp_all

text \<open>Searching one character from the start: the string splits at its first occurrence.\<close>

lemma find_char:
  "find_s s [c] 0 = (if c \<in> set s then int (length (takeWhile (\<lambda>d. d \<noteq> c) s)) else - 1)"
proof (cases rule: find_s_cases [of s "[c]" 0])
  case none
  then have "c \<notin> set s" using occurs_single [of c s] by auto
  with none show ?thesis by simp
next
  case (found r)
  then obtain u v where s: "s = u @ c # v" and r: "length u = r"
    by (auto simp: occurs_iff_append)
  have "c \<notin> set u"
  proof
    assume "c \<in> set u"
    then obtain a b where u: "u = a @ c # b" by (auto simp: in_set_conv_decomp)
    then have "occurs [c] s (length a)" by (auto simp: occurs_iff_append s)
    with found(4) [of "length a"] u r show False by simp
  qed
  then have "takeWhile (\<lambda>d. d \<noteq> c) s = u"
    by (simp add: s takeWhile_append)
  with found s r show ?thesis by simp
qed

lemma rfind_loop_spec:
  "(rfind_loop s sub i r = r \<and> (\<forall>k \<ge> i. \<not> occurs sub s k)) \<or>
   (\<exists>m \<ge> i. rfind_loop s sub i r = int m \<and> occurs sub s m \<and> (\<forall>k > m. \<not> occurs sub s k))"
proof (induction s sub i r rule: rfind_loop.induct)
  case (1 s sub i r)
  show ?case
  proof (cases "i + length sub < length s + 1")
    case True
    let ?r = "if sub = take (length sub) (drop i s) then int i else r"
    have eq: "rfind_loop s sub i r = rfind_loop s sub (i + 1) ?r"
      using True by (simp add: rfind_loop.simps [of s sub i])
    have oc: "occurs sub s i \<longleftrightarrow> sub = take (length sub) (drop i s)"
      using True by (simp add: occurs_Suc_len)
    from "1.IH" [OF True] consider
        "rfind_loop s sub (i + 1) ?r = ?r" "\<forall>k \<ge> i + 1. \<not> occurs sub s k"
      | m where "m \<ge> i + 1" "rfind_loop s sub (i + 1) ?r = int m" "occurs sub s m"
          "\<forall>k > m. \<not> occurs sub s k"
      by blast
    then show ?thesis
    proof cases
      case 1
      then have up: "\<not> occurs sub s k" if "i < k" for k using that by simp
      then have "\<not> occurs sub s k" if "\<not> occurs sub s i" and "i \<le> k" for k
        using that by (cases "k = i") simp_all
      with 1 up show ?thesis
        unfolding eq oc [symmetric] by (cases "occurs sub s i") auto
    next
      case 2
      then show ?thesis unfolding eq by (intro disjI2 exI [of _ m]) auto
    qed
  next
    case False
    then show ?thesis
      by (subst (1) rfind_loop.simps) (auto simp: occurs_def)
  qed
qed

lemma rfind_cases:
  obtains (none) "rfind s sub i = - 1" "\<And>k. nat (start_index s i) \<le> k \<Longrightarrow> \<not> occurs sub s k"
  | (found) m where "rfind s sub i = int m" "nat (start_index s i) \<le> m" "occurs sub s m"
      "\<And>k. m < k \<Longrightarrow> \<not> occurs sub s k"
  using rfind_loop_spec [of s sub "nat (start_index s i)" "- 1"] unfolding rfind_def by blast

lemma rfind_char:
  "rfind s [c] 0 =
     (if c \<in> set s then int (length s) - 1 - int (length (takeWhile (\<lambda>d. d \<noteq> c) (rev s))) else - 1)"
proof (cases rule: rfind_cases [of s "[c]" 0])
  case none
  then have "c \<notin> set s" using occurs_single [of c s] by auto
  with none show ?thesis by simp
next
  case (found m)
  then obtain u v where s: "s = u @ c # v" and m: "length u = m"
    by (auto simp: occurs_iff_append)
  have "c \<notin> set v"
  proof
    assume "c \<in> set v"
    then obtain a b where v: "v = a @ c # b" by (auto simp: in_set_conv_decomp)
    then have "occurs [c] s (length (u @ c # a))"
      unfolding occurs_iff_append s by (intro exI [of _ "u @ c # a"] exI [of _ b]) simp
    with found(4) [of "length (u @ c # a)"] m show False by simp
  qed
  then have "takeWhile (\<lambda>d. d \<noteq> c) (rev s) = rev v"
    by (simp add: s takeWhile_append)
  with found s m show ?thesis by simp
qed

lemma count_loop_fields:
  assumes "sub \<noteq> []"
  shows "count_loop s sub j r + int (length res) + 1 =
     r + int (length (splitfields_loop s sub 0 i j c res))"
  using assms
proof (induction s sub j r arbitrary: i c res rule: count_loop.induct)
  case (1 s sub j r)
  show ?case
  proof (cases "j + length sub < length s + 1")
    case outer: True
    show ?thesis
    proof (cases "sub = take (length sub) (drop j s)")
      case True
      then show ?thesis
        using outer "1.prems" "1.IH"(1) [where i = "j + length sub" and c = "c + 1"
            and res = "res @ [take (j - i) (drop i s)]"]
        by (simp add: count_loop.simps [of s sub j] splitfields_loop.simps [of s sub 0 i j] Let_def)
    next
      case False
      then show ?thesis
        using outer "1.prems" "1.IH"(2) [where i = i and c = c and res = res]
        by (auto simp: count_loop.simps [of s sub j] splitfields_loop.simps [of s sub 0 i j])
    qed
  next
    case False
    then show ?thesis
      by (simp add: count_loop.simps [of s sub j] splitfields_loop.simps [of s sub 0 i j])
  qed
qed

lemma count_splitfields:
  "sub \<noteq> [] \<Longrightarrow> count_s s sub 0 = int (length (splitfields s sub 0)) - 1"
  using count_loop_fields [of sub s 0 0 "[]" 0 0]
  by (simp add: count_s_def splitfields_def)

subsection \<open>Facts: numbers\<close>

text \<open>The decimal numeral of a number, as the built-in conversion of an integer writes it.\<close>

fun nat_repr :: "nat \<Rightarrow> string" where
  "nat_repr n = (if n < 10 then [chr (48 + n)] else nat_repr (n div 10) @ [chr (48 + n mod 10)])"

definition int_repr :: "int \<Rightarrow> string" where
  "int_repr i = (if i < 0 then CHR ''-'' # nat_repr (nat (- i)) else nat_repr (nat i))"

declare nat_repr.simps [simp del]

lemma digits_ords: "map ord digits = [48..<58]"
  by (simp add: digits_def)

lemma digits_iff: "c \<in> set digits \<longleftrightarrow> 48 \<le> ord c \<and> ord c < 58"
proof -
  have "c \<in> set digits \<longleftrightarrow> ord c \<in> set (map ord digits)" by auto
  then show ?thesis by (simp only: digits_ords set_upt atLeastLessThan_iff)
qed

lemma chr_digit [simp]: "n < 10 \<Longrightarrow> chr (48 + n) \<in> set digits"
  by (simp add: digits_iff)

lemma dec_val_snoc: "dec_val (s @ [c]) = 10 * dec_val s + (int (ord c) - 48)"
  by (simp add: dec_val_def)

lemma nat_repr_digits: "c \<in> set (nat_repr n) \<Longrightarrow> c \<in> set digits"
proof (induction n rule: nat_repr.induct)
  case (1 n)
  then show ?case
    by (cases "n < 10") (auto simp: nat_repr.simps [of n])
qed

lemma nat_repr_not_Nil [simp]: "nat_repr n \<noteq> []"
  by (simp add: nat_repr.simps [of n])

lemma dec_val_nat_repr: "dec_val (nat_repr n) = int n"
proof (induction n rule: nat_repr.induct)
  case (1 n)
  show ?case
  proof (cases "n < 10")
    case True
    then show ?thesis by (simp add: nat_repr.simps [of n] dec_val_def)
  next
    case False
    moreover have "10 * int (n div 10) + int (n mod 10) = int n"
      by (metis mult_div_mod_eq of_nat_add of_nat_mult of_nat_numeral)
    ultimately show ?thesis using 1 by (simp add: nat_repr.simps [of n] dec_val_snoc)
  qed
qed

lemma dec_val_zero: "dec_val (CHR ''0'' # s) = dec_val s"
  by (simp add: dec_val_def)

lemma dec_val_strip_zeros: "dec_val (strip_zeros s) = dec_val s"
  by (induction s rule: strip_zeros.induct) (auto simp: dec_val_zero)

lemma strip_zeros_all: "list_all P s \<Longrightarrow> list_all P (strip_zeros s)"
  by (induction s rule: strip_zeros.induct) auto

lemma digit_not_sign: "c \<in> set digits \<Longrightarrow> c \<notin> set ''+-''"
  by (auto simp: digits_def)

lemma atoi_digits:
  assumes "s \<noteq> []" and "\<forall>c \<in> set s. c \<in> set digits"
  shows "atoi s 10 = Inr (dec_val s)" and "atoi (CHR ''-'' # s) 10 = Inr (- dec_val s)"
proof -
  have "hd s \<notin> set ''+-''" using assms by (intro digit_not_sign) simp
  moreover have "list_all (\<lambda>c. c \<in> set digits) (strip_zeros s)"
    using assms(2) by (intro strip_zeros_all) (simp add: list_all_iff)
  ultimately show "atoi s 10 = Inr (dec_val s)" and "atoi (CHR ''-'' # s) 10 = Inr (- dec_val s)"
    using assms(1) by (auto simp: atoi_def Let_def dec_val_strip_zeros split: list.splits)
qed

lemma atoi_int_repr: "atoi (int_repr i) 10 = Inr i"
  using atoi_digits [OF nat_repr_not_Nil, of "nat (- i)"] atoi_digits [OF nat_repr_not_Nil, of "nat i"]
  by (auto simp: int_repr_def dec_val_nat_repr nat_repr_digits)

lemma atol_atoi: "map_sum (\<lambda>_. ()) id (atol s b) = map_sum (\<lambda>_. ()) id (atoi s b)"
  by (auto simp: atoi_def atol_def Let_def split: list.splits)

subsection \<open>Facts: padding\<close>

lemma length_rep [simp]: "length (rep c n) = nat n"
  by (simp add: rep_def)

lemma length_justify:
  "int (length (ljust s w)) = max w (int (length s))"
  "int (length (rjust s w)) = max w (int (length s))"
  "int (length (center s w)) = max w (int (length s))"
  by (auto simp: ljust_def rjust_def center_def Let_def)

text \<open>The number of blanks \<open>center\<close> puts on the left is a difference of rounded halves.\<close>

lemma center_left:
  assumes "int (length s) < w"
  defines "l \<equiv> (w + 1) div 2 - (int (length s) + 1) div 2"
  shows "center s w = rep CHR '' '' l @ s @ rep CHR '' '' (w - int (length s) - l)"
proof -
  let ?n = "w - int (length s)"
  have "(if ?n mod 2 \<noteq> 0 \<and> w mod 2 \<noteq> 0 then ?n div 2 + 1 else ?n div 2) = l"
    unfolding l_def by presburger
  then show ?thesis
    using assms(1) unfolding center_def Let_def by simp
qed

lemma rep_append: "0 \<le> a \<Longrightarrow> 0 \<le> b \<Longrightarrow> rep c a @ rep c b = rep c (a + b)"
  by (simp add: rep_def nat_add_distrib replicate_add)

lemma center_center:
  assumes "i \<le> j"
  shows "center (center s i) j = center s j"
proof (cases "int (length s) < i \<and> i < j")
  case True
  let ?L = "int (length s)"
  let ?a = "(i + 1) div 2 - (?L + 1) div 2" and ?b = "(j + 1) div 2 - (i + 1) div 2"
  have len: "int (length (center s i)) = i" using True by (simp add: length_justify)
  have pos: "0 \<le> ?a" "0 \<le> ?b" "0 \<le> i - ?L - ?a" "0 \<le> j - i - ?b"
    using True by presburger+
  have "center (center s i) j =
      (rep CHR '' '' ?b @ rep CHR '' '' ?a) @ s @ rep CHR '' '' (i - ?L - ?a) @ rep CHR '' '' (j - i - ?b)"
    using True len center_left [of "center s i" j] center_left [of s i] by simp
  also have "\<dots> = rep CHR '' '' (?b + ?a) @ s @ rep CHR '' '' ((i - ?L - ?a) + (j - i - ?b))"
    by (simp only: rep_append [OF pos(2,1)] rep_append [OF pos(3,4)])
  also have "\<dots> = center s j"
    using True center_left [of s j] by (simp add: algebra_simps)
  finally show ?thesis .
next
  case False
  have "center (center s i) j = center s j" if "i = j"
    using length_justify(3) [of s j] that by (auto simp: center_def [of "center s j"] Let_def)
  moreover have "center s i = s" if "i \<le> int (length s)"
    using that by (simp add: center_def)
  ultimately show ?thesis using False assms by force
qed

lemma zfill_length:
  "zfill s w = Inr t \<Longrightarrow> int (length t) = max w (int (length s))"
  by (auto simp: zfill_def Let_def split: if_splits list.splits)

lemma expandtabs_loop_no_tab:
  "expandtabs_loop n s res line = Inr t \<Longrightarrow> TAB \<notin> set res \<Longrightarrow> TAB \<notin> set line \<Longrightarrow> TAB \<notin> set t"
  by (induction n s res line rule: expandtabs_loop.induct)
    (auto simp: Let_def rep_def split: if_splits)

subsection \<open>Facts: translation\<close>

lemma maketrans_table:
  assumes "length f = length t"
  shows "maketrans f t = Inr (map (\<lambda>c. case map_of (rev (zip f t)) c of Some d \<Rightarrow> d | None \<Rightarrow> c) idmap)"
proof -
  have step: "foldl (\<lambda>L i. L[ord (f ! i) := t ! i]) idmap [0..<n] =
      map (\<lambda>c. case map_of (rev (zip (take n f) (take n t))) c of Some d \<Rightarrow> d | None \<Rightarrow> c) idmap"
    if "n \<le> length f" for n
    using that
  proof (induction n)
    case (Suc n)
    then have "zip (take (Suc n) f) (take (Suc n) t) = zip (take n f) (take n t) @ [(f ! n, t ! n)]"
      using assms by (simp add: take_Suc_conv_app_nth)
    moreover have "ord c = i \<longleftrightarrow> chr i = c" if "i < 256" for c i
      using that by (metis char_of_char ord_chr)
    ultimately show ?case
      using Suc by (intro nth_equalityI) (simp_all add: nth_list_update idmap_def)
  qed (simp add: map_idI)
  have "concat (map (\<lambda>c. [c]) L) = L" for L :: string by (induction L) auto
  then show ?thesis
    using step [of "length f"] assms by (simp add: maketrans_def joinfields_empty_sep)
qed

lemma translate_map:
  "length tab = 256 \<Longrightarrow>
     translate s tab del = Inr (map (\<lambda>c. tab ! ord c) (filter (\<lambda>c. c \<notin> set del) s))"
  using foldl_snoc_if [of "\<lambda>c. c \<notin> set del" "\<lambda>c. tab ! ord c" "[]" s]
  by (simp add: translate_def)

end
