(* ===== verification/Calendar.thy ===== *)
theory Calendar
  imports Str
begin

section \<open>\<open>Lib/calendar.py\<close>\<close>

text \<open>
  The day of the week comes from the C library through \<open>time.mktime\<close> and \<open>time.localtime\<close>,
  which are the parameter \<open>time_fns\<close>; \<open>'t\<close> is the type of its seconds.  The printing functions
  act on a state that holds what has been written to the standard output, the \<open>softspace\<close> flag of
  the print statement and the module's cache of months.
\<close>

subsection \<open>Constants\<close>

definition mdays :: "int list" where
  "mdays = [0, 31, 28, 31, 30, 31, 30, 31, 31, 30, 31, 30, 31]"

definition day_name :: "string list" where
  "day_name = [''Monday'', ''Tuesday'', ''Wednesday'', ''Thursday'', ''Friday'', ''Saturday'', ''Sunday'']"

definition day_abbr :: "string list" where
  "day_abbr = [''Mon'', ''Tue'', ''Wed'', ''Thu'', ''Fri'', ''Sat'', ''Sun'']"

definition month_name :: "string list" where
  "month_name = [[], ''January'', ''February'', ''March'', ''April'', ''May'', ''June'', ''July'', ''August'',
     ''September'', ''October'', ''November'', ''December'']"

definition month_abbr :: "string list" where
  "month_abbr = [''   '', ''Jan'', ''Feb'', ''Mar'', ''Apr'', ''May'', ''Jun'', ''Jul'', ''Aug'', ''Sep'', ''Oct'',
     ''Nov'', ''Dec'']"

subsection \<open>Days and months\<close>

definition isleap :: "int \<Rightarrow> bool" where
  "isleap year \<longleftrightarrow> year mod 4 = 0 \<and> (year mod 100 \<noteq> 0 \<or> year mod 400 = 0)"

definition leapdays :: "int \<Rightarrow> int \<Rightarrow> int" where
  "leapdays y1 y2 = (y2 + 3) div 4 - (y1 + 3) div 4"

record 't time_fns =
  tm_mktime :: "int \<times> int \<times> int \<Rightarrow> 't res"
  tm_wday :: "'t \<Rightarrow> int res"

definition weekday :: "'t time_fns \<Rightarrow> int \<Rightarrow> int \<Rightarrow> int \<Rightarrow> int res" where
  "weekday tm year month day = bindR (tm_mktime tm (year, month, day)) (tm_wday tm)"

definition monthrange :: "'t time_fns \<Rightarrow> int \<Rightarrow> int \<Rightarrow> (int \<times> int) res" where
  "monthrange tm year month =
     (if \<not> (1 \<le> month \<and> month \<le> 12) then Inl (ValueError ''bad month number'')
      else bindR (weekday tm year month 1) (\<lambda>day1.
        let ndays = mdays ! nat month + (if month = 2 \<and> isleap year then 1 else 0)
        in Inr (day1, ndays)))"

definition month_row :: "int \<Rightarrow> int \<Rightarrow> int list \<times> int" where
  "month_row ndays day =
     foldl (\<lambda>(row, day) i. (if 1 \<le> day \<and> day \<le> ndays then row[i := day] else row, day + 1))
       (replicate 7 0, day) [0..<7]"

lemma month_row_eq:
  "month_row ndays day = (map (\<lambda>i. if 1 \<le> day + int i \<and> day + int i \<le> ndays then day + int i else 0) [0..<7], day + 7)"
proof -
  have "k \<le> 7 \<Longrightarrow> foldl (\<lambda>(row, day) i. (if 1 \<le> day \<and> day \<le> ndays then row[i := day] else row, day + 1))
      (replicate 7 0, day) [0..<k] =
    (map (\<lambda>i. if i < k \<and> 1 \<le> day + int i \<and> day + int i \<le> ndays then day + int i else 0) [0..<7], day + int k)" for k
  proof (induction k)
    case (Suc k)
    then show ?case by (auto intro!: nth_equalityI simp: nth_list_update less_Suc_eq)
  qed (simp add: map_replicate_const)
  from this [of 7] show ?thesis by (simp add: month_row_def)
qed

function month_loop :: "int \<Rightarrow> int list list \<Rightarrow> int \<Rightarrow> int list list" where
  "month_loop ndays rows day =
     (if day \<le> ndays then
        let (row, day') = month_row ndays day in month_loop ndays (rows @ [row]) day'
      else rows)"
  by pat_completeness auto
termination
  by (relation "measure (\<lambda>(ndays, rows, day). nat (ndays + 1 - day))") (auto simp: month_row_eq)

declare month_loop.simps [simp del]

definition make_monthcalendar :: "'t time_fns \<Rightarrow> int \<Rightarrow> int \<Rightarrow> int list list res" where
  "make_monthcalendar tm year month =
     bindR (monthrange tm year month) (\<lambda>(day1, ndays). Inr (month_loop ndays [] (1 - day1)))"

subsection \<open>The cache and the output\<close>

record cal_state =
  mc_cache :: "int \<times> int \<Rightarrow> int list list option"
  cal_out :: string
  cal_soft :: bool

definition monthcalendar :: "'t time_fns \<Rightarrow> int \<Rightarrow> int \<Rightarrow> (cal_state, int list list) act" where
  "monthcalendar tm year month s =
     (case mc_cache s (year, month) of
        Some ret \<Rightarrow> (Inr ret, s)
      | None \<Rightarrow>
          bindA (liftA (make_monthcalendar tm year month)) (\<lambda>ret.
            thenA (updA (mc_cache_update (\<lambda>m. m((year, month) \<mapsto> ret)))) (retA ret)) s)"

text \<open>
  \<open>print s,\<close> and the newline of a print statement: an item is preceded by a blank when the flag is
  set, and leaves it set unless it ends in white space other than a blank.
\<close>

definition print_item :: "string \<Rightarrow> (cal_state, unit) act" where
  "print_item str = updA (\<lambda>s. s\<lparr>cal_out := cal_out s @ (if cal_soft s then '' '' else []) @ str,
     cal_soft := \<not> (str \<noteq> [] \<and> is_ws (last str) \<and> last str \<noteq> CHR '' '')\<rparr>)"

definition print_newline :: "(cal_state, unit) act" where
  "print_newline = updA (\<lambda>s. s\<lparr>cal_out := cal_out s @ [NL], cal_soft := False\<rparr>)"

definition cal_center :: "string \<Rightarrow> int \<Rightarrow> string" where
  "cal_center str width =
     (let n = width - int (length str)
      in if n \<le> 0 then str
         else replicate (nat ((n + 1) div 2)) CHR '' '' @ str @ replicate (nat (n div 2)) CHR '' '')"

definition prweek :: "int list \<Rightarrow> int \<Rightarrow> (cal_state, unit) act" where
  "prweek week width =
     forA (\<lambda>day. let s = (if day = 0 then [] else int_repr day) in print_item (cal_center s width)) week"

definition weekheader :: "int \<Rightarrow> string" where
  "weekheader width =
     (let names = (if width \<ge> 9 then day_name else day_abbr)
      in foldl (\<lambda>str i. (if str \<noteq> [] then str @ '' '' else str) @ cal_center (pupto width (names ! (i mod 7))) width)
           [] [0..<7])"

definition prmonth :: "'t time_fns \<Rightarrow> int \<Rightarrow> int \<Rightarrow> int \<Rightarrow> int \<Rightarrow> (cal_state, unit) act" where
  "prmonth tm year month w l =
     (let w = max 2 w; l = max 1 l; newlines = print_item (replicate (nat l) NL)
      in bindA (liftA (pindex month_name month)) (\<lambda>name.
         thenA (print_item (cal_center (name @ '' '' @ int_repr year) (7 * (w + 1) - 1)))
         (thenA newlines
         (thenA (print_item (weekheader w))
         (thenA newlines
         (bindA (monthcalendar tm year month) (forA (\<lambda>week. thenA (prweek week w) newlines))))))))"

definition colwidth :: int where
  "colwidth = 7 * 3 - 1"

definition cal_spacing :: string where
  "cal_spacing = replicate 4 CHR '' ''"

definition format3c :: "string \<Rightarrow> string \<Rightarrow> string \<Rightarrow> (cal_state, unit) act" where
  "format3c a b c =
     thenA (print_item (cal_center a colwidth))
     (thenA (print_item cal_spacing)
     (thenA (print_item (cal_center b colwidth))
     (thenA (print_item cal_spacing)
     (thenA (print_item (cal_center c colwidth)) print_newline))))"

primrec gather_months ::
  "'t time_fns \<Rightarrow> int \<Rightarrow> int list \<Rightarrow> int list list list \<Rightarrow> nat \<Rightarrow> (cal_state, int list list list \<times> nat) act" where
  "gather_months tm year [] data height = retA (data, height)"
| "gather_months tm year (month # months) data height =
     bindA (monthcalendar tm year month) (\<lambda>cal.
       gather_months tm year months (data @ [cal]) (if length cal > height then length cal else height))"

definition quarter_row :: "int list list list \<Rightarrow> nat \<Rightarrow> (cal_state, unit) act" where
  "quarter_row data i =
     thenA (forA (\<lambda>cal.
         thenA (if i \<ge> length cal then print_item (replicate (nat colwidth) CHR '' '') else prweek (cal ! i) 2)
           (print_item cal_spacing)) data)
       print_newline"

definition prcal :: "'t time_fns \<Rightarrow> int \<Rightarrow> (cal_state, unit) act" where
  "prcal tm year =
     (let header = weekheader 2
      in thenA (format3c [] (int_repr year) [])
         (forA (\<lambda>q.
            thenA print_newline
            (thenA (format3c (month_name ! nat q) (month_name ! nat (q + 1)) (month_name ! nat (q + 2)))
            (thenA (format3c header header header)
            (bindA (gather_months tm year [q, q + 1, q + 2] [] 0) (\<lambda>(data, height).
               forA (quarter_row data) [0..<height])))))
          [1, 4, 7, 10]))"

subsection \<open>Leap years\<close>

text \<open>The shortcut of \<open>leapdays\<close> counts the leap years of a range without odd centuries.\<close>

lemma leapdays_step: "leapdays y1 (y + 1) = leapdays y1 y + (if y mod 4 = 0 then 1 else 0)"
  unfolding leapdays_def by presburger

lemma leapdays_count:
  assumes "y1 \<le> y2" "list_all (\<lambda>y. y mod 100 \<noteq> 0 \<or> y mod 400 = 0) [y1..y2 - 1]"
  shows "leapdays y1 y2 = int (card {y \<in> {y1..<y2}. isleap y})"
  using assms
proof (induction y2 rule: int_ge_induct)
  case base
  then show ?case by (simp add: leapdays_def)
next
  case (step y)
  have "[y1..y] = [y1..y - 1] @ [y]" using step(1) by (simp add: upto_rec2)
  with step.prems have IH: "leapdays y1 y = int (card {z \<in> {y1..<y}. isleap z})"
    and y: "y mod 100 \<noteq> 0 \<or> y mod 400 = 0" using step.IH by simp_all
  have e: "{z \<in> {y1..<y + 1}. isleap z} = (if isleap y then insert y {z \<in> {y1..<y}. isleap z} else {z \<in> {y1..<y}. isleap z})"
    using step(1) by (auto simp: less_le)
  have fin: "finite {z \<in> {y1..<y}. isleap z}" by (rule finite_subset [of _ "{y1..<y}"]) auto
  have "card {z \<in> {y1..<y + 1}. isleap z} = card {z \<in> {y1..<y}. isleap z} + (if isleap y then 1 else 0)"
    unfolding e using card_insert_disjoint [OF fin, of y] by simp
  moreover have "isleap y \<longleftrightarrow> y mod 4 = 0" using y by (auto simp: isleap_def)
  ultimately show ?case by (simp add: leapdays_step IH)
qed

subsection \<open>The matrix of a month\<close>

definition month_cell :: "int \<Rightarrow> int \<Rightarrow> int" where
  "month_cell ndays d = (if 1 \<le> d \<and> d \<le> ndays then d else 0)"

lemma month_loop_rows:
  "day + 7 * int k > ndays \<Longrightarrow> (k = 0 \<or> day + 7 * int (k - 1) \<le> ndays) \<Longrightarrow>
    month_loop ndays rows day = rows @ map (\<lambda>r. map (\<lambda>i. month_cell ndays (day + 7 * int r + int i)) [0..<7]) [0..<k]"
proof (induction k arbitrary: rows day)
  case 0
  then show ?case by (subst month_loop.simps) simp
next
  case (Suc k)
  from Suc.prems have le: "day \<le> ndays" by simp
  have IH: "month_loop ndays (rows @ [r]) (day + 7) =
      (rows @ [r]) @ map (\<lambda>r. map (\<lambda>i. month_cell ndays (day + 7 + 7 * int r + int i)) [0..<7]) [0..<k]" for r
    by (rule Suc.IH) (use Suc.prems in \<open>auto simp: algebra_simps of_nat_diff\<close>)
  have "[0..<Suc k] = 0 # map Suc [0..<k]" by (simp add: upt_conv_Cons map_Suc_upt)
  then have "map (\<lambda>r. map (\<lambda>i. month_cell ndays (day + 7 * int r + int i)) [0..<7]) [0..<Suc k] =
      map (\<lambda>i. month_cell ndays (day + int i)) [0..<7] #
      map (\<lambda>r. map (\<lambda>i. month_cell ndays (day + 7 + 7 * int r + int i)) [0..<7]) [0..<k]"
    by (simp add: algebra_simps del: upt_Suc)
  with le IH show ?case
    by (subst month_loop.simps) (simp add: month_row_eq month_cell_def [abs_def] del: upt_Suc)
qed

lemma make_monthcalendar_cells:
  assumes w: "weekday tm year month 1 = Inr w" "0 \<le> w" "w < 7" and m: "1 \<le> month" "month \<le> 12"
  defines "n \<equiv> mdays ! nat month + (if month = 2 \<and> isleap year then 1 else 0)"
  shows "\<exists>rows. make_monthcalendar tm year month = Inr rows \<and> int (length rows) = (w + n + 6) div 7 \<and>
    list_all (\<lambda>r. length r = 7) rows \<and>
    (\<forall>i < length rows. \<forall>j < 7. rows ! i ! j = month_cell n (7 * int i + int j - w + 1))"
proof -
  let ?k = "nat ((w + n + 6) div 7)"
  have "nat month \<in> {1..12}" using m by auto
  then have "nat month \<in> set [1..<13]" by simp
  then have "28 \<le> mdays ! nat month" by (auto simp: mdays_def upt_rec)
  then have n: "28 \<le> n" by (rule order_trans) (simp add: n_def)
  let ?rows = "map (\<lambda>r. map (\<lambda>i. month_cell n (1 - w + 7 * int r + int i)) [0..<7]) [0..<?k]"
  have "month_loop n [] (1 - w) = [] @ ?rows"
    using n w(2,3) by (intro month_loop_rows) (simp_all add: of_nat_diff, presburger+)
  then have "make_monthcalendar tm year month = Inr ?rows"
    using w(1) m by (simp add: make_monthcalendar_def monthrange_def n_def)
  moreover have "int (length ?rows) = (w + n + 6) div 7"
    using n w(2) by simp
  ultimately show ?thesis
    by (intro exI conjI) (auto simp: list_all_iff algebra_simps)
qed

text \<open>
  If the days of a month follow one another in the week, each column holds the days of one weekday.
\<close>

lemma monthcalendar_columns:
  assumes w: "\<And>d. 1 \<le> d \<Longrightarrow> d \<le> 31 \<Longrightarrow> weekday tm year month d = Inr ((w + d - 1) mod 7)" "0 \<le> w" "w < 7"
    and m: "1 \<le> month" "month \<le> 12" and rows: "make_monthcalendar tm year month = Inr rows"
    and ij: "i < length rows" "j < 7" and d: "rows ! i ! j \<noteq> 0"
  shows "weekday tm year month (rows ! i ! j) = Inr (int j)"
proof -
  let ?n = "mdays ! nat month + (if month = 2 \<and> isleap year then 1 else 0)"
  have "weekday tm year month 1 = Inr w" using w(1) [of 1] w(2,3) by simp
  from make_monthcalendar_cells [OF this w(2,3) m] rows ij d
  have e: "rows ! i ! j = 7 * int i + int j - w + 1" and "1 \<le> rows ! i ! j" "rows ! i ! j \<le> ?n"
    by (auto simp: month_cell_def split: if_splits)
  have "nat month \<in> set [1..<13]" using m by auto
  then have "?n \<le> 31" by (auto simp: mdays_def upt_rec)
  with w(1) [of "rows ! i ! j"] \<open>1 \<le> rows ! i ! j\<close> \<open>rows ! i ! j \<le> ?n\<close>
  have "weekday tm year month (rows ! i ! j) = Inr ((w + rows ! i ! j - 1) mod 7)" by simp
  also have "(w + rows ! i ! j - 1) mod 7 = int j" using ij(2) unfolding e by simp
  finally show ?thesis .
qed

subsection \<open>The cache\<close>

definition mc_ok :: "'t time_fns \<Rightarrow> cal_state \<Rightarrow> bool" where
  "mc_ok tm s \<longleftrightarrow> (\<forall>y m rows. mc_cache s (y, m) = Some rows \<longrightarrow> make_monthcalendar tm y m = Inr rows)"

lemma monthcalendar_cached:
  assumes "mc_ok tm s"
  shows "fst (monthcalendar tm y m s) = make_monthcalendar tm y m \<and> mc_ok tm (snd (monthcalendar tm y m s))"
  using assms
  by (cases "mc_cache s (y, m)"; cases "make_monthcalendar tm y m")
    (auto simp: monthcalendar_def mc_ok_def thenA_def bindA_def)

subsection \<open>Widths\<close>

lemma length_cal_center: "int (length (cal_center s w)) = max w (int (length s))"
  by (simp add: cal_center_def Let_def) presburger

lemma weekheader_length:
  assumes "1 \<le> w"
  shows "int (length (weekheader w)) = 7 * w + 6"
proof -
  have c: "int (length (cal_center (pupto w ns) w)) = w" if "length ns \<le> 9 \<or> w < 9" for ns :: string
    using assms that by (simp add: length_cal_center pupto_nonneg)
  have "nm \<in> set day_name \<or> nm \<in> set day_abbr \<Longrightarrow> length nm \<le> 9" for nm :: string
    by (auto simp: day_name_def day_abbr_def)
  have l: "length (cal_center (pupto w (ns ! i)) w) = nat w" if "ns = day_name \<or> ns = day_abbr" "i < 7" for ns i
  proof -
    have "length (ns ! i) \<le> 9"
      using that by (auto simp: day_name_def day_abbr_def less_Suc_eq numeral_eq_Suc)
    with c [of "ns ! i"] show ?thesis by linarith
  qed
  have "0 < k \<Longrightarrow> k \<le> 7 \<Longrightarrow> ns = day_name \<or> ns = day_abbr \<Longrightarrow>
    length (foldl (\<lambda>str i. (if str \<noteq> [] then str @ '' '' else str) @ cal_center (pupto w (ns ! (i mod 7))) w) [] [0..<k])
      + 1 = k * (nat w + 1)" for k ns
  proof (induction k)
    case (Suc k)
    show ?case
    proof (cases "k = 0")
      case True
      with l [of ns 0] Suc.prems show ?thesis by simp
    next
      case False
      let ?f = "foldl (\<lambda>str i. (if str \<noteq> [] then str @ '' '' else str) @ cal_center (pupto w (ns ! (i mod 7))) w) [] [0..<k]"
      from False Suc have f: "length ?f + 1 = k * (nat w + 1)" by simp
      have "2 \<le> nat w + 1" using assms by simp
      with False have "1 * 2 \<le> k * (nat w + 1)" by (intro mult_le_mono) auto
      with f have "?f \<noteq> []" by auto
      with f l [of ns k] Suc.prems show ?thesis by simp
    qed
  qed simp
  from this [of 7 "if w \<ge> 9 then day_name else day_abbr"] assms show ?thesis
    by (simp add: weekheader_def Let_def)
qed

end
