(* ===== verification/Osfs.thy ===== *)
theory Osfs
  imports Str
begin

unbundle bit_operations_syntax

section \<open>The operating-system interface of the path modules, and \<open>Lib/stat.py\<close>\<close>

text \<open>
  The path modules ask the operating system through \<open>os.stat\<close>, \<open>os.lstat\<close>,
  \<open>os.listdir\<close>, \<open>os.environ\<close> and \<open>pwd\<close>.  These are parameters of the
  model, collected in the record \<open>osys\<close>; \<open>None\<close> is \<open>os.error\<close> (or a missing
  key).  Nothing is assumed of them.  \<open>Lib/stat.py\<close> interprets the mode word.
\<close>

record stat_result =
  st_mode :: int
  st_ino :: int
  st_dev :: int

record osys =
  os_stat :: "string \<Rightarrow> stat_result option"
  os_lstat :: "string \<Rightarrow> stat_result option"
  os_listdir :: "string \<Rightarrow> string list option"
  os_environ :: "string \<Rightarrow> string option"
  pw_dir :: "string \<Rightarrow> string option"

definition S_IMODE :: "int \<Rightarrow> int" where
  "S_IMODE mode = mode AND 0xFFF"

definition S_IFMT :: "int \<Rightarrow> int" where
  "S_IFMT mode = mode AND 0xF000"

text \<open>The file types.\<close>

definition S_IFDIR :: int where "S_IFDIR = 0x4000"
definition S_IFCHR :: int where "S_IFCHR = 0x2000"
definition S_IFBLK :: int where "S_IFBLK = 0x6000"
definition S_IFREG :: int where "S_IFREG = 0x8000"
definition S_IFIFO :: int where "S_IFIFO = 0x1000"
definition S_IFLNK :: int where "S_IFLNK = 0xA000"
definition S_IFSOCK :: int where "S_IFSOCK = 0xC000"

lemmas file_type_defs = S_IFDIR_def S_IFCHR_def S_IFBLK_def S_IFREG_def S_IFIFO_def S_IFLNK_def S_IFSOCK_def

definition S_ISDIR :: "int \<Rightarrow> bool" where
  "S_ISDIR mode = (S_IFMT mode = S_IFDIR)"

definition S_ISCHR :: "int \<Rightarrow> bool" where
  "S_ISCHR mode = (S_IFMT mode = S_IFCHR)"

definition S_ISBLK :: "int \<Rightarrow> bool" where
  "S_ISBLK mode = (S_IFMT mode = S_IFBLK)"

definition S_ISREG :: "int \<Rightarrow> bool" where
  "S_ISREG mode = (S_IFMT mode = S_IFREG)"

definition S_ISFIFO :: "int \<Rightarrow> bool" where
  "S_ISFIFO mode = (S_IFMT mode = S_IFIFO)"

definition S_ISLNK :: "int \<Rightarrow> bool" where
  "S_ISLNK mode = (S_IFMT mode = S_IFLNK)"

definition S_ISSOCK :: "int \<Rightarrow> bool" where
  "S_ISSOCK mode = (S_IFMT mode = S_IFSOCK)"

text \<open>The permission bits.\<close>

definition S_ISUID :: int where "S_ISUID = 0x800"
definition S_ISGID :: int where "S_ISGID = 0x400"
definition S_ENFMT :: int where "S_ENFMT = S_ISGID"
definition S_ISVTX :: int where "S_ISVTX = 0x200"
definition S_IREAD :: int where "S_IREAD = 0x100"
definition S_IWRITE :: int where "S_IWRITE = 0x80"
definition S_IEXEC :: int where "S_IEXEC = 0x40"
definition S_IRWXU :: int where "S_IRWXU = 0x1c0"
definition S_IRUSR :: int where "S_IRUSR = 0x100"
definition S_IWUSR :: int where "S_IWUSR = 0x80"
definition S_IXUSR :: int where "S_IXUSR = 0x40"
definition S_IRWXG :: int where "S_IRWXG = 0x38"
definition S_IRGRP :: int where "S_IRGRP = 0x20"
definition S_IWGRP :: int where "S_IWGRP = 0x10"
definition S_IXGRP :: int where "S_IXGRP = 0x8"
definition S_IRWXO :: int where "S_IRWXO = 0x7"
definition S_IROTH :: int where "S_IROTH = 0x4"
definition S_IWOTH :: int where "S_IWOTH = 0x2"
definition S_IXOTH :: int where "S_IXOTH = 0x1"

lemmas permission_defs =
  S_ISUID_def S_ISGID_def S_ENFMT_def S_ISVTX_def S_IREAD_def S_IWRITE_def S_IEXEC_def S_IRWXU_def S_IRUSR_def S_IWUSR_def
  S_IXUSR_def S_IRWXG_def S_IRGRP_def S_IWGRP_def S_IXGRP_def S_IRWXO_def S_IROTH_def S_IWOTH_def S_IXOTH_def

text \<open>
  The bits partition the mode word below the type: nine permission bits in three classes and the
  three special bits.
\<close>

lemma permission_bits:
  "S_IMODE m = (m AND S_ISUID) OR (m AND S_ISGID) OR (m AND S_ISVTX) OR
    (m AND S_IRWXU) OR (m AND S_IRWXG) OR (m AND S_IRWXO)"
proof -
  have mask: "S_ISUID OR S_ISGID OR S_ISVTX OR S_IRWXU OR S_IRWXG OR S_IRWXO = 0xFFF"
    by (simp add: permission_defs)
  show ?thesis unfolding S_IMODE_def mask [symmetric] by (simp only: bit.conj_disj_distrib or.assoc)
qed

lemma permission_classes:
  "S_IRWXU = S_IRUSR OR S_IWUSR OR S_IXUSR" "S_IRWXG = S_IRGRP OR S_IWGRP OR S_IXGRP"
  "S_IRWXO = S_IROTH OR S_IWOTH OR S_IXOTH" "S_ENFMT = S_ISGID"
  "S_IREAD = S_IRUSR" "S_IWRITE = S_IWUSR" "S_IEXEC = S_IXUSR"
  by (simp_all add: permission_defs)

lemma mode_no_type: "S_IFMT (S_IMODE m) = 0"
  by (simp add: S_IFMT_def S_IMODE_def and.assoc)

lemma mode_split: "0 \<le> mode \<Longrightarrow> mode < 0x10000 \<Longrightarrow> S_IFMT mode + S_IMODE mode = mode"
proof -
  assume "0 \<le> mode" and "mode < 0x10000"
  then have "mode AND 0xFFFF = mode"
    using take_bit_int_eq_self [of mode 16] by (simp add: take_bit_eq_mask mask_numeral)
  moreover have "(mode AND 0xF000) + (mode AND 0xFFF) = (mode AND 0xF000) OR (mode AND 0xFFF)"
    by (rule disjunctive_add_eq_or) (simp add: and.left_commute and.assoc)
  moreover have "(mode AND 0xF000) OR (mode AND 0xFFF) = mode AND 0xFFFF"
    by (simp flip: bit.conj_disj_distrib)
  ultimately show ?thesis by (simp add: S_IFMT_def S_IMODE_def)
qed

text \<open>The file types exclude one another.\<close>

lemma type_exclusive: "S_ISDIR m \<Longrightarrow> \<not> S_ISREG m \<and> \<not> S_ISLNK m"
  by (simp add: S_ISDIR_def S_ISREG_def S_ISLNK_def file_type_defs)

end
