(* ===== verification/Walk.thy ===== *)
theory Walk
  imports Osfs
begin

section \<open>Walking a directory tree\<close>

text \<open>
  The \<open>walk(top, func, arg)\<close> of the path modules.  They differ in which names of a directory
  they descend into; that is the parameter \<open>sub\<close>, which gives the path of the subdirectory.
  The visitor may change its argument and the list of names, so it takes both and returns both.
  A tree with a loop is walked for ever, hence the fuel.
\<close>

type_synonym 's visitor = "string \<Rightarrow> string list \<Rightarrow> 's \<Rightarrow> 's \<times> string list"

primrec tree_walk ::
  "nat \<Rightarrow> osys \<Rightarrow> (string \<Rightarrow> string \<Rightarrow> string option) \<Rightarrow> 's visitor \<Rightarrow> string \<Rightarrow> 's \<Rightarrow> 's option" where
  "tree_walk 0 os sub func topdir arg = None"
| "tree_walk (Suc fuel) os sub func topdir arg =
     (case os_listdir os topdir of
        None \<Rightarrow> Some arg
      | Some names \<Rightarrow>
          let (arg, names) = func topdir names arg
          in foldl (\<lambda>r name. Option.bind r (\<lambda>arg.
               case sub topdir name of
                 None \<Rightarrow> Some arg
               | Some path \<Rightarrow> tree_walk fuel os sub func path arg)) (Some arg) names)"

text \<open>
  If every directory the walk descends into is smaller in some rank than the one it comes from
  (a file tree of finite depth, with links not followed), fuel above the rank of the start is
  enough.
\<close>

definition walk_descends :: "osys \<Rightarrow> (string \<Rightarrow> string \<Rightarrow> string option) \<Rightarrow> 's visitor \<Rightarrow> (string \<Rightarrow> nat) \<Rightarrow> bool" where
  "walk_descends os sub func h \<longleftrightarrow>
     (\<forall>d names arg n e. os_listdir os d = Some names \<longrightarrow> n \<in> set (snd (func d names arg)) \<longrightarrow>
        sub d n = Some e \<longrightarrow> h e < h d)"

lemma tree_walk_fuel:
  assumes "walk_descends os sub func h"
  shows "h topdir < fuel \<Longrightarrow> \<exists>t. tree_walk fuel os sub func topdir arg = Some t"
proof (induction fuel arbitrary: topdir arg)
  case (Suc fuel)
  have names: "\<exists>t. foldl (\<lambda>r name. Option.bind r (\<lambda>arg.
        case sub topdir name of None \<Rightarrow> Some arg | Some path \<Rightarrow> tree_walk fuel os sub func path arg)) (Some a) ns = Some t"
    if "\<And>n e. n \<in> set ns \<Longrightarrow> sub topdir n = Some e \<Longrightarrow> h e < fuel" for ns a
    using that
  proof (induction ns arbitrary: a)
    case (Cons n ns)
    have rest: "\<exists>t. foldl (\<lambda>r name. Option.bind r (\<lambda>arg.
        case sub topdir name of None \<Rightarrow> Some arg | Some path \<Rightarrow> tree_walk fuel os sub func path arg)) (Some b) ns = Some t" for b
      by (rule Cons.IH) (use Cons.prems in auto)
    show ?case
    proof (cases "sub topdir n")
      case (Some e)
      with Cons.prems obtain b where "tree_walk fuel os sub func e a = Some b"
        using Suc.IH by (metis list.set_intros(1))
      with rest [of b] Some show ?thesis by simp
    qed (use rest [of a] in simp)
  qed simp
  show ?case
  proof (cases "os_listdir os topdir")
    case (Some ns)
    obtain a ns' where f: "func topdir ns arg = (a, ns')" by fastforce
    have "h e < fuel" if "n \<in> set ns'" "sub topdir n = Some e" for n e
      using assms Some that f Suc.prems unfolding walk_descends_def by (metis less_le_trans less_Suc_eq_le snd_conv)
    from names [OF this] Some f show ?thesis by simp
  qed simp
qed simp

end
