(* ===== verification/Path_Laws.thy ===== *)
theory Path_Laws
  imports Str
begin

section \<open>The contract of the path modules\<close>

text \<open>
  \<open>Lib/os.py\<close> makes one of \<open>posixpath\<close>, \<open>ntpath\<close> and \<open>macpath\<close> available as
  \<open>os.path\<close>, and portable code calls whichever it gets.  What such a client may rely on
  in all of them is stated here once, as locales: that a second absolute path replaces the first
  (\<open>path_joiner\<close>), and that \<open>splitext\<close> cuts its argument in two at a dot of the last
  component (\<open>ext_splitter\<close>).  Each module's theory interprets them for its own functions.
\<close>

locale path_joiner =
  fixes isabs :: "string \<Rightarrow> bool"
    and join :: "string \<Rightarrow> string \<Rightarrow> string"
  assumes join_abs: "isabs b \<Longrightarrow> join a b = b"
    and join_empty: "join [] b = b"
begin

text \<open>Joining a list of parts from the left: what stands before an absolute part is lost.\<close>

lemma foldl_join_abs: "isabs b \<Longrightarrow> foldl join a (xs @ b # ys) = foldl join b ys"
  by (simp add: join_abs)

lemma foldl_join_empty: "foldl join [] (x # xs) = foldl join x xs"
  by (simp add: join_empty)

lemma foldl_join_last_abs:
  assumes "isabs b" and "\<And>y. y \<in> set ys \<Longrightarrow> isabs y"
  shows "foldl join a (xs @ b # ys) = last (b # ys)"
proof -
  have "foldl join b ys = last (b # ys)" if "\<And>y. y \<in> set ys \<Longrightarrow> isabs y" for b ys
    using that by (induction ys arbitrary: b) (simp_all add: join_abs)
  from this [OF assms(2)] show ?thesis unfolding foldl_join_abs [OF assms(1)] .
qed

end

locale ext_splitter =
  fixes is_sep :: "char \<Rightarrow> bool"
    and splitext :: "string \<Rightarrow> string \<times> string"
  assumes splitext_concat: "splitext p = (r, e) \<Longrightarrow> r @ e = p"
    and splitext_dot: "splitext p = (r, e) \<Longrightarrow> e = [] \<or> hd e = CHR ''.''"
    and splitext_no_sep: "splitext p = (r, e) \<Longrightarrow> c \<in> set e \<Longrightarrow> \<not> is_sep c"
begin

lemma splitext_exists: "\<exists>r e. splitext p = (r, e) \<and> r @ e = p"
  by (metis splitext_concat surj_pair)

text \<open>All separators stay in the root, so the root names a file of the same directory.\<close>

lemma splitext_seps:
  assumes "splitext p = (r, e)"
  shows "filter is_sep r = filter is_sep p"
proof -
  have "filter is_sep e = []" using splitext_no_sep [OF assms] by (simp add: filter_empty_conv)
  then show ?thesis using splitext_concat [OF assms] by (metis append_Nil2 filter_append)
qed

lemma splitext_no_dot:
  assumes "splitext p = (r, e)" and "CHR ''.'' \<notin> set p"
  shows "r = p \<and> e = []"
proof -
  have "e = []"
    using splitext_dot [OF assms(1)] splitext_concat [OF assms(1)] assms(2)
    by (metis Un_iff hd_in_set set_append)
  with splitext_concat [OF assms(1)] show ?thesis by simp
qed

lemma splitext_length: "splitext p = (r, e) \<Longrightarrow> length r + length e = length p"
  using splitext_concat by fastforce

end

end
