(* ===== verification/Posixpath.thy ===== *)
theory Posixpath
  imports Walk Path_Laws "HOL-Library.Sublist"
begin

section \<open>\<open>Lib/posixpath.py\<close>: operations on Posix pathnames\<close>

text \<open>
  Every function of the module.  The operating system is the parameter \<open>os\<close>.
  \<open>walk\<close> visits a tree whose depth the code does not bound, so it takes fuel, with
  \<open>None\<close> for running out; \<open>posix_walk_enough\<close> below says how much is enough.
\<close>

subsection \<open>Definitions\<close>

definition posix_normcase :: "string \<Rightarrow> string" where
  "posix_normcase s = s"

definition posix_isabs :: "string \<Rightarrow> bool" where
  "posix_isabs s = (take 1 s = ''/'')"

definition posix_join :: "string \<Rightarrow> string \<Rightarrow> string" where
  "posix_join a b =
     (if take 1 b = ''/'' then b
      else if a = '''' \<or> pfrom (- 1) a = ''/'' then a @ b
      else a @ ''/'' @ b)"

text \<open>\<open>while head[-1] == '/': head = head[:-1]\<close>; reaching the empty string would raise.\<close>

function strip_slashes :: "string \<Rightarrow> string res" where
  "strip_slashes head =
     (if head = [] then Inl IndexError
      else if last head = CHR ''/'' then strip_slashes (butlast head) else Inr head)"
  by pat_completeness auto
termination
  by (relation "measure length") auto

declare strip_slashes.simps [simp del]

definition posix_split :: "string \<Rightarrow> (string \<times> string) res" where
  "posix_split p =
     (let i = rfind p ''/'' 0 + 1; head = pupto i p; tail = pfrom i p
      in if head \<noteq> [] \<and> head \<noteq> replicate (length head) CHR ''/''
         then bindR (strip_slashes head) (\<lambda>head. Inr (head, tail))
         else Inr (head, tail))"

fun posix_splitext_loop :: "string \<Rightarrow> string \<Rightarrow> string \<Rightarrow> string \<times> string" where
  "posix_splitext_loop [] root ext = (root, ext)"
| "posix_splitext_loop (c # p) root ext =
     (if c = CHR ''/'' then posix_splitext_loop p (root @ ext @ [c]) []
      else if c = CHR ''.'' then
        (if ext \<noteq> [] then posix_splitext_loop p (root @ ext) [c] else posix_splitext_loop p root [c])
      else if ext \<noteq> [] then posix_splitext_loop p root (ext @ [c])
      else posix_splitext_loop p (root @ [c]) ext)"

definition posix_splitext :: "string \<Rightarrow> string \<times> string" where
  "posix_splitext p = posix_splitext_loop p [] []"

definition posix_splitdrive :: "string \<Rightarrow> string \<times> string" where
  "posix_splitdrive p = ('''', p)"

definition posix_basename :: "string \<Rightarrow> string res" where
  "posix_basename p = map_sum id snd (posix_split p)"

definition posix_dirname :: "string \<Rightarrow> string res" where
  "posix_dirname p = map_sum id fst (posix_split p)"

text \<open>
  The inner loop of \<open>commonprefix\<close>: \<open>range(len(prefix))\<close> is fixed when the loop
  starts, and the first difference ends it.
\<close>

fun commonprefix_item :: "nat \<Rightarrow> nat \<Rightarrow> string \<Rightarrow> string \<Rightarrow> string" where
  "commonprefix_item i 0 pre item = pre"
| "commonprefix_item i (Suc n) pre item =
     (if take (i + 1) pre \<noteq> take (i + 1) item then take i pre
      else commonprefix_item (i + 1) n pre item)"

fun commonprefix_loop :: "string \<Rightarrow> string list \<Rightarrow> string" where
  "commonprefix_loop pre [] = pre"
| "commonprefix_loop pre (item # m) =
     (let cut = commonprefix_item 0 (length pre) pre item
      in if pre \<noteq> [] \<and> cut = [] then [] else commonprefix_loop cut m)"

definition posix_commonprefix :: "string list \<Rightarrow> string" where
  "posix_commonprefix m = (case m of [] \<Rightarrow> [] | p # _ \<Rightarrow> commonprefix_loop p m)"

definition posix_islink :: "osys \<Rightarrow> string \<Rightarrow> bool" where
  "posix_islink os path =
     (case os_lstat os path of None \<Rightarrow> False | Some st \<Rightarrow> S_ISLNK (st_mode st))"

definition posix_exists :: "osys \<Rightarrow> string \<Rightarrow> bool" where
  "posix_exists os path = (case os_stat os path of None \<Rightarrow> False | Some st \<Rightarrow> True)"

definition posix_isdir :: "osys \<Rightarrow> string \<Rightarrow> bool" where
  "posix_isdir os path =
     (case os_stat os path of None \<Rightarrow> False | Some st \<Rightarrow> S_ISDIR (st_mode st))"

definition posix_isfile :: "osys \<Rightarrow> string \<Rightarrow> bool" where
  "posix_isfile os path =
     (case os_stat os path of None \<Rightarrow> False | Some st \<Rightarrow> S_ISREG (st_mode st))"

definition posix_samestat :: "stat_result \<Rightarrow> stat_result \<Rightarrow> bool" where
  "posix_samestat s1 s2 = (st_ino s1 = st_ino s2 \<and> st_dev s1 = st_dev s2)"

definition os_error :: pyexc where
  "os_error = ModError ''os.error'' ''''"

definition posix_samefile :: "osys \<Rightarrow> string \<Rightarrow> string \<Rightarrow> bool res" where
  "posix_samefile os f1 f2 =
     (case os_stat os f1 of
        None \<Rightarrow> Inl os_error
      | Some s1 \<Rightarrow> (case os_stat os f2 of None \<Rightarrow> Inl os_error | Some s2 \<Rightarrow> Inr (posix_samestat s1 s2)))"

definition posix_ismount :: "osys \<Rightarrow> string \<Rightarrow> bool" where
  "posix_ismount os path =
     (case (os_stat os path, os_stat os (posix_join path ''..'')) of
        (Some s1, Some s2) \<Rightarrow>
          if st_dev s1 \<noteq> st_dev s2 then True
          else if st_ino s1 = st_ino s2 then True
          else False
      | _ \<Rightarrow> False)"

text \<open>\<open>walk\<close> leaves out \<open>.\<close> and \<open>..\<close> and does not follow links.\<close>

definition posix_subdir :: "osys \<Rightarrow> string \<Rightarrow> string \<Rightarrow> string option" where
  "posix_subdir os topdir name =
     (if name \<notin> {''.'', ''..''} then
        let name = posix_join topdir name
        in if posix_isdir os name \<and> \<not> posix_islink os name then Some name else None
      else None)"

definition posix_walk :: "nat \<Rightarrow> osys \<Rightarrow> 's visitor \<Rightarrow> string \<Rightarrow> 's \<Rightarrow> 's option" where
  "posix_walk fuel os = tree_walk fuel os (posix_subdir os)"

definition posix_expanduser :: "osys \<Rightarrow> string \<Rightarrow> string" where
  "posix_expanduser os path =
     (if take 1 path \<noteq> ''~'' then path
      else
        let i = scan_up (\<lambda>c. c \<noteq> CHR ''/'') path 1 (length path);
            home = (if i = 1 then os_environ os ''HOME'' else pw_dir os (take (i - 1) (drop 1 path)))
        in case home of
             None \<Rightarrow> path
           | Some userhome \<Rightarrow>
               let i = (if pfrom (- 1) userhome = ''/'' then i + 1 else i)
               in userhome @ drop i path)"

text \<open>
  \<open>_varprog.search(path, i)\<close> for the pattern \<^verbatim>\<open>$\([a-zA-Z0-9_]+\|{[^}]*}\)\<close>: the
  first position from \<open>i\<close> on where a dollar sign is followed by a run of word characters
  (the longest) or by a closed pair of braces.  The result is the position and group 1.
\<close>

definition var_char :: "char \<Rightarrow> bool" where
  "var_char c = (c \<in> set letters \<or> c \<in> set digits \<or> c = CHR ''_'')"

definition match_var :: "string \<Rightarrow> string option" where
  "match_var s =
     (case s of
        d # c # t \<Rightarrow>
          if d \<noteq> CHR ''$'' then None
          else if var_char c then Some (takeWhile var_char (c # t))
          else if c = CHR ''{'' \<and> CHR ''}'' \<in> set t
          then Some (c # takeWhile (\<lambda>x. x \<noteq> CHR ''}'') t @ ''}'')
          else None
      | _ \<Rightarrow> None)"

function search_var :: "string \<Rightarrow> nat \<Rightarrow> (nat \<times> string) option" where
  "search_var path i =
     (if i < length path then
        (case match_var (drop i path) of
           Some g \<Rightarrow> Some (i, g)
         | None \<Rightarrow> search_var path (i + 1))
      else None)"
  by pat_completeness auto
termination
  by (relation "measure (\<lambda>(path, i). length path - i)") auto

declare search_var.simps [simp del]

lemma search_var_bounds: "search_var path i = Some (k, g) \<Longrightarrow> i \<le> k \<and> k < length path"
proof (induction path i rule: search_var.induct)
  case (1 path i)
  then show ?case
    by (cases "match_var (drop i path)")
      (auto simp: search_var.simps [of path i] split: if_splits)
qed

function expandvars_loop :: "osys \<Rightarrow> string \<Rightarrow> nat \<Rightarrow> string" where
  "expandvars_loop os path i =
     (case search_var path i of
        None \<Rightarrow> path
      | Some (i, g) \<Rightarrow>
          let j = i + 1 + length g;
              name = (if take 1 g = ''{'' \<and> pfrom (- 1) g = ''}'' then pslice 1 (- 1) g else g)
          in case os_environ os name of
               Some v \<Rightarrow>
                 let tail = drop j path; path = take i path @ v
                 in expandvars_loop os (path @ tail) (length path)
             | None \<Rightarrow> expandvars_loop os path j)"
  by pat_completeness auto
termination
  by (relation "measure (\<lambda>(os, path, i). length path - i)")
    (auto dest!: search_var_bounds)

declare expandvars_loop.simps [simp del]

definition posix_expandvars :: "osys \<Rightarrow> string \<Rightarrow> string" where
  "posix_expandvars os path =
     (if CHR ''$'' \<notin> set path then path else expandvars_loop os path 0)"

text \<open>The loop of \<open>normpath\<close> over the components, by index.\<close>

function normpath_loop :: "string list \<Rightarrow> nat \<Rightarrow> string list" where
  "normpath_loop comps i =
     (if i < length comps then
        if comps ! i = ''.'' then normpath_loop (take i comps @ drop (i + 1) comps) i
        else if comps ! i = ''..'' \<and> i > 0 \<and> comps ! (i - 1) \<notin> {'''', ''..''}
        then normpath_loop (take (i - 1) comps @ drop (i + 1) comps) (i - 1)
        else if comps ! i = '''' \<and> i > 0 \<and> comps ! (i - 1) \<noteq> ''''
        then normpath_loop (take i comps @ drop (i + 1) comps) i
        else normpath_loop comps (i + 1)
      else comps)"
  by pat_completeness auto
termination
  by (relation "measure (\<lambda>(comps, i). length comps - i)") auto

declare normpath_loop.simps [simp del]

text \<open>\<open>while path[:1] == sep: prefix = prefix + sep; path = path[1:]\<close>\<close>

fun strip_lead :: "char \<Rightarrow> string \<Rightarrow> string \<Rightarrow> string \<times> string" where
  "strip_lead sep pre [] = (pre, [])"
| "strip_lead sep pre (c # path) =
     (if c = sep then strip_lead sep (pre @ [sep]) path else (pre, c # path))"

definition posix_normpath :: "string \<Rightarrow> string" where
  "posix_normpath path =
     (let (slashes, path) = strip_lead CHR ''/'' [] path;
          comps = normpath_loop (splitfields path ''/'' 0) 0;
          comps = (if comps = [] \<and> slashes = [] then comps @ [''.''] else comps)
      in slashes @ joinfields comps ''/'')"


subsection \<open>Splitting and joining\<close>

lemma drop_rev_takeWhile:
  "drop (length s - length (takeWhile P (rev s))) s = rev (takeWhile P (rev s))"
proof -
  have "rev (take n (rev s)) = drop (length s - n) s" for n
    by (simp add: rev_take)
  then show ?thesis by (metis take_length_takeWhile)
qed

lemma pupto_pfrom_rfind:
  "pfrom (rfind p [c] 0 + 1) p = rev (takeWhile (\<lambda>d. d \<noteq> c) (rev p))"
  "pupto (rfind p [c] 0 + 1) p = rev (dropWhile (\<lambda>d. d \<noteq> c) (rev p))"
proof -
  let ?t = "length (takeWhile (\<lambda>d. d \<noteq> c) (rev p))"
  have "rfind p [c] 0 + 1 = int (length p - ?t)"
  proof (cases "c \<in> set p")
    case True
    then have "?t < length p"
      by (metis (mono_tags, lifting) length_rev nth_length_takeWhile set_rev takeWhile_eq_all_conv
          takeWhile_eq_take take_all_iff not_le)
    with True show ?thesis by (simp add: rfind_char)
  next
    case False
    then have "takeWhile (\<lambda>d. d \<noteq> c) (rev p) = rev p"
      by (auto simp: takeWhile_eq_all_conv)
    then have "?t = length p" by (metis length_rev)
    with False show ?thesis by (simp add: rfind_char)
  qed
  then show "pfrom (rfind p [c] 0 + 1) p = rev (takeWhile (\<lambda>d. d \<noteq> c) (rev p))"
    and "pupto (rfind p [c] 0 + 1) p = rev (dropWhile (\<lambda>d. d \<noteq> c) (rev p))"
    by (simp_all only: pfrom_nat pupto_nat take_rev_dropWhile drop_rev_takeWhile)
qed

lemma strip_slashes_spec:
  assumes "h \<noteq> replicate (length h) CHR ''/''"
  shows "\<exists>h' k. strip_slashes h = Inr h' \<and> h = h' @ replicate k CHR ''/'' \<and> h' \<noteq> [] \<and> last h' \<noteq> CHR ''/''"
  using assms
proof (induction h rule: rev_induct)
  case (snoc c h)
  show ?case
  proof (cases "c = CHR ''/''")
    case True
    with snoc.prems have "h \<noteq> replicate (length h) CHR ''/''"
      by (metis length_append_singleton replicate_Suc replicate_append_same)
    with snoc.IH obtain h' k where "strip_slashes h = Inr h'" "h = h' @ replicate k CHR ''/''"
      "h' \<noteq> []" "last h' \<noteq> CHR ''/''" by blast
    moreover from True this(1) have "strip_slashes (h @ [c]) = Inr h'"
      by (simp add: strip_slashes.simps [of "h @ ''/''"])
    ultimately show ?thesis
      using True by (intro exI [of _ h'] exI [of _ "Suc k"]) (simp add: replicate_append_same)
  next
    case False
    then show ?thesis
      by (intro exI [of _ "h @ [c]"] exI [of _ 0]) (simp add: strip_slashes.simps [of "h @ [c]"])
  qed
qed simp

lemma posix_split_spec:
  obtains head tail k where "posix_split p = Inr (head, tail)"
    and "p = head @ replicate k CHR ''/'' @ tail" and "CHR ''/'' \<notin> set tail"
    and "head = replicate (length head) CHR ''/'' \<or> last head \<noteq> CHR ''/''"
proof -
  let ?tail = "rev (takeWhile (\<lambda>d. d \<noteq> CHR ''/'') (rev p))"
  let ?head = "rev (dropWhile (\<lambda>d. d \<noteq> CHR ''/'') (rev p))"
  have p: "p = ?head @ ?tail" by (metis rev_append rev_rev_ident takeWhile_dropWhile_id)
  have t: "CHR ''/'' \<notin> set ?tail" by (auto dest: set_takeWhileD)
  have split: "posix_split p =
      (if ?head \<noteq> [] \<and> ?head \<noteq> replicate (length ?head) CHR ''/''
       then bindR (strip_slashes ?head) (\<lambda>head. Inr (head, ?tail)) else Inr (?head, ?tail))"
    by (simp only: posix_split_def Let_def pupto_pfrom_rfind)
  show thesis
  proof (cases "?head = replicate (length ?head) CHR ''/''")
    case True
    then have "posix_split p = Inr (?head, ?tail)" by (subst split) simp
    then show thesis using p t True by (intro that [of ?head ?tail 0]) simp_all
  next
    case False
    then obtain h' k where h: "strip_slashes ?head = Inr h'" "?head = h' @ replicate k CHR ''/''"
      "last h' \<noteq> CHR ''/''" using strip_slashes_spec by blast
    from False have "?head \<noteq> []" by (metis list.size(3) replicate_0)
    with False h(1) have "posix_split p = Inr (h', ?tail)" by (subst split) simp
    moreover have "p = h' @ replicate k CHR ''/'' @ ?tail" using p h(2) by (metis append_assoc)
    ultimately show thesis using t h(3) that by blast
  qed
qed

lemma posix_join_cases:
  "posix_join a b =
     (if b \<noteq> [] \<and> hd b = CHR ''/'' then b
      else if a = [] \<or> last a = CHR ''/'' then a @ b else a @ CHR ''/'' # b)"
proof -
  have "(take 1 b = ''/'') = (b \<noteq> [] \<and> hd b = CHR ''/'')" by (cases b) auto
  moreover have "(pfrom (- 1) a = ''/'') = (a \<noteq> [] \<and> last a = CHR ''/'')"
    by (auto simp: pfrom_minus1)
  ultimately show ?thesis by (simp add: posix_join_def)
qed

lemma posix_join_assoc: "posix_join (posix_join a b) c = posix_join a (posix_join b c)"
  by (auto simp: posix_join_cases hd_append last_append)

lemma posix_splitext_loop_append:
  "posix_splitext_loop p root ext = (r, e) \<Longrightarrow> r @ e = root @ ext @ p"
  by (induction p root ext rule: posix_splitext_loop.induct) (auto split: if_splits)

definition ext_shape :: "string \<Rightarrow> bool" where
  "ext_shape e \<longleftrightarrow> e = [] \<or> (\<exists>t. e = CHR ''.'' # t \<and> CHR ''.'' \<notin> set t \<and> CHR ''/'' \<notin> set t)"

lemma posix_splitext_loop_ext:
  "ext_shape ext \<Longrightarrow> posix_splitext_loop p root ext = (r, e) \<Longrightarrow> ext_shape e"
  by (induction p root ext rule: posix_splitext_loop.induct)
    (auto simp: ext_shape_def split: if_splits)

lemma posix_splitext_spec:
  assumes "posix_splitext p = (r, e)"
  shows "r @ e = p" and "ext_shape e"
  using assms posix_splitext_loop_append [of p "[]" "[]"] posix_splitext_loop_ext [of "[]" p "[]"]
  by (simp_all add: posix_splitext_def ext_shape_def)

subsection \<open>Common prefixes\<close>

lemma commonprefix_item_prefix:
  assumes "i + n = length p" and "take i p = take i x"
  shows "prefix q (commonprefix_item i n p x) \<longleftrightarrow> prefix q p \<and> prefix q x"
  using assms
proof (induction i n p x rule: commonprefix_item.induct)
  case (1 i p x)
  then have "prefix p x" by (metis add_0_right take_all_iff le_refl take_is_prefix)
  then show ?case by (auto intro: prefix_order.trans)
next
  case (2 i n p x)
  show ?case
  proof (cases "take (i + 1) p = take (i + 1) x")
    case True
    with 2 show ?thesis by simp
  next
    case False
    have "length q \<le> i" if "prefix q p" and "prefix q x"
    proof (rule ccontr)
      assume "\<not> length q \<le> i"
      with that have "take (i + 1) p = take (i + 1) q" and "take (i + 1) x = take (i + 1) q"
        by (auto simp: prefix_def)
      with False show False by simp
    qed
    then have "prefix q p \<and> prefix q x \<longleftrightarrow> prefix q (take i p)"
      using 2 by (metis append_take_drop_id prefix_def prefix_length_le prefix_order.trans
          take_all take_is_prefix prefix_same_cases length_take min.absorb2 prefix_length_prefix le_add1)
    with False show ?thesis by simp
  qed
qed

lemma commonprefix_loop_prefix:
  "prefix q (commonprefix_loop p m) \<longleftrightarrow> prefix q p \<and> list_all (prefix q) m"
proof (induction p m rule: commonprefix_loop.induct)
  case (2 p x m)
  let ?cut = "commonprefix_item 0 (length p) p x"
  have cut: "prefix q ?cut \<longleftrightarrow> prefix q p \<and> prefix q x" for q
    by (rule commonprefix_item_prefix) simp_all
  show ?case
  proof (cases "p \<noteq> [] \<and> ?cut = []")
    case True
    then show ?thesis using cut [of q] by (auto simp: Let_def list_all_iff)
  next
    case False
    then show ?thesis using 2 [OF refl] cut [of q] by (simp add: Let_def) blast
  qed
qed simp

lemma posix_commonprefix_greatest:
  "m \<noteq> [] \<Longrightarrow> prefix q (posix_commonprefix m) \<longleftrightarrow> list_all (prefix q) m"
  by (cases m) (auto simp: posix_commonprefix_def commonprefix_loop_prefix simp del: commonprefix_loop.simps)

subsection \<open>Normalisation\<close>

text \<open>
  The components the loop of \<open>normpath\<close> leaves alone: no \<open>.\<close>, and a \<open>..\<close> or an empty
  component only at the start or after another of the kind that the code keeps it after.
\<close>

definition norm_at :: "string list \<Rightarrow> nat \<Rightarrow> bool" where
  "norm_at cs k \<longleftrightarrow> cs ! k \<noteq> ''.'' \<and>
     (cs ! k = ''..'' \<longrightarrow> k = 0 \<or> cs ! (k - 1) \<in> {'''', ''..''}) \<and>
     (cs ! k = '''' \<longrightarrow> k = 0 \<or> cs ! (k - 1) = '''')"

definition normal :: "string list \<Rightarrow> bool" where
  "normal cs \<longleftrightarrow> (\<forall>k < length cs. norm_at cs k)"

lemma norm_at_same:
  "(\<And>l. l \<le> k \<Longrightarrow> ds ! l = cs ! l) \<Longrightarrow> norm_at ds k \<longleftrightarrow> norm_at cs k"
  by (cases k) (auto simp: norm_at_def)

lemma norm_at_cut:
  assumes "\<And>k. k < i \<Longrightarrow> k < length cs \<Longrightarrow> norm_at cs k" and "i < length cs"
    and "k < j" and "j \<le> i"
  shows "norm_at (take j cs @ ds) k"
proof -
  have "norm_at (take j cs @ ds) k = norm_at cs k"
    using assms by (intro norm_at_same) (simp add: nth_append)
  then show ?thesis using assms by simp
qed

text \<open>The loop's steps, one equation for each branch.\<close>

lemma normpath_end: "\<not> i < length cs \<Longrightarrow> normpath_loop cs i = cs"
  by (simp add: normpath_loop.simps [of cs i])

lemma normpath_dot:
  "i < length cs \<Longrightarrow> cs ! i = ''.'' \<Longrightarrow>
     normpath_loop cs i = normpath_loop (take i cs @ drop (i + 1) cs) i"
  by (simp add: normpath_loop.simps [of cs i])

lemma normpath_up:
  assumes "i < length cs" and "cs ! i \<noteq> ''.''"
    and "cs ! i = ''..'' \<and> i > 0 \<and> cs ! (i - 1) \<notin> {'''', ''..''}"
  shows "normpath_loop cs i = normpath_loop (take (i - 1) cs @ drop (i + 1) cs) (i - 1)"
  using assms by (simp add: normpath_loop.simps [of cs i])

lemma normpath_empty:
  assumes "i < length cs" and "cs ! i \<noteq> ''.''"
    and "\<not> (cs ! i = ''..'' \<and> i > 0 \<and> cs ! (i - 1) \<notin> {'''', ''..''})"
    and "cs ! i = '''' \<and> i > 0 \<and> cs ! (i - 1) \<noteq> ''''"
  shows "normpath_loop cs i = normpath_loop (take i cs @ drop (i + 1) cs) i"
  using assms by (simp add: normpath_loop.simps [of cs i])

lemma normpath_keep:
  assumes "i < length cs" and "cs ! i \<noteq> ''.''"
    and "\<not> (cs ! i = ''..'' \<and> i > 0 \<and> cs ! (i - 1) \<notin> {'''', ''..''})"
    and "\<not> (cs ! i = '''' \<and> i > 0 \<and> cs ! (i - 1) \<noteq> '''')"
  shows "normpath_loop cs i = normpath_loop cs (i + 1)"
  using assms(1) unfolding normpath_loop.simps [of cs i]
  by (simp only: assms(2-4) if_True if_False)

lemma normpath_loop_normal:
  assumes "\<And>k. k < i \<Longrightarrow> k < length cs \<Longrightarrow> norm_at cs k"
  shows "normal (normpath_loop cs i)"
  using assms
proof (induction cs i rule: normpath_loop.induct)
  case (1 cs i)
  let ?dot = "cs ! i = ''.''"
  let ?up = "cs ! i = ''..'' \<and> i > 0 \<and> cs ! (i - 1) \<notin> {'''', ''..''}"
  let ?empty = "cs ! i = '''' \<and> i > 0 \<and> cs ! (i - 1) \<noteq> ''''"
  show ?case
  proof (cases "i < length cs")
    case False
    then show ?thesis
      using "1.prems" by (simp add: normal_def normpath_end)
  next
    case len: True
    note cut = norm_at_cut [OF "1.prems" len]
    consider (dot) ?dot | (up) "\<not> ?dot" ?up | (empty) "\<not> ?dot" "\<not> ?up" ?empty
      | (keep) "\<not> ?dot" "\<not> ?up" "\<not> ?empty" by blast
    then show ?thesis
    proof cases
      case dot
      then show ?thesis
        using "1.IH"(1) [OF len dot cut] normpath_dot [OF len dot] by simp
    next
      case up
      have "normal (normpath_loop (take (i - 1) cs @ drop (i + 1) cs) (i - 1))"
        by (rule "1.IH"(2) [OF len up cut]) auto
      then show ?thesis by (simp only: normpath_up [OF len up])
    next
      case empty
      have "normal (normpath_loop (take i cs @ drop (i + 1) cs) i)"
        by (rule "1.IH"(3) [OF len empty cut]) auto
      then show ?thesis by (simp only: normpath_empty [OF len empty])
    next
      case keep
      then have "norm_at cs i" by (auto simp: norm_at_def)
      then have "norm_at cs k" if "k < i + 1" "k < length cs" for k
        using that "1.prems" by (cases "k = i") auto
      then have "normal (normpath_loop cs (i + 1))"
        by (rule "1.IH"(4) [OF len keep])
      then show ?thesis by (simp only: normpath_keep [OF len keep])
    qed
  qed
qed

lemma normpath_loop_id: "normal cs \<Longrightarrow> normpath_loop cs i = cs"
proof (induction cs i rule: normpath_loop.induct)
  case (1 cs i)
  show ?case
  proof (cases "i < length cs")
    case True
    with "1.prems" have "norm_at cs i" by (simp add: normal_def)
    then have "cs ! i \<noteq> ''.''" "\<not> (cs ! i = ''..'' \<and> i > 0 \<and> cs ! (i - 1) \<notin> {'''', ''..''})"
      "\<not> (cs ! i = '''' \<and> i > 0 \<and> cs ! (i - 1) \<noteq> '''')"
      by (auto simp: norm_at_def)
    with True "1.prems" show ?thesis
      using "1.IH"(4) normpath_keep [of i cs] by presburger
  next
    case False
    then show ?thesis by (rule normpath_end)
  qed
qed

lemma normpath_loop_sub: "set (normpath_loop cs i) \<subseteq> set cs"
proof (induction cs i rule: normpath_loop.induct)
  case (1 cs i)
  have sub: "set (take j cs @ drop k cs) \<subseteq> set cs" for j k
    using set_take_subset set_drop_subset by fastforce
  show ?case
    using 1 sub by (subst normpath_loop.simps) (smt (verit) order.trans order.refl)
qed

text \<open>The empty components of a normal list stand at its front.\<close>

lemma normal_empties:
  assumes "normal cs"
  obtains n ds where "cs = replicate n '''' @ ds" "'''' \<notin> set ds" "normal ds"
proof -
  define n where "n = length (takeWhile (\<lambda>c. c = '''') cs)"
  define ds where "ds = drop n cs"
  have "takeWhile (\<lambda>c. c = '''') cs = replicate n ''''"
    unfolding n_def by (metis (mono_tags, lifting) replicate_length_same set_takeWhileD)
  then have cs: "cs = replicate n '''' @ ds"
    unfolding ds_def n_def by (metis drop_length_takeWhile takeWhile_dropWhile_id)
  have nth: "ds ! k = cs ! (n + k)" if "k < length ds" for k
    using that by (simp add: ds_def)
  have first: "ds ! 0 \<noteq> ''''" if "ds \<noteq> []"
    using that by (metis (mono_tags, lifting) ds_def drop_length_takeWhile hd_conv_nth hd_dropWhile n_def)
  have noempty: "ds ! k \<noteq> ''''" if "k < length ds" for k
    using that
  proof (induction k)
    case (Suc k)
    moreover from Suc.prems assms have "norm_at cs (n + Suc k)"
      by (simp add: normal_def ds_def)
    ultimately show ?case by (auto simp: norm_at_def nth)
  qed (use first in auto)
  have "norm_at ds k" if "k < length ds" for k
  proof -
    from that assms have "norm_at cs (n + k)" by (simp add: normal_def ds_def)
    then show ?thesis
      using noempty that nth by (cases k) (auto simp: norm_at_def)
  qed
  then show thesis
    using that cs noempty by (metis in_set_conv_nth normal_def)
qed

lemma strip_lead_spec:
  "strip_lead c pre s = (pre @ takeWhile (\<lambda>d. d = c) s, dropWhile (\<lambda>d. d = c) s)"
  by (induction s arbitrary: pre) auto

lemma strip_lead_replicate:
  assumes "t = [] \<or> hd t \<noteq> c"
  shows "strip_lead c [] (replicate n c @ t) = (replicate n c, t)"
  using assms by (induction n) (auto simp: strip_lead_spec dropWhile_eq_self_iff takeWhile_eq_Nil_iff)

text \<open>What normalisation computes, for a string given by its slashes and its components.\<close>

lemma posix_normpath_fields:
  assumes "\<forall>c \<in> set ds. CHR ''/'' \<notin> set c" and "'''' \<notin> set ds" and "normal ds"
    and "ds \<noteq> [] \<or> m \<noteq> 0"
  shows "posix_normpath (replicate m CHR ''/'' @ joinfields ds ''/'') =
     replicate m CHR ''/'' @ joinfields ds ''/''"
proof (cases ds)
  case Nil
  have "strip_lead CHR ''/'' [] (replicate m CHR ''/'') = (replicate m CHR ''/'', [])"
    using strip_lead_replicate [of "[]"] by simp
  moreover have "normpath_loop [''''] 0 = ['''']"
    by (rule normpath_loop_id) (simp add: normal_def norm_at_def)
  ultimately show ?thesis
    using Nil by (simp add: posix_normpath_def splitfields_split_on)
next
  case (Cons d es)
  with assms have "d \<noteq> []" and "CHR ''/'' \<notin> set d" by auto
  then have "hd d \<noteq> CHR ''/''" by (metis hd_in_set)
  with \<open>d \<noteq> []\<close> have "joinfields ds ''/'' \<noteq> [] \<and> hd (joinfields ds ''/'') \<noteq> CHR ''/''"
    using Cons by simp
  then have "strip_lead CHR ''/'' [] (replicate m CHR ''/'' @ joinfields ds ''/'') =
      (replicate m CHR ''/'', joinfields ds ''/'')"
    by (intro strip_lead_replicate) simp
  moreover have "splitfields (joinfields ds ''/'') ''/'' 0 = ds"
    using assms(1) Cons by (simp add: splitfields_split_on split_on_fields del: joinfields_Cons)
  moreover have "normpath_loop (d # es) 0 = d # es"
    using assms(3) Cons by (simp add: normpath_loop_id)
  ultimately show ?thesis
    using Cons by (simp add: posix_normpath_def Let_def del: joinfields_Cons)
qed

lemma joinfields_empties:
  "joinfields (replicate n '''' @ ds) [c] =
     (if ds = [] then replicate (n - 1) c else replicate n c @ joinfields ds [c])"
proof (induction n)
  case (Suc n)
  have cons: "joinfields ('''' # ws) [c] = (if ws = [] then [] else c # joinfields ws [c])" for ws
    by (cases ws) simp_all
  show ?case
    using Suc by (cases n) (auto simp: cons replicate_append_same simp del: joinfields_Cons)
qed simp

lemma posix_normpath_idem: "posix_normpath (posix_normpath p) = posix_normpath p"
proof -
  obtain slashes q where sl: "strip_lead CHR ''/'' [] p = (slashes, q)" by fastforce
  then have "slashes = takeWhile (\<lambda>d. d = CHR ''/'') p" by (simp add: strip_lead_spec)
  then have "\<forall>c \<in> set slashes. c = CHR ''/''" by (auto dest: set_takeWhileD)
  then have slashes: "slashes = replicate (length slashes) CHR ''/''"
    by (simp add: replicate_length_same)
  let ?cs = "normpath_loop (splitfields q ''/'' 0) 0"
  have "normal ?cs" by (rule normpath_loop_normal) simp
  then obtain n ds where cs: "?cs = replicate n '''' @ ds" and ds: "'''' \<notin> set ds" "normal ds"
    by (rule normal_empties)
  have "set ds \<subseteq> set ?cs" by (simp add: cs)
  also have "\<dots> \<subseteq> set (split_on CHR ''/'' q)"
    using normpath_loop_sub by (simp only: splitfields_split_on)
  finally have noslash: "\<forall>c \<in> set ds. CHR ''/'' \<notin> set c"
    by (blast dest: split_on_no_sep)
  have "normpath_loop [''.''] 0 = []" and "normpath_loop [''''] 0 = ['''']"
    by (simp_all add: normpath_dot normpath_end normpath_loop_id normal_def norm_at_def)
  then have one: "posix_normpath ''.'' = ''.''" and zero: "posix_normpath [] = []"
    by (simp_all add: posix_normpath_def splitfields_split_on)
  show ?thesis
  proof (cases "?cs = [] \<and> slashes = []")
    case True
    then have "posix_normpath p = ''.''" by (simp add: posix_normpath_def sl)
    then show ?thesis by (simp only: one)
  next
    case False
    let ?m = "length slashes + (if ds = [] then n - 1 else n)"
    have "posix_normpath p = slashes @ joinfields ?cs ''/''"
      using sl False by (auto simp: posix_normpath_def)
    also have "\<dots> = replicate ?m CHR ''/'' @ joinfields ds ''/''"
      unfolding cs using slashes by (auto simp: joinfields_empties replicate_add)
    finally have eq: "posix_normpath p = replicate ?m CHR ''/'' @ joinfields ds ''/''" .
    show ?thesis
    proof (cases "ds \<noteq> [] \<or> ?m \<noteq> 0")
      case True
      then show ?thesis unfolding eq by (rule posix_normpath_fields [OF noslash ds])
    next
      case False
      then have "posix_normpath p = []" unfolding eq by simp
      then show ?thesis by (simp only: zero)
    qed
  qed
qed

subsection \<open>The contract\<close>

interpretation posix_j: path_joiner posix_isabs posix_join
  by unfold_locales (simp_all add: posix_isabs_def posix_join_def)

interpretation posix_e: ext_splitter "\<lambda>c. c = CHR ''/''" posix_splitext
proof
  fix p r e c
  assume s: "posix_splitext p = (r, e)"
  show "r @ e = p" by (rule posix_splitext_spec(1) [OF s])
  from posix_splitext_spec(2) [OF s] show "e = [] \<or> hd e = CHR ''.''"
    by (auto simp: ext_shape_def)
  from posix_splitext_spec(2) [OF s] show "c \<in> set e \<Longrightarrow> c \<noteq> CHR ''/''"
    by (auto simp: ext_shape_def)
qed

end
