(* ===== verification/Commands.thy ===== *)
theory Commands
  imports Posixpath
begin

section \<open>\<open>Lib/commands.py\<close>: shell arguments\<close>

text \<open>
  \<open>mkarg\<close> and \<open>mk2arg\<close>, and the part of \<open>getstatusoutput\<close> that is not the pipe itself:
  what \<open>os.popen\<close> returned and the status of its \<open>close\<close> are parameters.  The contract is
  the shell's own reading of a quoted word, \<open>sh_word\<close>.
\<close>

definition mkarg :: "string \<Rightarrow> string" where
  "mkarg x =
     (if SQUOTE \<notin> set x then '' '' @ [SQUOTE] @ x @ [SQUOTE]
      else
        let s = '' '' @ [DQUOTE];
            s = foldl (\<lambda>s c. (if c \<in> set ([BSLASH] @ ''$'' @ [DQUOTE] @ ''`'') then s @ [BSLASH] else s) @ [c]) s x
        in s @ [DQUOTE])"

definition mk2arg :: "string \<Rightarrow> string \<Rightarrow> string" where
  "mk2arg head x = mkarg (posix_join head x)"

definition getstatusoutput ::
  "(string \<Rightarrow> string \<times> int option) \<Rightarrow> string \<Rightarrow> int \<times> string"
where
  \<comment> \<open>\<open>popen cmd\<close> is the text read from the pipe and the result of closing it\<close>
  "getstatusoutput popen cmd =
     (let (text, sts) = popen (''{ '' @ cmd @ ''; } 2>&1'');
          sts = (case sts of None \<Rightarrow> 0 | Some n \<Rightarrow> n);
          text = (if pfrom (- 1) text = [NL] then pupto (- 1) text else text)
      in (sts, text))"

definition getoutput :: "(string \<Rightarrow> string \<times> int option) \<Rightarrow> string \<Rightarrow> string" where
  "getoutput popen cmd = snd (getstatusoutput popen cmd)"

definition getstatus :: "(string \<Rightarrow> string \<times> int option) \<Rightarrow> string \<Rightarrow> string" where
  "getstatus popen file = getoutput popen (''ls -ld'' @ mkarg file)"

text \<open>
  How a Bourne shell reads one word that is entirely in quotes: blanks before it are skipped;
  between single quotes every character stands for itself; between double quotes a backslash
  quotes \<open>$\<close>, the back quote, the double quote and the backslash and stands for itself
  before other characters, and an unquoted \<open>$\<close> or back quote would start an expansion
  (here: no reading).
\<close>

fun sh_double :: "string \<Rightarrow> string option" where
  "sh_double [] = None"
| "sh_double (c # s) =
     (if c = DQUOTE then (if s = [] then Some [] else None)
      else if c = CHR ''$'' \<or> c = CHR ''`'' then None
      else if c = BSLASH then
        (case s of
           d # t \<Rightarrow>
             if d \<in> {CHR ''$'', CHR ''`'', DQUOTE, BSLASH}
             then map_option ((#) d) (sh_double t)
             else if d = NL then sh_double t
             else map_option ((#) c) (sh_double s)
         | [] \<Rightarrow> None)
      else map_option ((#) c) (sh_double s))"

fun sh_single :: "string \<Rightarrow> string option" where
  "sh_single [] = None"
| "sh_single (c # s) =
     (if c = SQUOTE then (if s = [] then Some [] else None) else map_option ((#) c) (sh_single s))"

fun sh_word :: "string \<Rightarrow> string option" where
  "sh_word [] = None"
| "sh_word (c # s) =
     (if c = CHR '' '' then sh_word s
      else if c = SQUOTE then sh_single s
      else if c = DQUOTE then sh_double s
      else None)"

lemma sh_single_quoted: "SQUOTE \<notin> set x \<Longrightarrow> sh_single (x @ [SQUOTE]) = Some x"
  by (induction x) auto

definition dq :: "char \<Rightarrow> string" where
  "dq c = (if c \<in> {CHR ''$'', CHR ''`'', DQUOTE, BSLASH} then [BSLASH, c] else [c])"

lemma mkarg_foldl:
  "foldl (\<lambda>s c. (if c \<in> set ([BSLASH] @ ''$'' @ [DQUOTE] @ ''`'') then s @ [BSLASH] else s) @ [c]) s x =
     s @ concat (map dq x)"
  by (induction x arbitrary: s) (auto simp: dq_def)

lemma sh_double_quoted: "sh_double (concat (map dq x) @ [DQUOTE]) = Some x"
  by (induction x) (auto simp: dq_def)

lemma sh_word_mkarg: "sh_word (mkarg x) = Some x"
proof (cases "SQUOTE \<in> set x")
  case True
  then have "mkarg x = ('' '' @ [DQUOTE] @ concat (map dq x)) @ [DQUOTE]"
    unfolding mkarg_def Let_def mkarg_foldl by simp
  then show ?thesis by (simp add: sh_double_quoted)
next
  case False
  then show ?thesis by (simp add: mkarg_def sh_single_quoted)
qed

end
