(* ===== verification/Literals.thy ===== *)
theory Literals
  imports Str
begin

section \<open>Values as text: the backquotes and the literals that read them\<close>

text \<open>
  \<open>Lib/pickle.py\<close> writes atoms with backquotes and reads them with \<open>eval\<close> of a string literal,
  \<open>atoi(s, 0)\<close>, \<open>atol(s, 0)\<close> and \<open>atof\<close>.  These belong to the interpreter; the record \<open>literals\<close>
  collects them, the locale \<open>literal_laws\<close> states that reading inverts writing, and
  \<open>core_literals\<close> is the instance of the interpreter: the quoting of \<open>Objects/stringobject.c\<close>
  and the literals of \<open>Python/compile.c\<close>.  Floating-point numbers stay a parameter type.
\<close>

subsection \<open>String literals\<close>

definition octal_escape :: "nat \<Rightarrow> string" where
  \<comment> \<open>the format \<open>\%03o\<close> after a backslash\<close>
  "octal_escape n = [BSLASH, chr (48 + n div 64), chr (48 + n div 8 mod 8), chr (48 + n mod 8)]"

definition repr_char :: "char \<Rightarrow> char \<Rightarrow> string" where
  "repr_char quote c =
     (if c = quote \<or> c = BSLASH then [BSLASH, c]
      else if ord c < 32 \<or> ord c \<ge> 127 then octal_escape (ord c)
      else [c])"

definition string_repr :: "string \<Rightarrow> string" where
  \<comment> \<open>\<open>strchr\<close> stops at the first NUL\<close>
  "string_repr s =
     (let t = takeWhile (\<lambda>c. c \<noteq> NUL) s;
        quote = (if SQUOTE \<in> set t \<and> DQUOTE \<notin> set t then DQUOTE else SQUOTE)
      in quote # concat (map (repr_char quote) s) @ [quote])"

definition is_octal :: "char \<Rightarrow> bool" where
  "is_octal c \<longleftrightarrow> CHR ''0'' \<le> c \<and> c \<le> CHR ''7''"

definition octal_val :: "string \<Rightarrow> nat" where
  "octal_val ds = foldl (\<lambda>v d. 8 * v + (ord d - 48)) 0 ds"

definition hex_digit :: "char \<Rightarrow> nat option" where
  "hex_digit c =
     (if CHR ''0'' \<le> c \<and> c \<le> CHR ''9'' then Some (ord c - 48)
      else if CHR ''a'' \<le> c \<and> c \<le> CHR ''f'' then Some (ord c - 87)
      else if CHR ''A'' \<le> c \<and> c \<le> CHR ''F'' then Some (ord c - 55)
      else None)"

definition simple_escape :: "char \<Rightarrow> string option" where
  "simple_escape c = map_of
     [(NL, []), (BSLASH, [BSLASH]), (SQUOTE, [SQUOTE]), (DQUOTE, [DQUOTE]), (CHR ''b'', [CHR 0x08]),
      (CHR ''f'', [CHR 0x0C]), (CHR ''t'', [TAB]), (CHR ''n'', [NL]), (CHR ''r'', [CR]),
      (CHR ''v'', [CHR 0x0B]), (CHR ''a'', [CHR 0x07])] c"

text \<open>The characters between the quotes, with \<open>chr\<close> of a value modulo 256 as in a C \<open>char\<close>.\<close>

function unescape :: "string \<Rightarrow> string" where
  "unescape [] = []"
| "unescape (c # s) =
     (if c \<noteq> BSLASH then c # unescape s
      else case s of
        [] \<Rightarrow> []
      | d # t \<Rightarrow>
          (case simple_escape d of
             Some u \<Rightarrow> u @ unescape t
           | None \<Rightarrow>
               if is_octal d then
                 (let ds = takeWhile is_octal (take 2 t) in
                  chr (octal_val (d # ds) mod 256) # unescape (drop (length ds) t))
               else
                 (let hs = takeWhile (\<lambda>h. hex_digit h \<noteq> None) t in
                  if d = CHR ''x'' \<and> hs \<noteq> [] then
                    chr (foldl (\<lambda>v h. (16 * v + the (hex_digit h)) mod 256) 0 hs) # unescape (drop (length hs) t)
                  else BSLASH # d # unescape t)))"
  by pat_completeness auto
termination
  by (relation "measure length") auto

declare unescape.simps [simp del]

definition SyntaxError :: pyexc where
  "SyntaxError = ModError ''SyntaxError'' []"

definition eval_literal :: "string \<Rightarrow> string res" where
  \<comment> \<open>\<open>eval\<close> of a line that is one string token; other expressions are not read\<close>
  "eval_literal line =
     (case line of
        q # s \<Rightarrow>
          if q \<in> {SQUOTE, DQUOTE} \<and> s \<noteq> [] \<and> last s = q then
            (let s = butlast s in
             if length s \<ge> 4 \<and> take 2 s = [q, q] then
               if drop (length s - 2) s = [q, q] then Inr (unescape (drop 2 (take (length s - 2) s)))
               else Inl SyntaxError
             else Inr (unescape s))
          else Inl SyntaxError
      | [] \<Rightarrow> Inl SyntaxError)"

subsection \<open>Reading a string back\<close>

lemma octal_digits:
  assumes "n < 8"
  shows "is_octal (chr (48 + n))" "ord (chr (48 + n)) = 48 + n"
proof -
  from assms have "n \<in> {0, 1, 2, 3, 4, 5, 6, 7}" by auto
  then show "is_octal (chr (48 + n))" by (auto simp: is_octal_def less_eq_char_def)
  show "ord (chr (48 + n)) = 48 + n" using assms by simp
qed

lemma simple_escape_ord: "simple_escape c = Some u \<Longrightarrow> ord c \<in> {10, 92, 39, 34, 98, 102, 116, 110, 114, 118, 97}"
  by (auto simp: simple_escape_def split: if_splits)

lemma octal_not_escape: "n < 8 \<Longrightarrow> simple_escape (chr (48 + n)) = None"
  using simple_escape_ord [of "chr (48 + n)"] octal_digits(2) [of n] by (cases "simple_escape (chr (48 + n))") auto

lemma octal_escape_chars: "n < 256 \<Longrightarrow> c \<in> set (octal_escape n) \<Longrightarrow> c = BSLASH \<or> 48 \<le> ord c"
proof -
  assume "n < 256" "c \<in> set (octal_escape n)"
  moreover from \<open>n < 256\<close> have "n div 64 < 8" by simp
  ultimately show ?thesis
    using octal_digits(2) [of "n div 64"] octal_digits(2) [of "n div 8 mod 8"] octal_digits(2) [of "n mod 8"]
    by (auto simp: octal_escape_def)
qed

lemma unescape_octal: "n < 256 \<Longrightarrow> unescape (octal_escape n @ t) = chr n # unescape t"
proof -
  assume n: "n < 256"
  define a b c where abc: "a = n div 64" "b = n div 8 mod 8" "c = n mod 8"
  have l: "a < 8" "b < 8" "c < 8" using n by (simp_all add: abc)
  have "n div 64 = n div 8 div 8" by (simp add: div_mult2_eq [symmetric])
  then have v: "64 * a + 8 * b + c = n" unfolding abc
    using div_mult_mod_eq [of n 8] div_mult_mod_eq [of "n div 8" 8] by linarith
  have o: "octal_escape n = [BSLASH, chr (48 + a), chr (48 + b), chr (48 + c)]"
    by (simp add: octal_escape_def abc)
  have "octal_val [chr (48 + a), chr (48 + b), chr (48 + c)] = 64 * a + 8 * b + c"
    using l by (simp add: octal_val_def octal_digits(2))
  with l v n show ?thesis
    unfolding o by (simp add: unescape.simps(2) octal_not_escape octal_digits(1) numeral_2_eq_2)
qed

lemma unescape_repr_char: "quote \<in> {SQUOTE, DQUOTE} \<Longrightarrow> unescape (repr_char quote c @ t) = c # unescape t"
proof -
  assume q: "quote \<in> {SQUOTE, DQUOTE}"
  consider "c = quote \<or> c = BSLASH" | "c \<noteq> quote" "c \<noteq> BSLASH" "ord c < 32 \<or> ord c \<ge> 127"
    | "c \<noteq> quote" "c \<noteq> BSLASH" "\<not> (ord c < 32 \<or> ord c \<ge> 127)" by blast
  then show ?thesis
  proof cases
    case 1
    then have "simple_escape c = Some [c]" using q by (auto simp: simple_escape_def)
    with 1 show ?thesis by (simp add: repr_char_def unescape.simps(2))
  next
    case 2
    with unescape_octal [of "ord c" t] show ?thesis by (simp add: repr_char_def)
  qed (simp add: repr_char_def unescape.simps(2))
qed

lemma unescape_repr: "quote \<in> {SQUOTE, DQUOTE} \<Longrightarrow> unescape (concat (map (repr_char quote) s)) = s"
  by (induction s) (simp_all add: unescape.simps(1) unescape_repr_char)

lemma repr_char_start: "quote \<in> {SQUOTE, DQUOTE} \<Longrightarrow> take 1 (repr_char quote c @ t) \<noteq> [quote]"
  by (auto simp: repr_char_def octal_escape_def)

lemma eval_string_repr: "eval_literal (string_repr s) = Inr s"
proof -
  define q where "q = (if SQUOTE \<in> set (takeWhile (\<lambda>c. c \<noteq> NUL) s) \<and> DQUOTE \<notin> set (takeWhile (\<lambda>c. c \<noteq> NUL) s)
    then DQUOTE else SQUOTE)"
  have q: "q \<in> {SQUOTE, DQUOTE}" by (simp add: q_def)
  have r: "string_repr s = q # concat (map (repr_char q) s) @ [q]" by (simp add: string_repr_def q_def Let_def)
  have "take 2 (concat (map (repr_char q) s)) \<noteq> [q, q]"
  proof
    assume "take 2 (concat (map (repr_char q) s)) = [q, q]"
    then have "take 1 (concat (map (repr_char q) s)) = [q]"
      by (cases "concat (map (repr_char q) s)") auto
    then show False using repr_char_start [OF q] by (cases s) auto
  qed
  with q show ?thesis unfolding r by (simp add: eval_literal_def Let_def unescape_repr)
qed

lemma string_repr_line: "NL \<notin> set (string_repr s)"
proof -
  have "NL \<notin> set (repr_char q c)" if "q \<in> {SQUOTE, DQUOTE}" for q c
    using that octal_escape_chars [of "ord c" NL] ord_less_256 [of c] by (auto simp: repr_char_def)
  then show ?thesis by (auto simp: string_repr_def Let_def)
qed

subsection \<open>Numbers\<close>

text \<open>
  The scanner of \<open>atoi(s, 0)\<close> and \<open>atol(s, 0)\<close>: white space, a sign, white space, the prefix that
  gives the base, digits; it returns the value and what follows.
\<close>

definition below_base :: "nat \<Rightarrow> char \<Rightarrow> bool" where
  "below_base base c = (case hex_digit c of None \<Rightarrow> False | Some v \<Rightarrow> v < base)"

definition digits_value :: "nat \<Rightarrow> string \<Rightarrow> int" where
  "digits_value base ds = foldl (\<lambda>v d. int base * v + int (the (hex_digit d))) 0 ds"

definition scan_digits :: "string \<Rightarrow> int \<times> string" where
  "scan_digits s =
     (let (base, s) = (if take 1 s \<noteq> ''0'' then (10, s)
                       else if take 2 s \<in> {''0x'', ''0X''} then (16, drop 2 s) else (8, s));
        ds = takeWhile (below_base base) s
      in (digits_value base ds, drop (length ds) s))"

definition scan_number :: "string \<Rightarrow> int \<times> string" where
  "scan_number s =
     (let s = lstrip s;
        neg = (take 1 s = ''-'');
        (v, rest) = scan_digits (lstrip (if take 1 s \<in> {''+'', ''-''} then drop 1 s else s))
      in (if neg then - v else v, rest))"

text \<open>
  A plain integer has a sign and fits into a C \<open>long\<close>, of which \<open>m\<close> is the greatest.  A literal
  that begins with \<open>0\<close> is read as an unsigned one and wraps around.
\<close>

definition atoi_base0 :: "int \<Rightarrow> string \<Rightarrow> int res" where
  "atoi_base0 m s =
     (if lstrip s = [] then Inl (ValueError ''empty string for atoi()'')
      else let (v, rest) = scan_number s;
          large = Inl (ValueError (''atoi() literal too large: '' @ take 200 (lstrip s)))
        in if lstrip rest \<noteq> [] then Inl (ValueError (''invalid literal for atoi(): '' @ take 200 (lstrip s)))
          else if take 1 (lstrip s) = ''0'' then
            if v > 2 * m + 1 then large else Inr (if v > m then v - (2 * m + 2) else v)
          else if v < - m - 1 \<or> v > m then large
          else Inr v)"

definition atol_base0 :: "string \<Rightarrow> int res" where
  "atol_base0 s =
     (if lstrip s = [] then Inl (ValueError ''empty string for atol()'')
      else let (v, rest) = scan_number s;
           rest = (if take 1 rest \<in> {''l'', ''L''} then drop 1 rest else rest)
        in if lstrip rest = [] then Inr v else Inl (ValueError (''invalid literal for atol(): '' @ take 200 (lstrip s))))"

lemma digits_decimal:
  assumes "c \<in> set digits"
  shows "hex_digit c = Some (ord c - 48)" "below_base 10 c" "\<not> is_ws c" "48 \<le> ord c"
  using assms by (auto simp: digits_def hex_digit_def below_base_def less_eq_char_def whitespace_def)

lemma digits_value_decimal: "set ds \<subseteq> set digits \<Longrightarrow> digits_value 10 ds = dec_val ds"
proof -
  assume "set ds \<subseteq> set digits"
  then have "foldl (\<lambda>v d. int 10 * v + int (the (hex_digit d))) a ds = foldl (\<lambda>n c. 10 * n + (int (ord c) - int (ord CHR ''0''))) a ds" for a
    by (induction ds arbitrary: a) (simp_all add: digits_decimal of_nat_diff)
  then show ?thesis by (simp add: digits_value_def dec_val_def)
qed

lemma nat_repr_zero: "take 1 (nat_repr n) = ''0'' \<Longrightarrow> nat_repr n = ''0''"
proof (induction n rule: nat_repr.induct)
  case (1 n)
  show ?case
  proof (cases "n < 10")
    case True
    with 1(2) show ?thesis by (simp add: nat_repr.simps [of n])
  next
    case False
    have ne: "nat_repr (n div 10) \<noteq> []" by simp
    then obtain c cs where cs: "nat_repr (n div 10) = c # cs" by (cases "nat_repr (n div 10)") auto
    from 1(2) False cs have "take 1 (nat_repr (n div 10)) = ''0''"
      by (simp add: nat_repr.simps [of n])
    with 1(1) False have "nat_repr (n div 10) = ''0''" by simp
    then have "dec_val (nat_repr (n div 10)) = 0" by (simp add: dec_val_def)
    with False show ?thesis by (simp add: dec_val_nat_repr)
  qed
qed

lemma scan_nat_repr:
  fixes n :: nat
  assumes suf: "suffix \<in> {[], ''L''}"
  defines "s \<equiv> nat_repr n @ suffix"
  shows "lstrip s = s" "s \<noteq> []" "take 1 s \<notin> {''+'', ''-''}"
    "scan_digits s = (int n, suffix)"
proof -
  obtain c cs where c: "nat_repr n = c # cs" by (cases "nat_repr n") auto
  have ds: "set (nat_repr n) \<subseteq> set digits" using nat_repr_digits by auto
  then have cd: "c \<in> set digits" using c by simp
  show "lstrip s = s" using digits_decimal(3) [OF cd] by (simp add: s_def c lstrip_dropWhile)
  show "s \<noteq> []" by (simp add: s_def)
  show "take 1 s \<notin> {''+'', ''-''}" using digits_decimal(4) [OF cd] by (auto simp: s_def c)
  have L: "\<not> below_base b CHR ''L''" for b by (simp add: below_base_def hex_digit_def)
  show "scan_digits s = (int n, suffix)"
  proof (cases "take 1 s = ''0''")
    case True
    then have "take 1 (nat_repr n) = ''0''" by (simp add: s_def c)
    from nat_repr_zero [OF this] have z: "nat_repr n = ''0''" .
    then have "int n = 0" using dec_val_nat_repr [of n] by (simp add: dec_val_def)
    with suf show ?thesis unfolding s_def z
      by (auto simp: scan_digits_def below_base_def hex_digit_def digits_value_def less_eq_char_def)
  next
    case False
    have "takeWhile (below_base 10) s = nat_repr n"
      using suf ds digits_decimal(2) unfolding s_def
      by (subst takeWhile_append2) (auto simp: L subset_iff)
    then show ?thesis using False digits_value_decimal [OF ds] by (simp add: scan_digits_def dec_val_nat_repr s_def)
  qed
qed

lemma scan_int_repr:
  assumes "suffix \<in> {[], ''L''}"
  shows "scan_number (int_repr i @ suffix) = (i, suffix)" "lstrip (int_repr i @ suffix) \<noteq> []"
proof -
  note n = scan_nat_repr [OF assms, of "nat \<bar>i\<bar>"]
  have "scan_number (int_repr i @ suffix) = (i, suffix) \<and> lstrip (int_repr i @ suffix) \<noteq> []"
  proof (cases "i < 0")
    case True
    then have r: "int_repr i @ suffix = CHR ''-'' # nat_repr (nat \<bar>i\<bar>) @ suffix" by (simp add: int_repr_def)
    have l: "lstrip (CHR ''-'' # t) = CHR ''-'' # t" for t by (simp add: lstrip_dropWhile whitespace_def)
    show ?thesis using n(1,4) True unfolding r scan_number_def l by (simp add: Let_def)
  next
    case False
    then have r: "int_repr i @ suffix = nat_repr (nat \<bar>i\<bar>) @ suffix" by (simp add: int_repr_def)
    show ?thesis using n False unfolding r scan_number_def by (simp add: Let_def)
  qed
  then show "scan_number (int_repr i @ suffix) = (i, suffix)" "lstrip (int_repr i @ suffix) \<noteq> []" by simp_all
qed

lemma atoi_base0_repr: "- m - 1 \<le> i \<Longrightarrow> i \<le> m \<Longrightarrow> atoi_base0 m (int_repr i) = Inr i"
  using scan_int_repr [of "[]" i] by (simp add: atoi_base0_def lstrip_dropWhile Let_def)

lemma atol_base0_repr: "atol_base0 (int_repr i @ ''L'') = Inr i"
  using scan_int_repr [of "''L''" i] by (simp add: atol_base0_def lstrip_dropWhile)

lemma int_repr_line: "NL \<notin> set (int_repr i)"
  using nat_repr_digits [of NL] by (auto simp: int_repr_def digits_def)

subsection \<open>The interface\<close>

record 'x literals =
  lit_float_repr :: "'x \<Rightarrow> string"
  lit_atof :: "string \<Rightarrow> 'x res"
  lit_eval :: "string \<Rightarrow> string res"
  lit_maxint :: int \<comment> \<open>\<open>sys.maxint\<close>\<close>
  lit_atoi :: "string \<Rightarrow> int res"
  lit_atol :: "string \<Rightarrow> int res"
  lit_integral :: "'x \<Rightarrow> int option" \<comment> \<open>the integer a float is equal to\<close>

definition core_literals :: "int \<Rightarrow> ('x \<Rightarrow> string) \<Rightarrow> (string \<Rightarrow> 'x res) \<Rightarrow> ('x \<Rightarrow> int option) \<Rightarrow> 'x literals" where
  "core_literals m fr af fi = \<lparr>lit_float_repr = fr, lit_atof = af, lit_eval = eval_literal,
     lit_maxint = m, lit_atoi = atoi_base0 m, lit_atol = atol_base0, lit_integral = fi\<rparr>"

locale literal_laws =
  fixes L :: "'x literals"
  assumes eval_repr: "lit_eval L (string_repr s) = Inr s"
    and atoi_repr: "- lit_maxint L - 1 \<le> i \<Longrightarrow> i \<le> lit_maxint L \<Longrightarrow> lit_atoi L (int_repr i) = Inr i"
    and atol_repr: "lit_atol L (int_repr i @ ''L'') = Inr i"

interpretation core: literal_laws "core_literals m fr af fi" for m and fr :: "'x \<Rightarrow> string" and af fi
  by unfold_locales (simp_all add: core_literals_def eval_string_repr atoi_base0_repr atol_base0_repr)

text \<open>An instance without floating-point numbers.\<close>

definition data_literals :: "unit literals" where
  "data_literals = core_literals (2 ^ 31 - 1) (\<lambda>_. []) (\<lambda>_. Inr ()) (\<lambda>_. None)"

end
