(* ===== verification/Py_Heap.thy ===== *)
theory Py_Heap
  imports Literals
begin

section \<open>A heap of Python objects\<close>

text \<open>
  Objects for the modules that work on graphs of objects: a heap is a list of objects in which an
  object refers to others by their index, which is also what \<open>id()\<close> gives.
\<close>

subsection \<open>Objects\<close>

datatype ('x, 'r) pyobj =
    PNone
  | PInt int
  | PLong int
  | PFloat 'x
  | PStr string
  | PTuple "'r list"
  | PList "'r list"
  | PDict "('r \<times> 'r) list"
  | PInst 'r 'r \<comment> \<open>its class and its \<open>__dict__\<close>\<close>
  | PClass string
  | POther string \<comment> \<open>an object of another type, with the name of the type\<close>

type_synonym 'x heap = "('x, nat) pyobj list"

primrec refs :: "('x, 'r) pyobj \<Rightarrow> 'r list" where
  "refs PNone = []"
| "refs (PInt i) = []"
| "refs (PLong i) = []"
| "refs (PFloat x) = []"
| "refs (PStr s) = []"
| "refs (PTuple xs) = xs"
| "refs (PList xs) = xs"
| "refs (PDict items) = concat (map (\<lambda>(k, v). [k, v]) items)"
| "refs (PInst cls attrs) = [cls, attrs]"
| "refs (PClass name) = []"
| "refs (POther tname) = []"

definition heap_ok :: "'x heap \<Rightarrow> bool" where
  "heap_ok h \<longleftrightarrow> list_all (\<lambda>ob. list_all (\<lambda>c. c < length h) (refs ob)) h"

text \<open>No reference leaves the heap.\<close>

lemma heap_ok_nth: "heap_ok h \<Longrightarrow> a < length h \<Longrightarrow> set (refs (h ! a)) \<subseteq> {..<length h}"
  by (auto simp: heap_ok_def list_all_iff)

lemma heap_ok_append: "heap_ok h \<Longrightarrow> set (refs ob) \<subseteq> {..<length h} \<Longrightarrow> heap_ok (h @ [ob])"
  by (force simp: heap_ok_def list_all_iff)

lemma heap_ok_update: "heap_ok h \<Longrightarrow> set (refs ob) \<subseteq> {..<length h} \<Longrightarrow> heap_ok (h[a := ob])"
  by (auto simp: heap_ok_def list_all_iff dest!: set_update_subset_insert [THEN subsetD])

definition container :: "('x, 'r) pyobj \<Rightarrow> bool" where
  "container ob = (case ob of PList xs \<Rightarrow> True | PDict items \<Rightarrow> True | _ \<Rightarrow> False)"

definition data_only :: "'x heap \<Rightarrow> bool" where
  \<comment> \<open>no instances or classes, whose identity is their value\<close>
  "data_only h \<longleftrightarrow> (\<forall>a < length h. case h ! a of PInst c d \<Rightarrow> False | PClass s \<Rightarrow> False | POther s \<Rightarrow> False | _ \<Rightarrow> True)"

subsection \<open>Dictionary keys\<close>

text \<open>
  A key hashes and compares by its value: numbers by their numerical value, strings and tuples by
  their content, instances and classes by identity.  Lists and dictionaries do not hash.
\<close>

datatype 'x key = KNone | KNum int | KFloat 'x | KStr string | KTuple "'x key list" | KId nat

fun map_res :: "('a \<Rightarrow> 'b res) \<Rightarrow> 'a list \<Rightarrow> 'b list res" where
  "map_res f [] = Inr []"
| "map_res f (x # xs) = bindR (f x) (\<lambda>y. bindR (map_res f xs) (\<lambda>ys. Inr (y # ys)))"

primrec key_of :: "nat \<Rightarrow> 'x literals \<Rightarrow> 'x heap \<Rightarrow> nat \<Rightarrow> 'x key res" where
  "key_of 0 L h a = Inl RuntimeError"
| "key_of (Suc n) L h a =
     (case h ! a of
        PNone \<Rightarrow> Inr KNone
      | PInt i \<Rightarrow> Inr (KNum i)
      | PLong i \<Rightarrow> Inr (KNum i)
      | PFloat r \<Rightarrow> Inr (case lit_integral L r of Some i \<Rightarrow> KNum i | None \<Rightarrow> KFloat r)
      | PStr s \<Rightarrow> Inr (KStr s)
      | PTuple xs \<Rightarrow> bindR (map_res (key_of n L h) xs) (\<lambda>ks. Inr (KTuple ks))
      | PList xs \<Rightarrow> Inl TypeError
      | PDict items \<Rightarrow> Inl TypeError
      | _ \<Rightarrow> Inr (KId a))"

definition dict_update ::
  "nat \<Rightarrow> 'x literals \<Rightarrow> 'x heap \<Rightarrow> (nat \<times> nat) list \<Rightarrow> nat \<Rightarrow> nat \<Rightarrow> (nat \<times> nat) list res" where
  \<comment> \<open>\<open>d[k] = v\<close>: an equal key stays and takes the new value\<close>
  "dict_update n L h items k v =
     bindR (key_of n L h k) (\<lambda>kk.
       let kept = takeWhile (\<lambda>(k', _). key_of n L h k' \<noteq> Inr kk) items
       in case drop (length kept) items of
            [] \<Rightarrow> Inr (items @ [(k, v)])
          | (k', _) # rest \<Rightarrow> Inr (kept @ (k', v) # rest))"

lemma dict_update_new:
  assumes "key_of n L h k = Inr kk" "list_all (\<lambda>(k', v). key_of n L h k' \<noteq> Inr kk) items"
  shows "dict_update n L h items k v = Inr (items @ [(k, v)])"
proof -
  have tw: "takeWhile (\<lambda>(k', _). key_of n L h k' \<noteq> Inr kk) items = items"
    using assms(2) by (simp add: takeWhile_eq_all_conv list_all_iff)
  show ?thesis using assms(1) by (simp add: dict_update_def Let_def tw del: takeWhile_eq_all_conv)
qed

definition distinct_keys :: "nat \<Rightarrow> 'x literals \<Rightarrow> 'x heap \<Rightarrow> (nat \<times> nat) list \<Rightarrow> bool" where
  "distinct_keys n L h items \<longleftrightarrow> distinct (map (\<lambda>(k, v). key_of n L h k) items) \<and>
     list_all (\<lambda>(k, v). \<not> isl (key_of n L h k)) items"

lemma distinct_keys_snoc:
  "distinct_keys n L h (items @ [(k, v)]) \<Longrightarrow> dict_update n L h items k v = Inr (items @ [(k, v)])"
proof -
  assume d: "distinct_keys n L h (items @ [(k, v)])"
  then obtain kk where kk: "key_of n L h k = Inr kk" by (cases "key_of n L h k") (auto simp: distinct_keys_def)
  have "list_all (\<lambda>(k', v). key_of n L h k' \<noteq> Inr kk) items"
    using d kk by (force simp: distinct_keys_def list_all_iff)
  with kk show ?thesis by (rule dict_update_new)
qed

lemma distinct_keys_append: "distinct_keys n L h (xs @ ys) \<Longrightarrow> distinct_keys n L h xs"
  by (auto simp: distinct_keys_def)

lemma dict_update_refs:
  assumes "dict_update n L h items k v = Inr d"
  shows "set (refs (PDict d)) \<subseteq> insert k (insert v (set (refs (PDict items))))"
proof -
  from assms obtain kk where kk: "key_of n L h k = Inr kk" by (auto simp: dict_update_def bindR_Inr_iff)
  define kept where "kept = takeWhile (\<lambda>(k', _). key_of n L h k' \<noteq> Inr kk) items"
  have sub: "set kept \<subseteq> set items" "set (drop (length kept) items) \<subseteq> set items"
    by (auto simp: kept_def dest: set_takeWhileD in_set_dropD)
  show ?thesis
  proof (cases "drop (length kept) items")
    case Nil
    with assms kk have "d = items @ [(k, v)]" by (simp add: dict_update_def Let_def kept_def [symmetric])
    then show ?thesis by auto
  next
    case (Cons kv rest)
    obtain k' v' where kv: "kv = (k', v')" by fastforce
    with assms kk Cons have d: "d = kept @ (k', v) # rest"
      by (simp add: dict_update_def Let_def kept_def [symmetric])
    have "(k', v') \<in> set items" "set rest \<subseteq> set items" using sub(2) Cons kv by auto
    with sub(1) show ?thesis unfolding d by fastforce
  qed
qed

subsection \<open>Assignments to items and attributes\<close>

definition heap_setitem :: "nat \<Rightarrow> 'x literals \<Rightarrow> nat \<Rightarrow> nat \<Rightarrow> nat \<Rightarrow> ('x heap, unit) act" where
  \<comment> \<open>\<open>a[k] = v\<close>\<close>
  "heap_setitem n L a k v h =
     (case h ! a of
        PDict d \<Rightarrow> (case dict_update n L h d k v of Inl e \<Rightarrow> (Inl e, h) | Inr d \<Rightarrow> (Inr (), h[a := PDict d]))
      | PList xs \<Rightarrow>
          (case h ! k of
             PInt i \<Rightarrow>
               let i = (if i < 0 then i + int (length xs) else i)
               in if 0 \<le> i \<and> i < int (length xs) then (Inr (), h[a := PList (xs[nat i := v])]) else (Inl IndexError, h)
           | _ \<Rightarrow> (Inl TypeError, h))
      | _ \<Rightarrow> (Inl TypeError, h))"

definition heap_setattr :: "nat \<Rightarrow> 'x literals \<Rightarrow> nat \<Rightarrow> nat \<Rightarrow> nat \<Rightarrow> ('x heap, unit) act" where
  \<comment> \<open>\<open>setattr(a, k, v)\<close> of an instance without hooks\<close>
  "heap_setattr n L a k v h =
     (case (h ! a, h ! k) of
        (PInst cls attrs, PStr s) \<Rightarrow> heap_setitem n L attrs k v h
      | (_, PStr s) \<Rightarrow> (Inl AttributeError, h)
      | _ \<Rightarrow> (Inl TypeError, h))"

definition keeps_heap :: "'x heap \<Rightarrow> ('a res \<times> 'x heap) \<Rightarrow> ('a \<Rightarrow> nat set) \<Rightarrow> bool" where
  "keeps_heap h = (\<lambda>(r, h') R. heap_ok h' \<and> length h \<le> length h' \<and>
     (case r of Inr a \<Rightarrow> R a \<subseteq> {..<length h'} | Inl e \<Rightarrow> True))"

lemma heap_setitem_keeps:
  fixes h :: "'x heap"
  assumes h: "heap_ok h" and a: "a < length h" "k < length h" "v < length h"
  shows "keeps_heap h (heap_setitem n L a k v h) (\<lambda>_. {})"
proof (cases "h ! a")
  case (PDict d)
  note r = heap_ok_nth [OF h a(1)]
  have "set (refs (PDict d' :: ('x, nat) pyobj)) \<subseteq> {..<length h}" if "dict_update n L h d k v = Inr d'" for d'
    using dict_update_refs [OF that] a(2,3) r unfolding PDict by blast
  then show ?thesis using h PDict
    by (auto simp: heap_setitem_def keeps_heap_def simp del: refs.simps split: sum.split intro!: heap_ok_update)
next
  case (PList xs)
  have "set (xs[nat i := v]) \<subseteq> {..<length h}" for i
    using heap_ok_nth [OF h a(1)] PList a(3) set_update_subset_insert [of xs "nat i" v] by auto
  then have "heap_ok (h[a := PList (xs[nat i := v])])" for i by (intro heap_ok_update [OF h]) simp
  with h PList show ?thesis by (auto simp: heap_setitem_def keeps_heap_def Let_def split: pyobj.split)
qed (use h in \<open>simp_all add: heap_setitem_def keeps_heap_def\<close>)

lemma heap_setattr_keeps:
  fixes h :: "'x heap"
  assumes h: "heap_ok h" and a: "a < length h" "k < length h" "v < length h"
  shows "keeps_heap h (heap_setattr n L a k v h) (\<lambda>_. {})"
proof -
  have "keeps_heap h (heap_setitem n L attrs k v h) (\<lambda>_. {})" if "h ! a = PInst cls attrs" for cls attrs
    using heap_ok_nth [OF h a(1)] that by (intro heap_setitem_keeps [OF h _ a(2,3)]) simp
  moreover have "keeps_heap h (Inl e, h) (\<lambda>_. {})" for e :: pyexc using h by (simp add: keeps_heap_def)
  ultimately show ?thesis unfolding heap_setattr_def by (cases "h ! a"; cases "h ! k") simp_all
qed

subsection \<open>Keys in related heaps\<close>

text \<open>
  Two heaps whose addresses are related so that related objects, containers perhaps apart, are equal
  up to the relation: equal objects have equal keys.
\<close>

lemma map_res_transfer:
  assumes "list_all2 R xs ys" "map_res f xs = Inr ks" "\<And>x y k. R x y \<Longrightarrow> f x = Inr k \<Longrightarrow> g y = Inr k"
  shows "map_res g ys = Inr ks"
  using assms(1,2)
proof (induction arbitrary: ks rule: list_all2_induct)
  case (Cons x xs y ys)
  from Cons.prems obtain k ks' where "f x = Inr k" "map_res f xs = Inr ks'" "ks = k # ks'"
    by (auto simp: bindR_Inr_iff)
  with Cons.IH assms(3) Cons.hyps(1) show ?case by simp
qed simp

lemma key_related:
  assumes rel: "\<And>a b. R a b \<Longrightarrow> \<not> container (hs ! a) \<Longrightarrow> a < length hs \<and> rel_pyobj (=) R (hs ! a) (ht ! b)"
    and d: "data_only hs"
  shows "R a b \<Longrightarrow> key_of n L hs a = Inr k \<Longrightarrow> key_of n L ht b = Inr k"
proof (induction n arbitrary: a b k)
  case (Suc n)
  have "\<not> container (hs ! a)" using Suc.prems(2) by (auto simp: container_def split: pyobj.splits)
  from rel [OF Suc.prems(1) this] have len: "a < length hs" and rel: "rel_pyobj (=) R (hs ! a) (ht ! b)" by simp_all
  show ?case
  proof (cases "hs ! a")
    case (PTuple xs)
    with rel obtain ys where ys: "ht ! b = PTuple ys" "list_all2 R xs ys" by (cases "ht ! b") auto
    from Suc.prems(2) PTuple obtain ks where ks: "map_res (key_of n L hs) xs = Inr ks" "k = KTuple ks"
      by (auto simp: bindR_Inr_iff)
    from map_res_transfer [OF ys(2) ks(1) Suc.IH] ys(1) ks(2) show ?thesis by simp
  qed (use rel Suc.prems(2) d len in \<open>cases "ht ! b"; auto simp: data_only_def split: option.splits\<close>)+
qed simp

lemma keys_related:
  assumes "\<And>a b. R a b \<Longrightarrow> \<not> container (hs ! a) \<Longrightarrow> a < length hs \<and> rel_pyobj (=) R (hs ! a) (ht ! b)"
    and "data_only hs" and rel: "list_all2 (rel_prod R R) items ps" and keys: "distinct_keys n L hs items"
  shows "distinct_keys n L ht ps"
proof -
  have "map (\<lambda>(k, v). key_of n L ht k) ps = map (\<lambda>(k, v). key_of n L hs k) items \<and>
      list_all (\<lambda>(k, v). \<not> isl (key_of n L ht k)) ps"
    using rel keys
  proof (induction rule: list_all2_induct)
    case (Cons kv items pq ps)
    obtain k v p q where kv: "kv = (k, v)" "pq = (p, q)" by fastforce
    with Cons.hyps(1) have R: "R k p" by simp
    from Cons.prems kv obtain kk where kk: "key_of n L hs k = Inr kk"
      by (cases "key_of n L hs k") (auto simp: distinct_keys_def)
    from key_related [OF assms(1,2) R kk] kk Cons.IH Cons.prems kv show ?case by (simp add: distinct_keys_def)
  qed simp
  with keys show ?thesis by (simp add: distinct_keys_def)
qed

end
