(* ===== verification/Copy.thy ===== *)
theory Copy
  imports Py_Heap
begin

section \<open>\<open>Lib/copy.py\<close>: copies of objects\<close>

text \<open>
  Shallow copies are actions on the heap, deep copies on the heap and the memo, a map from addresses
  to the addresses of copies.  The methods of instances and of other objects are parameters in
  \<open>copy_env\<close>.  The first argument of \<open>deepcopy\<close> is the depth of recursion the interpreter
  allows, the argument \<open>n\<close> that of the hash of a key.
\<close>

record 'x cstate =
  c_memo :: "nat \<Rightarrow> nat option"
  c_heap :: "'x heap"

type_synonym ('x, 'a) copying = "('x cstate, 'a) act"

record 'x copy_env =
  ce_lits :: "'x literals"
  ce_copy :: "nat \<Rightarrow> ('x heap, nat) act option" \<comment> \<open>\<open>__copy__\<close>, if there is one\<close>
  ce_deepcopy :: "nat \<Rightarrow> (bool \<Rightarrow> ('x, nat) copying) option" \<comment> \<open>\<open>__deepcopy__\<close>, given the memo or not\<close>
  ce_initargs :: "nat \<Rightarrow> ('x heap, nat) act option"
  ce_apply :: "nat \<Rightarrow> nat option \<Rightarrow> ('x heap, nat) act" \<comment> \<open>a class and the tuple of arguments, or none\<close>
  ce_getstate :: "nat \<Rightarrow> ('x heap, nat) act option"
  ce_setstate :: "nat \<Rightarrow> (nat \<Rightarrow> ('x heap, unit) act) option"

definition copy_error :: "string \<Rightarrow> string \<Rightarrow> pyexc" where
  "copy_error what tname = ModError ''copy.error'' (what @ ''copyable object of type <type '' @ [SQUOTE] @ tname @ [SQUOTE] @ ''>'')"

definition heap_new :: "('x, nat) pyobj \<Rightarrow> ('x heap, nat) act" where
  "heap_new ob h = (Inr (length h), h @ [ob])"

definition set_attrs :: "nat \<Rightarrow> 'x literals \<Rightarrow> nat \<Rightarrow> nat \<Rightarrow> ('x heap, unit) act" where
  \<comment> \<open>\<open>for key in state.keys(): setattr(y, key, state[key])\<close>\<close>
  "set_attrs n L y state = (\<lambda>h. case h ! state of
     PDict items \<Rightarrow> forA (\<lambda>(k, v). heap_setattr n L y k v) items h
   | _ \<Rightarrow> (Inl AttributeError, h))"

subsection \<open>Shallow copies\<close>

definition copy_atomic :: "nat \<Rightarrow> ('x heap, nat) act" where
  "copy_atomic x = retA x"

definition copy_list :: "nat list \<Rightarrow> ('x heap, nat) act" where
  "copy_list xs = heap_new (PList xs)"

definition copy_tuple :: "nat \<Rightarrow> ('x heap, nat) act" where
  \<comment> \<open>the whole slice of a tuple is the tuple\<close>
  "copy_tuple x = retA x"

definition copy_dict :: "nat \<Rightarrow> 'x literals \<Rightarrow> (nat \<times> nat) list \<Rightarrow> ('x heap, nat) act" where
  "copy_dict n L items =
     bindA (heap_new (PDict [])) (\<lambda>y. thenA (forA (\<lambda>(k, v). heap_setitem n L y k v) items) (retA y))"

definition copy_inst :: "nat \<Rightarrow> 'x copy_env \<Rightarrow> nat \<Rightarrow> nat \<Rightarrow> nat \<Rightarrow> ('x heap, nat) act" where
  "copy_inst n E x cls attrs =
     (case ce_copy E x of
        Some m \<Rightarrow> m
      | None \<Rightarrow>
          bindA (case ce_initargs E x of Some m \<Rightarrow> bindA m (\<lambda>a. retA (Some a)) | None \<Rightarrow> retA None) (\<lambda>args.
          bindA (ce_apply E cls args) (\<lambda>y.
          bindA (case ce_getstate E x of Some m \<Rightarrow> m | None \<Rightarrow> retA attrs) (\<lambda>state.
          thenA (case ce_setstate E y of Some m \<Rightarrow> m state | None \<Rightarrow> set_attrs n (ce_lits E) y state)
            (retA y)))))"

definition py_copy :: "nat \<Rightarrow> 'x copy_env \<Rightarrow> nat \<Rightarrow> ('x heap, nat) act" where
  "py_copy n E x h =
     (case h ! x of
        PList xs \<Rightarrow> copy_list xs h
      | PTuple xs \<Rightarrow> copy_tuple x h
      | PDict items \<Rightarrow> copy_dict n (ce_lits E) items h
      | PInst cls attrs \<Rightarrow> copy_inst n E x cls attrs h
      | POther tname \<Rightarrow> (case ce_copy E x of Some m \<Rightarrow> m h | None \<Rightarrow> (Inl (copy_error ''un(shallow)'' tname), h))
      | _ \<Rightarrow> copy_atomic x h)"

subsection \<open>Deep copies\<close>

definition on_heap :: "('x heap, 'a) act \<Rightarrow> ('x, 'a) copying" where
  "on_heap m s = (let (r, h) = m (c_heap s) in (r, s\<lparr>c_heap := h\<rparr>))"

definition c_remember :: "nat \<Rightarrow> nat \<Rightarrow> ('x, unit) copying" where
  \<comment> \<open>\<open>memo[id(x)] = y\<close>\<close>
  "c_remember x y = updA (\<lambda>s. s\<lparr>c_memo := (c_memo s)(x \<mapsto> y)\<rparr>)"

definition c_append :: "nat \<Rightarrow> nat \<Rightarrow> ('x, unit) copying" where
  "c_append y b = updA (\<lambda>s. s\<lparr>c_heap := (c_heap s)[y := (case c_heap s ! y of PList ys \<Rightarrow> PList (ys @ [b]) | ob \<Rightarrow> ob)]\<rparr>)"

primrec mapA :: "('a \<Rightarrow> ('s, 'b) act) \<Rightarrow> 'a list \<Rightarrow> ('s, 'b list) act" where
  "mapA f [] = retA []"
| "mapA f (x # xs) = bindA (f x) (\<lambda>y. bindA (mapA f xs) (\<lambda>ys. retA (y # ys)))"

text \<open>The functions that copy components take \<open>deepcopy\<close> as their argument \<open>dc\<close>.\<close>

definition deepcopy_atomic :: "nat \<Rightarrow> ('x, nat) copying" where
  "deepcopy_atomic x = retA x"

definition deepcopy_list :: "(nat \<Rightarrow> ('x, nat) copying) \<Rightarrow> nat \<Rightarrow> nat list \<Rightarrow> ('x, nat) copying" where
  "deepcopy_list dc x xs =
     bindA (on_heap (heap_new (PList []))) (\<lambda>y.
       thenA (c_remember x y) (thenA (forA (\<lambda>a. bindA (dc a) (c_append y)) xs) (retA y)))"

definition deepcopy_tuple :: "(nat \<Rightarrow> ('x, nat) copying) \<Rightarrow> nat \<Rightarrow> nat list \<Rightarrow> ('x, nat) copying" where
  "deepcopy_tuple dc x xs =
     bindA (mapA dc xs) (\<lambda>ys.
     bindA (getA (\<lambda>s. c_memo s x)) (\<lambda>m.
       case m of
         Some y \<Rightarrow> retA y
       | None \<Rightarrow>
           bindA (if xs \<noteq> ys then on_heap (heap_new (PTuple ys)) else retA x) (\<lambda>y.
             thenA (c_remember x y) (retA y))))"

definition deepcopy_dict ::
  "nat \<Rightarrow> 'x literals \<Rightarrow> (nat \<Rightarrow> ('x, nat) copying) \<Rightarrow> nat \<Rightarrow> (nat \<times> nat) list \<Rightarrow> ('x, nat) copying" where
  \<comment> \<open>the value is evaluated before the key\<close>
  "deepcopy_dict n L dc x items =
     bindA (on_heap (heap_new (PDict []))) (\<lambda>y.
       thenA (c_remember x y)
         (thenA (forA (\<lambda>(k, v). bindA (dc v) (\<lambda>v'. bindA (dc k) (\<lambda>k'. on_heap (heap_setitem n L y k' v')))) items)
           (retA y)))"

definition deepcopy_inst ::
  "nat \<Rightarrow> 'x copy_env \<Rightarrow> (nat \<Rightarrow> ('x, nat) copying) \<Rightarrow> nat \<Rightarrow> nat \<Rightarrow> nat \<Rightarrow> ('x, nat) copying" where
  "deepcopy_inst n E dc x cls attrs =
     (case ce_deepcopy E x of
        Some m \<Rightarrow> m False
      | None \<Rightarrow>
          bindA (case ce_initargs E x of
              Some m \<Rightarrow> bindA (on_heap m) (\<lambda>a. bindA (dc a) (\<lambda>b. retA (Some b)))
            | None \<Rightarrow> retA None) (\<lambda>args.
          bindA (on_heap (ce_apply E cls args)) (\<lambda>y.
          thenA (c_remember x y)
          (bindA (case ce_getstate E x of Some m \<Rightarrow> on_heap m | None \<Rightarrow> retA attrs) (\<lambda>state.
          bindA (dc state) (\<lambda>state.
          thenA (on_heap (case ce_setstate E y of Some m \<Rightarrow> m state | None \<Rightarrow> set_attrs n (ce_lits E) y state))
            (retA y)))))))"

primrec deepcopy :: "nat \<Rightarrow> nat \<Rightarrow> 'x copy_env \<Rightarrow> nat \<Rightarrow> ('x, nat) copying" where
  "deepcopy 0 n E x = raiseA RuntimeError"
| "deepcopy (Suc d) n E x =
     bindA (getA (\<lambda>s. c_memo s x)) (\<lambda>m.
       case m of
         Some y \<Rightarrow> retA y
       | None \<Rightarrow>
           bindA (getA (\<lambda>s. c_heap s ! x)) (\<lambda>ob.
           bindA (case ob of
               PList xs \<Rightarrow> deepcopy_list (deepcopy d n E) x xs
             | PTuple xs \<Rightarrow> deepcopy_tuple (deepcopy d n E) x xs
             | PDict items \<Rightarrow> deepcopy_dict n (ce_lits E) (deepcopy d n E) x items
             | PInst cls attrs \<Rightarrow> deepcopy_inst n E (deepcopy d n E) x cls attrs
             | PClass name \<Rightarrow>
                 (case ce_deepcopy E x of Some m \<Rightarrow> m True | None \<Rightarrow> raiseA (copy_error ''un-deep-'' ''class''))
             | POther tname \<Rightarrow>
                 (case ce_deepcopy E x of Some m \<Rightarrow> m True | None \<Rightarrow> raiseA (copy_error ''un-deep-'' tname))
             | _ \<Rightarrow> deepcopy_atomic x) (\<lambda>y.
           thenA (c_remember x y) (retA y))))"

definition deep_copy :: "nat \<Rightarrow> nat \<Rightarrow> 'x copy_env \<Rightarrow> nat \<Rightarrow> ('x heap, nat) act" where
  \<comment> \<open>\<open>deepcopy(x)\<close> with a new memo\<close>
  "deep_copy d n E x h =
     (let (r, s) = deepcopy d n E x \<lparr>c_memo = (\<lambda>_. None), c_heap = h\<rparr> in (r, c_heap s))"

subsection \<open>The copy has the shape of the original\<close>

text \<open>
  Cycles run through lists and dictionaries only: the rank of a component is at most that of the
  object, and lower when the object is a tuple.  There are no instances.
\<close>

definition copy_ok :: "nat \<Rightarrow> 'x literals \<Rightarrow> 'x heap \<Rightarrow> (nat \<Rightarrow> nat) \<Rightarrow> nat \<Rightarrow> bool" where
  "copy_ok n L h r a \<longleftrightarrow>
     list_all (\<lambda>c. c < length h \<and> (if container (h ! a) then r c \<le> r a else r c < r a)) (refs (h ! a)) \<and>
     (case h ! a of
        PDict items \<Rightarrow> distinct_keys n L h items
      | PInst cls attrs \<Rightarrow> False
      | PClass cname \<Rightarrow> False
      | POther tname \<Rightarrow> False
      | _ \<Rightarrow> True)"

definition copyable :: "nat \<Rightarrow> 'x literals \<Rightarrow> 'x heap \<Rightarrow> (nat \<Rightarrow> nat) \<Rightarrow> bool" where
  "copyable n L h r \<longleftrightarrow> list_all (copy_ok n L h r) [0..<length h]"

lemma copyable_node: "copyable n L h r \<Longrightarrow> a < length h \<Longrightarrow> copy_ok n L h r a"
  by (simp add: copyable_def list_all_iff)

lemma copyable_data_only: "copyable n L h r \<Longrightarrow> data_only h"
  unfolding data_only_def by (auto dest!: copyable_node simp: copy_ok_def split: pyobj.splits)

definition graph_of :: "('a \<Rightarrow> 'b option) \<Rightarrow> 'a \<Rightarrow> 'b \<Rightarrow> bool" where
  "graph_of m a b \<longleftrightarrow> m a = Some b"

text \<open>The original is untouched; what the memo knows is copied, the containers in \<open>P\<close> are being filled.\<close>

definition copy_inv :: "'x heap \<Rightarrow> nat set \<Rightarrow> 'x cstate \<Rightarrow> bool" where
  "copy_inv h P s \<longleftrightarrow>
     length h \<le> length (c_heap s) \<and> take (length h) (c_heap s) = h \<and> P \<subseteq> dom (c_memo s) \<and> (\<forall>a \<in> P. container (h ! a)) \<and>
     (\<forall>a b. c_memo s a = Some b \<longrightarrow> a < length h \<and> b < length (c_heap s) \<and> (b < length h \<longrightarrow> b = a \<and> \<not> container (h ! a)) \<and>
        (a \<notin> P \<longrightarrow> rel_pyobj (=) (graph_of (c_memo s)) (h ! a) (c_heap s ! b))) \<and>
     (\<forall>a a' b. c_memo s a = Some b \<longrightarrow> c_memo s a' = Some b \<longrightarrow> a = a')"

lemma copy_invI:
  assumes "length h \<le> length ht" "take (length h) ht = h" "P \<subseteq> dom m" "\<forall>a \<in> P. container (h ! a)"
    and "\<And>a b. m a = Some b \<Longrightarrow> a < length h \<and> b < length ht \<and> (b < length h \<longrightarrow> b = a \<and> \<not> container (h ! a)) \<and>
        (a \<notin> P \<longrightarrow> rel_pyobj (=) (graph_of m) (h ! a) (ht ! b))"
    and "\<And>a a' b. m a = Some b \<Longrightarrow> m a' = Some b \<Longrightarrow> a = a'"
  shows "copy_inv h P \<lparr>c_memo = m, c_heap = ht\<rparr>"
  unfolding copy_inv_def using assms by auto

lemma copy_inv_original: "copy_inv h P s \<Longrightarrow> a < length h \<Longrightarrow> c_heap s ! a = h ! a"
  unfolding copy_inv_def by (metis nth_take)

lemma copy_inv_memo:
  assumes "copy_inv h P s" "c_memo s a = Some b"
  shows "a < length h" "b < length (c_heap s)" "b < length h \<Longrightarrow> b = a \<and> \<not> container (h ! a)"
    "a \<notin> P \<Longrightarrow> rel_pyobj (=) (graph_of (c_memo s)) (h ! a) (c_heap s ! b)"
  using assms by (auto simp: copy_inv_def)

lemma copy_inv_inj: "copy_inv h P s \<Longrightarrow> c_memo s a = Some b \<Longrightarrow> c_memo s a' = Some b \<Longrightarrow> a = a'"
  by (auto simp: copy_inv_def)

lemma rel_obj_mono: "rel_pyobj (=) R u v \<Longrightarrow> R \<le> R' \<Longrightarrow> rel_pyobj (=) R' u v"
  using pyobj.rel_mono [of "(=)" "(=)" R R'] by blast

lemma graph_mono: "m \<subseteq>\<^sub>m m' \<Longrightarrow> graph_of m \<le> graph_of m'"
  by (auto simp: graph_of_def map_le_def dom_def)

lemma graph_list: "list_all2 (graph_of m) xs ys \<Longrightarrow> m \<subseteq>\<^sub>m m' \<Longrightarrow> list_all2 (graph_of m') xs ys"
  by (erule list_all2_mono) (auto simp: graph_of_def map_le_def dom_def)

lemma memo_le_upd: "m x = None \<Longrightarrow> m \<subseteq>\<^sub>m m(x \<mapsto> y)"
  by (auto simp: map_le_def dom_def)

lemma copy_inv_new:
  assumes inv: "copy_inv h P s" and x: "x < length h" "c_memo s x = None"
    and rel: "rel_pyobj (=) (graph_of (c_memo s)) (h ! x) ob \<and> Q = P \<or> container (h ! x) \<and> Q = insert x P"
  shows "copy_inv h Q \<lparr>c_memo = (c_memo s)(x \<mapsto> length (c_heap s)), c_heap = c_heap s @ [ob]\<rparr>"
proof -
  let ?m = "(c_memo s)(x \<mapsto> length (c_heap s))"
  have le: "graph_of (c_memo s) \<le> graph_of ?m" by (rule graph_mono [OF memo_le_upd [of "c_memo s", OF x(2)]])
  have fresh: "c_memo s a \<noteq> Some (length (c_heap s))" for a using copy_inv_memo(2) [OF inv] by fastforce
  have xP: "x \<notin> P" using inv x(2) by (auto simp: copy_inv_def dom_def)
  have len: "length h \<le> length (c_heap s)" using inv by (simp add: copy_inv_def)
  have rels: "a < length h \<and> b < length (c_heap s @ [ob]) \<and> (b < length h \<longrightarrow> b = a \<and> \<not> container (h ! a)) \<and>
      (a \<notin> Q \<longrightarrow> rel_pyobj (=) (graph_of ?m) (h ! a) ((c_heap s @ [ob]) ! b))" if "?m a = Some b" for a b
  proof (cases "a = x")
    case True
    with that x rel len show ?thesis by (auto intro: rel_obj_mono [OF _ le])
  next
    case False
    with that have ab: "c_memo s a = Some b" by simp
    from copy_inv_memo [OF inv ab] rel False show ?thesis
      by (auto simp: nth_append intro: rel_obj_mono [OF _ le])
  qed
  show ?thesis
  proof (rule copy_invI [OF _ _ _ _ rels])
    show "a = a'" if "?m a = Some b" "?m a' = Some b" for a a' b
      using that copy_inv_inj [OF inv] fresh by (auto split: if_splits)
  qed (use inv rel in \<open>auto simp: copy_inv_def\<close>)
qed

lemma copy_inv_same:
  assumes inv: "copy_inv h P s" and x: "x < length h" "c_memo s x = None" "\<not> container (h ! x)"
    and rel: "rel_pyobj (=) (graph_of (c_memo s)) (h ! x) (h ! x)"
  shows "copy_inv h P (s\<lparr>c_memo := (c_memo s)(x \<mapsto> x)\<rparr>)"
proof -
  let ?m = "(c_memo s)(x \<mapsto> x)"
  have le: "graph_of (c_memo s) \<le> graph_of ?m" by (rule graph_mono [OF memo_le_upd [of "c_memo s", OF x(2)]])
  have len: "length h \<le> length (c_heap s)" using inv by (simp add: copy_inv_def)
  have rels: "a < length h \<and> b < length (c_heap s) \<and> (b < length h \<longrightarrow> b = a \<and> \<not> container (h ! a)) \<and>
      (a \<notin> P \<longrightarrow> rel_pyobj (=) (graph_of ?m) (h ! a) (c_heap s ! b))" if "?m a = Some b" for a b
  proof (cases "a = x")
    case True
    with that have "b = x" by simp
    with True x rel_obj_mono [OF rel le] len copy_inv_original [OF inv x(1)] show ?thesis by simp
  next
    case False
    with that have ab: "c_memo s a = Some b" by simp
    from copy_inv_memo [OF inv ab] show ?thesis by (auto intro: rel_obj_mono [OF _ le])
  qed
  have "copy_inv h P \<lparr>c_memo = ?m, c_heap = c_heap s\<rparr>"
  proof (rule copy_invI [OF _ _ _ _ rels])
    show "a = a'" if "?m a = Some b" "?m a' = Some b" for a a' b
    proof -
      have "c_memo s c \<noteq> Some x" if "c \<noteq> x" for c using copy_inv_memo(3) [OF inv, of c x] x(1) that by auto
      with that copy_inv_inj [OF inv, of a b a'] show ?thesis by (auto split: if_splits)
    qed
  qed (use inv in \<open>auto simp: copy_inv_def\<close>)
  then show ?thesis by (cases s) simp
qed

lemma copy_inv_update:
  assumes inv: "copy_inv h P s" and x: "x \<in> P" "c_memo s x = Some y"
  shows "copy_inv h P (s\<lparr>c_heap := (c_heap s)[y := ob]\<rparr>)"
proof -
  have "container (h ! x)" using inv x(1) by (simp add: copy_inv_def)
  with copy_inv_memo(3) [OF inv x(2)] have y: "length h \<le> y" by force
  have "b \<noteq> y" if "c_memo s a = Some b" "a \<notin> P" for a b
    using copy_inv_inj [OF inv x(2)] that x(1) by metis
  then have "a \<notin> P \<longrightarrow> rel_pyobj (=) (graph_of (c_memo s)) (h ! a) ((c_heap s)[y := ob] ! b)" if "c_memo s a = Some b" for a b
    using copy_inv_memo(4) [OF inv that] that by (metis nth_list_update_neq)
  moreover have "take (length h) ((c_heap s)[y := ob]) = take (length h) (c_heap s)" using y by simp
  ultimately show ?thesis using inv unfolding copy_inv_def by simp
qed

lemma copy_inv_finish:
  assumes inv: "copy_inv h (insert x P) s" and x: "c_memo s x = Some y"
    and rel: "rel_pyobj (=) (graph_of (c_memo s)) (h ! x) (c_heap s ! y)"
  shows "copy_inv h P s"
proof -
  have "a \<notin> P \<longrightarrow> rel_pyobj (=) (graph_of (c_memo s)) (h ! a) (c_heap s ! b)" if "c_memo s a = Some b" for a b
    using copy_inv_memo(4) [OF inv that] x rel that by (cases "a = x") auto
  then show ?thesis using inv unfolding copy_inv_def by simp
qed

subsection \<open>Deep copies are copies\<close>

text \<open>
  What is known of a call on an object: it returns the copy, which the memo then holds, and only
  adds to memo and heap.  \<open>N\<close> bounds the number of objects that are not in the memo.
\<close>

definition extends :: "'x cstate \<Rightarrow> 'x cstate \<Rightarrow> bool" where
  "extends s t \<longleftrightarrow> c_memo s \<subseteq>\<^sub>m c_memo t \<and> (\<exists>e. c_heap t = c_heap s @ e)"

definition free_card :: "'x heap \<Rightarrow> 'x cstate \<Rightarrow> nat" where
  "free_card h s = card ({..<length h} - dom (c_memo s))"

definition copies :: "'x heap \<Rightarrow> nat \<Rightarrow> ('x, nat) copying \<Rightarrow> nat \<Rightarrow> bool" where
  "copies h N act x \<longleftrightarrow> (\<forall>P s. copy_inv h P s \<longrightarrow> free_card h s \<le> N \<longrightarrow>
     (\<exists>y s'. act s = (Inr y, s') \<and> copy_inv h P s' \<and> extends s s' \<and> c_memo s' x = Some y))"

lemma copiesE:
  assumes "copies h N act x" "copy_inv h P s" "free_card h s \<le> N"
  obtains y s' where "act s = (Inr y, s')" "copy_inv h P s'" "extends s s'" "c_memo s' x = Some y"
  using assms unfolding copies_def by blast

lemma extends_refl: "extends s s"
  by (simp add: extends_def)

lemma extends_trans: "extends s t \<Longrightarrow> extends t u \<Longrightarrow> extends s u"
  unfolding extends_def by (metis append.assoc map_le_trans)

lemma extends_free: "extends s t \<Longrightarrow> free_card h t \<le> free_card h s"
  unfolding extends_def free_card_def by (intro card_mono) (auto dest: map_le_implies_dom_le)

lemma extends_memo: "extends s t \<Longrightarrow> c_memo s x = Some y \<Longrightarrow> c_memo t x = Some y"
  by (auto simp: extends_def map_le_def dom_def)

lemma extends_heap: "extends s t \<Longrightarrow> y < length (c_heap s) \<Longrightarrow> c_heap t ! y = c_heap s ! y \<and> length (c_heap s) \<le> length (c_heap t)"
  by (auto simp: extends_def nth_append)

lemma extends_graph: "extends s t \<Longrightarrow> graph_of (c_memo s) \<le> graph_of (c_memo t)"
  by (simp add: extends_def graph_mono)

lemma extends_list: "extends s t \<Longrightarrow> list_all2 (graph_of (c_memo s)) xs ys \<Longrightarrow> list_all2 (graph_of (c_memo t)) xs ys"
  by (auto simp: extends_def intro: graph_list)

lemma copies_weaken: "copies h N act x \<Longrightarrow> N' \<le> N \<Longrightarrow> copies h N' act x"
  unfolding copies_def using le_trans by blast

lemma copies_mapA:
  "list_all (\<lambda>x. copies h N (dc x) x) xs \<Longrightarrow> copy_inv h P s \<Longrightarrow> free_card h s \<le> N \<Longrightarrow>
    \<exists>ys s'. mapA dc xs s = (Inr ys, s') \<and> copy_inv h P s' \<and> extends s s' \<and> list_all2 (graph_of (c_memo s')) xs ys"
proof (induction xs arbitrary: s)
  case Nil
  then show ?case by (simp add: extends_refl)
next
  case (Cons x xs)
  from Cons.prems(1) have "copies h N (dc x) x" by simp
  from copiesE [OF this Cons.prems(2,3)] obtain y s1 where
    1: "dc x s = (Inr y, s1)" "copy_inv h P s1" "extends s s1" "c_memo s1 x = Some y" .
  from Cons.IH [of s1] Cons.prems(1,3) 1(2) extends_free [OF 1(3), of h] obtain ys s2 where
    2: "mapA dc xs s1 = (Inr ys, s2)" "copy_inv h P s2" "extends s1 s2" "list_all2 (graph_of (c_memo s2)) xs ys" by auto
  from extends_memo [OF 2(3) 1(4)] have "graph_of (c_memo s2) x y" by (simp add: graph_of_def)
  with 1(1) 2 extends_trans [OF 1(3) 2(3)] show ?case by (simp add: bindA_def)
qed

text \<open>Filling a container: the cells other than its own stay.\<close>

definition fills_cell :: "'x heap \<Rightarrow> nat \<Rightarrow> 'x cstate \<Rightarrow> 'x cstate \<Rightarrow> bool" where
  "fills_cell h y s t \<longleftrightarrow> c_memo s \<subseteq>\<^sub>m c_memo t \<and> length (c_heap s) \<le> length (c_heap t) \<and>
     (\<forall>i < length (c_heap s). i \<noteq> y \<longrightarrow> c_heap t ! i = c_heap s ! i)"

lemma fills_cell_trans: "fills_cell h y s t \<Longrightarrow> fills_cell h y t u \<Longrightarrow> fills_cell h y s u"
  unfolding fills_cell_def by (auto intro: map_le_trans)

lemma extends_fills: "extends s t \<Longrightarrow> fills_cell h y s t"
  by (auto simp: extends_def fills_cell_def nth_append)

lemma fills_update: "extends s t \<Longrightarrow> fills_cell h y s (t\<lparr>c_heap := (c_heap t)[y := ob]\<rparr>)"
  by (auto simp: extends_def fills_cell_def nth_append)

text \<open>One step of the loop that fills: copies of a group of components, then an update of the cell.\<close>

definition fill_step :: "'x heap \<Rightarrow> nat \<Rightarrow> nat \<Rightarrow> ((nat \<Rightarrow> nat \<Rightarrow> bool) \<Rightarrow> 'i list \<Rightarrow> ('x, nat) pyobj \<Rightarrow> bool) \<Rightarrow>
    ('i \<Rightarrow> ('x, unit) copying) \<Rightarrow> 'i list \<Rightarrow> 'i \<Rightarrow> nat \<Rightarrow> bool" where
  "fill_step h N x H body ds i y \<longleftrightarrow> (\<forall>P s. copy_inv h P s \<longrightarrow> x \<in> P \<longrightarrow> free_card h s \<le> N \<longrightarrow> c_memo s x = Some y \<longrightarrow>
     H (graph_of (c_memo s)) ds (c_heap s ! y) \<longrightarrow>
     (\<exists>s'. body i s = (Inr (), s') \<and> copy_inv h P s' \<and> fills_cell h y s s' \<and> free_card h s' \<le> N \<and>
        H (graph_of (c_memo s')) (ds @ [i]) (c_heap s' ! y)))"

lemma fill_loop:
  assumes "\<And>ds i js. items = ds @ i # js \<Longrightarrow> fill_step h N x H body ds i y"
  shows "items = ds @ rest \<Longrightarrow> copy_inv h P s \<Longrightarrow> x \<in> P \<Longrightarrow> free_card h s \<le> N \<Longrightarrow> c_memo s x = Some y \<Longrightarrow>
    H (graph_of (c_memo s)) ds (c_heap s ! y) \<Longrightarrow>
    \<exists>s'. forA body rest s = (Inr (), s') \<and> copy_inv h P s' \<and> fills_cell h y s s' \<and> H (graph_of (c_memo s')) items (c_heap s' ! y)"
proof (induction rest arbitrary: ds s)
  case Nil
  then show ?case using extends_fills [OF extends_refl] by fastforce
next
  case (Cons i rest)
  from assms [OF Cons.prems(1)] Cons.prems obtain s1 where
    1: "body i s = (Inr (), s1)" "copy_inv h P s1" "fills_cell h y s s1" "free_card h s1 \<le> N"
      "H (graph_of (c_memo s1)) (ds @ [i]) (c_heap s1 ! y)" unfolding fill_step_def by blast
  have "c_memo s1 x = Some y" using 1(3) Cons.prems(5) by (auto simp: fills_cell_def map_le_def dom_def)
  with Cons.IH [of "ds @ [i]" s1] Cons.prems(1,3) 1 obtain s2 where
    2: "forA body rest s1 = (Inr (), s2)" "copy_inv h P s2" "fills_cell h y s1 s2" "H (graph_of (c_memo s2)) items (c_heap s2 ! y)"
    by auto
  with 1(1) fills_cell_trans [OF 1(3) 2(3)] show ?case by simp
qed

lemma free_card_new:
  assumes "x < length h" "c_memo s x = None" "c_memo t = (c_memo s)(x \<mapsto> y)"
  shows "free_card h t < free_card h s"
  unfolding free_card_def using assms by (intro psubset_card_mono) (auto simp: dom_def)

lemma container_copies:
  assumes inv: "copy_inv h P s" and x: "x < length h" "container (h ! x)" "c_memo s x = None" and N: "free_card h s \<le> Suc N"
    and start: "\<And>R. H R [] ob"
    and step: "\<And>y ds i js. items = ds @ i # js \<Longrightarrow> fill_step h N x H (body y) ds i y"
    and final: "\<And>R ob. H R items ob \<Longrightarrow> rel_pyobj (=) R (h ! x) ob"
  shows "\<exists>y s'. bindA (on_heap (heap_new ob)) (\<lambda>y. thenA (c_remember x y) (thenA (forA (body y) items) (retA y))) s = (Inr y, s') \<and>
    copy_inv h P s' \<and> extends s s' \<and> c_memo s' x = Some y"
proof -
  let ?y = "length (c_heap s)"
  let ?s1 = "\<lparr>c_memo = (c_memo s)(x \<mapsto> ?y), c_heap = c_heap s @ [ob]\<rparr>"
  have 1: "thenA (c_remember x ?y) (thenA (forA (body ?y) items) (retA ?y)) (s\<lparr>c_heap := c_heap s @ [ob]\<rparr>) =
      thenA (forA (body ?y) items) (retA ?y) ?s1" by (cases s) (simp add: c_remember_def)
  have inv1: "copy_inv h (insert x P) ?s1" using x(2) by (intro copy_inv_new [OF inv x(1,3)]) simp
  have N1: "free_card h ?s1 \<le> N" using free_card_new [OF x(1,3), of ?s1 ?y] N by simp
  have "\<exists>s'. forA (body ?y) items ?s1 = (Inr (), s') \<and> copy_inv h (insert x P) s' \<and> fills_cell h ?y ?s1 s' \<and>
      H (graph_of (c_memo s')) items (c_heap s' ! ?y)"
  proof (rule fill_loop [where N = N and x = x and ds = "[]"])
    show "fill_step h N x H (body ?y) ds i ?y" if "items = ds @ i # js" for ds i js by (rule step [OF that])
    show "copy_inv h (insert x P) ?s1" by (rule inv1)
    show "free_card h ?s1 \<le> N" by (rule N1)
  qed (use start in simp_all)
  then obtain s2 where
    2: "forA (body ?y) items ?s1 = (Inr (), s2)" "copy_inv h (insert x P) s2" "fills_cell h ?y ?s1 s2"
      "H (graph_of (c_memo s2)) items (c_heap s2 ! ?y)" by blast
  have m: "c_memo s2 x = Some ?y" using 2(3) by (auto simp: fills_cell_def map_le_def)
  have inv2: "copy_inv h P s2" by (rule copy_inv_finish [OF 2(2) m final [OF 2(4)]])
  have "take ?y (c_heap s2) = c_heap s"
    using 2(3) by (intro nth_equalityI) (auto simp: fills_cell_def nth_append)
  then have "c_heap s2 = c_heap s @ drop ?y (c_heap s2)" by (metis append_take_drop_id)
  moreover have "c_memo s \<subseteq>\<^sub>m c_memo s2"
    using 2(3) map_le_trans [OF memo_le_upd [of "c_memo s", OF x(3)]] by (auto simp: fills_cell_def)
  ultimately have "extends s s2" unfolding extends_def by blast
  moreover have "bindA (on_heap (heap_new ob)) (\<lambda>y. thenA (c_remember x y) (thenA (forA (body y) items) (retA y))) s =
      (Inr ?y, s2)"
    using 1 2(1) by (simp add: bindA_def on_heap_def heap_new_def)
  ultimately show ?thesis using inv2 m by blast
qed

definition copied_list :: "(nat \<Rightarrow> nat \<Rightarrow> bool) \<Rightarrow> nat list \<Rightarrow> ('x, nat) pyobj \<Rightarrow> bool" where
  "copied_list R xs ob \<longleftrightarrow> (case ob of PList ys \<Rightarrow> list_all2 R xs ys | _ \<Rightarrow> False)"

lemma list_fill_step:
  fixes h :: "'x heap"
  assumes c: "copies h N (dc c) c"
  shows "fill_step h N x copied_list (\<lambda>a. bindA (dc a) (c_append y)) ds c y"
  unfolding fill_step_def
proof (intro allI impI)
  fix P and s :: "'x cstate"
  assume inv: "copy_inv h P s" and x: "x \<in> P" "c_memo s x = Some y" and N: "free_card h s \<le> N"
    and H: "copied_list (graph_of (c_memo s)) ds (c_heap s ! y)"
  from copiesE [OF c inv N] obtain b t where t: "dc c s = (Inr b, t)" "copy_inv h P t" "extends s t" "c_memo t c = Some b" .
  have y: "y < length (c_heap s)" by (rule copy_inv_memo(2) [OF inv x(2)])
  from H obtain ys where ys: "c_heap s ! y = PList ys" "list_all2 (graph_of (c_memo s)) ds ys"
    by (auto simp: copied_list_def split: pyobj.splits)
  have ty: "c_heap t ! y = PList ys" "y < length (c_heap t)" using extends_heap [OF t(3) y] ys(1) y by auto
  let ?t = "t\<lparr>c_heap := (c_heap t)[y := PList (ys @ [b])]\<rparr>"
  have "bindA (dc c) (c_append y) s = (Inr (), ?t)" using t(1) ty(1) by (simp add: c_append_def)
  moreover have "copy_inv h P ?t" by (rule copy_inv_update [OF t(2) x(1) extends_memo [OF t(3) x(2)]])
  moreover have "free_card h ?t \<le> N" using extends_free [OF t(3), of h] N by (simp add: free_card_def)
  moreover have "list_all2 (graph_of (c_memo t)) (ds @ [c]) (ys @ [b])"
    using extends_list [OF t(3) ys(2)] t(4)
    by (intro list_all2_appendI) (auto simp: graph_of_def)
  ultimately show "\<exists>s'. bindA (dc c) (c_append y) s = (Inr (), s') \<and> copy_inv h P s' \<and> fills_cell h y s s' \<and>
      free_card h s' \<le> N \<and> copied_list (graph_of (c_memo s')) (ds @ [c]) (c_heap s' ! y)"
    using fills_update [OF t(3)] ty(2) by (intro exI [of _ ?t]) (simp add: copied_list_def)
qed

definition copied_dict :: "(nat \<Rightarrow> nat \<Rightarrow> bool) \<Rightarrow> (nat \<times> nat) list \<Rightarrow> ('x, nat) pyobj \<Rightarrow> bool" where
  "copied_dict R items ob \<longleftrightarrow> (case ob of PDict ps \<Rightarrow> list_all2 (rel_prod R R) items ps | _ \<Rightarrow> False)"

lemma dict_fill_step:
  fixes h :: "'x heap"
  assumes c: "copies h N (dc k) k" "copies h N (dc v) v" and keys: "distinct_keys n L h (ds @ [(k, v)])" and d: "data_only h"
  shows "fill_step h N x copied_dict
    (\<lambda>(k, v). bindA (dc v) (\<lambda>v'. bindA (dc k) (\<lambda>k'. on_heap (heap_setitem n L y k' v')))) ds (k, v) y"
  unfolding fill_step_def prod.case
proof (intro allI impI)
  fix P and s :: "'x cstate"
  assume inv: "copy_inv h P s" and x: "x \<in> P" "c_memo s x = Some y" and N: "free_card h s \<le> N"
    and H: "copied_dict (graph_of (c_memo s)) ds (c_heap s ! y)"
  from copiesE [OF c(2) inv N] obtain v' t where t: "dc v s = (Inr v', t)" "copy_inv h P t" "extends s t" "c_memo t v = Some v'" .
  have "free_card h t \<le> N" using extends_free [OF t(3), of h] N by simp
  from copiesE [OF c(1) t(2) this] obtain k' u where u: "dc k t = (Inr k', u)" "copy_inv h P u" "extends t u" "c_memo u k = Some k'" .
  note su = extends_trans [OF t(3) u(3)]
  have y: "y < length (c_heap s)" by (rule copy_inv_memo(2) [OF inv x(2)])
  from H obtain ps where ps: "c_heap s ! y = PDict ps" "list_all2 (rel_prod (graph_of (c_memo s)) (graph_of (c_memo s))) ds ps"
    by (auto simp: copied_dict_def split: pyobj.splits)
  have uy: "c_heap u ! y = PDict ps" "y < length (c_heap u)" using extends_heap [OF su y] ps(1) y by auto
  let ?G = "graph_of (c_memo u)"
  have "list_all2 (rel_prod ?G ?G) ds ps"
    using list_all2_mono [OF ps(2)] extends_graph [OF su] prod.rel_mono [of _ ?G _ ?G] by blast
  then have rel: "list_all2 (rel_prod ?G ?G) (ds @ [(k, v)]) (ps @ [(k', v')])"
    using u(4) extends_memo [OF u(3) t(4)] by (intro list_all2_appendI) (auto simp: graph_of_def)
  have "distinct_keys n L (c_heap u) (ps @ [(k', v')])"
  proof (rule keys_related [OF _ d rel keys])
    fix a b assume "?G a b" "\<not> container (h ! a)"
    with copy_inv_memo [OF u(2), of a b] u(2) show "a < length h \<and> rel_pyobj (=) ?G (h ! a) (c_heap u ! b)"
      by (auto simp: graph_of_def copy_inv_def)
  qed
  from distinct_keys_snoc [OF this] have up: "dict_update n L (c_heap u) ps k' v' = Inr (ps @ [(k', v')])" .
  let ?u = "u\<lparr>c_heap := (c_heap u)[y := PDict (ps @ [(k', v')])]\<rparr>"
  have "bindA (dc v) (\<lambda>v'. bindA (dc k) (\<lambda>k'. on_heap (heap_setitem n L y k' v'))) s = (Inr (), ?u)"
    using t(1) u(1) uy(1) up by (simp add: on_heap_def heap_setitem_def)
  moreover have "copy_inv h P ?u" by (rule copy_inv_update [OF u(2) x(1) extends_memo [OF su x(2)]])
  moreover have "free_card h ?u \<le> N" using extends_free [OF su, of h] N by (simp add: free_card_def)
  ultimately show "\<exists>s'. bindA (dc v) (\<lambda>v'. bindA (dc k) (\<lambda>k'. on_heap (heap_setitem n L y k' v'))) s = (Inr (), s') \<and>
      copy_inv h P s' \<and> fills_cell h y s s' \<and> free_card h s' \<le> N \<and>
      copied_dict (graph_of (c_memo s')) (ds @ [(k, v)]) (c_heap s' ! y)"
    using fills_update [OF su] uy(2) rel by (intro exI [of _ ?u]) (simp add: copied_dict_def)
qed

lemma tuple_copies:
  assumes inv: "copy_inv h P s" and x: "x < length h" "h ! x = PTuple xs" "c_memo s x = None"
    and N: "free_card h s \<le> N" and items: "list_all (\<lambda>c. copies h N (dc c) c) xs"
  shows "\<exists>y s'. deepcopy_tuple dc x xs s = (Inr y, s') \<and> copy_inv h P s' \<and> extends s s' \<and> c_memo s' x = Some y"
proof -
  from copies_mapA [OF items inv N] obtain ys t where
    t: "mapA dc xs s = (Inr ys, t)" "copy_inv h P t" "extends s t" "list_all2 (graph_of (c_memo t)) xs ys" by blast
  show ?thesis
  proof (cases "c_memo t x")
    case (Some y)
    with t show ?thesis by (simp add: deepcopy_tuple_def)
  next
    case None
    have nc: "\<not> container (h ! x)" using x(2) by (simp add: container_def)
    show ?thesis
    proof (cases "xs = ys")
      case True
      let ?t = "t\<lparr>c_memo := (c_memo t)(x \<mapsto> x)\<rparr>"
      have "rel_pyobj (=) (graph_of (c_memo t)) (h ! x) (h ! x)" using t(4) True x(2) by simp
      from copy_inv_same [OF t(2) x(1) None nc this] have "copy_inv h P ?t" .
      moreover have "extends t ?t" using memo_le_upd [of "c_memo t", OF None] by (simp add: extends_def)
      moreover have "deepcopy_tuple dc x xs s = (Inr x, ?t)" using t(1) None True by (simp add: deepcopy_tuple_def c_remember_def)
      ultimately show ?thesis using extends_trans [OF t(3)] by (intro exI [of _ x] exI [of _ ?t]) simp
    next
      case False
      let ?y = "length (c_heap t)"
      let ?t = "\<lparr>c_memo = (c_memo t)(x \<mapsto> ?y), c_heap = c_heap t @ [PTuple ys]\<rparr>"
      have "rel_pyobj (=) (graph_of (c_memo t)) (h ! x) (PTuple ys)" using t(4) x(2) by simp
      with copy_inv_new [OF t(2) x(1) None] have "copy_inv h P ?t" by blast
      moreover have "extends t ?t" using memo_le_upd [of "c_memo t", OF None] by (simp add: extends_def)
      moreover have "deepcopy_tuple dc x xs s = (Inr ?y, ?t)"
        using t(1) None False by (cases t) (simp add: deepcopy_tuple_def c_remember_def on_heap_def heap_new_def)
      ultimately show ?thesis using extends_trans [OF t(3)] by (intro exI [of _ ?y] exI [of _ ?t]) simp
    qed
  qed
qed

text \<open>Around the copier: the memo is asked first and told last.\<close>

lemma deepcopy_known: "c_memo s x = Some y \<Longrightarrow> deepcopy (Suc d) n E x s = (Inr y, s)"
  by simp

lemma remembered: "c_memo s x = Some y \<Longrightarrow> s\<lparr>c_memo := (c_memo s)(x \<mapsto> y)\<rparr> = s"
  by (cases s) (simp add: fun_upd_idem)

lemma list_copies:
  assumes "copy_inv h P s" "x < length h" "h ! x = PList xs" "c_memo s x = None" "free_card h s \<le> Suc N"
    and items: "list_all (\<lambda>c. copies h N (dc c) c) xs"
  shows "\<exists>y s'. deepcopy_list dc x xs s = (Inr y, s') \<and> copy_inv h P s' \<and> extends s s' \<and> c_memo s' x = Some y"
  unfolding deepcopy_list_def
proof (rule container_copies [where H = copied_list, OF assms(1,2) _ assms(4,5)])
  show "fill_step h N x copied_list (\<lambda>a. bindA (dc a) (c_append y)) ds c y" if "xs = ds @ c # js" for y ds c js
    using items that by (intro list_fill_step) simp
  show "rel_pyobj (=) R (h ! x) ob" if "copied_list R xs ob" for R ob
    using that assms(3) by (auto simp: copied_list_def split: pyobj.splits)
qed (simp_all add: assms(3) container_def copied_list_def)

lemma dict_copies:
  assumes "copy_inv h P s" "x < length h" "h ! x = PDict items" "c_memo s x = None" "free_card h s \<le> Suc N"
    and comps: "list_all (\<lambda>c. copies h N (dc c) c) (refs (h ! x))"
    and keys: "distinct_keys n L h items" and d: "data_only h"
  shows "\<exists>y s'. deepcopy_dict n L dc x items s = (Inr y, s') \<and> copy_inv h P s' \<and> extends s s' \<and> c_memo s' x = Some y"
  unfolding deepcopy_dict_def
proof (rule container_copies [where H = copied_dict, OF assms(1,2) _ assms(4,5)])
  show "fill_step h N x copied_dict
      (\<lambda>(k, v). bindA (dc v) (\<lambda>v'. bindA (dc k) (\<lambda>k'. on_heap (heap_setitem n L y k' v')))) ds kv y"
    if "items = ds @ kv # js" for y ds kv js
  proof -
    obtain k v where kv: "kv = (k, v)" by (cases kv)
    have "distinct_keys n L h ((ds @ [(k, v)]) @ js)" using keys that kv by simp
    from distinct_keys_append [OF this] comps that kv assms(3) d show ?thesis
      unfolding kv by (intro dict_fill_step) simp_all
  qed
  show "rel_pyobj (=) R (h ! x) ob" if "copied_dict R items ob" for R ob
    using that assms(3) by (auto simp: copied_dict_def split: pyobj.splits)
qed (simp_all add: assms(3) container_def copied_dict_def)

theorem deepcopy_copies:
  fixes h :: "'x heap"
  assumes cp: "copyable n (ce_lits E) h r"
  shows "x < length h \<Longrightarrow> r x + N < d \<Longrightarrow> copies h N (deepcopy d n E x) x"
proof (induction d arbitrary: x N)
  case (Suc d)
  note node = copyable_node [OF cp Suc.prems(1)]
  show ?case unfolding copies_def
  proof (intro allI impI)
    fix P and s :: "'x cstate"
    assume inv: "copy_inv h P s" and N: "free_card h s \<le> N"
    show "\<exists>y s'. deepcopy (Suc d) n E x s = (Inr y, s') \<and> copy_inv h P s' \<and> extends s s' \<and> c_memo s' x = Some y"
    proof (cases "c_memo s x")
      case (Some y)
      with inv extends_refl show ?thesis by (metis deepcopy_known)
    next
      case None
      have ob: "c_heap s ! x = h ! x" by (rule copy_inv_original [OF inv Suc.prems(1)])
      have below: "copies h N (deepcopy d n E c) c" if "c \<in> set (refs (h ! x))" "\<not> container (h ! x)" for c
        using Suc.IH [of c N] Suc.prems(2) node that by (auto simp: copy_ok_def list_all_iff)
      have inside: "copies h N' (deepcopy d n E c) c" if "c \<in> set (refs (h ! x))" "container (h ! x)" "N = Suc N'" for c N'
        using Suc.IH [of c N'] Suc.prems(2) node that by (auto simp: copy_ok_def list_all_iff)
      have N': "\<exists>N'. N = Suc N'"
        using free_card_new [OF Suc.prems(1) None, of "s\<lparr>c_memo := (c_memo s)(x \<mapsto> x)\<rparr>"] N by (cases N) auto
      have done_as: ?thesis
        if "\<exists>y s'. act s = (Inr y, s') \<and> copy_inv h P s' \<and> extends s s' \<and> c_memo s' x = Some y"
          "\<And>y s'. act s = (Inr y, s') \<Longrightarrow> deepcopy (Suc d) n E x s = (Inr y, s'\<lparr>c_memo := (c_memo s')(x \<mapsto> y)\<rparr>)" for act
        using that remembered by metis
      have atom: ?thesis
        if "\<not> container (h ! x)" "\<And>R. rel_pyobj (=) R (h ! x) (h ! x)"
          "deepcopy (Suc d) n E x s = (Inr x, s\<lparr>c_memo := (c_memo s)(x \<mapsto> x)\<rparr>)"
      proof -
        let ?s = "s\<lparr>c_memo := (c_memo s)(x \<mapsto> x)\<rparr>"
        have "copy_inv h P ?s" by (rule copy_inv_same [OF inv Suc.prems(1) None that(1,2)])
        moreover have "extends s ?s" using memo_le_upd [of "c_memo s", OF None] by (simp add: extends_def)
        ultimately show ?thesis using that(3) by (intro exI [of _ x] exI [of _ ?s]) simp
      qed
      note simps = None ob deepcopy_atomic_def c_remember_def container_def
      show ?thesis
      proof (cases "h ! x")
        case (PTuple xs)
        have "list_all (\<lambda>c. copies h N (deepcopy d n E c) c) xs"
          using below PTuple by (simp add: list_all_iff container_def)
        from tuple_copies [OF inv Suc.prems(1) PTuple None N this] show ?thesis
          by (rule done_as) (simp add: simps PTuple)
      next
        case (PList xs)
        from N' obtain N' where N': "N = Suc N'" ..
        have "list_all (\<lambda>c. copies h N' (deepcopy d n E c) c) xs"
          using inside N' PList by (simp add: list_all_iff container_def)
        from list_copies [OF inv Suc.prems(1) PList None N [unfolded N'] this] show ?thesis
          by (rule done_as) (simp add: simps PList)
      next
        case (PDict items)
        from N' obtain N' where N': "N = Suc N'" ..
        have "list_all (\<lambda>c. copies h N' (deepcopy d n E c) c) (refs (h ! x))"
          using inside N' PDict by (simp add: list_all_iff container_def del: refs.simps)
        moreover have "distinct_keys n (ce_lits E) h items" using node PDict by (simp add: copy_ok_def)
        ultimately show ?thesis
          using dict_copies [OF inv Suc.prems(1) PDict None N [unfolded N'] _ _ copyable_data_only [OF cp]]
          by (intro done_as [where act = "deepcopy_dict n (ce_lits E) (deepcopy d n E) x items"]) (simp_all add: simps PDict)
      qed ((rule atom; simp add: simps)+, use node in \<open>simp_all add: copy_ok_def\<close>)
    qed
  qed
qed (simp add: copies_def)

definition mutable_new :: "'x heap \<Rightarrow> (nat \<Rightarrow> nat \<Rightarrow> bool) \<Rightarrow> bool" where
  \<comment> \<open>the lists and dictionaries of the copy are none of the original\<close>
  "mutable_new h R \<longleftrightarrow> (\<forall>a b. R a b \<longrightarrow> container (h ! a) \<longrightarrow> length h \<le> b)"

definition same_shape :: "'x heap \<Rightarrow> (nat \<Rightarrow> nat \<Rightarrow> bool) \<Rightarrow> 'x heap \<Rightarrow> bool" where
  \<comment> \<open>one copy of each object, equal to it up to the relation\<close>
  "same_shape h R ht \<longleftrightarrow>
     (\<forall>a b. R a b \<longrightarrow> a < length h \<and> b < length ht \<and> rel_pyobj (=) R (h ! a) (ht ! b)) \<and>
     (\<forall>a a' b. R a b \<longrightarrow> R a' b \<longrightarrow> a = a') \<and> (\<forall>a b b'. R a b \<longrightarrow> R a b' \<longrightarrow> b = b')"

theorem deep_copy_shape:
  assumes "copyable n (ce_lits E) h r" "x < length h" "r x + length h < d"
  shows "\<exists>b e R. deep_copy d n E x h = (Inr b, h @ e) \<and> R x b \<and> same_shape h R (h @ e) \<and> mutable_new h R"
proof -
  let ?s = "\<lparr>c_memo = (\<lambda>_. None), c_heap = h\<rparr>"
  have "copy_inv h {} ?s" by (simp add: copy_inv_def)
  moreover have "free_card h ?s \<le> length h" by (simp add: free_card_def)
  ultimately obtain b s where s: "deepcopy d n E x ?s = (Inr b, s)" "copy_inv h {} s" "extends ?s s" "c_memo s x = Some b"
    using deepcopy_copies [OF assms] by (blast elim: copiesE)
  from s(3) obtain e where e: "c_heap s = h @ e" by (auto simp: extends_def)
  let ?R = "graph_of (c_memo s)"
  have "same_shape h ?R (h @ e)" "mutable_new h ?R"
    using s(2) copy_inv_memo [OF s(2)] copy_inv_inj [OF s(2)]
    unfolding same_shape_def mutable_new_def graph_of_def [abs_def] e [symmetric] by (auto simp: graph_of_def [abs_def] not_less [symmetric])
  with s(1,4) e show ?thesis by (intro exI [of _ b] exI [of _ e] exI [of _ ?R]) (simp add: deep_copy_def graph_of_def)
qed

subsection \<open>Shallow copies share their items\<close>

lemma keys_extend:
  fixes h :: "'x heap"
  assumes h: "heap_ok h" "data_only h" and items: "\<forall>(k, v) \<in> set items. k < length h" and keys: "distinct_keys n L h items"
  shows "distinct_keys n L (h @ e) items"
proof -
  let ?R = "\<lambda>a b. a = b \<and> a < length h"
  have "rel_pyobj (=) ?R ob ob" if "set (refs ob) \<subseteq> {..<length h}" for ob :: "('x, nat) pyobj"
    using that by (cases ob) (force simp: list_all2_same rel_prod_sel split: prod.splits)+
  then have node: "a < length h \<and> rel_pyobj (=) ?R (h ! a) ((h @ e) ! b)" if "?R a b" for a b
    using heap_ok_nth [OF h(1)] that by (auto simp: nth_append)
  define items' where "items' = map (\<lambda>(k, v). (k, k)) items"
  have same: "distinct_keys n L h' items' = distinct_keys n L h' items" for h' :: "'x heap"
    by (simp add: items'_def distinct_keys_def comp_def case_prod_unfold list_all_iff)
  have "distinct_keys n L (h @ e) items'"
  proof (rule keys_related [where R = ?R and hs = h, OF _ h(2)])
    show "a < length h \<and> rel_pyobj (=) ?R (h ! a) ((h @ e) ! b)" if "?R a b" for a b by (rule node [OF that])
    show "list_all2 (rel_prod ?R ?R) items' items'" using items by (auto simp: items'_def list_all2_same)
    show "distinct_keys n L h items'" using keys same by simp
  qed
  with same show ?thesis by simp
qed

lemma copy_dict_loop:
  fixes h :: "'x heap"
  assumes h: "heap_ok h" "data_only h" and items: "\<forall>(k, v) \<in> set (ds @ items). k < length h"
    and keys: "distinct_keys n L h (ds @ items)"
  shows "forA (\<lambda>(k, v). heap_setitem n L (length h) k v) items (h @ [PDict ds]) = (Inr (), h @ [PDict (ds @ items)])"
  using items keys
proof (induction items arbitrary: ds)
  case (Cons kv items)
  obtain k v where kv: "kv = (k, v)" by (cases kv)
  have "distinct_keys n L h (ds @ [(k, v)])" using Cons.prems(2) kv distinct_keys_append [of n L h "ds @ [(k, v)]" items] by simp
  from distinct_keys_snoc [OF keys_extend [OF h _ this]] Cons.prems(1) kv
  have "dict_update n L (h @ [PDict ds]) ds k v = Inr (ds @ [(k, v)])" by auto
  then have "heap_setitem n L (length h) k v (h @ [PDict ds]) = (Inr (), h @ [PDict (ds @ [(k, v)])])"
    by (simp add: heap_setitem_def)
  with Cons.IH [of "ds @ [(k, v)]"] Cons.prems kv show ?case by simp
qed simp

theorem copy_shallow:
  fixes h :: "'x heap"
  assumes h: "heap_ok h" "data_only h" and x: "x < length h"
    and keys: "\<And>items. h ! x = PDict items \<Longrightarrow> distinct_keys n (ce_lits E) h items"
  shows "\<exists>b e. py_copy n E x h = (Inr b, h @ e) \<and> (h @ e) ! b = h ! x \<and> (if container (h ! x) then b = length h else b = x \<and> e = [])"
proof (cases "h ! x")
  case (PDict items)
  have "\<forall>(k, v) \<in> set items. k < length h" using heap_ok_nth [OF h(1) x] PDict by auto
  with copy_dict_loop [OF h, of "[]" items n "ce_lits E"] keys [OF PDict]
  have "py_copy n E x h = (Inr (length h), h @ [PDict items])"
    by (simp add: py_copy_def PDict copy_dict_def heap_new_def)
  then show ?thesis using PDict by (intro exI [of _ "length h"] exI [of _ "[PDict items]"]) (simp add: container_def)
next
  case (PList xs)
  then show ?thesis
    by (intro exI [of _ "length h"] exI [of _ "[PList xs]"]) (simp add: py_copy_def copy_list_def heap_new_def container_def)
qed (use h(2) x in \<open>auto simp: py_copy_def copy_atomic_def copy_tuple_def container_def data_only_def\<close>)

text \<open>A class cannot be copied deeply: the table of deep copiers has no entry for classes.\<close>

lemma deepcopy_class:
  assumes "ce_deepcopy E 0 = None"
  shows "deep_copy (Suc d) n E 0 [PClass cname] = (Inl (copy_error ''un-deep-'' ''class''), [PClass cname])"
  using assms by (simp add: deep_copy_def)

text \<open>An environment without classes.\<close>

definition data_copy_env :: "unit copy_env" where
  "data_copy_env = \<lparr>ce_lits = data_literals, ce_copy = (\<lambda>_. None), ce_deepcopy = (\<lambda>_. None), ce_initargs = (\<lambda>_. None),
     ce_apply = (\<lambda>_ _ h. (Inl TypeError, h)), ce_getstate = (\<lambda>_. None), ce_setstate = (\<lambda>_. None)\<rparr>"

end
