(* ===== verification/Ntpath.thy ===== *)
theory Ntpath
  imports Posixpath
begin

section \<open>\<open>Lib/ntpath.py\<close>: operations on NT pathnames\<close>

text \<open>
  The module on a system where \<open>os.sep\<close> is the backslash (the \<open>nt\<close> row of the table in
  \<open>Lib/os.py\<close>).  The loop of \<open>normpath\<close> over the components is, line for line, that of
  \<open>posixpath\<close>, and is modelled by the same \<open>normpath_loop\<close>.  A \<open>while\<close> loop of
  \<open>expandvars\<close> that replaces \<open>path\<close> by a suffix is a recursion on the suffix and the
  index in it.
\<close>

subsection \<open>Definitions\<close>

abbreviation os_sep :: char where
  "os_sep \<equiv> BSLASH"

definition nt_sep :: "char \<Rightarrow> bool" where
  "nt_sep c = (c = CHR ''/'' \<or> c = BSLASH)"

definition nt_splitdrive :: "string \<Rightarrow> string \<times> string" where
  "nt_splitdrive p = (if pslice 1 2 p = '':'' then (pslice 0 2 p, pfrom 2 p) else ([], p))"

definition nt_normcase :: "string \<Rightarrow> string" where
  "nt_normcase s =
     (let (res, s) = nt_splitdrive s
      in lower (foldl (\<lambda>res c. if nt_sep c then res @ [os_sep] else res @ [c]) res s))"

definition nt_isabs :: "string \<Rightarrow> bool" where
  "nt_isabs s = (let s = snd (nt_splitdrive s) in s \<noteq> [] \<and> nt_sep (hd s))"

definition nt_join :: "string \<Rightarrow> string \<Rightarrow> string" where
  "nt_join a b =
     (if nt_isabs b then b
      else if a = [] \<or> nt_sep (last a) then a @ b
      else a @ [os_sep] @ b)"

text \<open>\<open>while p and p[-1:] in '/\\': slashes = slashes + p[-1]; p = p[:-1]\<close>\<close>

function nt_strip_seps :: "string \<Rightarrow> string \<Rightarrow> string \<times> string" where
  "nt_strip_seps p slashes =
     (if p \<noteq> [] \<and> nt_sep (last p) then nt_strip_seps (butlast p) (slashes @ [last p])
      else (p, slashes))"
  by pat_completeness auto
termination
  by (relation "measure (\<lambda>(p, slashes). length p)") auto

declare nt_strip_seps.simps [simp del]

definition nt_split_step :: "string \<times> string \<Rightarrow> char \<Rightarrow> string \<times> string" where
  \<comment> \<open>\<open>tail = tail + c; if c in '/\\': head, tail = head + tail, ''\<close>\<close>
  "nt_split_step = (\<lambda>(head, tail) c. let tail = tail @ [c]
     in if nt_sep c then (head @ tail, []) else (head, tail))"

definition nt_split :: "string \<Rightarrow> string \<times> string" where
  "nt_split p =
     (let (d, p) = nt_splitdrive p;
          (p, slashes) = nt_strip_seps p [];
          p = (if p = [] then p @ slashes else p);
          (head, tail) =
            foldl nt_split_step ([], []) p;
          (head, slashes) = nt_strip_seps head [];
          head = (if head = [] then head @ slashes else head)
      in (d @ head, tail))"

fun nt_splitext_loop :: "string \<Rightarrow> string \<Rightarrow> string \<Rightarrow> string \<times> string" where
  "nt_splitext_loop [] root ext = (root, ext)"
| "nt_splitext_loop (c # p) root ext =
     (if nt_sep c then nt_splitext_loop p (root @ ext @ [c]) []
      else if c = CHR ''.'' \<or> ext \<noteq> [] then nt_splitext_loop p root (ext @ [c])
      else nt_splitext_loop p (root @ [c]) ext)"

definition nt_splitext :: "string \<Rightarrow> string \<times> string" where
  "nt_splitext p = nt_splitext_loop p [] []"

definition nt_basename :: "string \<Rightarrow> string" where
  "nt_basename p = snd (nt_split p)"

definition nt_dirname :: "string \<Rightarrow> string" where
  "nt_dirname p = fst (nt_split p)"

definition nt_commonprefix :: "string list \<Rightarrow> string" where
  "nt_commonprefix m = (case m of [] \<Rightarrow> [] | p # _ \<Rightarrow> commonprefix_loop p m)"

definition nt_islink :: "string \<Rightarrow> bool" where
  "nt_islink path = False"

definition nt_exists :: "osys \<Rightarrow> string \<Rightarrow> bool" where
  "nt_exists os path = (case os_stat os path of None \<Rightarrow> False | Some st \<Rightarrow> True)"

definition nt_isdir :: "osys \<Rightarrow> string \<Rightarrow> bool" where
  "nt_isdir os path =
     (case os_stat os path of None \<Rightarrow> False | Some st \<Rightarrow> S_ISDIR (st_mode st))"

definition nt_subdir :: "osys \<Rightarrow> string \<Rightarrow> string \<Rightarrow> string option" where
  "nt_subdir os topdir name =
     (if name \<notin> {''.'', ''..''} then
        let name = nt_join topdir name in if nt_isdir os name then Some name else None
      else None)"

definition nt_walk :: "nat \<Rightarrow> osys \<Rightarrow> 's visitor \<Rightarrow> string \<Rightarrow> 's \<Rightarrow> 's option" where
  "nt_walk fuel os = tree_walk fuel os (nt_subdir os)"

definition nt_isfile :: "osys \<Rightarrow> string \<Rightarrow> bool" where
  "nt_isfile os path =
     (case os_stat os path of None \<Rightarrow> False | Some st \<Rightarrow> S_ISREG (st_mode st))"

definition nt_samestat :: "stat_result \<Rightarrow> stat_result \<Rightarrow> bool" where
  "nt_samestat s1 s2 = (st_ino s1 = st_ino s2 \<and> st_dev s1 = st_dev s2)"

definition nt_samefile :: "osys \<Rightarrow> string \<Rightarrow> string \<Rightarrow> bool res" where
  "nt_samefile os f1 f2 =
     (case os_stat os f1 of
        None \<Rightarrow> Inl os_error
      | Some s1 \<Rightarrow> (case os_stat os f2 of None \<Rightarrow> Inl os_error | Some s2 \<Rightarrow> Inr (nt_samestat s1 s2)))"

definition nt_ismount :: "string \<Rightarrow> bool" where
  "nt_ismount path = nt_isabs (snd (nt_splitdrive path))"

definition nt_expanduser :: "osys \<Rightarrow> string \<Rightarrow> string" where
  "nt_expanduser os path =
     (if take 1 path \<noteq> ''~'' then path
      else
        let i = scan_up (\<lambda>c. \<not> nt_sep c) path 1 (length path)
        in if i = 1 then
             let drive = (case os_environ os ''HOMEDRIVE'' of None \<Rightarrow> [] | Some d \<Rightarrow> d)
             in case os_environ os ''HOMEPATH'' of
                  None \<Rightarrow> path
                | Some hp \<Rightarrow> nt_join drive hp @ drop i path
           else path)"

definition varchars :: string where
  "varchars = letters @ digits @ ''_-''"

definition env_or_empty :: "osys \<Rightarrow> string \<Rightarrow> string" where
  \<comment> \<open>\<open>if os.environ.has_key(var): res = res + os.environ[var]\<close>\<close>
  "env_or_empty os var = (case os_environ os var of Some v \<Rightarrow> v | None \<Rightarrow> [])"

text \<open>
  In the two branches that catch \<open>index_error\<close>, \<open>index = pathlen - 1\<close> and the common
  \<open>index + 1\<close> end the loop, so the result is returned there.
\<close>

function nt_expandvars_loop :: "osys \<Rightarrow> string \<Rightarrow> nat \<Rightarrow> string \<Rightarrow> string" where
  "nt_expandvars_loop os path index res =
     (if index < length path then
        let c = path ! index in
        if c = SQUOTE then
          let path = drop (index + 1) path; i = find_s path [SQUOTE] 0
          in if i < 0 then res @ path
             else nt_expandvars_loop os path (nat i + 1) (res @ [SQUOTE] @ take (nat i + 1) path)
        else if c = CHR ''$'' then
          if take 1 (drop (index + 1) path) = ''$''
          then nt_expandvars_loop os path (index + 2) (res @ [c])
          else if take 1 (drop (index + 1) path) = ''{'' then
            let path = drop (index + 2) path; i = find_s path ''}'' 0
            in if i < 0 then res @ path
               else nt_expandvars_loop os path (nat i + 1) (res @ env_or_empty os (take (nat i) path))
          else
            let i = scan_up (\<lambda>c. c \<in> set varchars) path (index + 1) (length path);
                var = take (i - (index + 1)) (drop (index + 1) path)
            in nt_expandvars_loop os path (i + 1)
                 (res @ env_or_empty os var @ take 1 (drop i path))
        else nt_expandvars_loop os path (index + 1) (res @ [c])
      else res)"
  by pat_completeness auto
termination
proof (relation "measure (\<lambda>(os, path, index, res). length path - index)", goal_cases)
  case (5 os path index res)
  have "index + 1 \<le> scan_up (\<lambda>c. c \<in> set varchars) path (index + 1) (length path)"
    by (rule scan_up_ge)
  with 5 show ?case by simp
qed auto

declare nt_expandvars_loop.simps [simp del]

definition nt_expandvars :: "osys \<Rightarrow> string \<Rightarrow> string" where
  "nt_expandvars os path =
     (if CHR ''$'' \<notin> set path then path else nt_expandvars_loop os path 0 [])"

definition nt_normpath :: "string \<Rightarrow> string" where
  "nt_normpath path =
     (let path = nt_normcase path;
          (pre, path) = nt_splitdrive path;
          (pre, path) = strip_lead os_sep pre path;
          comps = normpath_loop (splitfields path [os_sep] 0) 0;
          comps = (if pre = [] \<and> comps = [] then comps @ [''.''] else comps)
      in pre @ joinfields comps [os_sep])"

subsection \<open>Facts\<close>

lemma nt_splitdrive_concat: "nt_splitdrive p = (d, q) \<Longrightarrow> d @ q = p"
  using pupto_pfrom [of 2 p]
  by (auto simp: nt_splitdrive_def pslice_nonneg pfrom_nonneg split: if_splits)

lemma nt_splitext_loop_append:
  "nt_splitext_loop p root ext = (r, e) \<Longrightarrow> r @ e = root @ ext @ p"
  by (induction p root ext rule: nt_splitext_loop.induct) (auto split: if_splits)

definition nt_ext_ok :: "string \<Rightarrow> bool" where
  "nt_ext_ok e \<longleftrightarrow> (e = [] \<or> hd e = CHR ''.'') \<and> (\<forall>c \<in> set e. \<not> nt_sep c)"

lemma nt_ext_ok_Nil: "nt_ext_ok []"
  by (simp add: nt_ext_ok_def)

lemma nt_ext_ok_snoc:
  "nt_ext_ok ext \<Longrightarrow> \<not> nt_sep c \<Longrightarrow> c = CHR ''.'' \<or> ext \<noteq> [] \<Longrightarrow> nt_ext_ok (ext @ [c])"
  by (auto simp: nt_ext_ok_def hd_append)

lemma nt_splitext_loop_ext:
  "nt_ext_ok ext \<Longrightarrow> nt_splitext_loop p root ext = (r, e) \<Longrightarrow> nt_ext_ok e"
proof (induction p root ext rule: nt_splitext_loop.induct)
  case (2 c p root ext)
  show ?case
  proof (cases "nt_sep c")
    case True
    with 2 nt_ext_ok_Nil show ?thesis by simp
  next
    case False
    with 2 show ?thesis
      by (cases "c = CHR ''.'' \<or> ext \<noteq> []") (simp_all add: nt_ext_ok_snoc)
  qed
qed simp

interpretation nt_e: ext_splitter nt_sep nt_splitext
proof
  fix p r e c
  assume "nt_splitext p = (r, e)"
  then have s: "nt_splitext_loop p [] [] = (r, e)" by (simp add: nt_splitext_def)
  show "r @ e = p" using nt_splitext_loop_append [OF s] by simp
  from nt_splitext_loop_ext [OF nt_ext_ok_Nil s]
  show "e = [] \<or> hd e = CHR ''.''" and "c \<in> set e \<Longrightarrow> \<not> nt_sep c"
    by (simp_all add: nt_ext_ok_def)
qed

interpretation nt_j: path_joiner nt_isabs nt_join
  by unfold_locales (simp_all add: nt_join_def)

lemma nt_split_foldl:
  "\<forall>c \<in> set (snd ht). \<not> nt_sep c \<Longrightarrow> \<forall>c \<in> set (snd (foldl nt_split_step ht p)). \<not> nt_sep c"
proof (induction p arbitrary: ht)
  case (Cons c p)
  then have "\<forall>d \<in> set (snd (nt_split_step ht c)). \<not> nt_sep d"
    by (cases ht) (auto simp: nt_split_step_def Let_def)
  then show ?case unfolding foldl_Cons by (rule Cons.IH)
qed simp

lemma nt_basename_foldl: "\<exists>q. nt_basename p = snd (foldl nt_split_step ([], []) q)"
  by (simp only: nt_basename_def nt_split_def Let_def split_beta snd_conv) blast

lemma nt_basename_no_sep: "c \<in> set (nt_basename p) \<Longrightarrow> \<not> nt_sep c"
  using nt_basename_foldl [of p] nt_split_foldl [of "([], [])"] by auto

text \<open>
  Two consequences of the code as it is: the character after a variable is copied without being
  looked at, so a variable that follows another at once is not expanded; and joining the two
  halves of a drive-relative path gives an absolute one.
\<close>

lemma nt_expandvars_adjacent:
  assumes "os_environ os ''a'' = Some v"
  shows "nt_expandvars os ''$a$b'' = v @ ''$b''"
proof -
  have scan: "scan_up (\<lambda>c. c \<in> set varchars) ''$a$b'' (Suc 0) (Suc (Suc (Suc (Suc 0)))) = 2"
    by code_simp
  have last: "nt_expandvars_loop os ''$a$b'' 4 r = r" for r
    by (simp add: nt_expandvars_loop.simps [of os _ 4])
  have b: "nt_expandvars_loop os ''$a$b'' 3 r = r @ ''b''" for r
    using last [of "r @ ''b''"] by (simp add: nt_expandvars_loop.simps [of os _ 3])
  have "nt_expandvars_loop os ''$a$b'' 0 [] = v @ ''$b''"
    using b [of "v @ ''$''"] scan assms
    by (simp add: nt_expandvars_loop.simps [of os _ 0] env_or_empty_def Let_def)
  then show ?thesis by (simp add: nt_expandvars_def)
qed

lemma nt_split_join_drive:
  "nt_split ''c:foo'' = (''c:'', ''foo'') \<and> nt_join ''c:'' ''foo'' = ''c:'' @ [BSLASH] @ ''foo'' \<and>
   \<not> nt_isabs ''c:foo'' \<and> nt_isabs (nt_join ''c:'' ''foo'')"
  by code_simp

end
