(* ===== verification/Dospath.thy ===== *)
theory Dospath
  imports Ntpath
begin

section \<open>\<open>Lib/dospath.py\<close>: what differs from \<open>ntpath\<close>\<close>

text \<open>
  \<open>dospath.py\<close> is a copy of \<open>ntpath.py\<close> but for three functions, modelled here: \<open>islink\<close>,
  whose body names a variable that does not exist, \<open>expanduser\<close>, and \<open>normpath\<close>, which
  also cuts components to eight and three characters.
\<close>

text \<open>The functions whose text is the same in both modules, under their \<open>dospath\<close> names.\<close>

definition dos_normcase :: "string \<Rightarrow> string" where
  "dos_normcase = nt_normcase"

definition dos_isabs :: "string \<Rightarrow> bool" where
  "dos_isabs = nt_isabs"

definition dos_join :: "string \<Rightarrow> string \<Rightarrow> string" where
  "dos_join = nt_join"

definition dos_splitdrive :: "string \<Rightarrow> string \<times> string" where
  "dos_splitdrive = nt_splitdrive"

definition dos_split :: "string \<Rightarrow> string \<times> string" where
  "dos_split = nt_split"

definition dos_splitext :: "string \<Rightarrow> string \<times> string" where
  "dos_splitext = nt_splitext"

definition dos_basename :: "string \<Rightarrow> string" where
  "dos_basename = nt_basename"

definition dos_dirname :: "string \<Rightarrow> string" where
  "dos_dirname = nt_dirname"

definition dos_commonprefix :: "string list \<Rightarrow> string" where
  "dos_commonprefix = nt_commonprefix"

definition dos_exists :: "osys \<Rightarrow> string \<Rightarrow> bool" where
  "dos_exists = nt_exists"

definition dos_isdir :: "osys \<Rightarrow> string \<Rightarrow> bool" where
  "dos_isdir = nt_isdir"

definition dos_walk :: "nat \<Rightarrow> osys \<Rightarrow> 's visitor \<Rightarrow> string \<Rightarrow> 's \<Rightarrow> 's option" where
  "dos_walk = nt_walk"

definition dos_isfile :: "osys \<Rightarrow> string \<Rightarrow> bool" where
  "dos_isfile = nt_isfile"

definition dos_ismount :: "string \<Rightarrow> bool" where
  "dos_ismount = nt_ismount"

definition dos_expandvars :: "osys \<Rightarrow> string \<Rightarrow> string" where
  "dos_expandvars = nt_expandvars"

definition dos_islink :: "string \<Rightarrow> bool res" where
  \<comment> \<open>\<open>return false\<close>: there is no such name\<close>
  "dos_islink path = Inl (ModError ''NameError'' ''false'')"

definition dos_expanduser :: "osys \<Rightarrow> string \<Rightarrow> string" where
  "dos_expanduser os path =
     (if take 1 path \<noteq> ''~'' then path
      else
        let i = scan_up (\<lambda>c. \<not> nt_sep c) path 1 (length path)
        in if i = 1 then
             (case os_environ os ''HOME'' of None \<Rightarrow> path | Some userhome \<Rightarrow> userhome @ drop i path)
           else path)"

definition cut83 :: "string \<Rightarrow> string" where
  "cut83 c = (let comp = splitfields c ''.'' 0 in take 8 (comp ! 0) @ ''.'' @ take 3 (comp ! 1))"

function dos_normpath_loop :: "string list \<Rightarrow> nat \<Rightarrow> string list" where
  "dos_normpath_loop comps i =
     (if i < length comps then
        if comps ! i = ''.'' then dos_normpath_loop (take i comps @ drop (i + 1) comps) i
        else if comps ! i = ''..'' \<and> i > 0 \<and> comps ! (i - 1) \<notin> {'''', ''..''}
        then dos_normpath_loop (take (i - 1) comps @ drop (i + 1) comps) (i - 1)
        else if comps ! i = '''' \<and> i > 0 \<and> comps ! (i - 1) \<noteq> ''''
        then dos_normpath_loop (take i comps @ drop (i + 1) comps) i
        else if CHR ''.'' \<in> set (comps ! i)
        then dos_normpath_loop (comps[i := cut83 (comps ! i)]) (i + 1)
        else if length (comps ! i) > 8
        then dos_normpath_loop (comps[i := take 8 (comps ! i)]) (i + 1)
        else dos_normpath_loop comps (i + 1)
      else comps)"
  by pat_completeness auto
termination
  by (relation "measure (\<lambda>(comps, i). length comps - i)") auto

declare dos_normpath_loop.simps [simp del]

definition dos_normpath :: "string \<Rightarrow> string" where
  "dos_normpath path =
     (let path = nt_normcase path;
          (pre, path) = nt_splitdrive path;
          (pre, path) = strip_lead os_sep pre path;
          comps = dos_normpath_loop (splitfields path [os_sep] 0) 0;
          comps = (if pre = [] \<and> comps = [] then comps @ [''.''] else comps)
      in pre @ joinfields comps [os_sep])"

text \<open>
  Every component the truncating loop has passed is at most twelve characters, the 8+3 form
  with its dot.
\<close>

lemma length_cut83: "length (cut83 c) \<le> 12"
  by (simp add: cut83_def Let_def)

definition short_upto :: "string list \<Rightarrow> nat \<Rightarrow> bool" where
  "short_upto cs i \<longleftrightarrow> (\<forall>k < i. k < length cs \<longrightarrow> length (cs ! k) \<le> 12)"

lemma short_upto_cut:
  "short_upto cs i \<Longrightarrow> j \<le> i \<Longrightarrow> i < length cs \<Longrightarrow> short_upto (take j cs @ ds) j"
  by (auto simp: short_upto_def nth_append)

lemma short_upto_Suc:
  "short_upto cs i \<Longrightarrow> length c \<le> 12 \<Longrightarrow> short_upto (cs[i := c]) (i + 1)"
  by (auto simp: short_upto_def nth_list_update less_Suc_eq)

lemma short_upto_keep:
  "short_upto cs i \<Longrightarrow> length (cs ! i) \<le> 12 \<Longrightarrow> short_upto cs (i + 1)"
  by (auto simp: short_upto_def less_Suc_eq)

lemma dos_normpath_loop_short:
  "short_upto cs i \<Longrightarrow> c \<in> set (dos_normpath_loop cs i) \<Longrightarrow> length c \<le> 12"
proof (induction cs i rule: dos_normpath_loop.induct)
  case (1 cs i)
  show ?case
  proof (cases "i < length cs")
    case False
    then show ?thesis
      using "1.prems" by (auto simp: dos_normpath_loop.simps [of cs i] short_upto_def in_set_conv_nth)
  next
    case True
    note cuts = short_upto_cut [OF "1.prems"(1) le_refl True]
      short_upto_cut [OF "1.prems"(1) diff_le_self [of i 1] True]
      short_upto_Suc [OF "1.prems"(1) length_cut83] short_upto_Suc [OF "1.prems"(1), of "take 8 (cs ! i)"]
      short_upto_keep [OF "1.prems"(1)]
    show ?thesis
      using "1.IH" True "1.prems"(2) cuts
      by (simp add: dos_normpath_loop.simps [of cs i] split: if_splits)
  qed
qed

text \<open>A leading \<open>..\<close> is taken for a name with an extension and becomes \<open>.\<close>.\<close>

lemma dos_normpath_parent: "dos_normpath (''..'' @ [BSLASH] @ ''x'') = ''.'' @ [BSLASH] @ ''x''"
  by code_simp

end
