(* ===== verification/Regexpr.thy ===== *)
theory Regexpr
  imports Py_Prelude
begin

unbundle bit_operations_syntax

section \<open>The regular expression engine of the interpreter (regexpr.c, regexmodule.c)\<close>

text \<open>
  The byte code compiler and matcher behind the built-in module \<^verbatim>\<open>regex\<close>. The
  compiled pattern is a list of instructions; an address is the index of an instruction
  instead of its byte offset, and a displacement counts instructions from the one after the
  jump, as the bytes of the code count from the end of the jump's operand. The matcher is a
  machine with a program counter, a text position, a stack of failure points and the
  registers of the groups. As in the code it rewrites its own program: the first time a
  \<open>Cstar_jump\<close> is reached it becomes an ordinary jump or, when the character that continues
  the loop can never start what follows it, a jump that overwrites the loop's one failure
  point. The string is matched in one part (\<^verbatim>\<open>string2\<close> is empty, as in every call of
  the module). Allocation failure and the 16 bit limit of displacements are not modelled.
\<close>

subsection \<open>Instructions\<close>

datatype instr =
    Cend
  | Cbol
  | Ceol
  | Cset "char \<Rightarrow> bool"
  | Cexact char
  | Canychar
  | Cstart_memory nat
  | Cend_memory nat
  | Cmatch_memory nat
  | Cjump int
  | Cstar_jump int
  | Cfailure_jump int
  | Cupdate_failure_jump int
  | Cdummy_failure_jump int
  | Cbegbuf
  | Cendbuf
  | Cwordbeg
  | Cwordend
  | Cwordbound
  | Cnotwordbound
  | Csyntaxspec bool
  | Cnotsyntaxspec bool

text \<open>Where a jump at address \<open>pc\<close> with displacement \<open>d\<close> goes.\<close>

definition target :: "nat \<Rightarrow> int \<Rightarrow> nat" where
  "target pc d = nat (int pc + 1 + d)"

definition RE_NREGS :: nat where
  "RE_NREGS = 100"

definition NUM_LEVELS :: nat where
  "NUM_LEVELS = 5"

definition MAX_NESTING :: nat where
  "MAX_NESTING = 100"

subsection \<open>The syntax of patterns\<close>

datatype regop =
    Rend | Rnormal | Ranychar | Rquote | Rbol | Reol | Roptional | Rstar | Rplus | Ror
  | Ropenpar | Rclosepar | Rmemory | Rextended_memory | Ropenset | Rbegbuf | Rendbuf
  | Rwordchar | Rnotwordchar | Rwordbeg | Rwordend | Rwordbound | Rnotwordbound

text \<open>The bits of the syntax (\<^verbatim>\<open>RE_NO_BK_PARENS\<close> is bit 0 and so on).\<close>

definition NO_BK_PARENS :: "int \<Rightarrow> bool" where "NO_BK_PARENS syn = bit syn 0"
definition NO_BK_VBAR :: "int \<Rightarrow> bool" where "NO_BK_VBAR syn = bit syn 1"
definition BK_PLUS_QM :: "int \<Rightarrow> bool" where "BK_PLUS_QM syn = bit syn 2"
definition TIGHT_VBAR :: "int \<Rightarrow> bool" where "TIGHT_VBAR syn = bit syn 3"
definition NEWLINE_OR :: "int \<Rightarrow> bool" where "NEWLINE_OR syn = bit syn 4"
definition CONTEXT_INDEP_OPS :: "int \<Rightarrow> bool" where "CONTEXT_INDEP_OPS syn = bit syn 5"
definition ANSI_HEX :: "int \<Rightarrow> bool" where "ANSI_HEX syn = bit syn 6"
definition NO_GNU_EXTENSIONS :: "int \<Rightarrow> bool" where "NO_GNU_EXTENSIONS syn = bit syn 7"

lemmas syntax_defs = NO_BK_PARENS_def NO_BK_VBAR_def BK_PLUS_QM_def TIGHT_VBAR_def
  NEWLINE_OR_def CONTEXT_INDEP_OPS_def ANSI_HEX_def NO_GNU_EXTENSIONS_def

definition plain_op :: "int \<Rightarrow> char \<Rightarrow> regop" where
  "plain_op syn c =
     (if c = BSLASH then Rquote
      else if c = CHR ''('' \<and> NO_BK_PARENS syn then Ropenpar
      else if c = CHR '')'' \<and> NO_BK_PARENS syn then Rclosepar
      else if c = CHR ''|'' \<and> NO_BK_VBAR syn then Ror
      else if c = CHR ''*'' then Rstar
      else if c = CHR ''+'' \<and> \<not> BK_PLUS_QM syn then Rplus
      else if c = CHR ''?'' \<and> \<not> BK_PLUS_QM syn then Roptional
      else if c = NL \<and> NEWLINE_OR syn then Ror
      else if c = CHR ''['' then Ropenset
      else if c = CHR ''^'' then Rbol
      else if c = CHR ''$'' then Reol
      else if c = CHR ''.'' then Ranychar
      else Rnormal)"

definition quoted_op :: "int \<Rightarrow> char \<Rightarrow> regop" where
  "quoted_op syn c =
     (if CHR ''0'' \<le> c \<and> c \<le> CHR ''9'' then Rmemory
      else if c = CHR ''('' \<and> \<not> NO_BK_PARENS syn then Ropenpar
      else if c = CHR '')'' \<and> \<not> NO_BK_PARENS syn then Rclosepar
      else if c = CHR ''|'' \<and> \<not> NO_BK_VBAR syn then Ror
      else if c = CHR ''+'' \<and> BK_PLUS_QM syn then Rplus
      else if c = CHR ''?'' \<and> BK_PLUS_QM syn then Roptional
      else if c = CHR ''v'' \<and> ANSI_HEX syn then Rextended_memory
      else if NO_GNU_EXTENSIONS syn then Rnormal
      else if c = CHR ''w'' then Rwordchar
      else if c = CHR ''W'' then Rnotwordchar
      else if c = CHR ''<'' then Rwordbeg
      else if c = CHR ''>'' then Rwordend
      else if c = CHR ''b'' then Rwordbound
      else if c = CHR ''B'' then Rnotwordbound
      else if c = CHR 0x60 then Rbegbuf
      else if c = SQUOTE then Rendbuf
      else Rnormal)"

fun precedence :: "int \<Rightarrow> regop \<Rightarrow> nat" where
  "precedence syn Ror = (if TIGHT_VBAR syn then 3 else 2)"
| "precedence syn Rbol = (if TIGHT_VBAR syn then 2 else 3)"
| "precedence syn Reol = (if TIGHT_VBAR syn then 2 else 3)"
| "precedence syn Rclosepar = 1"
| "precedence syn Rend = 0"
| "precedence syn _ = 4"

text \<open>The character classes of \<^verbatim>\<open>re_syntax_table\<close>: \<open>Sword\<close> is \<open>True\<close>.\<close>

definition sword :: "char \<Rightarrow> bool" where
  "sword c \<longleftrightarrow> (CHR ''a'' \<le> c \<and> c \<le> CHR ''z'') \<or> (CHR ''A'' \<le> c \<and> c \<le> CHR ''Z'')
     \<or> (CHR ''0'' \<le> c \<and> c \<le> CHR ''9'')"

subsection \<open>Reading characters of the pattern\<close>

type_synonym 'a rx = "string + 'a"

abbreviation ends_prematurely :: "'a rx" where
  "ends_prematurely \<equiv> Inl ''Regular expression ends prematurely''"

definition hex_char_to_decimal :: "char \<Rightarrow> nat" where
  "hex_char_to_decimal c =
     (if CHR ''0'' \<le> c \<and> c \<le> CHR ''9'' then ord c - ord CHR ''0''
      else if CHR ''a'' \<le> c \<and> c \<le> CHR ''f'' then ord c - ord CHR ''a'' + 10
      else if CHR ''A'' \<le> c \<and> c \<le> CHR ''F'' then ord c - ord CHR ''A'' + 10
      else 16)"

fun get_hex :: "string \<Rightarrow> (char \<times> string) rx" where
  "get_hex [] = ends_prematurely"
| "get_hex (c # cs) =
     (if hex_char_to_decimal c = 16 then Inl ''Bad hexadecimal number''
      else case cs of
        [] \<Rightarrow> ends_prematurely
      | d # ds \<Rightarrow>
          if hex_char_to_decimal d = 16 then Inl ''Bad hexadecimal number''
          else Inr (chr (hex_char_to_decimal c * 16 + hex_char_to_decimal d), ds))"

definition ansi_translate :: "(char \<Rightarrow> char) \<Rightarrow> char \<Rightarrow> string \<Rightarrow> (char \<times> string) rx" where
  "ansi_translate tr c cs =
     (if c = CHR ''a'' \<or> c = CHR ''A'' then Inr (CHR 0x07, cs)
      else if c = CHR ''b'' \<or> c = CHR ''B'' then Inr (CHR 0x08, cs)
      else if c = CHR ''f'' \<or> c = CHR ''F'' then Inr (CHR 0x0C, cs)
      else if c = CHR ''n'' \<or> c = CHR ''N'' then Inr (CHR 0x0A, cs)
      else if c = CHR ''r'' \<or> c = CHR ''R'' then Inr (CHR 0x0D, cs)
      else if c = CHR ''t'' \<or> c = CHR ''T'' then Inr (CHR 0x09, cs)
      else if c = CHR ''v'' \<or> c = CHR ''V'' then Inr (CHR 0x0B, cs)
      else if c = CHR ''x'' \<or> c = CHR ''X'' then get_hex cs
      else Inr (tr c, cs))"

lemma get_hex_shorter: "get_hex cs = Inr (c, ds) \<Longrightarrow> length ds < length cs"
  by (cases cs) (auto split: if_splits list.splits)

lemma ansi_translate_shorter: "ansi_translate tr c cs = Inr (d, ds) \<Longrightarrow> length ds \<le> length cs"
  by (simp add: ansi_translate_def less_imp_le [OF get_hex_shorter] split: if_split_asm)

subsection \<open>Character sets\<close>

text \<open>
  The loop over a set, from the current character \<open>c\<close> (already translated): \<open>prev\<close> is the
  character a following \<open>-\<close> makes a range of, \<open>rng\<close> whether the \<open>-\<close> was read.
\<close>

definition set_step :: "char \<Rightarrow> char option \<Rightarrow> bool \<Rightarrow> (char \<Rightarrow> bool) \<Rightarrow> char option \<times> bool \<times> (char \<Rightarrow> bool)" where
  "set_step c prev rng m =
     (case prev of
        Some p \<Rightarrow>
          if rng then (None, False, \<lambda>d. m d \<or> (p \<le> d \<and> d \<le> c))
          else if c = CHR ''-'' then (prev, True, m)
          else (Some c, False, m(c := True))
      | None \<Rightarrow> (Some c, False, m(c := True)))"

function set_loop :: "int \<Rightarrow> (char \<Rightarrow> char) \<Rightarrow> char \<Rightarrow> bool \<Rightarrow> char option \<Rightarrow> bool \<Rightarrow> (char \<Rightarrow> bool) \<Rightarrow> string
    \<Rightarrow> ((char \<Rightarrow> bool) \<times> string) rx" where
  "set_loop syn tr c firstchar prev rng m cs =
     (if c = CHR '']'' \<and> \<not> firstchar then Inr (if rng then m(CHR ''-'' := True) else m, cs)
      else case (if ANSI_HEX syn \<and> c = BSLASH
                 then (case cs of [] \<Rightarrow> ends_prematurely | d # ds \<Rightarrow> ansi_translate tr d ds)
                 else Inr (c, cs)) of
        Inl e \<Rightarrow> Inl e
      | Inr (ch, []) \<Rightarrow> ends_prematurely
      | Inr (ch, d # ds) \<Rightarrow>
          (case set_step ch prev rng m of (prev', rng', m') \<Rightarrow>
             set_loop syn tr (tr d) False prev' rng' m' ds))"
  by pat_completeness auto
termination
  by (relation "measure (\<lambda>(syn, tr, c, firstchar, prev, rng, m, cs). length cs)")
    (auto split: if_splits list.splits dest!: ansi_translate_shorter)

declare set_loop.simps [simp del]

definition open_set :: "int \<Rightarrow> (char \<Rightarrow> char) \<Rightarrow> string \<Rightarrow> ((char \<Rightarrow> bool) \<times> string) rx" where
  "open_set syn tr cs =
     (case cs of
        [] \<Rightarrow> ends_prematurely
      | c # ds \<Rightarrow>
          if tr c = CHR ''^'' then
            (case ds of
               [] \<Rightarrow> ends_prematurely
             | d # es \<Rightarrow>
                 (case set_loop syn tr (tr d) True None False (\<lambda>_. False) es of
                    Inl e \<Rightarrow> Inl e
                  | Inr (m, rest) \<Rightarrow> Inr (\<lambda>x. \<not> m x, rest)))
          else set_loop syn tr (tr c) True None False (\<lambda>_. False) ds)"

lemma set_loop_shorter: "set_loop syn tr c f p r m cs = Inr (m', rest) \<Longrightarrow> length rest \<le> length cs"
proof (induction syn tr c f p r m cs rule: set_loop.induct)
  case (1 syn tr c f p r m cs)
  show ?case
  proof (cases "c = CHR '']'' \<and> \<not> f")
    case True
    with "1.prems" show ?thesis by (simp add: set_loop.simps)
  next
    case False
    let ?q = "if ANSI_HEX syn \<and> c = BSLASH
      then (case cs of [] \<Rightarrow> ends_prematurely | d # ds \<Rightarrow> ansi_translate tr d ds) else Inr (c, cs)"
    from "1.prems" False obtain ch d ds where q: "?q = Inr (ch, d # ds)"
      by (subst (asm) set_loop.simps) (auto split: sum.splits prod.splits list.splits)
    obtain p' r' n where s: "set_step ch p r m = (p', r', n)" by (cases "set_step ch p r m") auto
    from "1.prems" False q s have "set_loop syn tr (tr d) False p' r' n ds = Inr (m', rest)"
      by (subst (asm) set_loop.simps) simp
    then have "length rest \<le> length ds" by (rule "1.IH" [OF False q refl refl s [symmetric] refl])
    also have "\<dots> \<le> length cs"
      using q by (auto split: if_splits list.splits dest!: ansi_translate_shorter)
    finally show ?thesis .
  qed
qed

lemma open_set_shorter: "open_set syn tr cs = Inr (m, rest) \<Longrightarrow> length rest < length cs"
  by (auto simp: open_set_def split: list.splits if_splits sum.splits dest!: set_loop_shorter)

subsection \<open>Compiling a pattern\<close>

text \<open>
  The variables of \<^verbatim>\<open>re_compile_pattern\<close>. \<open>rc_starts\<close> is the array \<^verbatim>\<open>starts\<close>, a frame of
  \<open>NUM_LEVELS\<close> entries per open parenthesis from \<open>rc_base\<close> on; \<open>rc_jumps\<close> the addresses of the
  jumps behind an alternative whose target is not known yet, latest first; \<open>rc_open\<close> the
  registers of the open parentheses, latest first. \<^verbatim>\<open>pattern_offset\<close> is the length of the code.
\<close>

record compiling =
  rc_code :: "instr list"
  rc_level :: nat
  rc_starts :: "nat \<Rightarrow> nat"
  rc_base :: nat
  rc_jumps :: "nat list"
  rc_reg :: nat
  rc_depth :: nat
  rc_open :: "nat list"
  rc_beginning :: bool
  rc_uses :: bool

definition compile_init :: compiling where
  "compile_init = \<lparr>rc_code = [], rc_level = 0, rc_starts = (\<lambda>_. 0), rc_base = 0, rc_jumps = [],
     rc_reg = 1, rc_depth = 0, rc_open = [], rc_beginning = True, rc_uses = False\<rparr>"

definition level_start :: "compiling \<Rightarrow> nat" where
  "level_start st = rc_starts st (rc_base st + rc_level st)"

definition set_level_start :: "compiling \<Rightarrow> compiling" where
  "set_level_start st = st\<lparr>rc_starts := (rc_starts st)(rc_base st + rc_level st := length (rc_code st))\<rparr>"

definition store_instr :: "instr \<Rightarrow> compiling \<Rightarrow> compiling" where
  "store_instr i st = st\<lparr>rc_code := rc_code st @ [i]\<rparr>"

text \<open>The labels \<^verbatim>\<open>store_opcode\<close> and \<^verbatim>\<open>store_opcode_and_arg\<close>.\<close>

definition store_opcode :: "instr \<Rightarrow> compiling \<Rightarrow> compiling" where
  "store_opcode i st = store_instr i (set_level_start st)"

text \<open>\<^verbatim>\<open>INSERT_JUMP(pos, type, addr)\<close> and \<^verbatim>\<open>PUT_ADDR\<close> on a stored jump.\<close>

definition insert_jump :: "nat \<Rightarrow> (int \<Rightarrow> instr) \<Rightarrow> nat \<Rightarrow> compiling \<Rightarrow> compiling" where
  "insert_jump p t ad st =
     st\<lparr>rc_code := take p (rc_code st) @ t (int ad - int (p + 1)) # drop p (rc_code st)\<rparr>"

definition put_addr :: "nat \<Rightarrow> nat \<Rightarrow> instr list \<Rightarrow> instr list" where
  "put_addr j ad code = code[j := Cjump (int ad - int (j + 1))]"

text \<open>Going to the level of an operator: closing the levels that bind tighter resolves their jumps.\<close>

fun resolve_jumps :: "nat \<Rightarrow> nat list \<Rightarrow> instr list \<Rightarrow> nat list \<times> instr list" where
  "resolve_jumps start [] code = ([], code)"
| "resolve_jumps start (j # js) code =
     (if start \<le> j then resolve_jumps start js (put_addr j (length code) code) else (j # js, code))"

definition enter_level :: "nat \<Rightarrow> compiling \<Rightarrow> compiling" where
  "enter_level level st =
     (if rc_level st < level
      then st\<lparr>rc_level := level, rc_starts := (\<lambda>k.
        if rc_base st + rc_level st < k \<and> k \<le> rc_base st + level then length (rc_code st) else rc_starts st k)\<rparr>
      else if level < rc_level st then
        let st' = st\<lparr>rc_level := level\<rparr>;
            (js, code) = resolve_jumps (level_start st') (rc_jumps st') (rc_code st')
        in st'\<lparr>rc_jumps := js, rc_code := code\<rparr>
      else st)"

text \<open>Whether \<^verbatim>\<open>$\<close> is at the end of a context: the rest of the pattern, untranslated, decides.\<close>

definition end_context :: "int \<Rightarrow> string \<Rightarrow> bool" where
  "end_context syn rest \<longleftrightarrow> rest = [] \<or>
     (if NO_BK_VBAR syn then take 1 rest = ''|'' else take 2 rest = [BSLASH, CHR ''|'']) \<or>
     (if NO_BK_PARENS syn then take 1 rest = '')'' else take 2 rest = [BSLASH, CHR '')''])"

definition op_error :: "'a rx" where
  "op_error = Inl ''Badly placed special character''"

text \<open>An operator out of its context: an error or, by default, an ordinary character.\<close>

definition out_of_context :: "int \<Rightarrow> char \<Rightarrow> string \<Rightarrow> compiling \<Rightarrow> (compiling \<times> string) rx" where
  "out_of_context syn ch rest st =
     (if CONTEXT_INDEP_OPS syn then op_error else Inr (store_opcode (Cexact ch) st, rest))"

definition compile_star :: "bool \<Rightarrow> compiling \<Rightarrow> compiling" where
  "compile_star repeats st =
     (let p = level_start st; n = length (rc_code st);
          st = insert_jump p Cfailure_jump (n + 2) st;
          st = insert_jump (n + 1) Cstar_jump p st
      in if repeats then insert_jump p Cdummy_failure_jump (p + 2) st else st)"

definition compile_or :: "compiling \<Rightarrow> compiling rx" where
  "compile_or st =
     (let n = length (rc_code st); st = insert_jump (level_start st) Cfailure_jump (n + 2) st
      in if MAX_NESTING \<le> length (rc_jumps st) then Inl ''Regular expression too complex''
         else Inr (set_level_start (store_instr (Cjump 0) (st\<lparr>rc_jumps := (n + 1) # rc_jumps st\<rparr>))))"

definition compile_openpar :: "compiling \<Rightarrow> compiling rx" where
  "compile_openpar st =
     (let st = set_level_start st;
          st = (if rc_reg st < RE_NREGS
                then store_instr (Cstart_memory (rc_reg st))
                  (st\<lparr>rc_uses := True, rc_open := rc_reg st # rc_open st, rc_reg := rc_reg st + 1\<rparr>)
                else st);
          st = st\<lparr>rc_depth := rc_depth st + 1\<rparr>
      in if rc_base st < (MAX_NESTING - 1) * NUM_LEVELS
         then Inr (set_level_start (st\<lparr>rc_base := rc_base st + NUM_LEVELS, rc_level := 0\<rparr>))
         else Inl ''Regular expression too complex'')"

definition compile_closepar :: "int \<Rightarrow> compiling \<Rightarrow> compiling rx" where
  "compile_closepar syn st =
     (if rc_depth st = 0 then Inl ''Badly placed parenthesis''
      else let st = st\<lparr>rc_base := rc_base st - NUM_LEVELS, rc_level := precedence syn Ropenpar,
                 rc_depth := rc_depth st - 1\<rparr>
        in case rc_open st of
             r # rs \<Rightarrow> if rc_depth st < length (rc_open st)
               then Inr (store_instr (Cend_memory r) (st\<lparr>rc_uses := True, rc_open := rs\<rparr>)) else Inr st
           | [] \<Rightarrow> Inr st)"

definition extended_memory :: "string \<Rightarrow> (nat \<times> string) rx" where
  "extended_memory cs =
     (case cs of
        [] \<Rightarrow> ends_prematurely
      | c # ds \<Rightarrow>
          if \<not> (CHR ''0'' \<le> c \<and> c \<le> CHR ''9'') then Inl ''Bad match register number''
          else case ds of
            [] \<Rightarrow> ends_prematurely
          | a # es \<Rightarrow>
              if \<not> (CHR ''0'' \<le> a \<and> a \<le> CHR ''9'') then Inl ''Bad match register number''
              else let r = 10 * (ord a - ord CHR ''0'') + (ord c - ord CHR ''0'')
                in if r = 0 \<or> RE_NREGS \<le> r then Inl ''Bad match register number'' else Inr (r, es))"

text \<open>
  One operator of the pattern: the body of the \<^verbatim>\<open>switch\<close>, with \<open>ch\<close> the character read and
  \<open>rest\<close> the pattern behind it.
\<close>

definition keep_rest :: "string \<Rightarrow> compiling rx \<Rightarrow> (compiling \<times> string) rx" where
  "keep_rest rest r = (case r of Inl e \<Rightarrow> Inl e | Inr st \<Rightarrow> Inr (st, rest))"

lemma keep_rest_simps [simp]:
  "keep_rest rest (Inl e) = Inl e"
  "keep_rest rest (Inr st) = Inr (st, rest)"
  by (simp_all add: keep_rest_def)

fun compile_op :: "int \<Rightarrow> (char \<Rightarrow> char) \<Rightarrow> regop \<Rightarrow> char \<Rightarrow> string \<Rightarrow> compiling \<Rightarrow> (compiling \<times> string) rx" where
  "compile_op syn tr Rnormal ch rest st = Inr (store_opcode (Cexact ch) st, rest)"
| "compile_op syn tr Ranychar ch rest st = Inr (store_opcode Canychar st, rest)"
| "compile_op syn tr Rbol ch rest st =
     (if \<not> rc_beginning st then out_of_context syn ch rest st else Inr (store_opcode Cbol st, rest))"
| "compile_op syn tr Reol ch rest st =
     (if \<not> end_context syn rest then out_of_context syn ch rest st else Inr (store_opcode Ceol st, rest))"
| "compile_op syn tr Roptional ch rest st =
     (if rc_beginning st then out_of_context syn ch rest st
      else if level_start st = length (rc_code st) then Inr (st, rest)
      else Inr (insert_jump (level_start st) Cfailure_jump (length (rc_code st) + 1) st, rest))"
| "compile_op syn tr Rstar ch rest st =
     (if rc_beginning st then out_of_context syn ch rest st
      else if level_start st = length (rc_code st) then Inr (st, rest)
      else Inr (compile_star False st, rest))"
| "compile_op syn tr Rplus ch rest st =
     (if rc_beginning st then out_of_context syn ch rest st
      else if level_start st = length (rc_code st) then Inr (st, rest)
      else Inr (compile_star True st, rest))"
| "compile_op syn tr Ror ch rest st = keep_rest rest (compile_or st)"
| "compile_op syn tr Ropenpar ch rest st = keep_rest rest (compile_openpar st)"
| "compile_op syn tr Rclosepar ch rest st = keep_rest rest (compile_closepar syn st)"
| "compile_op syn tr Rmemory ch rest st =
     (if ch = CHR ''0'' then Inl ''Bad match register number''
      else Inr (store_opcode (Cmatch_memory (ord ch - ord CHR ''0'')) (st\<lparr>rc_uses := True\<rparr>), rest))"
| "compile_op syn tr Rextended_memory ch rest st =
     (case extended_memory rest of
        Inl e \<Rightarrow> Inl e
      | Inr (r, rest') \<Rightarrow> Inr (store_opcode (Cmatch_memory r) (st\<lparr>rc_uses := True\<rparr>), rest'))"
| "compile_op syn tr Ropenset ch rest st =
     (case open_set syn tr rest of
        Inl e \<Rightarrow> Inl e
      | Inr (m, rest') \<Rightarrow> Inr (store_opcode (Cset m) st, rest'))"
| "compile_op syn tr Rbegbuf ch rest st = Inr (store_opcode Cbegbuf st, rest)"
| "compile_op syn tr Rendbuf ch rest st = Inr (store_opcode Cendbuf st, rest)"
| "compile_op syn tr Rwordchar ch rest st = Inr (store_opcode (Csyntaxspec True) st, rest)"
| "compile_op syn tr Rnotwordchar ch rest st = Inr (store_opcode (Cnotsyntaxspec True) st, rest)"
| "compile_op syn tr Rwordbeg ch rest st = Inr (store_opcode Cwordbeg st, rest)"
| "compile_op syn tr Rwordend ch rest st = Inr (store_opcode Cwordend st, rest)"
| "compile_op syn tr Rwordbound ch rest st = Inr (store_opcode Cwordbound st, rest)"
| "compile_op syn tr Rnotwordbound ch rest st = Inr (store_opcode Cnotwordbound st, rest)"
| "compile_op syn tr Rend ch rest st = Inr (st, rest)"
| "compile_op syn tr Rquote ch rest st = Inr (st, rest)"

lemma compile_op_shorter: "compile_op syn tr op ch rest st = Inr (st', rest') \<Longrightarrow> length rest' \<le> length rest"
  by (cases op) (auto simp: out_of_context_def op_error_def keep_rest_def extended_memory_def Let_def
      split: if_splits sum.splits list.splits dest: open_set_shorter)

text \<open>The operator at the head of the pattern, with its character and what follows.\<close>

definition read_op :: "int \<Rightarrow> (char \<Rightarrow> char) \<Rightarrow> char \<Rightarrow> string \<Rightarrow> (regop \<times> char \<times> string) rx" where
  "read_op syn tr c cs =
     (if plain_op syn (tr c) = Rquote then
        (case cs of
           [] \<Rightarrow> ends_prematurely
         | d # ds \<Rightarrow>
             if quoted_op syn d = Rnormal \<and> ANSI_HEX syn
             then (case ansi_translate tr d ds of Inl e \<Rightarrow> Inl e | Inr (ch, es) \<Rightarrow> Inr (Rnormal, ch, es))
             else Inr (quoted_op syn d, d, ds))
      else Inr (plain_op syn (tr c), tr c, cs))"

lemma read_op_shorter: "read_op syn tr c cs = Inr (op, ch, ds) \<Longrightarrow> length ds \<le> length cs"
  by (auto simp: read_op_def split: if_splits list.splits sum.splits dest: ansi_translate_shorter)

function compile_loop :: "int \<Rightarrow> (char \<Rightarrow> char) \<Rightarrow> string \<Rightarrow> compiling \<Rightarrow> compiling rx" where
  "compile_loop syn tr [] st = Inr (enter_level (precedence syn Rend) st)"
| "compile_loop syn tr (c # cs) st =
     (case read_op syn tr c cs of
        Inl e \<Rightarrow> Inl e
      | Inr (op, ch, ds) \<Rightarrow>
          (case compile_op syn tr op ch ds (enter_level (precedence syn op) st) of
             Inl e \<Rightarrow> Inl e
           | Inr (st', es) \<Rightarrow>
               compile_loop syn tr es (st'\<lparr>rc_beginning := (op = Ropenpar \<or> op = Ror)\<rparr>)))"
  by pat_completeness auto
termination
  by (relation "measure (\<lambda>(syn, tr, cs, st). length cs)")
    (auto simp: less_Suc_eq_le dest!: read_op_shorter compile_op_shorter)

definition re_compile_pattern :: "int \<Rightarrow> (char \<Rightarrow> char) \<Rightarrow> string \<Rightarrow> (instr list \<times> bool) rx" where
  "re_compile_pattern syn tr pat =
     (case compile_loop syn tr pat compile_init of
        Inl e \<Rightarrow> Inl e
      | Inr st \<Rightarrow> if rc_base st \<noteq> 0 then Inl ''Badly placed parenthesis''
                else Inr (rc_code (store_instr Cend st), rc_uses st))"

subsection \<open>The first characters of a program\<close>

text \<open>
  \<^verbatim>\<open>re_compile_fastmap_aux\<close>: the characters a match from an address can start with. The
  recursion of the code is a list of addresses still to follow; \<open>visited\<close> stops it at jumps
  taken before. \<open>fm_null\<close> is \<^verbatim>\<open>can_be_null\<close>: 2 is a match of nothing at the end of a line only.
\<close>

record fast =
  fm_map :: "char \<Rightarrow> bool"
  fm_null :: nat

definition fm_add :: "(char \<Rightarrow> bool) \<Rightarrow> fast \<Rightarrow> fast" where
  "fm_add P f = f\<lparr>fm_map := (\<lambda>c. fm_map f c \<or> P c)\<rparr>"

datatype fm_action =
    FNext fast              \<comment> \<open>goes on with the next instruction\<close>
  | FReturn fast            \<comment> \<open>this path is done\<close>
  | FJump int
  | FBoth int               \<comment> \<open>a failure jump: its target, then the next instruction\<close>

fun fm_instr :: "instr \<Rightarrow> fast \<Rightarrow> fm_action" where
  "fm_instr Cend f = FReturn (f\<lparr>fm_null := 1\<rparr>)"
| "fm_instr (Csyntaxspec w) f = FReturn (fm_add (\<lambda>c. sword c = w) f)"
| "fm_instr (Cnotsyntaxspec w) f = FReturn (fm_add (\<lambda>c. sword c \<noteq> w) f)"
| "fm_instr Ceol f = FReturn ((fm_add (\<lambda>c. c = NL) f)\<lparr>fm_null := (if fm_null f = 0 then 2 else fm_null f)\<rparr>)"
| "fm_instr (Cset m) f = FReturn (fm_add m f)"
| "fm_instr (Cexact c) f = FReturn (fm_add (\<lambda>d. d = c) f)"
| "fm_instr Canychar f = FReturn (fm_add (\<lambda>c. c \<noteq> NL) f)"
| "fm_instr (Cmatch_memory r) f = FReturn (f\<lparr>fm_null := 1\<rparr>)"
| "fm_instr (Cjump d) f = FJump d"
| "fm_instr (Cdummy_failure_jump d) f = FJump d"
| "fm_instr (Cupdate_failure_jump d) f = FJump d"
| "fm_instr (Cstar_jump d) f = FJump d"
| "fm_instr (Cfailure_jump d) f = FBoth d"
| "fm_instr _ f = FNext f"

definition fm_seen :: "bool list \<Rightarrow> nat \<Rightarrow> bool" where
  "fm_seen visited t \<longleftrightarrow> length visited \<le> t \<or> visited ! t"

lemma fm_seen_count:
  assumes "\<not> fm_seen visited t"
  shows "length (filter Not (visited[t := True])) < length (filter Not visited)"
proof -
  from assms have t: "t < length visited" "\<not> visited ! t" by (auto simp: fm_seen_def)
  obtain xs ys where v: "visited = xs @ False # ys" "visited[t := True] = xs @ True # ys"
    using id_take_nth_drop [OF t(1)] upd_conv_take_nth_drop [OF t(1), of True] t(2) by auto
  show ?thesis unfolding v(2) by (subst v(1)) simp
qed

function fm_run :: "instr list \<Rightarrow> nat list \<Rightarrow> bool list \<Rightarrow> fast \<Rightarrow> fast" where
  "fm_run code [] visited f = f"
| "fm_run code (p # ps) visited f =
     (if length code \<le> p then fm_run code ps visited f
      else case fm_instr (code ! p) f of
        FNext f' \<Rightarrow> fm_run code (Suc p # ps) visited f'
      | FReturn f' \<Rightarrow> fm_run code ps visited f'
      | FJump d \<Rightarrow>
          if fm_seen visited (target p d) then fm_run code ps visited f
          else fm_run code (target p d # ps) (visited[target p d := True]) f
      | FBoth d \<Rightarrow>
          if fm_seen visited (target p d) then fm_run code (Suc p # ps) visited f
          else fm_run code (target p d # Suc p # ps) (visited[target p d := True]) f)"
  by pat_completeness auto
termination
proof (relation "measures [\<lambda>(code, ps, visited, f). length (filter Not visited),
    \<lambda>(code, ps, visited, f). sum_list (map (\<lambda>p. Suc (length code - p)) ps)]", goal_cases)
  case 1
  then show ?case by simp
qed (auto dest!: fm_seen_count)

declare fm_run.simps(2) [simp del]

text \<open>\<^verbatim>\<open>re_do_compile_fastmap\<close> from an address.\<close>

definition do_compile_fastmap :: "instr list \<Rightarrow> nat \<Rightarrow> fast" where
  "do_compile_fastmap code pos =
     fm_run code [pos] ((replicate (length code) False)[pos := True]) \<lparr>fm_map = (\<lambda>_. False), fm_null = 0\<rparr>"

subsection \<open>Matching\<close>

text \<open>
  The state of \<^verbatim>\<open>re_match_2\<close>. A failure point is an address with the text to go back to;
  a dummy point, which only holds the place of the loop's own, has none. A register has an end
  once its group was left.
\<close>

record machine =
  m_code :: "instr list"
  m_pc :: nat
  m_text :: nat
  m_stack :: "(nat \<times> nat option) list"
  m_start :: "nat \<Rightarrow> nat"
  m_end :: "nat \<Rightarrow> nat option"

text \<open>
  How a match ends: \<open>Matched e\<close> at the text \<open>e\<close>, \<open>Mismatch\<close> (-1), \<open>Overflow\<close> of the
  failure stack (-2); \<open>Undefined\<close> stands for what C leaves undefined (an address outside the
  program, an update of an empty stack, a read behind the string), which no compiled pattern of
  the development reaches.
\<close>

datatype verdict = Matched nat | Mismatch | Overflow | Undefined

definition MAX_FAILURES :: nat where
  "MAX_FAILURES = 4100"

text \<open>The label \<^verbatim>\<open>fail\<close>: the latest failure point that has a text.\<close>

fun backtrack :: "(nat \<times> nat option) list \<Rightarrow> machine \<Rightarrow> machine + verdict \<times> machine" where
  "backtrack [] m = Inr (Mismatch, m\<lparr>m_stack := []\<rparr>)"
| "backtrack ((pc, None) # st) m = backtrack st m"
| "backtrack ((pc, Some t) # st) m = Inl (m\<lparr>m_pc := pc, m_text := t, m_stack := st\<rparr>)"

definition fail :: "machine \<Rightarrow> machine + verdict \<times> machine" where
  "fail m = backtrack (m_stack m) m"

definition goto :: "nat \<Rightarrow> machine \<Rightarrow> machine" where
  "goto pc m = m\<lparr>m_pc := pc\<rparr>"

definition proceed :: "machine \<Rightarrow> machine + verdict \<times> machine" where
  "proceed m = Inl (m\<lparr>m_pc := m_pc m + 1\<rparr>)"

definition check :: "bool \<Rightarrow> machine \<Rightarrow> machine + verdict \<times> machine" where
  "check b m = (if b then proceed m else fail m)"

text \<open>\<^verbatim>\<open>NEXTCHAR\<close> and a test of the translated character.\<close>

definition next_char :: "string \<Rightarrow> (char \<Rightarrow> char) \<Rightarrow> (char \<Rightarrow> bool) \<Rightarrow> machine \<Rightarrow> machine + verdict \<times> machine" where
  "next_char s tr P m =
     (if m_text m < length s \<and> P (tr (s ! m_text m)) then proceed (m\<lparr>m_text := m_text m + 1\<rparr>) else fail m)"

text \<open>The loop of \<open>Cmatch_memory\<close>: the text behind a repetition of the register, \<open>Inr\<close> the failure.\<close>

function match_memory :: "string \<Rightarrow> (char \<Rightarrow> char) \<Rightarrow> nat \<Rightarrow> nat \<Rightarrow> nat \<Rightarrow> nat + verdict" where
  "match_memory s tr reg regend t =
     (if reg = regend then Inl t
      else if length s \<le> t then Inr Mismatch
      else if length s \<le> reg then Inr Undefined
      else if tr (s ! reg) = tr (s ! t) then match_memory s tr (reg + 1) regend (t + 1)
      else Inr Mismatch)"
  by pat_completeness auto
termination
  by (relation "measure (\<lambda>(s, tr, reg, regend, t). length s - t)") auto

declare match_memory.simps [simp del]

text \<open>
  The optimisation of loops: \<open>star_first\<close> looks for the character that the loop begins with and
  compares it with the first characters of what follows, \<open>star_straight\<close> looks for jumps in the
  rest of the loop.
\<close>

definition all_chars :: "char list" where
  "all_chars = map chr [0..<256]"

definition star_straight :: "instr list \<Rightarrow> bool" where
  "star_straight = list_all (\<lambda>i. case i of Cjump _ \<Rightarrow> False | Cstar_jump _ \<Rightarrow> False | Cfailure_jump _ \<Rightarrow> False
     | Cupdate_failure_jump _ \<Rightarrow> False | Cdummy_failure_jump _ \<Rightarrow> False | _ \<Rightarrow> True)"

fun star_first :: "(char \<Rightarrow> bool) \<Rightarrow> instr list \<Rightarrow> bool" where
  "star_first fm [] = False"
| "star_first fm (Cbol # ins) = star_first fm ins"
| "star_first fm (Ceol # ins) = star_first fm ins"
| "star_first fm (Cbegbuf # ins) = star_first fm ins"
| "star_first fm (Cendbuf # ins) = star_first fm ins"
| "star_first fm (Cwordbeg # ins) = star_first fm ins"
| "star_first fm (Cwordend # ins) = star_first fm ins"
| "star_first fm (Cwordbound # ins) = star_first fm ins"
| "star_first fm (Cnotwordbound # ins) = star_first fm ins"
| "star_first fm (Cstart_memory r # ins) = star_first fm ins"
| "star_first fm (Cend_memory r # ins) = star_first fm ins"
| "star_first fm (Cexact c # ins) = (\<not> fm c \<and> star_straight ins)"
| "star_first fm (Canychar # ins) = (\<not> list_ex (\<lambda>c. c \<noteq> NL \<and> fm c) all_chars \<and> star_straight ins)"
| "star_first fm (Cset m # ins) = (\<not> list_ex (\<lambda>c. m c \<and> fm c) all_chars \<and> star_straight ins)"
| "star_first fm (_ # ins) = False"

text \<open>What a \<open>Cstar_jump d\<close> at \<open>pc\<close> becomes; the loop's body begins behind its failure jump.\<close>

definition star_jump :: "instr list \<Rightarrow> nat \<Rightarrow> int \<Rightarrow> instr" where
  "star_jump code pc d =
     (let p = target pc d + 1
      in if star_first (fm_map (do_compile_fastmap code (pc + 1))) (take (pc - p) (drop p code))
         then Cupdate_failure_jump (d + 1) else Cjump d)"

definition push_failure :: "nat \<times> nat option \<Rightarrow> machine \<Rightarrow> machine + verdict \<times> machine" where
  "push_failure fp m =
     (if length (m_stack m) = MAX_FAILURES then Inr (Overflow, m) else Inl (m\<lparr>m_stack := fp # m_stack m\<rparr>))"

text \<open>One turn of the loop of \<^verbatim>\<open>re_match_2\<close>; \<open>Inr\<close> when it returns.\<close>

fun exec_instr :: "string \<Rightarrow> (char \<Rightarrow> char) \<Rightarrow> instr \<Rightarrow> machine \<Rightarrow> machine + verdict \<times> machine" where
  "exec_instr s tr Cend m = Inr (Matched (m_text m), m)"
| "exec_instr s tr Cbol m = check (m_text m = 0 \<or> s ! (m_text m - 1) = NL) m"
| "exec_instr s tr Ceol m = check (m_text m = length s \<or> s ! m_text m = NL) m"
| "exec_instr s tr (Cset P) m = next_char s tr P m"
| "exec_instr s tr (Cexact c) m = next_char s tr (\<lambda>d. d = c) m"
| "exec_instr s tr Canychar m = next_char s tr (\<lambda>c. c \<noteq> NL) m"
| "exec_instr s tr (Cstart_memory r) m = proceed (m\<lparr>m_start := (m_start m)(r := m_text m)\<rparr>)"
| "exec_instr s tr (Cend_memory r) m = proceed (m\<lparr>m_end := (m_end m)(r := Some (m_text m))\<rparr>)"
| "exec_instr s tr (Cmatch_memory r) m =
     (case m_end m r of
        None \<Rightarrow> fail m
      | Some e \<Rightarrow>
          (case match_memory s tr (m_start m r) e (m_text m) of
             Inl t \<Rightarrow> proceed (m\<lparr>m_text := t\<rparr>)
           | Inr Undefined \<Rightarrow> Inr (Undefined, m)
           | Inr _ \<Rightarrow> fail m))"
| "exec_instr s tr (Cstar_jump d) m =
     (let i = star_jump (m_code m) (m_pc m) d; m = m\<lparr>m_code := (m_code m)[m_pc m := i]\<rparr>
      in case i of
           Cupdate_failure_jump a \<Rightarrow>
             (case m_stack m of
                [] \<Rightarrow> Inr (Undefined, m)
              | fp # st \<Rightarrow> Inl (goto (target (m_pc m) a) (m\<lparr>m_stack := (fst fp, Some (m_text m)) # st\<rparr>)))
         | _ \<Rightarrow> Inl (goto (target (m_pc m) d) m))"
| "exec_instr s tr (Cupdate_failure_jump d) m =
     (case m_stack m of
        [] \<Rightarrow> Inr (Undefined, m)
      | fp # st \<Rightarrow> Inl (goto (target (m_pc m) d) (m\<lparr>m_stack := (fst fp, Some (m_text m)) # st\<rparr>)))"
| "exec_instr s tr (Cjump d) m = Inl (goto (target (m_pc m) d) m)"
| "exec_instr s tr (Cdummy_failure_jump d) m =
     (if length (m_code m) \<le> m_pc m + 1 then Inr (Undefined, m)
      else case m_code m ! (m_pc m + 1) of
        Cfailure_jump b \<Rightarrow> push_failure (target (m_pc m + 1) b, None) (goto (target (m_pc m) d) m)
      | _ \<Rightarrow> Inr (Undefined, m))"
| "exec_instr s tr (Cfailure_jump d) m =
     push_failure (target (m_pc m) d, Some (m_text m)) (goto (m_pc m + 1) m)"
| "exec_instr s tr Cbegbuf m = check (m_text m = 0) m"
| "exec_instr s tr Cendbuf m = check (m_text m = length s) m"
| "exec_instr s tr Cwordbeg m =
     check (m_text m < length s \<and> sword (s ! m_text m) \<and> (m_text m = 0 \<or> \<not> sword (s ! (m_text m - 1)))) m"
| "exec_instr s tr Cwordend m =
     check (0 < m_text m \<and> sword (s ! (m_text m - 1)) \<and> (m_text m = length s \<or> \<not> sword (s ! m_text m))) m"
| "exec_instr s tr Cwordbound m =
     check (m_text m = 0 \<or> m_text m = length s \<or> sword (s ! (m_text m - 1)) \<noteq> sword (s ! m_text m)) m"
| "exec_instr s tr Cnotwordbound m =
     check (\<not> (m_text m = 0 \<or> m_text m = length s) \<and> sword (s ! (m_text m - 1)) = sword (s ! m_text m)) m"
| "exec_instr s tr (Csyntaxspec w) m = next_char s tr (\<lambda>c. sword c = w) m"
| "exec_instr s tr (Cnotsyntaxspec w) m = next_char s tr (\<lambda>c. sword c \<noteq> w) m"

definition match_step :: "string \<Rightarrow> (char \<Rightarrow> char) \<Rightarrow> machine \<Rightarrow> machine + verdict \<times> machine" where
  "match_step s tr m =
     (if m_pc m < length (m_code m) then exec_instr s tr (m_code m ! m_pc m) m else Inr (Undefined, m))"

partial_function (option) match_run :: "string \<Rightarrow> (char \<Rightarrow> char) \<Rightarrow> machine \<Rightarrow> (verdict \<times> machine) option" where
  "match_run s tr m = (case match_step s tr m of Inl m' \<Rightarrow> match_run s tr m' | Inr r \<Rightarrow> Some r)"

declare match_run.simps [code]

subsection \<open>Compiled patterns as objects of the module\<close>

text \<open>
  A regex object: its program, the fast map with \<^verbatim>\<open>fastmap_accurate\<close>, \<^verbatim>\<open>can_be_null\<close> and
  \<^verbatim>\<open>anchor\<close>, the translation (the identity when there is none), and the string and registers of
  the last match (\<^verbatim>\<open>re_lastok\<close> and \<^verbatim>\<open>re_regs\<close>, \<open>None\<close> after a failure).
\<close>

type_synonym regs = "(int \<times> int) list"

record regex =
  r_code :: "instr list"
  r_uses :: bool
  r_tr :: "char \<Rightarrow> char"
  r_accurate :: bool
  r_fastmap :: "char \<Rightarrow> bool"
  r_null :: nat
  r_anchor :: nat
  r_lastok :: "(string \<times> regs) option"

definition regex_error :: "string \<Rightarrow> pyexc" where
  "regex_error e = ModError ''regex.error'' e"

text \<open>\<^verbatim>\<open>regex.compile(pat, tr)\<close> under the syntax \<open>syn\<close> of the moment.\<close>

definition regex_compile :: "int \<Rightarrow> (char \<Rightarrow> char) \<Rightarrow> string \<Rightarrow> regex res" where
  "regex_compile syn tr pat =
     (case re_compile_pattern syn tr pat of
        Inl e \<Rightarrow> Inl (regex_error e)
      | Inr (code, uses) \<Rightarrow> Inr \<lparr>r_code = code, r_uses = uses, r_tr = tr, r_accurate = False,
          r_fastmap = (\<lambda>_. False), r_null = 0, r_anchor = 0, r_lastok = None\<rparr>)"

text \<open>The registers after a match from \<open>pos\<close> to \<open>e\<close>, as \<^verbatim>\<open>makeresult\<close> shows them.\<close>

definition match_regs :: "bool \<Rightarrow> nat \<Rightarrow> nat \<Rightarrow> machine \<Rightarrow> regs" where
  "match_regs uses pos e m =
     (int pos, int e) # map (\<lambda>a.
       if uses then (case m_end m a of None \<Rightarrow> (- 1, - 1) | Some t \<Rightarrow> (int (m_start m a), int t))
       else (- 1, - 1)) [1..<RE_NREGS]"

text \<open>
  \<^verbatim>\<open>re_match_2\<close> from \<open>pos\<close>: the length of the match, -1 or -2. \<open>None\<close> when it does not return;
  undefined behaviour has no result either.
\<close>

definition match_start :: "instr list \<Rightarrow> nat \<Rightarrow> machine" where
  "match_start code pos = \<lparr>m_code = code, m_pc = 0, m_text = pos, m_stack = [], m_start = (\<lambda>_. 0), m_end = (\<lambda>_. None)\<rparr>"

definition re_match :: "string \<Rightarrow> nat \<Rightarrow> regex \<Rightarrow> (int \<times> regex) option" where
  "re_match s pos r =
     (case match_run s (r_tr r) (match_start (r_code r) pos) of
        None \<Rightarrow> None
      | Some (Matched e, m) \<Rightarrow>
          Some (int e - int pos, r\<lparr>r_code := m_code m, r_lastok := Some (s, match_regs (r_uses r) pos e m)\<rparr>)
      | Some (Mismatch, m) \<Rightarrow> Some (- 1, r\<lparr>r_code := m_code m\<rparr>)
      | Some (Overflow, m) \<Rightarrow> Some (- 2, r\<lparr>r_code := m_code m\<rparr>)
      | Some (Undefined, m) \<Rightarrow> None)"

text \<open>\<^verbatim>\<open>re_compile_fastmap\<close>, once.\<close>

definition re_compile_fastmap :: "regex \<Rightarrow> regex" where
  "re_compile_fastmap r =
     (if r_accurate r then r
      else let f = do_compile_fastmap (r_code r) 0
        in r\<lparr>r_fastmap := fm_map f, r_null := fm_null f, r_accurate := True,
             r_anchor := (case r_code r of Cbol # _ \<Rightarrow> 1 | Cbegbuf # _ \<Rightarrow> 2 | _ \<Rightarrow> 0)\<rparr>)"

text \<open>
  The loop of \<^verbatim>\<open>re_search_2\<close>, forwards: positions \<open>pos\<close> to \<open>pos + rng\<close> are tried. \<open>skip\<close> is
  the pointer \<^verbatim>\<open>fastmap\<close>, a null pointer when the pattern may match nothing.
\<close>

definition skip_to :: "bool \<Rightarrow> string \<Rightarrow> nat \<Rightarrow> nat \<Rightarrow> regex \<Rightarrow> nat" where
  "skip_to skip s pos rng r =
     (if skip then scan_up (\<lambda>c. \<not> r_fastmap r (r_tr r c)) s pos (pos + rng) else pos)"

lemma skip_to_bounds: "pos \<le> skip_to skip s pos rng r" "skip_to skip s pos rng r \<le> pos + rng"
  by (simp_all add: skip_to_def scan_up_ge scan_up_le)

function search_loop :: "bool \<Rightarrow> string \<Rightarrow> nat \<Rightarrow> nat \<Rightarrow> regex \<Rightarrow> (int \<times> regex) option" where
  "search_loop skip s pos rng r =
     (let p = skip_to skip s pos rng r; n = rng - (p - pos)
      in if skip \<and> p = length s \<and> r_null r = 0 then Some (- 1, r)
         else if r_anchor r = 1 \<and> p > 0 \<and> s ! (p - 1) \<noteq> NL then
           (if n = 0 then Some (- 1, r) else search_loop skip s (p + 1) (n - 1) r)
         else case re_match s p r of
           None \<Rightarrow> None
         | Some (k, r') \<Rightarrow>
             if 0 \<le> k then Some (int p, r')
             else if k = - 2 then Some (- 2, r')
             else if n = 0 then Some (- 1, r') else search_loop skip s (p + 1) (n - 1) r')"
  by pat_completeness auto
termination
  by (relation "measure (\<lambda>(skip, s, pos, rng, r). rng)") auto

declare search_loop.simps [simp del]

definition re_search :: "string \<Rightarrow> nat \<Rightarrow> regex \<Rightarrow> (int \<times> regex) option" where
  "re_search s pos r =
     (let r = re_compile_fastmap r
      in if r_anchor r = 2 \<and> pos \<noteq> 0 then Some (- 1, r)
         else search_loop (r_null r \<noteq> 1) s pos (if r_anchor r = 2 then 0 else length s - pos) r)"

text \<open>The methods \<^verbatim>\<open>match\<close> and \<^verbatim>\<open>search\<close>; the attribute \<^verbatim>\<open>regs\<close> is the second part of \<open>r_lastok\<close>.\<close>

definition reg_call :: "string \<Rightarrow> (string \<Rightarrow> nat \<Rightarrow> regex \<Rightarrow> (int \<times> regex) option) \<Rightarrow> string \<Rightarrow> int \<Rightarrow> regex
    \<Rightarrow> (int res \<times> regex) option" where
  "reg_call what f s offset r =
     (if offset < 0 \<or> offset > int (length s) then Some (Inl (regex_error (what @ '' offset out of range'')), r)
      else case f s (nat offset) (r\<lparr>r_lastok := None\<rparr>) of
        None \<Rightarrow> None
      | Some (k, r') \<Rightarrow> if k < - 1 then Some (Inl (regex_error ''match failure''), r') else Some (Inr k, r'))"

definition reg_match :: "string \<Rightarrow> int \<Rightarrow> regex \<Rightarrow> (int res \<times> regex) option" where
  "reg_match = reg_call ''match'' re_match"

definition reg_search :: "string \<Rightarrow> int \<Rightarrow> regex \<Rightarrow> (int res \<times> regex) option" where
  "reg_search = reg_call ''search'' re_search"

definition reg_regs :: "regex \<Rightarrow> regs option" where
  "reg_regs r = map_option snd (r_lastok r)"

text \<open>\<^verbatim>\<open>group(i)\<close> of an object, with one index: \<open>None\<close> of the result is Python's \<^verbatim>\<open>None\<close>.\<close>

definition reg_group :: "int \<Rightarrow> regex \<Rightarrow> string option res" where
  "reg_group i r =
     (if i < 0 \<or> i \<ge> int RE_NREGS then Inl (regex_error ''group() index out of range'')
      else case r_lastok r of
        None \<Rightarrow> Inl (regex_error ''group() only valid after successful match/search'')
      | Some (s, regs) \<Rightarrow>
          (case regs ! nat i of (a, b) \<Rightarrow>
             if a < 0 \<or> b < 0 then Inr None else Inr (Some (take (nat (b - a)) (drop (nat a) s)))))"

end
