(* ===== verification/Regex_Laws.thy ===== *)
theory Regex_Laws
  imports Regexpr
begin

section \<open>What the regular expression engine does\<close>

text \<open>
  Two kinds of facts about \<^theory_text>\<open>Regexpr\<close>. For every program: a match found from a position lies
  between this position and the end of the string, and so do the registers. For the programs that
  consist of single characters, sets and \<open>.*\<close>: the machine, with its failure stack and the
  rewriting of loops, computes the greedy match \<open>greedy\<close>, whatever loops earlier matches have
  rewritten; and a greedy match covers the whole string whenever any match does.
\<close>

subsection \<open>Patterns of single characters and \<open>.*\<close>\<close>

datatype item = One instr | Star

fun accepts :: "instr \<Rightarrow> char \<Rightarrow> bool" where
  "accepts (Cset P) c = P c"
| "accepts (Cexact d) c = (c = d)"
| "accepts Canychar c = (c \<noteq> NL)"
| "accepts _ c = False"

fun single :: "instr \<Rightarrow> bool" where
  "single (Cset P) = True"
| "single (Cexact d) = True"
| "single Canychar = True"
| "single _ = False"

fun simple :: "item \<Rightarrow> bool" where
  "simple (One i) = single i"
| "simple Star = True"

fun item_code :: "item \<Rightarrow> instr list" where
  "item_code (One i) = [i]"
| "item_code Star = [Cfailure_jump 2, Canychar, Cstar_jump (- 3)]"

definition items_code :: "item list \<Rightarrow> instr list" where
  "items_code its = concat (map item_code its) @ [Cend]"

text \<open>No character but a newline continues the pattern: the loop before it may be sealed.\<close>

fun sealed :: "item list \<Rightarrow> bool" where
  "sealed [] = True"
| "sealed (One i # its) = (\<forall>c. accepts i c \<longrightarrow> c = NL)"
| "sealed (Star # its) = False"

text \<open>The programs a pattern may have become.\<close>

fun shape :: "item list \<Rightarrow> instr list \<Rightarrow> bool" where
  "shape [] code \<longleftrightarrow> code = [Cend]"
| "shape (One i # its) code \<longleftrightarrow> (\<exists>rest. code = i # rest \<and> single i \<and> shape its rest)"
| "shape (Star # its) code \<longleftrightarrow> (\<exists>j rest. code = Cfailure_jump 2 # Canychar # j # rest \<and> shape its rest \<and>
     (j = Cstar_jump (- 3) \<or> j = Cjump (- 3) \<or> (j = Cupdate_failure_jump (- 2) \<and> sealed its)))"

lemma shape_items_code: "list_all simple its \<Longrightarrow> shape its (items_code its)"
proof (induction its)
  case Nil
  then show ?case by (simp add: items_code_def)
next
  case (Cons i its)
  then show ?case by (cases i) (auto simp: items_code_def)
qed

text \<open>The greedy match from \<open>t\<close>: where it ends.\<close>

function greedy :: "string \<Rightarrow> item list \<Rightarrow> nat \<Rightarrow> nat option" where
  "greedy s [] t = Some t"
| "greedy s (One i # its) t =
     (if t < length s \<and> accepts i (s ! t) then greedy s its (Suc t) else None)"
| "greedy s (Star # its) t =
     (if t < length s \<and> s ! t \<noteq> NL
      then (case greedy s (Star # its) (Suc t) of Some e \<Rightarrow> Some e | None \<Rightarrow> greedy s its t)
      else greedy s its t)"
  by pat_completeness auto
termination
  by (relation "measures [\<lambda>(s, its, t). length its, \<lambda>(s, its, t). length s - t]") auto

declare greedy.simps(3) [simp del]

subsection \<open>The first characters of a program\<close>

lemma fm_run_mono: "fm_map f c \<Longrightarrow> fm_map (fm_run code ps v f) c"
proof (induction code ps v f rule: fm_run.induct)
  case (1 code v f)
  then show ?case by simp
next
  case (2 code p ps v f)
  have keep: "fm_map f' c" if "fm_instr i f = FNext f' \<or> fm_instr i f = FReturn f'" for i f'
    using that "2.prems" by (cases i) (auto simp: fm_add_def)
  show ?case
    by (subst fm_run.simps) (auto intro: "2.IH" keep "2.prems" simp: not_le split: fm_action.split)
qed

lemma fm_run_any:
  "p \<in> set ps \<Longrightarrow> p < length code \<Longrightarrow> code ! p = Canychar \<Longrightarrow> c \<noteq> NL \<Longrightarrow> fm_map (fm_run code ps v f) c"
proof (induction code ps v f rule: fm_run.induct)
  case (1 code v f)
  then show ?case by simp
next
  case (2 code q ps v f)
  show ?case
  proof (cases "q = p")
    case True
    with "2.prems" show ?thesis by (subst fm_run.simps) (auto simp: fm_add_def intro: fm_run_mono)
  next
    case False
    with "2.prems" have p: "p \<in> set ps" by simp
    show ?thesis
      by (subst fm_run.simps) (auto simp: not_le p "2.prems" intro: "2.IH" split: fm_action.split)
  qed
qed

lemma all_chars [simp]: "set all_chars = UNIV"
proof -
  have "c \<in> set all_chars" for c
    using ord_less_256 [of c] unfolding all_chars_def set_map set_upt
    by (intro image_eqI [of _ _ "ord c"]) simp_all
  then show ?thesis by blast
qed

lemma shape_ne: "shape its code \<Longrightarrow> code \<noteq> []"
  by (cases its rule: sealed.cases) auto

lemma star_first_sealed:
  assumes "shape its rest" "star_first (fm_map (do_compile_fastmap (pre @ rest) (length pre))) [Canychar]"
  shows "sealed its"
proof (rule ccontr)
  assume no: "\<not> sealed its"
  let ?code = "pre @ rest" and ?p = "length pre"
  have "\<exists>c. c \<noteq> NL \<and> fm_map (do_compile_fastmap ?code ?p) c"
  proof (cases its rule: sealed.cases)
    case 1
    with no show ?thesis by simp
  next
    case (2 i its')
    with no obtain c where c: "accepts i c" "c \<noteq> NL" by auto
    from assms(1) 2 obtain r where r: "rest = i # r" "single i" by auto
    have "fm_map (do_compile_fastmap ?code ?p) c"
      using r c(1) unfolding do_compile_fastmap_def
      by (subst fm_run.simps) (cases i; simp add: fm_add_def)
    with c(2) show ?thesis by blast
  next
    case (3 its')
    with assms(1) obtain j r where r: "rest = Cfailure_jump 2 # Canychar # j # r" "r \<noteq> []"
      by (auto dest: shape_ne)
    have t: "target ?p 2 = ?p + 3" by (simp add: target_def nat_add_distrib)
    have "fm_map (do_compile_fastmap ?code ?p) CHR ''a''"
      unfolding do_compile_fastmap_def using r
      by (subst fm_run.simps) (auto simp: t nth_append fm_seen_def intro!: fm_run_any [of "Suc ?p"])
    then show ?thesis by (intro exI [of _ "CHR ''a''"]) simp
  qed
  with assms(2) show False by (auto simp: list_ex_iff star_straight_def)
qed

subsection \<open>Runs of the machine\<close>

text \<open>
  The result of the machine from an address, a text and a stack of failure points, without
  registers: the verdict and the program it leaves. \<open>fail_at\<close> is the result of failing there.
\<close>

type_synonym failures = "(nat \<times> nat option) list"

definition config :: "instr list \<Rightarrow> nat \<Rightarrow> nat \<Rightarrow> failures \<Rightarrow> machine" where
  "config code pc t F =
     \<lparr>m_code = code, m_pc = pc, m_text = t, m_stack = F, m_start = (\<lambda>_. 0), m_end = (\<lambda>_. None)\<rparr>"

definition run_at :: "string \<Rightarrow> instr list \<Rightarrow> nat \<Rightarrow> nat \<Rightarrow> failures \<Rightarrow> (verdict \<times> instr list) option" where
  "run_at s code pc t F = map_option (map_prod id m_code) (match_run s id (config code pc t F))"

fun fail_at :: "string \<Rightarrow> instr list \<Rightarrow> failures \<Rightarrow> (verdict \<times> instr list) option" where
  "fail_at s code [] = Some (Mismatch, code)"
| "fail_at s code ((pc, None) # F) = fail_at s code F"
| "fail_at s code ((pc, Some t) # F) = run_at s code pc t F"

lemma config_sel [simp]:
  "m_code (config code pc t F) = code" "m_pc (config code pc t F) = pc" "m_text (config code pc t F) = t"
  "m_stack (config code pc t F) = F"
  "(config code pc t F)\<lparr>m_pc := pc'\<rparr> = config code pc' t F"
  "(config code pc t F)\<lparr>m_text := t'\<rparr> = config code pc t' F"
  "(config code pc t F)\<lparr>m_stack := F'\<rparr> = config code pc t F'"
  "(config code pc t F)\<lparr>m_code := code'\<rparr> = config code' pc t F"
  by (simp_all add: config_def)

lemma match_start_config: "match_start code pos = config code 0 pos []"
  by (simp add: match_start_def config_def)

lemma run_step:
  assumes "pc < length code"
  shows "run_at s code pc t F =
    (case exec_instr s id (code ! pc) (config code pc t F) of
       Inl m \<Rightarrow> map_option (map_prod id m_code) (match_run s id m)
     | Inr r \<Rightarrow> Some (map_prod id m_code r))"
  using assms unfolding run_at_def
  by (subst match_run.simps) (simp add: match_step_def split: sum.split)

lemma run_backtrack:
  "m_code m = code \<Longrightarrow> m_start m = (\<lambda>_. 0) \<Longrightarrow> m_end m = (\<lambda>_. None) \<Longrightarrow>
    (case backtrack F m of
       Inl m \<Rightarrow> map_option (map_prod id m_code) (match_run s id m)
     | Inr r \<Rightarrow> Some (map_prod id m_code r)) = fail_at s code F"
proof (induction F m rule: backtrack.induct)
  case (3 pc t F m)
  then have "m\<lparr>m_pc := pc, m_text := t, m_stack := F\<rparr> = config code pc t F" by (simp add: config_def)
  then show ?case by (simp add: run_at_def)
qed simp_all

lemma run_fail:
  "(case fail (config code pc t F) of
       Inl m \<Rightarrow> map_option (map_prod id m_code) (match_run s id m)
     | Inr r \<Rightarrow> Some (map_prod id m_code r)) = fail_at s code F"
  unfolding fail_def by (simp add: run_backtrack [of _ code] config_def)

lemma run_end: "pc < length code \<Longrightarrow> code ! pc = Cend \<Longrightarrow> run_at s code pc t F = Some (Matched t, code)"
  by (simp add: run_step)

lemma run_next_char:
  "(case next_char s id P (config code pc t F) of
       Inl m \<Rightarrow> map_option (map_prod id m_code) (match_run s id m)
     | Inr r \<Rightarrow> Some (map_prod id m_code r)) =
   (if t < length s \<and> P (s ! t) then run_at s code (Suc pc) (Suc t) F else fail_at s code F)"
  using run_fail by (simp add: next_char_def proceed_def run_at_def)

lemma run_single:
  assumes "pc < length code" "single (code ! pc)"
  shows "run_at s code pc t F =
    (if t < length s \<and> accepts (code ! pc) (s ! t) then run_at s code (Suc pc) (Suc t) F else fail_at s code F)"
  using assms by (cases "code ! pc") (simp_all add: run_step run_next_char)

lemma run_failure_jump:
  "pc < length code \<Longrightarrow> code ! pc = Cfailure_jump d \<Longrightarrow> length F < MAX_FAILURES \<Longrightarrow>
    run_at s code pc t F = run_at s code (Suc pc) t ((target pc d, Some t) # F)"
  by (simp add: run_step push_failure_def goto_def) (simp add: run_at_def)

lemma run_dummy_failure_jump:
  "Suc pc < length code \<Longrightarrow> code ! pc = Cdummy_failure_jump d \<Longrightarrow> code ! Suc pc = Cfailure_jump b \<Longrightarrow> length F < MAX_FAILURES \<Longrightarrow>
    run_at s code pc t F = run_at s code (target pc d) t ((target (Suc pc) b, None) # F)"
  by (simp add: run_step push_failure_def goto_def) (simp add: run_at_def)

lemma run_jump:
  "pc < length code \<Longrightarrow> code ! pc = Cjump d \<Longrightarrow> run_at s code pc t F = run_at s code (target pc d) t F"
  by (simp add: run_step goto_def) (simp add: run_at_def)

lemma run_update:
  "pc < length code \<Longrightarrow> code ! pc = Cupdate_failure_jump d \<Longrightarrow>
    run_at s code pc t ((a, b) # F) = run_at s code (target pc d) t ((a, Some t) # F)"
  by (simp add: run_step goto_def) (simp add: run_at_def)

text \<open>A star jump is replaced and then taken.\<close>

lemma run_star_jump:
  assumes "pc < length code" "code ! pc = Cstar_jump d"
  shows "run_at s code pc t (f # F) = run_at s (code[pc := star_jump code pc d]) pc t (f # F)"
proof -
  let ?i = "star_jump code pc d" and ?code = "code[pc := star_jump code pc d]"
  have i: "?i = Cupdate_failure_jump (d + 1) \<or> ?i = Cjump d" by (simp add: star_jump_def Let_def)
  obtain a b where f: "f = (a, b)" by (cases f)
  have "run_at s ?code pc t (f # F) = run_at s code pc t (f # F)"
    using i
  proof
    assume u: "?i = Cupdate_failure_jump (d + 1)"
    have "run_at s ?code pc t (f # F) = run_at s ?code (target pc (d + 1)) t ((a, Some t) # F)"
      using assms(1) u f run_update [of pc ?code "d + 1"] by simp
    also have "\<dots> = run_at s code pc t (f # F)"
      using assms u f by (subst (2) run_step) (simp_all add: Let_def goto_def run_at_def)
    finally show ?thesis .
  next
    assume u: "?i = Cjump d"
    have "run_at s ?code pc t (f # F) = run_at s ?code (target pc d) t (f # F)"
      using assms(1) u run_jump [of pc ?code d] by simp
    also have "\<dots> = run_at s code pc t (f # F)"
      using assms u by (subst (2) run_step) (simp_all add: Let_def goto_def run_at_def)
    finally show ?thesis .
  qed
  then show ?thesis ..
qed

subsection \<open>Loops over \<open>.\<close>\<close>

definition line_end :: "string \<Rightarrow> nat \<Rightarrow> nat" where
  "line_end s t = t + length (takeWhile (\<lambda>c. c \<noteq> NL) (drop t s))"

lemma line_end_step: "t < length s \<Longrightarrow> s ! t \<noteq> NL \<Longrightarrow> line_end s t = line_end s (Suc t)"
  by (simp add: line_end_def Cons_nth_drop_Suc [symmetric])

lemma line_end_stop: "\<not> (t < length s \<and> s ! t \<noteq> NL) \<Longrightarrow> line_end s t = t"
  by (cases "t < length s") (simp_all add: line_end_def Cons_nth_drop_Suc [symmetric])

lemma line_end_le: "t \<le> length s \<Longrightarrow> line_end s t \<le> length s"
  using length_takeWhile_le [of "\<lambda>c. c \<noteq> NL" "drop t s"] by (simp add: line_end_def)

lemma line_end_ge: "t \<le> line_end s t"
  by (simp add: line_end_def)

lemma greedy_sealed:
  "sealed its \<Longrightarrow> greedy s (Star # its) t = greedy s its (line_end s t)"
proof (induction "length s - t" arbitrary: t rule: less_induct)
  case less
  show ?case
  proof (cases "t < length s \<and> s ! t \<noteq> NL")
    case True
    have "greedy s its t = None" if "greedy s its (line_end s (Suc t)) = None"
      using that less.prems True by (cases its rule: sealed.cases) auto
    with True less show ?thesis
      by (subst greedy.simps) (auto simp: line_end_step [of t s] split: option.split)
  next
    case False
    then have "greedy s (Star # its) t = greedy s its t" by (subst greedy.simps) auto
    with False show ?thesis by (simp add: line_end_stop)
  qed
qed

lemma target_pos [simp]:
  "target n 2 = n + 3" "target (Suc (Suc n)) (- 2) = Suc n" "target (Suc (Suc n)) (- 3) = n"
  by (simp_all add: target_def nat_add_distrib)

lemma run_sealed_loop:
  fixes pre rest
  defines "code \<equiv> pre @ Cfailure_jump 2 # Canychar # Cupdate_failure_jump (- 2) # rest"
  shows "run_at s code (Suc (length pre)) t ((length pre + 3, Some t) # F) =
    run_at s code (length pre + 3) (line_end s t) F"
proof (induction "length s - t" arbitrary: t rule: less_induct)
  case less
  have n: "Suc (Suc (length pre)) < length code" "code ! Suc (length pre) = Canychar"
      "code ! Suc (Suc (length pre)) = Cupdate_failure_jump (- 2)"
    by (simp_all add: code_def nth_append)
  show ?case
  proof (cases "t < length s \<and> s ! t \<noteq> NL")
    case True
    have "run_at s code (Suc (length pre)) t ((length pre + 3, Some t) # F) =
        run_at s code (Suc (Suc (length pre))) (Suc t) ((length pre + 3, Some t) # F)"
      using run_single [of "Suc (length pre)" code] n True by simp
    also have "\<dots> = run_at s code (Suc (length pre)) (Suc t) ((length pre + 3, Some (Suc t)) # F)"
      using run_update [OF n(1,3)] by simp
    also have "\<dots> = run_at s code (length pre + 3) (line_end s (Suc t)) F"
      using True by (intro less.hyps) auto
    finally show ?thesis using True by (simp add: line_end_step)
  next
    case False
    then have "run_at s code (Suc (length pre)) t ((length pre + 3, Some t) # F) =
        fail_at s code ((length pre + 3, Some t) # F)"
      using run_single [of "Suc (length pre)" code] n by auto
    with False show ?thesis by (simp add: line_end_stop)
  qed
qed

fun stars :: "item list \<Rightarrow> nat" where
  "stars [] = 0"
| "stars (One i # its) = stars its"
| "stars (Star # its) = Suc (stars its)"

text \<open>The machine computes the greedy match and leaves a program of the same shape.\<close>

definition outcome :: "string \<Rightarrow> nat option \<Rightarrow> instr list \<Rightarrow> failures \<Rightarrow> (verdict \<times> instr list) option" where
  "outcome s r code F = (case r of Some e \<Rightarrow> Some (Matched e, code) | None \<Rightarrow> fail_at s code F)"

lemma outcome_simps [simp]:
  "outcome s (Some e) code F = Some (Matched e, code)"
  "outcome s None code F = fail_at s code F"
  by (simp_all add: outcome_def)

definition loop_code :: "instr list \<Rightarrow> instr \<Rightarrow> instr list \<Rightarrow> instr list" where
  "loop_code pre j rest = pre @ Cfailure_jump 2 # Canychar # j # rest"

lemma loop_code_nth:
  "length pre + 3 \<le> length (loop_code pre j rest)"
  "loop_code pre j rest ! length pre = Cfailure_jump 2"
  "loop_code pre j rest ! Suc (length pre) = Canychar"
  "loop_code pre j rest ! Suc (Suc (length pre)) = j"
  "(loop_code pre j rest)[Suc (Suc (length pre)) := j'] = loop_code pre j' rest"
  by (simp_all add: loop_code_def nth_append list_update_append)

lemma star_jump_loop:
  assumes "shape its rest"
  shows "star_jump (loop_code pre j rest) (Suc (Suc (length pre))) (- 3) = Cjump (- 3) \<or>
    (star_jump (loop_code pre j rest) (Suc (Suc (length pre))) (- 3) = Cupdate_failure_jump (- 2) \<and> sealed its)"
  using star_first_sealed [OF assms, of "pre @ [Cfailure_jump 2, Canychar, j]"]
  by (simp add: star_jump_def Let_def loop_code_def)

lemma run_loop:
  assumes shape: "shape its rest" and t: "t \<le> length s" and F: "length F + (length s - t) + stars its < MAX_FAILURES - 1"
    and j: "j = Cstar_jump (- 3) \<or> j = Cjump (- 3) \<or> (j = Cupdate_failure_jump (- 2) \<and> sealed its)"
    and tail: "\<And>j rest t F. shape its rest \<Longrightarrow> t \<le> length s \<Longrightarrow> length F + (length s - t) + stars its < MAX_FAILURES \<Longrightarrow>
      \<exists>rest'. shape its rest' \<and> run_at s (loop_code pre j rest) (length pre + 3) t F =
        outcome s (greedy s its t) (loop_code pre j rest') F"
  shows "\<exists>j' rest'. shape (Star # its) (Cfailure_jump 2 # Canychar # j' # rest') \<and>
    run_at s (loop_code pre j rest) (length pre) t F = outcome s (greedy s (Star # its) t) (loop_code pre j' rest') F"
  using shape t F j
proof (induction "length s - t" arbitrary: t F j rest rule: less_induct)
  case less
  let ?code = "loop_code pre j rest" and ?p = "length pre"
  let ?fp = "(length pre + 3, Some t) # F"
  note nth = loop_code_nth [of pre j rest]
  have push: "run_at s ?code ?p t F = run_at s ?code (Suc ?p) t ?fp"
    using run_failure_jump [of ?p ?code 2 F s t] nth less.prems(3) by simp
  have seal: "\<exists>j' rest'. shape (Star # its) (Cfailure_jump 2 # Canychar # j' # rest') \<and>
      run_at s (loop_code pre k rest) (length pre + 3) (line_end s u) F =
      outcome s (greedy s (Star # its) u) (loop_code pre j' rest') F"
    if "sealed its" "k = Cupdate_failure_jump (- 2)" "t \<le> u" "u \<le> length s" for k u
  proof -
    have "\<exists>rest'. shape its rest' \<and> run_at s (loop_code pre k rest) (length pre + 3) (line_end s u) F =
        outcome s (greedy s its (line_end s u)) (loop_code pre k rest') F"
      using less.prems that line_end_ge [of u s] line_end_le [of u s] by (intro tail) auto
    with that show ?thesis by (auto simp: greedy_sealed)
  qed
  show ?case
  proof (cases "t < length s \<and> s ! t \<noteq> NL")
    case False
    have "run_at s ?code (Suc ?p) t ?fp = fail_at s ?code ?fp"
      using run_single [of "Suc ?p" ?code s t ?fp] nth False by (subst run_single) auto
    with push have "run_at s ?code ?p t F = run_at s ?code (?p + 3) t F" by simp
    moreover have "greedy s (Star # its) t = greedy s its t" using False by (subst greedy.simps) auto
    moreover have "\<exists>rest'. shape its rest' \<and> run_at s ?code (?p + 3) t F = outcome s (greedy s its t) (loop_code pre j rest') F"
      using less.prems by (intro tail) auto
    ultimately show ?thesis using less.prems(4) by auto
  next
    case True
    have char: "run_at s ?code ?p t F = run_at s ?code (Suc (Suc ?p)) (Suc t) ?fp"
      using push run_single [of "Suc ?p" ?code] nth True by simp
    have jump: "\<exists>j' rest'. shape (Star # its) (Cfailure_jump 2 # Canychar # j' # rest') \<and>
        run_at s (loop_code pre (Cjump (- 3)) rest) (Suc (Suc ?p)) (Suc t) ?fp =
        outcome s (greedy s (Star # its) t) (loop_code pre j' rest') F"
    proof -
      have "run_at s (loop_code pre (Cjump (- 3)) rest) (Suc (Suc ?p)) (Suc t) ?fp =
          run_at s (loop_code pre (Cjump (- 3)) rest) ?p (Suc t) ?fp"
        using loop_code_nth [of pre "Cjump (- 3)" rest] by (subst run_jump) auto
      moreover have "\<exists>j' rest'. shape (Star # its) (Cfailure_jump 2 # Canychar # j' # rest') \<and>
          run_at s (loop_code pre (Cjump (- 3)) rest) ?p (Suc t) ?fp =
          outcome s (greedy s (Star # its) (Suc t)) (loop_code pre j' rest') ?fp"
        using less.prems True by (intro less.hyps) auto
      then obtain j' rest' where r: "shape (Star # its) (Cfailure_jump 2 # Canychar # j' # rest')"
          "run_at s (loop_code pre (Cjump (- 3)) rest) ?p (Suc t) ?fp =
           outcome s (greedy s (Star # its) (Suc t)) (loop_code pre j' rest') ?fp" by blast
      moreover have "\<exists>rest''. shape its rest'' \<and> run_at s (loop_code pre j' rest') (?p + 3) t F =
          outcome s (greedy s its t) (loop_code pre j' rest'') F"
        using r(1) less.prems by (intro tail) auto
      ultimately show ?thesis
        using True by (subst greedy.simps) (auto split: option.split)
    qed
    have update: "\<exists>j' rest'. shape (Star # its) (Cfailure_jump 2 # Canychar # j' # rest') \<and>
        run_at s (loop_code pre (Cupdate_failure_jump (- 2)) rest) (Suc (Suc ?p)) (Suc t) ?fp =
        outcome s (greedy s (Star # its) t) (loop_code pre j' rest') F" if "sealed its"
    proof -
      have "run_at s (loop_code pre (Cupdate_failure_jump (- 2)) rest) (Suc (Suc ?p)) (Suc t) ?fp =
          run_at s (loop_code pre (Cupdate_failure_jump (- 2)) rest) (?p + 3) (line_end s (Suc t)) F"
        using loop_code_nth [of pre "Cupdate_failure_jump (- 2)" rest] run_sealed_loop [of s pre rest "Suc t" F]
        by (subst run_update) (auto simp: loop_code_def)
      moreover have "greedy s (Star # its) (Suc t) = greedy s (Star # its) t"
        using that True by (simp add: greedy_sealed line_end_step)
      ultimately show ?thesis using seal [OF that refl, of "Suc t"] True by simp
    qed
    from less.prems(4) show ?thesis
    proof (elim disjE conjE)
      assume "j = Cstar_jump (- 3)"
      then have "run_at s ?code (Suc (Suc ?p)) (Suc t) ?fp =
          run_at s (loop_code pre (star_jump ?code (Suc (Suc ?p)) (- 3)) rest) (Suc (Suc ?p)) (Suc t) ?fp"
        using nth run_star_jump [of "Suc (Suc ?p)" ?code "- 3"] by simp
      with star_jump_loop [OF less.prems(1), of pre j] show ?thesis
        using jump update unfolding char by (elim disjE conjE) (simp_all only:)
    qed (use jump update in \<open>unfold char, simp_all only:\<close>)
  qed
qed

theorem run_greedy:
  assumes "shape its code" "t \<le> length s" "length F + (length s - t) + stars its < MAX_FAILURES"
  shows "\<exists>code'. shape its code' \<and>
    run_at s (pre @ code) (length pre) t F = outcome s (greedy s its t) (pre @ code') F"
  using assms
proof (induction its arbitrary: pre code t F)
  case Nil
  then show ?case by (simp add: run_end)
next
  case (Cons i its)
  show ?case
  proof (cases i)
    case (One k)
    with Cons.prems obtain rest where r: "code = k # rest" "single k" "shape its rest" by auto
    have step: "run_at s (pre @ code) (length pre) t F =
        (if t < length s \<and> accepts k (s ! t) then run_at s (pre @ code) (Suc (length pre)) (Suc t) F
         else fail_at s (pre @ code) F)"
      using run_single [of "length pre" "pre @ code"] r by simp
    show ?thesis
    proof (cases "t < length s \<and> accepts k (s ! t)")
      case True
      have "\<exists>code'. shape its code' \<and> run_at s ((pre @ [k]) @ rest) (length (pre @ [k])) (Suc t) F =
          outcome s (greedy s its (Suc t)) ((pre @ [k]) @ code') F"
        using True Cons.prems One r(3) by (intro Cons.IH) auto
      then obtain code' where "shape its code'"
          "run_at s (pre @ code) (Suc (length pre)) (Suc t) F = outcome s (greedy s its (Suc t)) (pre @ k # code') F"
        using r(1) by auto
      with True One r step show ?thesis by (intro exI [of _ "k # code'"]) simp
    next
      case False
      with One r step Cons.prems(1) show ?thesis by (intro exI [of _ code]) auto
    qed
  next
    case Star
    with Cons.prems obtain j rest where r: "code = Cfailure_jump 2 # Canychar # j # rest" "shape its rest"
        "j = Cstar_jump (- 3) \<or> j = Cjump (- 3) \<or> (j = Cupdate_failure_jump (- 2) \<and> sealed its)"
      by auto
    have "\<exists>j' rest'. shape (Star # its) (Cfailure_jump 2 # Canychar # j' # rest') \<and>
        run_at s (loop_code pre j rest) (length pre) t F = outcome s (greedy s (Star # its) t) (loop_code pre j' rest') F"
    proof (rule run_loop [OF r(2) Cons.prems(2) _ r(3)])
      show "length F + (length s - t) + stars its < MAX_FAILURES - 1" using Cons.prems(3) Star by simp
    next
      fix j rest t and F :: failures
      assume a: "shape its rest" "t \<le> length s" "length F + (length s - t) + stars its < MAX_FAILURES"
      show "\<exists>rest'. shape its rest' \<and> run_at s (loop_code pre j rest) (length pre + 3) t F =
          outcome s (greedy s its t) (loop_code pre j rest') F"
        using Cons.IH [OF a, of "pre @ [Cfailure_jump 2, Canychar, j]"] by (simp add: loop_code_def numeral_3_eq_3)
    qed
    with r(1) Star show ?thesis by (auto simp: loop_code_def)
  qed
qed

subsection \<open>The greedy match is a match of the whole string whenever there is one\<close>

function items_match :: "item list \<Rightarrow> string \<Rightarrow> bool" where
  "items_match [] s = (s = [])"
| "items_match (One i # its) s = (case s of [] \<Rightarrow> False | c # cs \<Rightarrow> accepts i c \<and> items_match its cs)"
| "items_match (Star # its) s =
     (items_match its s \<or> (case s of [] \<Rightarrow> False | c # cs \<Rightarrow> c \<noteq> NL \<and> items_match (Star # its) cs))"
  by pat_completeness auto
termination
  by (relation "measures [\<lambda>(its, s). length its, \<lambda>(its, s). length s]") auto

declare items_match.simps(3) [simp del]

lemma items_match_drop_One:
  "items_match (One i # its) (drop t s) \<longleftrightarrow> t < length s \<and> accepts i (s ! t) \<and> items_match its (drop (Suc t) s)"
  by (cases "t < length s") (simp_all add: Cons_nth_drop_Suc [symmetric])

declare items_match.simps(2) [simp del]

lemma greedy_Star_step:
  "t < length s \<Longrightarrow> s ! t \<noteq> NL \<Longrightarrow> greedy s (Star # its) t =
    (case greedy s (Star # its) (Suc t) of Some e \<Rightarrow> Some e | None \<Rightarrow> greedy s its t)"
  by (subst greedy.simps) simp

lemma greedy_Star_stop: "\<not> (t < length s \<and> s ! t \<noteq> NL) \<Longrightarrow> greedy s (Star # its) t = greedy s its t"
  by (subst greedy.simps) auto

lemma items_match_drop_Star:
  "items_match (Star # its) (drop t s) \<longleftrightarrow> items_match its (drop t s) \<or>
     (t < length s \<and> s ! t \<noteq> NL \<and> items_match (Star # its) (drop (Suc t) s))"
  by (cases "t < length s") (simp_all add: items_match.simps(3) Cons_nth_drop_Suc [symmetric])

definition on_line :: "string \<Rightarrow> nat \<Rightarrow> nat \<Rightarrow> bool" where
  "on_line s t k \<longleftrightarrow> t \<le> k \<and> k \<le> length s \<and> (\<forall>u. t \<le> u \<longrightarrow> u < k \<longrightarrow> s ! u \<noteq> NL)"

lemma on_line_Suc: "on_line s (Suc t) k \<Longrightarrow> s ! t \<noteq> NL \<Longrightarrow> on_line s t k"
  unfolding on_line_def by (metis Suc_leI Suc_leD le_neq_implies_less)

lemma Star_matches:
  "t \<le> length s \<Longrightarrow> items_match (Star # its) (drop t s) \<Longrightarrow> \<exists>k. on_line s t k \<and> items_match its (drop k s)"
proof (induction "length s - t" arbitrary: t rule: less_induct)
  case less
  show ?case
  proof (cases "items_match its (drop t s)")
    case True
    with less.prems show ?thesis by (intro exI [of _ t]) (simp add: on_line_def)
  next
    case False
    with less.prems have c: "t < length s" "s ! t \<noteq> NL" "items_match (Star # its) (drop (Suc t) s)"
      by (auto simp: items_match_drop_Star [of its t])
    have "\<exists>k. on_line s (Suc t) k \<and> items_match its (drop k s)" using c by (intro less.hyps) auto
    with c(2) show ?thesis by (auto intro: on_line_Suc)
  qed
qed

lemma greedy_complete: "t \<le> length s \<Longrightarrow> items_match its (drop t s) \<Longrightarrow> greedy s its t \<noteq> None"
proof (induction s its t rule: greedy.induct)
  case (3 s its t)
  then show ?case
    by (subst greedy.simps) (auto simp: items_match_drop_Star [of its t] split: option.split)
qed (auto simp: items_match_drop_One)

lemma greedy_sound: "t \<le> length s \<Longrightarrow> greedy s its t = Some (length s) \<Longrightarrow> items_match its (drop t s)"
proof (induction s its t rule: greedy.induct)
  case (3 s its t)
  show ?case
  proof (cases "t < length s \<and> s ! t \<noteq> NL")
    case True
    with 3 show ?thesis
      by (auto simp: greedy_Star_step [of t s its] items_match_drop_Star [of its t] split: option.splits)
  next
    case False
    with 3 show ?thesis by (auto simp: greedy_Star_stop items_match_drop_Star [of its t])
  qed
qed (auto simp: items_match_drop_One split: if_splits)

lemma greedy_Star_last:
  "t \<le> length s \<Longrightarrow> greedy s (Star # its) t = Some e \<Longrightarrow>
    \<exists>m\<ge>t. m \<le> length s \<and> greedy s its m = Some e \<and> (\<forall>k. m < k \<longrightarrow> on_line s t k \<longrightarrow> greedy s its k = None)"
proof (induction "length s - t" arbitrary: t rule: less_induct)
  case less
  show ?case
  proof (cases "t < length s \<and> s ! t \<noteq> NL")
    case False
    then have "\<not> on_line s t k" if "t < k" for k using that by (auto simp: on_line_def)
    moreover have "greedy s its t = Some e" using False less.prems by (subst (asm) greedy.simps) auto
    ultimately show ?thesis using less.prems(1) by blast
  next
    case True
    have later: "on_line s (Suc t) k" if "Suc t \<le> k" "on_line s t k" for k
      using that by (simp add: on_line_def)
    show ?thesis
    proof (cases "greedy s (Star # its) (Suc t)")
      case (Some e')
      with less.prems True have "greedy s (Star # its) (Suc t) = Some e" by (simp add: greedy_Star_step [of t])
      with True have "\<exists>m\<ge>Suc t. m \<le> length s \<and> greedy s its m = Some e \<and>
          (\<forall>k. m < k \<longrightarrow> on_line s (Suc t) k \<longrightarrow> greedy s its k = None)" by (intro less.hyps) auto
      then obtain m where "Suc t \<le> m" "m \<le> length s" "greedy s its m = Some e"
          "\<forall>k. m < k \<longrightarrow> on_line s (Suc t) k \<longrightarrow> greedy s its k = None" by blast
      then show ?thesis by (intro exI [of _ m]) (simp add: later)
    next
      case None
      then have none: "greedy s its k = None" if "Suc t \<le> k" "on_line s (Suc t) k" for k
        using that
      proof (induction "k - Suc t" arbitrary: k rule: less_induct)
        case (less k)
        have star: "greedy s (Star # its) u = None" if "Suc t \<le> u" "u \<le> k" for u
          using that(1,2)
        proof (induction u rule: dec_induct)
          case base
          show ?case by (rule None)
        next
          case (step u)
          then have "u < length s" "s ! u \<noteq> NL" using less.prems by (auto simp: on_line_def)
          with step show ?case by (simp add: greedy_Star_step [of u] split: option.splits)
        qed
        show ?case
          using star [of k] less.prems greedy_Star_step [of k s its] greedy_Star_stop [of k s its]
          by (cases "k < length s \<and> s ! k \<noteq> NL") (auto split: option.splits)
      qed
      from None less.prems True have "greedy s its t = Some e" by (simp add: greedy_Star_step [of t])
      moreover have "greedy s its k = None" if "t < k" "on_line s t k" for k
        using that by (intro none later) auto
      ultimately show ?thesis using less.prems(1) by blast
    qed
  qed
qed

text \<open>Starting later than a full match, the greedy match still ends at the end.\<close>

lemma greedy_full:
  "u \<le> t \<Longrightarrow> t \<le> length s \<Longrightarrow> items_match its (drop u s) \<Longrightarrow> greedy s its t = Some e \<Longrightarrow> e = length s"
proof (induction its arbitrary: u t)
  case Nil
  then show ?case by simp
next
  case (Cons i its)
  show ?case
  proof (cases i)
    case (One k)
    with Cons.prems show ?thesis
      by (intro Cons.IH [of "Suc u" "Suc t"]) (auto simp: items_match_drop_One split: if_splits)
  next
    case Star
    with Cons.prems obtain k where k: "on_line s u k" "items_match its (drop k s)"
      using Star_matches [of u s its] by auto
    from Star Cons.prems obtain m where m: "t \<le> m" "m \<le> length s" "greedy s its m = Some e"
        "\<forall>k. m < k \<longrightarrow> on_line s t k \<longrightarrow> greedy s its k = None"
      using greedy_Star_last [of t s its e] by auto
    have "k \<le> m"
    proof (rule ccontr)
      assume "\<not> k \<le> m"
      with k(1) m(1) Cons.prems(1) have "on_line s t k" by (auto simp: on_line_def)
      with m(4) \<open>\<not> k \<le> m\<close> have "greedy s its k = None" by simp
      with greedy_complete [OF _ k(2)] k(1) show False by (simp add: on_line_def)
    qed
    with k(2) m(2,3) show ?thesis by (intro Cons.IH [of k m]) auto
  qed
qed

theorem greedy_matches: "greedy s its 0 = Some (length s) \<longleftrightarrow> items_match its s"
  using greedy_sound [of 0 s its] greedy_complete [of 0 s its] greedy_full [of 0 0 s its] by fastforce

subsection \<open>Matching with a compiled pattern\<close>

definition items_regex :: "item list \<Rightarrow> regex \<Rightarrow> bool" where
  "items_regex its r \<longleftrightarrow> shape its (r_code r) \<and> r_tr r = id"

theorem re_match_items:
  assumes "items_regex its r" "length s + stars its < MAX_FAILURES"
  shows "\<exists>k r'. re_match s 0 r = Some (k, r') \<and> items_regex its r' \<and> - 1 \<le> k \<and>
    (k = int (length s) \<longleftrightarrow> items_match its s)"
proof -
  from assms(1) have r: "shape its (r_code r)" "r_tr r = id" by (simp_all add: items_regex_def)
  obtain code where c: "shape its code" "run_at s (r_code r) 0 0 [] = outcome s (greedy s its 0) code []"
    using run_greedy [OF r(1), of 0 s "[]" "[]"] assms(2) by auto
  show ?thesis
  proof (cases "greedy s its 0")
    case None
    with c(2) obtain m where m: "match_run s id (match_start (r_code r) 0) = Some (Mismatch, m)" "m_code m = code"
      by (auto simp: run_at_def match_start_config)
    have "\<not> items_match its s" using None greedy_matches [of s its] by simp
    with m c(1) r(2) show ?thesis by (auto simp: re_match_def items_regex_def)
  next
    case (Some e)
    with c(2) obtain m where m: "match_run s id (match_start (r_code r) 0) = Some (Matched e, m)" "m_code m = code"
      by (auto simp: run_at_def match_start_config)
    with m c(1) r(2) Some show ?thesis
      using greedy_matches [of s its] by (auto simp: re_match_def items_regex_def)
  qed
qed

subsection \<open>Compiling such patterns, with the default syntax\<close>

lemma syntax_0 [simp]:
  "\<not> NO_BK_PARENS 0" "\<not> NO_BK_VBAR 0" "\<not> BK_PLUS_QM 0" "\<not> TIGHT_VBAR 0" "\<not> NEWLINE_OR 0"
  "\<not> CONTEXT_INDEP_OPS 0" "\<not> ANSI_HEX 0" "\<not> NO_GNU_EXTENSIONS 0"
  by (simp_all add: syntax_defs)

text \<open>The compiler behind the items \<open>its\<close>, with the last item still open for an operator.\<close>

definition compiled :: "item list \<Rightarrow> compiling \<Rightarrow> bool" where
  "compiled its st \<longleftrightarrow> list_all simple its \<and> rc_code st = concat (map item_code its) \<and> rc_base st = 0 \<and> rc_jumps st = [] \<and>
     \<not> rc_uses st \<and> (if its = [] then rc_level st = 0 \<and> rc_beginning st
      else rc_level st = 4 \<and> \<not> rc_beginning st \<and>
        (\<forall>i. last its = One i \<longrightarrow> rc_starts st 4 = length (rc_code st) - 1))"

lemma compiled_init: "compiled [] compile_init"
  by (simp add: compiled_def compile_init_def)

lemma enter_level_simps [simp]:
  "rc_code (enter_level 4 st) = rc_code st \<or> 4 < rc_level st"
  by (auto simp: enter_level_def)

lemma compiled_store:
  assumes "compiled its st" "single i"
  shows "compiled (its @ [One i]) (store_opcode i (enter_level 4 st)\<lparr>rc_beginning := False\<rparr>)"
  using assms by (auto simp: compiled_def store_opcode_def store_instr_def set_level_start_def enter_level_def)

lemma compiled_star:
  assumes "compiled (its @ [One Canychar]) st"
  shows "compile_op 0 tr Rstar ch rest (enter_level 4 st) = Inr (compile_star False st, rest)"
    "compiled (its @ [Star]) (compile_star False st\<lparr>rc_beginning := False\<rparr>)"
proof -
  have e: "enter_level 4 st = st" using assms by (simp add: compiled_def enter_level_def)
  have s: "level_start st = length (concat (map item_code its))" using assms by (simp add: compiled_def level_start_def)
  show "compile_op 0 tr Rstar ch rest (enter_level 4 st) = Inr (compile_star False st, rest)"
    unfolding e using assms s by (simp add: compiled_def)
  show "compiled (its @ [Star]) (compile_star False st\<lparr>rc_beginning := False\<rparr>)"
    using assms s by (simp add: compiled_def compile_star_def insert_jump_def Let_def)
qed

lemma compile_done:
  assumes "compiled its st"
  shows "compile_loop 0 tr [] st = Inr (enter_level 0 st)" "rc_base (enter_level 0 st) = 0"
    "rc_code (enter_level 0 st) = concat (map item_code its)" "\<not> rc_uses (enter_level 0 st)"
  using assms by (simp_all add: compiled_def enter_level_def Let_def)

lemma compile_plain:
  assumes "compiled its st" "plain_op 0 c = Rnormal \<and> i = Cexact c \<or> c = CHR ''.'' \<and> i = Canychar"
  shows "\<exists>st'. compiled (its @ [One i]) st' \<and> compile_loop 0 id (c # cs) st = compile_loop 0 id cs st'"
proof -
  have i: "single i" using assms(2) by auto
  have "\<exists>op. read_op 0 id c cs = Inr (op, c, cs) \<and> precedence 0 op = 4 \<and> op \<noteq> Ropenpar \<and> op \<noteq> Ror \<and>
      (\<forall>st. compile_op 0 id op c cs st = Inr (store_opcode i st, cs))"
    using assms(2)
  proof
    assume "plain_op 0 c = Rnormal \<and> i = Cexact c"
    then show ?thesis by (intro exI [of _ Rnormal]) (simp add: read_op_def)
  next
    assume "c = CHR ''.'' \<and> i = Canychar"
    then show ?thesis by (intro exI [of _ Ranychar]) (simp add: read_op_def plain_op_def)
  qed
  then obtain op where "read_op 0 id c cs = Inr (op, c, cs)" "precedence 0 op = 4" "op \<noteq> Ropenpar" "op \<noteq> Ror"
      "\<forall>st. compile_op 0 id op c cs st = Inr (store_opcode i st, cs)" by blast
  then have "compile_loop 0 id (c # cs) st = compile_loop 0 id cs (store_opcode i (enter_level 4 st)\<lparr>rc_beginning := False\<rparr>)"
    by (simp del: compile_op.simps)
  with compiled_store [OF assms(1) i] show ?thesis by blast
qed

lemma compile_quoted:
  assumes "compiled its st" "quoted_op 0 c = Rnormal"
  shows "\<exists>st'. compiled (its @ [One (Cexact c)]) st' \<and> compile_loop 0 id (BSLASH # c # cs) st = compile_loop 0 id cs st'"
proof -
  have "compile_loop 0 id (BSLASH # c # cs) st =
      compile_loop 0 id cs (store_opcode (Cexact c) (enter_level 4 st)\<lparr>rc_beginning := False\<rparr>)"
    using assms(2) by (simp add: read_op_def plain_op_def)
  moreover have "compiled (its @ [One (Cexact c)]) (store_opcode (Cexact c) (enter_level 4 st)\<lparr>rc_beginning := False\<rparr>)"
    using assms by (intro compiled_store) simp_all
  ultimately show ?thesis by blast
qed

lemma compile_any_star:
  assumes "compiled its st"
  shows "\<exists>st'. compiled (its @ [Star]) st' \<and> compile_loop 0 id (CHR ''.'' # CHR ''*'' # cs) st = compile_loop 0 id cs st'"
proof -
  obtain st' where st': "compiled (its @ [One Canychar]) st'"
      "compile_loop 0 id (CHR ''.'' # CHR ''*'' # cs) st = compile_loop 0 id (CHR ''*'' # cs) st'"
    using compile_plain [OF assms, of "CHR ''.''" Canychar "CHR ''*'' # cs"] by auto
  have "read_op 0 id (CHR ''*'') cs = Inr (Rstar, CHR ''*'', cs)" by (simp add: read_op_def plain_op_def)
  then have "compile_loop 0 id (CHR ''*'' # cs) st' = compile_loop 0 id cs (compile_star False st'\<lparr>rc_beginning := False\<rparr>)"
    using compiled_star(1) [OF st'(1), of id "CHR ''*''" cs] by (simp del: compile_op.simps)
  with st'(2) compiled_star(2) [OF st'(1)] show ?thesis by auto
qed

lemma compile_set:
  assumes "compiled its st" "open_set 0 id cs = Inr (m, ds)"
  shows "\<exists>st'. compiled (its @ [One (Cset m)]) st' \<and> compile_loop 0 id (CHR ''['' # cs) st = compile_loop 0 id ds st'"
proof -
  have "compile_loop 0 id (CHR ''['' # cs) st =
      compile_loop 0 id ds (store_opcode (Cset m) (enter_level 4 st)\<lparr>rc_beginning := False\<rparr>)"
    using assms(2) by (simp add: read_op_def plain_op_def)
  moreover have "compiled (its @ [One (Cset m)]) (store_opcode (Cset m) (enter_level 4 st)\<lparr>rc_beginning := False\<rparr>)"
    using assms(1) by (intro compiled_store) simp_all
  ultimately show ?thesis by blast
qed

lemma regex_compile_items:
  assumes "compiled its st" "compile_loop 0 id pat compile_init = compile_loop 0 id [] st"
  shows "\<exists>r. regex_compile 0 id pat = Inr r \<and> items_regex its r"
proof -
  have "re_compile_pattern 0 id pat = Inr (items_code its, False)"
    using assms compile_done [OF assms(1)] unfolding re_compile_pattern_def
    by (simp del: compile_loop.simps add: items_code_def store_instr_def)
  with assms(1) show ?thesis
    by (auto simp: regex_compile_def items_regex_def compiled_def intro: shape_items_code)
qed

subsection \<open>Where a match can be, for every program\<close>

definition in_text :: "nat \<Rightarrow> nat \<Rightarrow> nat option \<Rightarrow> bool" where
  "in_text pos n t = (case t of None \<Rightarrow> True | Some t \<Rightarrow> pos \<le> t \<and> t \<le> n)"

lemma in_text_simps [simp]:
  "in_text pos n None"
  "in_text pos n (Some t) = (pos \<le> t \<and> t \<le> n)"
  by (simp_all add: in_text_def)

definition within :: "nat \<Rightarrow> nat \<Rightarrow> machine \<Rightarrow> bool" where
  "within pos n m \<longleftrightarrow> in_text pos n (Some (m_text m)) \<and> list_all (\<lambda>fp. in_text pos n (snd fp)) (m_stack m)"

fun within_result :: "nat \<Rightarrow> nat \<Rightarrow> machine + verdict \<times> machine \<Rightarrow> bool" where
  "within_result pos n (Inl m) = within pos n m"
| "within_result pos n (Inr (Matched e, m)) = (pos \<le> e \<and> e \<le> n)"
| "within_result pos n (Inr (_, m)) = True"

named_theorems within_rules \<open>the steps of the machine keep the text position within bounds\<close>

lemma within_backtrack:
  "list_all (\<lambda>fp. in_text pos n (snd fp)) st \<Longrightarrow> within_result pos n (backtrack st m)"
  by (induction st m rule: backtrack.induct) (auto simp: within_def)

lemma within_fail [within_rules]: "within pos n m \<Longrightarrow> within_result pos n (fail m)"
  by (simp add: fail_def within_backtrack within_def)

lemma within_check [within_rules]: "within pos n m \<Longrightarrow> within_result pos n (check b m)"
  using within_fail by (auto simp: check_def proceed_def within_def)

lemma within_next_char [within_rules]: "within pos (length s) m \<Longrightarrow> within_result pos (length s) (next_char s tr P m)"
  using within_fail by (auto simp: next_char_def proceed_def within_def)

lemma within_push [within_rules]:
  "within pos n m \<Longrightarrow> in_text pos n (snd fp) \<Longrightarrow> within_result pos n (push_failure fp m)"
  by (simp add: push_failure_def within_def)

lemma within_goto [simp]: "within pos n (goto pc m) = within pos n m"
  by (simp add: within_def goto_def)

lemma within_fields [simp]:
  "within pos n (m\<lparr>m_code := code\<rparr>) = within pos n m"
  "within pos n (m\<lparr>m_pc := pc\<rparr>) = within pos n m"
  "within pos n (m\<lparr>m_start := f\<rparr>) = within pos n m"
  "within pos n (m\<lparr>m_end := g\<rparr>) = within pos n m"
  by (simp_all add: within_def)

lemma within_text: "within pos n m \<Longrightarrow> pos \<le> m_text m \<and> m_text m \<le> n"
  by (simp add: within_def)

lemma match_memory_within:
  "match_memory s tr reg regend t = Inl u \<Longrightarrow> t \<le> length s \<Longrightarrow> t \<le> u \<and> u \<le> length s"
proof (induction s tr reg regend t rule: match_memory.induct)
  case (1 s tr reg regend t)
  then show ?case
    by (subst (asm) (2) match_memory.simps) (fastforce split: if_splits)
qed

lemma match_memory_verdict: "match_memory s tr reg regend t = Inr v \<Longrightarrow> v = Mismatch \<or> v = Undefined"
proof (induction s tr reg regend t rule: match_memory.induct)
  case (1 s tr reg regend t)
  then show ?case
    by (subst (asm) (2) match_memory.simps) (auto split: if_splits)
qed

lemma within_update:
  "within pos n m \<Longrightarrow> within_result pos n (case m_stack m of [] \<Rightarrow> Inr (Undefined, m)
     | fp # st \<Rightarrow> Inl (goto pc (m\<lparr>m_stack := (fst fp, Some (m_text m)) # st\<rparr>)))"
  by (cases "m_stack m") (auto simp: within_def goto_def)

lemma within_exec: "within pos (length s) m \<Longrightarrow> within_result pos (length s) (exec_instr s tr i m)"
proof (cases i)
  case (Cmatch_memory r)
  assume w: "within pos (length s) m"
  show ?thesis
  proof (cases "m_end m r")
    case None
    with w Cmatch_memory show ?thesis by (simp add: within_fail)
  next
    case (Some e)
    show ?thesis
    proof (cases "match_memory s tr (m_start m r) e (m_text m)")
      case (Inl t)
      with w Cmatch_memory Some match_memory_within [OF Inl] show ?thesis by (auto simp: proceed_def within_def)
    next
      case (Inr v)
      with w Cmatch_memory Some match_memory_verdict [OF Inr] show ?thesis by (auto intro: within_fail)
    qed
  qed
next
  case (Cstar_jump d)
  assume w: "within pos (length s) m"
  have "within pos (length s) (m\<lparr>m_code := (m_code m)[m_pc m := star_jump (m_code m) (m_pc m) d]\<rparr>)" using w by simp
  from within_update [OF this] w show ?thesis
    unfolding Cstar_jump exec_instr.simps Let_def by (auto split: instr.split)
next
  case (Cupdate_failure_jump d)
  assume "within pos (length s) m"
  then show ?thesis unfolding Cupdate_failure_jump exec_instr.simps by (rule within_update)
next
  case (Cdummy_failure_jump d)
  assume "within pos (length s) m"
  then show ?thesis unfolding Cdummy_failure_jump exec_instr.simps
    by (auto intro!: within_push split: instr.split)
next
  case (Cfailure_jump d)
  assume "within pos (length s) m"
  then show ?thesis unfolding Cfailure_jump exec_instr.simps
    by (intro within_push) (auto dest: within_text)
qed (auto intro: within_rules dest: within_text simp: proceed_def)

lemma match_run_within:
  assumes "match_run s tr m = Some r" "within pos (length s) m"
  shows "within_result pos (length s) (Inr r)"
proof -
  have "within pos (length s) m \<longrightarrow> within_result pos (length s) (Inr r)"
  proof (rule match_run.raw_induct
      [where P = "\<lambda>s tr m r. within pos (length s) m \<longrightarrow> within_result pos (length s) (Inr r)", OF _ assms(1)])
    fix run s tr m r
    assume run: "\<And>s tr m r. run s tr m = Some r \<Longrightarrow> within pos (length s) m \<longrightarrow> within_result pos (length s) (Inr r)"
      and r: "(case match_step s tr m of Inl m' \<Rightarrow> run s tr m' | Inr r \<Rightarrow> Some r) = Some r"
    show "within pos (length s) m \<longrightarrow> within_result pos (length s) (Inr r)"
    proof
      assume w: "within pos (length s) m"
      then have "within_result pos (length s) (match_step s tr m)" by (simp add: match_step_def within_exec)
      with r run show "within_result pos (length s) (Inr r)" by (cases "match_step s tr m") auto
    qed
  qed
  with assms(2) show ?thesis by simp
qed

lemma re_match_bounds:
  assumes "re_match s pos r = Some (k, r')" "0 \<le> k" "pos \<le> length s"
  shows "\<exists>b rest. reg_regs r' = Some ((int pos, b) # rest) \<and> int pos \<le> b \<and> b \<le> int (length s)"
proof -
  have w: "within pos (length s) (match_start (r_code r) pos)" using assms(3) by (simp add: within_def match_start_def)
  from assms(1,2) obtain e m where m: "match_run s (r_tr r) (match_start (r_code r) pos) = Some (Matched e, m)"
      "r' = r\<lparr>r_code := m_code m, r_lastok := Some (s, match_regs (r_uses r) pos e m)\<rparr>"
    by (auto simp: re_match_def split: option.splits verdict.splits)
  with match_run_within [OF m(1) w] show ?thesis by (simp add: reg_regs_def match_regs_def)
qed

lemma search_loop_bounds:
  "search_loop skip s pos rng r = Some (k, r') \<Longrightarrow> 0 \<le> k \<Longrightarrow> pos + rng \<le> length s \<Longrightarrow>
    \<exists>b rest. reg_regs r' = Some ((k, b) # rest) \<and> int pos \<le> k \<and> k \<le> b \<and> b \<le> int (length s)"
proof (induction skip s pos rng r rule: search_loop.induct)
  case (1 skip s pos rng r)
  define p where "p = skip_to skip s pos rng r"
  have p: "pos \<le> p" "p \<le> pos + rng" unfolding p_def by (rule skip_to_bounds)+
  have later: "\<exists>b rest. reg_regs r' = Some ((k, b) # rest) \<and> int pos \<le> k \<and> k \<le> b \<and> b \<le> int (length s)"
    if "\<exists>b rest. reg_regs r' = Some ((k, b) # rest) \<and> int (p + 1) \<le> k \<and> k \<le> b \<and> b \<le> int (length s)"
    using that p(1) by auto
  note loop = "1.prems"(1) [unfolded search_loop.simps [of skip s pos rng r] Let_def, folded p_def]
  show ?case
  proof (cases "skip \<and> p = length s \<and> r_null r = 0")
    case True
    with loop "1.prems"(2) show ?thesis by simp
  next
    case go: False
    show ?thesis
    proof (cases "r_anchor r = 1 \<and> 0 < p \<and> s ! (p - 1) \<noteq> NL")
      case True
      with loop go "1.prems"(2) have n: "rng - (p - pos) \<noteq> 0"
          "search_loop skip s (p + 1) (rng - (p - pos) - 1) r = Some (k, r')"
        by (simp_all split: if_splits)
      from n(1) p "1.prems"(3) have "p + 1 + (rng - (p - pos) - 1) \<le> length s" by simp
      with n True go "1.prems"(2) show ?thesis by (intro later "1.IH"(1) [OF refl refl, folded p_def]) auto
    next
      case match: False
      with loop go "1.prems"(2) obtain k1 r1 where m: "re_match s p r = Some (k1, r1)"
        by (auto split: option.splits)
      show ?thesis
      proof (cases "0 \<le> k1")
        case True
        with loop go match m have "k = int p" "r' = r1" by (simp_all split: if_splits)
        with re_match_bounds [OF m True] p "1.prems"(3) show ?thesis by auto
      next
        case False
        with loop go match m "1.prems"(2) have n: "k1 \<noteq> - 2" "rng - (p - pos) \<noteq> 0"
            "search_loop skip s (p + 1) (rng - (p - pos) - 1) r1 = Some (k, r')"
          by (simp_all split: if_splits)
        from n(2) p "1.prems"(3) have "p + 1 + (rng - (p - pos) - 1) \<le> length s" by simp
        with n m match go False "1.prems"(2) show ?thesis by (intro later "1.IH"(2) [OF refl refl, folded p_def]) auto
      qed
    qed
  qed
qed

theorem reg_search_bounds:
  assumes "0 \<le> i" "i \<le> int (length s)" "reg_search s i r = Some (Inr k, r')" "0 \<le> k"
  shows "\<exists>b rest. reg_regs r' = Some ((k, b) # rest) \<and> i \<le> k \<and> k \<le> b \<and> b \<le> int (length s)"
proof -
  from assms have "re_search s (nat i) (r\<lparr>r_lastok := None\<rparr>) = Some (k, r')"
    by (auto simp: reg_search_def reg_call_def split: option.splits if_splits)
  with assms(4) have s: "search_loop (r_null (re_compile_fastmap (r\<lparr>r_lastok := None\<rparr>)) \<noteq> 1) s (nat i)
      (if r_anchor (re_compile_fastmap (r\<lparr>r_lastok := None\<rparr>)) = 2 then 0 else length s - nat i)
      (re_compile_fastmap (r\<lparr>r_lastok := None\<rparr>)) = Some (k, r')"
    unfolding re_search_def Let_def by (simp split: if_splits)
  have "nat i + (if r_anchor (re_compile_fastmap (r\<lparr>r_lastok := None\<rparr>)) = 2 then 0 else length s - nat i) \<le> length s"
    using assms(1,2) by auto
  from search_loop_bounds [OF s assms(4) this] assms(1) show ?thesis by auto
qed

subsection \<open>What the loop optimisation and the registers get wrong\<close>

text \<open>The result of \<^verbatim>\<open>match\<close> on a fresh object, with the registers of the match and of group 1.\<close>

definition match_pattern :: "string \<Rightarrow> string \<Rightarrow> (int res \<times> regs option) option" where
  "match_pattern pat s =
     (case regex_compile 0 id pat of
        Inl e \<Rightarrow> Some (Inl e, None)
      | Inr r \<Rightarrow> map_option (\<lambda>(k, r). (k, map_option (take 2) (reg_regs r))) (reg_match s 0 r))"

text \<open>
  The first characters of \<^verbatim>\<open>\1\<close> are taken to be none, so the loop of \<^verbatim>\<open>a*\<close> is sealed and
  never gives a character back, although the text is \<^verbatim>\<open>a\<close> twice.
\<close>

lemma backreference_after_star:
  "match_pattern (BSLASH # ''(a*'' @ BSLASH # '')'' @ BSLASH # ''1'') ''aa'' = Some (Inr (- 1), None)"
  by code_simp

text \<open>The same with a condition on the position that is nothing's first character: \<^verbatim>\<open>\B\<close>.\<close>

lemma word_bound_after_star:
  "match_pattern (''a*'' @ BSLASH # ''B'') ''aa'' = Some (Inr (- 1), None)"
  by code_simp

text \<open>
  Registers are not restored when a turn of a loop fails: group 1 of the match of
  \<^verbatim>\<open>\(a\|b\)*c\<close> with \<^verbatim>\<open>abc\<close> is the empty text at 2 and not the \<^verbatim>\<open>b\<close> before it.
\<close>

lemma group_of_failed_turn:
  "match_pattern (BSLASH # ''(a'' @ BSLASH # ''|b'' @ BSLASH # '')*c'') ''abc'' = Some (Inr 3, Some [(0, 3), (2, 2)])"
  by code_simp

text \<open>The two digits of \<^verbatim>\<open>\vnn\<close> are read in the wrong order: \<^verbatim>\<open>\v12\<close> is register 21.\<close>

lemma extended_memory_swapped: "extended_memory ''12'' = Inr (21, [])"
  by code_simp

end
