(* ===== verification/Regex_Sets.thy ===== *)
theory Regex_Sets
  imports Regex_Laws
begin

section \<open>Character sets of regular expressions\<close>

text \<open>
  What the set between brackets contains: the loop of the compiler over its characters, with a
  dash that may or may not make a range, against a definition by recursion on the sequence.
\<close>

text \<open>The characters of a sequence with ranges: \<open>a-z\<close> is a range, any other \<open>-\<close> stands for itself.\<close>

fun in_seq :: "string \<Rightarrow> char \<Rightarrow> bool" where
  "in_seq [] x = False"
| "in_seq [a] x = (x = a)"
| "in_seq [a, b] x = (x = a \<or> x = b)"
| "in_seq (a # b # c # cs) x =
     (if b = CHR ''-'' then x = a \<or> (a \<le> x \<and> x \<le> c) \<or> in_seq cs x else x = a \<or> in_seq (b # c # cs) x)"

text \<open>What the loop over a set has read and not yet decided: the character and the dash before.\<close>

fun pending :: "char option \<Rightarrow> bool \<Rightarrow> string" where
  "pending None rng = []"
| "pending (Some p) rng = (if rng then [p, CHR ''-''] else [p])"

lemma in_seq_Cons: "b \<noteq> CHR ''-'' \<or> cs = [] \<Longrightarrow> in_seq (a # b # cs) x = (x = a \<or> in_seq (b # cs) x)"
  by (cases cs) auto

lemma in_seq_hd [simp]: "in_seq (a # cs) a"
  by (cases "(a # cs, a)" rule: in_seq.cases) auto

lemma set_loop_simple:
  "set_loop 0 id c first prev rng m (d # ds) =
     (if c = CHR '']'' \<and> \<not> first then Inr (if rng then m(CHR ''-'' := True) else m, d # ds)
      else case set_step c prev rng m of (prev', rng', m') \<Rightarrow> set_loop 0 id d False prev' rng' m' ds)"
  "set_loop 0 id c False prev rng m [] =
     (if c = CHR '']'' then Inr (if rng then m(CHR ''-'' := True) else m, []) else ends_prematurely)"
  by (simp_all add: set_loop.simps [of 0 id c])

lemma set_loop_closed:
  "set_loop 0 id CHR '']'' False prev rng m rest = Inr (if rng then m(CHR ''-'' := True) else m, rest)"
  by (cases rest) (simp_all add: set_loop_simple)

lemma set_loop_seq:
  assumes "\<And>p. prev = Some p \<Longrightarrow> m p" "prev = None \<Longrightarrow> \<not> rng" "CHR '']'' \<notin> set w" "c = CHR '']'' \<longrightarrow> first"
  shows "set_loop 0 id c first prev rng m (w @ CHR '']'' # rest) =
    Inr (\<lambda>x. m x \<or> in_seq (pending prev rng @ c # w) x, rest)"
  using assms
proof (induction w arbitrary: c first prev rng m)
  case Nil
  have step: "set_loop 0 id c first prev rng m ([] @ CHR '']'' # rest) =
      (case set_step c prev rng m of (prev', rng', m') \<Rightarrow> set_loop 0 id CHR '']'' False prev' rng' m' rest)"
    using Nil.prems(4) by (auto simp: set_loop_simple)
  show ?case
    using Nil.prems unfolding step
    by (cases prev; cases rng) (auto simp: set_step_def set_loop_closed fun_eq_iff)
next
  case (Cons d w)
  have step: "set_loop 0 id c first prev rng m ((d # w) @ CHR '']'' # rest) =
      (case set_step c prev rng m of (prev', rng', m') \<Rightarrow> set_loop 0 id d False prev' rng' m' (w @ CHR '']'' # rest))"
    using Cons.prems(4) by (auto simp: set_loop_simple)
  have w: "CHR '']'' \<notin> set w" "d \<noteq> CHR '']''" using Cons.prems(3) by auto
  have on: ?case
    if s: "set_step c prev rng m = (prev', rng', m')"
      and m: "\<And>p. prev' = Some p \<Longrightarrow> m' p" "prev' = None \<Longrightarrow> \<not> rng'"
      and eq: "\<And>x. (m' x \<or> in_seq (pending prev' rng' @ d # w) x) = (m x \<or> in_seq (pending prev rng @ c # d # w) x)"
    for prev' rng' m'
  proof -
    have "set_loop 0 id d False prev' rng' m' (w @ CHR '']'' # rest) =
        Inr (\<lambda>x. m' x \<or> in_seq (pending prev' rng' @ d # w) x, rest)"
      using w m by (intro Cons.IH) auto
    then show ?thesis unfolding step s eq by (simp only: prod.case)
  qed
  show ?case
  proof (cases prev)
    case None
    with Cons.prems(2) show ?thesis
      by (intro on [of "Some c" False "m(c := True)"]) (auto simp: set_step_def simp del: in_seq.simps)
  next
    case (Some p)
    show ?thesis
    proof (cases rng)
      case True
      with Some Cons.prems(1) show ?thesis
        by (intro on [of None False "\<lambda>x. m x \<or> (p \<le> x \<and> x \<le> c)"]) (auto simp: set_step_def)
    next
      case no: False
      show ?thesis
      proof (cases "c = CHR ''-''")
        case True
        with Some no Cons.prems(1) show ?thesis
          by (intro on [of prev True m]) (auto simp: set_step_def)
      next
        case False
        with Some no Cons.prems(1) show ?thesis
          by (intro on [of "Some c" False "m(c := True)"]) (auto simp: set_step_def in_seq_Cons simp del: in_seq.simps)
      qed
    qed
  qed
qed

text \<open>A set without a leading caret, and a complemented one.\<close>

lemma open_set_seq:
  assumes "c \<noteq> CHR ''^''" "CHR '']'' \<notin> set w"
  shows "open_set 0 id (c # w @ CHR '']'' # rest) = Inr (in_seq (c # w), rest)"
  using set_loop_seq [of None "\<lambda>_. False" False w c True rest] assms by (simp add: open_set_def)

lemma open_set_complement:
  assumes "CHR '']'' \<notin> set w"
  shows "open_set 0 id (CHR ''^'' # c # w @ CHR '']'' # rest) = Inr (\<lambda>x. \<not> in_seq (c # w) x, rest)"
  using set_loop_seq [of None "\<lambda>_. False" False w c True rest] assms by (simp add: open_set_def)

end
