(* ===== verification/Fnmatch.thy ===== *)
theory Fnmatch
  imports Regex_Sets
begin

section \<open>Shell patterns (fnmatch.py)\<close>

text \<open>
  \<open>fnmatchcase\<close> translates the shell pattern to a regular expression, compiles it with the
  engine of \<^theory_text>\<open>Regexpr\<close>, keeps the compiled object in a cache and calls its method
  \<^verbatim>\<open>match\<close>. The reference is \<open>shell_match\<close>, which reads the pattern directly; the theorem that
  the two agree goes through the translation, the compiler, the machine and its loop optimisation.
\<close>

subsection \<open>The module\<close>

text \<open>\<^verbatim>\<open>while stuff[0] == '^': stuff = stuff[1:] + stuff[0]\<close>: \<open>moved\<close> are the carets moved so far.\<close>

fun move_carets :: "string \<Rightarrow> string \<Rightarrow> string" where
  "move_carets [] moved = moved"
| "move_carets (c # cs) moved = (if c = CHR ''^'' then move_carets cs (moved @ [c]) else c # cs @ moved)"

definition translate_set :: "string \<Rightarrow> string" where
  "translate_set stuff =
     (if hd stuff = CHR ''!'' then ''[^'' @ tl stuff @ '']''
      else if stuff = replicate (length stuff) CHR ''^'' then [BSLASH, CHR ''^'']
      else ''['' @ move_carets stuff [] @ '']'')"

text \<open>The index \<open>j\<close> of the \<open>]\<close> that closes a set, in the pattern behind the \<open>[\<close>.\<close>

definition set_end :: "string \<Rightarrow> nat" where
  "set_end cs =
     (let n = length cs;
          j = (if 0 < n \<and> cs ! 0 = CHR ''!'' then 1 else 0);
          j = (if j < n \<and> cs ! j = CHR '']'' then j + 1 else j)
      in scan_up (\<lambda>c. c \<noteq> CHR '']'') cs j n)"

function fn_translate_loop :: "string \<Rightarrow> string \<Rightarrow> string" where
  "fn_translate_loop [] res = res"
| "fn_translate_loop (c # cs) res =
     (if c = CHR ''*'' then fn_translate_loop cs (res @ ''.*'')
      else if c = CHR ''?'' then fn_translate_loop cs (res @ ''.'')
      else if c = CHR ''['' then
        (let j = set_end cs
         in if length cs \<le> j then fn_translate_loop cs (res @ [BSLASH, CHR ''[''])
            else fn_translate_loop (drop (j + 1) cs) (res @ translate_set (take j cs)))
      else if c \<in> set [BSLASH, CHR ''.'', CHR ''+'', CHR ''^'', CHR ''$''] then fn_translate_loop cs (res @ [BSLASH, c])
      else fn_translate_loop cs (res @ [c]))"
  by pat_completeness auto
termination
  by (relation "measure (\<lambda>(cs, res). length cs)") auto

definition fn_translate :: "string \<Rightarrow> string" where
  "fn_translate pat = fn_translate_loop pat []"

text \<open>The state: the syntax of the module \<^verbatim>\<open>regex\<close> and the cache \<^verbatim>\<open>_cache\<close> of compiled patterns.\<close>

record fn_state =
  fn_syntax :: int
  fn_cache :: "string \<Rightarrow> regex option"

definition fn_compile :: "string \<Rightarrow> fn_state \<Rightarrow> regex res \<times> fn_state" where
  "fn_compile pat st =
     (case fn_cache st pat of
        Some r \<Rightarrow> (Inr r, st)
      | None \<Rightarrow>
          (case regex_compile 0 id (fn_translate pat) of
             Inl e \<Rightarrow> (Inl e, st\<lparr>fn_syntax := 0\<rparr>)
           | Inr r \<Rightarrow> (Inr r, st\<lparr>fn_cache := (fn_cache st)(pat \<mapsto> r)\<rparr>)))"

definition fnmatchcase :: "string \<Rightarrow> string \<Rightarrow> fn_state \<Rightarrow> (bool res \<times> fn_state) option" where
  "fnmatchcase name pat st =
     (case fn_compile pat st of
        (Inl e, st') \<Rightarrow> Some (Inl e, st')
      | (Inr r, st') \<Rightarrow>
          (case reg_match name 0 r of
             None \<Rightarrow> None
           | Some (Inl e, r') \<Rightarrow> Some (Inl e, st'\<lparr>fn_cache := (fn_cache st')(pat \<mapsto> r')\<rparr>)
           | Some (Inr k, r') \<Rightarrow> Some (Inr (k = int (length name)), st'\<lparr>fn_cache := (fn_cache st')(pat \<mapsto> r')\<rparr>)))"

text \<open>\<^verbatim>\<open>fnmatch\<close>, with the \<^verbatim>\<open>normcase\<close> of \<^verbatim>\<open>os.path\<close> as an argument.\<close>

definition fnmatch :: "(string \<Rightarrow> string) \<Rightarrow> string \<Rightarrow> string \<Rightarrow> fn_state \<Rightarrow> (bool res \<times> fn_state) option" where
  "fnmatch normcase name pat = fnmatchcase (normcase name) (normcase pat)"

subsection \<open>The reference\<close>

text \<open>The text between the brackets, and the pattern behind: \<open>]\<close> closes the set unless it comes first.\<close>

definition bracket :: "string \<Rightarrow> (string \<times> string) option" where
  "bracket cs =
     (let k = (if take 1 cs = ''!'' then 2 else 1); q = drop k cs
      in if CHR '']'' \<in> set q
         then Some (take k cs @ takeWhile (\<lambda>c. c \<noteq> CHR '']'') q, tl (dropWhile (\<lambda>c. c \<noteq> CHR '']'') q))
         else None)"

text \<open>Membership: \<open>!\<close> complements; leading carets are read as if they came last.\<close>

definition in_bracket :: "string \<Rightarrow> char \<Rightarrow> bool" where
  "in_bracket stuff x =
     (case stuff of
        [] \<Rightarrow> False
      | c # cs \<Rightarrow>
          if c = CHR ''!'' then \<not> in_seq cs x
          else in_seq (dropWhile (\<lambda>c. c = CHR ''^'') stuff @ takeWhile (\<lambda>c. c = CHR ''^'') stuff) x)"

lemma bracket_shorter [termination_simp]: "bracket cs = Some (stuff, rest) \<Longrightarrow> length rest < Suc (length cs)"
  using length_dropWhile_le [of "\<lambda>c. c \<noteq> CHR '']''" "drop 2 cs"] length_dropWhile_le [of "\<lambda>c. c \<noteq> CHR '']''" "drop 1 cs"]
  by (auto simp: bracket_def Let_def split: if_splits)

function shell_match :: "string \<Rightarrow> string \<Rightarrow> bool" where
  "shell_match [] s = (s = [])"
| "shell_match (c # p) s =
     (if c = CHR ''*'' then shell_match p s \<or> (case s of [] \<Rightarrow> False | d # ds \<Rightarrow> d \<noteq> NL \<and> shell_match (c # p) ds)
      else case s of
        [] \<Rightarrow> False
      | d # ds \<Rightarrow>
          if c = CHR ''?'' then d \<noteq> NL \<and> shell_match p ds
          else if c = CHR ''['' then
            (case bracket p of None \<Rightarrow> d = CHR ''['' \<and> shell_match p ds
             | Some (stuff, rest) \<Rightarrow> in_bracket stuff d \<and> shell_match rest ds)
          else d = c \<and> shell_match p ds)"
  by pat_completeness auto
termination
  by (relation "measures [\<lambda>(p, s). length p, \<lambda>(p, s). length s]") (auto dest: bracket_shorter)

declare shell_match.simps(2) [simp del]

subsection \<open>The items of a shell pattern\<close>

lemma move_carets_eq:
  "move_carets cs moved = dropWhile (\<lambda>c. c = CHR ''^'') cs @ moved @ takeWhile (\<lambda>c. c = CHR ''^'') cs"
proof (induction cs arbitrary: moved)
  case (Cons c cs)
  have "moved @ [c] @ takeWhile (\<lambda>c. c = CHR ''^'') cs = moved @ c # takeWhile (\<lambda>c. c = CHR ''^'') cs" by simp
  with Cons show ?case by simp
qed simp

text \<open>The end of a set that the code scans for is the one of the reference.\<close>

lemma set_end_bracket:
  "bracket cs = (if set_end cs < length cs then Some (take (set_end cs) cs, drop (set_end cs + 1) cs) else None)"
proof -
  let ?P = "\<lambda>c. c \<noteq> CHR '']''"
  define k where "k = (if take 1 cs = ''!'' then 2 else 1 :: nat)"
  define q where "q = drop k cs"
  have e: "set_end cs = k + length (takeWhile ?P q)" if "k \<le> length cs"
  proof -
    let ?j = "k - 1"
    have j: "?j < length cs" "Suc ?j = k" using that by (auto simp: k_def split: if_splits)
    have "set_end cs = scan_up ?P cs (if cs ! ?j = CHR '']'' then k else ?j) (length cs)"
      using j by (cases cs) (auto simp: set_end_def k_def Let_def numeral_2_eq_2)
    also have "\<dots> = k + length (takeWhile ?P q)"
    proof (cases "cs ! ?j = CHR '']''")
      case True
      with that show ?thesis by (simp add: scan_up_length q_def)
    next
      case False
      with j that have "drop ?j cs = cs ! ?j # q" unfolding q_def by (metis Cons_nth_drop_Suc)
      with False j show ?thesis by (simp add: scan_up_length)
    qed
    finally show ?thesis .
  qed
  show ?thesis
  proof (cases "CHR '']'' \<in> set q")
    case True
    then have k: "k \<le> length cs" unfolding q_def by (cases "k \<le> length cs") auto
    have l: "length (takeWhile ?P q) < length q"
    proof -
      have "dropWhile ?P q \<noteq> []" using True by (auto simp: dropWhile_eq_Nil_conv)
      then have "0 < length (dropWhile ?P q)" by simp
      moreover have "length q = length (takeWhile ?P q) + length (dropWhile ?P q)"
        by (metis length_append takeWhile_dropWhile_id)
      ultimately show ?thesis by simp
    qed
    have "take (set_end cs) cs = take k cs @ takeWhile ?P q"
      unfolding e [OF k] q_def take_add [of k] by (metis takeWhile_eq_take)
    moreover have "drop (set_end cs + 1) cs = tl (dropWhile ?P q)"
      unfolding e [OF k] q_def by (metis drop_Suc drop_drop dropWhile_eq_drop tl_drop Suc_eq_plus1 add.commute)
    ultimately show ?thesis
      using True k l e [OF k] by (simp add: bracket_def q_def k_def Let_def)
  next
    case False
    have "length cs \<le> set_end cs"
    proof (cases "k \<le> length cs")
      case True
      have "takeWhile ?P q = q" using False by (auto simp: takeWhile_eq_all_conv)
      then have "length (takeWhile ?P q) = length q" by (simp only:)
      then have "length (takeWhile ?P q) = length cs - k" by (simp only: q_def length_drop)
      with e [OF True] True show ?thesis by simp
    next
      case no: False
      then have "cs = [] \<or> cs = ''!''" unfolding k_def by (cases cs; cases "tl cs") (auto split: if_splits)
      then show ?thesis by (auto simp: set_end_def intro: scan_up_ge)
    qed
    moreover have "bracket cs = None"
      unfolding bracket_def Let_def k_def [symmetric] q_def [symmetric] using False by simp
    ultimately show ?thesis by simp
  qed
qed

lemma bracket_stuff:
  assumes "bracket cs = Some (stuff, rest)"
  obtains (plain) c w where "stuff = c # w" "c \<noteq> CHR ''!''" "CHR '']'' \<notin> set w"
    | (complement) d v where "stuff = CHR ''!'' # d # v" "CHR '']'' \<notin> set v"
proof -
  have no: "CHR '']'' \<notin> set (takeWhile (\<lambda>c. c \<noteq> CHR '']'') q)" for q by (auto dest: set_takeWhileD)
  show thesis
  proof (cases "take 1 cs = ''!''")
    case True
    then obtain ds where "cs = CHR ''!'' # ds" by (cases cs) auto
    with assms have "\<exists>d v. stuff = CHR ''!'' # d # v \<and> CHR '']'' \<notin> set v"
      by (cases ds) (auto simp: bracket_def Let_def no split: if_split_asm)
    then show thesis using complement by blast
  next
    case False
    with assms have "\<exists>c w. stuff = c # w \<and> c \<noteq> CHR ''!'' \<and> CHR '']'' \<notin> set w"
      by (cases cs) (auto simp: bracket_def Let_def no split: if_split_asm)
    then show thesis using plain by blast
  qed
qed

definition set_instr :: "string \<Rightarrow> instr" where
  "set_instr stuff = (if stuff = replicate (length stuff) CHR ''^'' then Cexact CHR ''^'' else Cset (in_bracket stuff))"

function pattern_items :: "string \<Rightarrow> item list" where
  "pattern_items [] = []"
| "pattern_items (c # p) =
     (if c = CHR ''*'' then Star # pattern_items p
      else if c = CHR ''?'' then One Canychar # pattern_items p
      else if c = CHR ''['' then
        (case bracket p of None \<Rightarrow> One (Cexact CHR ''['') # pattern_items p
         | Some (stuff, rest) \<Rightarrow> One (set_instr stuff) # pattern_items rest)
      else One (Cexact c) # pattern_items p)"
  by pat_completeness auto
termination
  by (relation "measure length") (auto dest: bracket_shorter)

lemma pattern_items_simps:
  "pattern_items (CHR ''*'' # p) = Star # pattern_items p"
  "pattern_items (CHR ''?'' # p) = One Canychar # pattern_items p"
  "bracket p = None \<Longrightarrow> pattern_items (CHR ''['' # p) = One (Cexact CHR ''['') # pattern_items p"
  "bracket p = Some (stuff, rest) \<Longrightarrow> pattern_items (CHR ''['' # p) = One (set_instr stuff) # pattern_items rest"
  "c \<noteq> CHR ''*'' \<Longrightarrow> c \<noteq> CHR ''?'' \<Longrightarrow> c \<noteq> CHR ''['' \<Longrightarrow> pattern_items (c # p) = One (Cexact c) # pattern_items p"
  by simp_all

lemma stars_pattern: "stars (pattern_items p) \<le> length p"
proof (induction p rule: pattern_items.induct)
  case (2 c p)
  have "stars (pattern_items rest) \<le> Suc (length p)" if "c = CHR ''[''" "bracket p = Some (stuff, rest)" for stuff rest
    using 2(4) [OF _ _ that(1,2) refl] bracket_shorter [OF that(2)] that(1) by simp
  with 2 show ?case by (auto simp: le_SucI split: option.split)
qed simp

lemma in_seq_carets: "in_seq (replicate n CHR ''^'') x \<longleftrightarrow> 0 < n \<and> x = CHR ''^''"
proof (induction n)
  case (Suc n)
  then show ?case by (cases n) (simp_all add: in_seq_Cons del: in_seq.simps(4))
qed simp

lemma accepts_set_instr:
  assumes "stuff \<noteq> []"
  shows "accepts (set_instr stuff) x = in_bracket stuff x"
proof (cases "stuff = replicate (length stuff) CHR ''^''")
  case True
  obtain n where n: "stuff = replicate (Suc n) CHR ''^''" using True assms by (metis length_0_conv not0_implies_Suc)
  have "takeWhile (\<lambda>c. c = CHR ''^'') stuff = stuff" "dropWhile (\<lambda>c. c = CHR ''^'') stuff = []"
    unfolding n by (simp_all add: takeWhile_replicate dropWhile_replicate)
  moreover from n have "stuff = CHR ''^'' # replicate n CHR ''^''" by simp
  ultimately show ?thesis
    using True in_seq_carets [of "Suc n" x] n by (simp add: set_instr_def in_bracket_def)
next
  case False
  then show ?thesis by (simp add: set_instr_def)
qed

declare pattern_items.simps(2) [simp del]

lemma items_match_pattern: "items_match (pattern_items p) s = shell_match p s"
proof (induction p s rule: shell_match.induct)
  case (1 s)
  then show ?case by simp
next
  case (2 c p s)
  show ?case
  proof (cases "c = CHR ''*''")
    case True
    have "items_match (pattern_items (c # p)) s =
        (items_match (pattern_items p) s \<or> (case s of [] \<Rightarrow> False | d # ds \<Rightarrow> d \<noteq> NL \<and> items_match (pattern_items (c # p)) ds))"
      unfolding True pattern_items_simps by (subst items_match.simps) (rule refl)
    also have "\<dots> = shell_match (c # p) s"
      using True 2(1,2) unfolding shell_match.simps(2) [of c p s] by (simp split: list.split)
    finally show ?thesis .
  next
    case star: False
    show ?thesis
    proof (cases s)
      case Nil
      with star show ?thesis
        by (simp add: shell_match.simps(2) [of c p "[]"] pattern_items.simps(2) [of c p] items_match.simps(2) split: option.split)
    next
      case (Cons d ds)
      consider (any) "c = CHR ''?''" | (open_bracket) "c = CHR ''[''" | (other) "c \<noteq> CHR ''?''" "c \<noteq> CHR ''[''" by blast
      then show ?thesis
      proof cases
        case any
        with star Cons 2(3) show ?thesis
          by (simp add: shell_match.simps(2) [of "CHR ''?''" p "d # ds"] pattern_items_simps items_match.simps(2))
      next
        case open_bracket
        show ?thesis
        proof (cases "bracket p")
          case None
          with open_bracket Cons 2(4) show ?thesis
            by (simp add: shell_match.simps(2) [of "CHR ''[''" p "d # ds"] pattern_items_simps items_match.simps(2))
        next
          case (Some b)
          then obtain stuff rest where b: "bracket p = Some (stuff, rest)" by (cases b) auto
          have "stuff \<noteq> []" by (rule bracket_stuff [OF b]) auto
          with open_bracket Cons b 2(5) show ?thesis
            by (simp add: shell_match.simps(2) [of "CHR ''[''" p "d # ds"] pattern_items_simps items_match.simps(2) accepts_set_instr)
        qed
      next
        case other
        with star Cons 2(6) show ?thesis
          by (simp add: shell_match.simps(2) [of c p "d # ds"] pattern_items_simps items_match.simps(2))
      qed
    qed
  qed
qed

subsection \<open>Translating and compiling\<close>

lemma translate_loop_append: "fn_translate_loop cs res = res @ fn_translate_loop cs []"
proof (induction "length cs" arbitrary: cs res rule: less_induct)
  case less
  show ?case
  proof (cases cs)
    case (Cons c ds)
    have "fn_translate_loop es (res @ u) = res @ fn_translate_loop es u" if "length es \<le> length ds" for es u
      using less [of es "res @ u"] less [of es u] that Cons by simp
    then show ?thesis by (simp add: Cons Let_def)
  qed simp
qed

lemma fn_translate_step:
  "fn_translate (c # cs) =
     (if c = CHR ''*'' then ''.*'' @ fn_translate cs
      else if c = CHR ''?'' then ''.'' @ fn_translate cs
      else if c = CHR ''['' then
        (case bracket cs of None \<Rightarrow> [BSLASH, CHR ''[''] @ fn_translate cs
         | Some (stuff, rest) \<Rightarrow> translate_set stuff @ fn_translate rest)
      else if c \<in> set [BSLASH, CHR ''.'', CHR ''+'', CHR ''^'', CHR ''$''] then [BSLASH, c] @ fn_translate cs
      else [c] @ fn_translate cs)"
  unfolding fn_translate_def fn_translate_loop.simps(2) set_end_bracket Let_def
  by (subst (1 2 3 4 5 6) translate_loop_append) (simp add: not_less)

lemma compile_translate_set:
  assumes "compiled its st" "bracket cs = Some (stuff, rest)"
  shows "\<exists>st'. compiled (its @ [One (set_instr stuff)]) st' \<and>
    compile_loop 0 id (translate_set stuff @ ds) st = compile_loop 0 id ds st'"
  using assms(2)
proof (cases rule: bracket_stuff)
  case (complement d v)
  have "open_set 0 id (CHR ''^'' # d # v @ CHR '']'' # ds) = Inr (in_bracket stuff, ds)"
    using complement by (simp add: open_set_complement in_bracket_def fun_eq_iff)
  moreover have "set_instr stuff = Cset (in_bracket stuff)" using complement by (simp add: set_instr_def)
  moreover have "translate_set stuff @ ds = CHR ''['' # CHR ''^'' # d # v @ CHR '']'' # ds"
    using complement by (simp add: translate_set_def)
  ultimately show ?thesis using compile_set [OF assms(1)] by simp
next
  case (plain c w)
  show ?thesis
  proof (cases "stuff = replicate (length stuff) CHR ''^''")
    case True
    have "quoted_op 0 CHR ''^'' = Rnormal" by (simp add: quoted_op_def)
    moreover have "set_instr stuff = Cexact CHR ''^''" using True by (simp add: set_instr_def)
    moreover have "translate_set stuff = [BSLASH, CHR ''^'']" using True plain by (simp add: translate_set_def)
    ultimately show ?thesis using compile_quoted [OF assms(1), of "CHR ''^''" ds] by simp
  next
    case False
    let ?C = "\<lambda>c. c = CHR ''^''"
    define u where "u = dropWhile ?C stuff @ takeWhile ?C stuff"
    have "dropWhile ?C stuff \<noteq> []"
    proof
      assume "dropWhile ?C stuff = []"
      then have "\<forall>x\<in>set stuff. x = CHR ''^''" by (simp add: dropWhile_eq_Nil_conv)
      with False show False by (metis replicate_length_same)
    qed
    then obtain a b where ab: "dropWhile ?C stuff = a # b" by (cases "dropWhile ?C stuff") auto
    have a: "a \<noteq> CHR ''^''" using hd_dropWhile [of ?C stuff] ab by auto
    have "CHR '']'' \<notin> set (b @ takeWhile ?C stuff)"
    proof (cases "c = CHR ''^''")
      case True
      then have "CHR '']'' \<notin> set stuff" using plain by auto
      moreover have "set b \<union> set (takeWhile ?C stuff) \<subseteq> set stuff"
        using ab by (metis Un_subset_iff set_dropWhileD set_takeWhileD subsetI list.set_intros(2))
      ultimately show ?thesis by auto
    next
      case False
      with plain ab show ?thesis by auto
    qed
    then have "open_set 0 id (u @ CHR '']'' # ds) = Inr (in_seq u, ds)"
      using open_set_seq [OF a, of "b @ takeWhile ?C stuff" ds] ab by (simp add: u_def)
    moreover have "in_seq u = in_bracket stuff" using plain by (simp add: in_bracket_def u_def fun_eq_iff)
    moreover have "set_instr stuff = Cset (in_bracket stuff)" using False by (simp add: set_instr_def)
    moreover have "translate_set stuff @ ds = CHR ''['' # u @ CHR '']'' # ds"
      using plain False by (simp add: translate_set_def move_carets_eq u_def)
    ultimately show ?thesis using compile_set [OF assms(1)] by simp
  qed
qed

lemma compile_translated:
  "compiled its st \<Longrightarrow> \<exists>st'. compiled (its @ pattern_items p) st' \<and> compile_loop 0 id (fn_translate p) st = compile_loop 0 id [] st'"
proof (induction "length p" arbitrary: its st p rule: less_induct)
  case less
  show ?case
  proof (cases p)
    case Nil
    with less.prems show ?thesis by (auto simp: fn_translate_def)
  next
    case (Cons c cs)
    have piece: ?thesis
      if "pattern_items p = x # pattern_items rest" "fn_translate p = u @ fn_translate rest" "length rest < length p"
        and "\<exists>st'. compiled (its @ [x]) st' \<and> compile_loop 0 id (u @ fn_translate rest) st = compile_loop 0 id (fn_translate rest) st'"
      for x u rest
      using that less.hyps [OF that(3), of "its @ [x]"] by auto
    consider (star) "c = CHR ''*''" | (any) "c = CHR ''?''" | (brace) "c = CHR ''[''"
      | (meta) "c \<in> set [BSLASH, CHR ''.'', CHR ''+'', CHR ''^'', CHR ''$'']"
      | (other) "c \<notin> set [BSLASH, CHR ''.'', CHR ''+'', CHR ''^'', CHR ''$'']" "c \<noteq> CHR ''*''" "c \<noteq> CHR ''?''" "c \<noteq> CHR ''[''"
      by blast
    then show ?thesis
    proof cases
      case star
      then show ?thesis
        using compile_any_star [OF less.prems, of "fn_translate cs"]
        by (intro piece [of Star cs "''.*''"]) (simp_all add: Cons pattern_items_simps fn_translate_step)
    next
      case any
      then show ?thesis
        using compile_plain [OF less.prems, of "CHR ''.''" Canychar "fn_translate cs"]
        by (intro piece [of "One Canychar" cs "''.''"]) (simp_all add: Cons pattern_items_simps fn_translate_step)
    next
      case brace
      show ?thesis
      proof (cases "bracket cs")
        case None
        have "quoted_op 0 CHR ''['' = Rnormal" by (simp add: quoted_op_def)
        then show ?thesis
          using compile_quoted [OF less.prems, of "CHR ''[''" "fn_translate cs"] brace None
          by (intro piece [of "One (Cexact CHR ''['')" cs "[BSLASH, CHR ''['']"])
            (simp_all add: Cons pattern_items_simps fn_translate_step)
      next
        case (Some b)
        then obtain stuff rest where b: "bracket cs = Some (stuff, rest)" by (cases b) auto
        then show ?thesis
          using compile_translate_set [OF less.prems b, of "fn_translate rest"] brace bracket_shorter [OF b]
          by (intro piece [of "One (set_instr stuff)" rest "translate_set stuff"])
            (simp_all add: Cons pattern_items_simps fn_translate_step)
      qed
    next
      case meta
      then have "c = BSLASH \<or> c = CHR ''.'' \<or> c = CHR ''+'' \<or> c = CHR ''^'' \<or> c = CHR ''$''" by simp
      then have "quoted_op 0 c = Rnormal \<and> c \<noteq> CHR ''*'' \<and> c \<noteq> CHR ''?'' \<and> c \<noteq> CHR ''[''"
        by (elim disjE) (simp_all add: quoted_op_def)
      with meta show ?thesis
        using compile_quoted [OF less.prems, of c "fn_translate cs"]
        by (intro piece [of "One (Cexact c)" cs "[BSLASH, c]"]) (simp_all add: Cons pattern_items_simps fn_translate_step)
    next
      case other
      then have "plain_op 0 c = Rnormal" by (simp add: plain_op_def)
      with other show ?thesis
        using compile_plain [OF less.prems, of c "Cexact c" "fn_translate cs"]
        by (intro piece [of "One (Cexact c)" cs "[c]"]) (simp_all add: Cons pattern_items_simps fn_translate_step)
    qed
  qed
qed

lemma compile_pattern: "\<exists>r. regex_compile 0 id (fn_translate p) = Inr r \<and> items_regex (pattern_items p) r"
proof -
  obtain st where "compiled (pattern_items p) st" "compile_loop 0 id (fn_translate p) compile_init = compile_loop 0 id [] st"
    using compile_translated [OF compiled_init, of p] by auto
  then show ?thesis by (rule regex_compile_items)
qed

subsection \<open>Matching\<close>

text \<open>The cache holds, for a pattern, its program in a state some matches have left it in.\<close>

definition fn_ok :: "fn_state \<Rightarrow> bool" where
  "fn_ok st \<longleftrightarrow> (\<forall>p r. fn_cache st p = Some r \<longrightarrow> items_regex (pattern_items p) r)"

theorem fnmatchcase_shell:
  assumes "fn_ok st" "length name + length pat < MAX_FAILURES"
  shows "\<exists>st'. fnmatchcase name pat st = Some (Inr (shell_match pat name), st') \<and> fn_ok st' \<and> fn_syntax st' = fn_syntax st"
proof -
  obtain r st1 where r: "fn_compile pat st = (Inr r, st1)" "items_regex (pattern_items pat) r" "fn_ok st1"
      "fn_syntax st1 = fn_syntax st"
  proof (cases "fn_cache st pat")
    case None
    obtain r where "regex_compile 0 id (fn_translate pat) = Inr r" "items_regex (pattern_items pat) r"
      using compile_pattern [of pat] by blast
    with None assms(1) show thesis
      by (intro that [of r "st\<lparr>fn_cache := (fn_cache st)(pat \<mapsto> r)\<rparr>"]) (auto simp: fn_compile_def fn_ok_def)
  next
    case (Some r)
    with assms(1) show thesis by (intro that [of r st]) (auto simp: fn_compile_def fn_ok_def)
  qed
  have "length name + stars (pattern_items pat) < MAX_FAILURES" using assms(2) stars_pattern [of pat] by simp
  moreover have "items_regex (pattern_items pat) (r\<lparr>r_lastok := None\<rparr>)" using r(2) by (simp add: items_regex_def)
  ultimately obtain k r' where m: "re_match name 0 (r\<lparr>r_lastok := None\<rparr>) = Some (k, r')"
      "items_regex (pattern_items pat) r'" "- 1 \<le> k" "(k = int (length name)) = items_match (pattern_items pat) name"
    using re_match_items by blast
  from m(1,3) have "reg_match name 0 r = Some (Inr k, r')" by (simp add: reg_match_def reg_call_def)
  with r m(2,4) show ?thesis
    by (auto simp: fnmatchcase_def items_match_pattern fn_ok_def)
qed

subsection \<open>Where the reference deviates from the documentation\<close>

text \<open>
  Moving a leading caret behind a final dash makes a range: \<^verbatim>\<open>[^A-]\<close> matches \<open>M\<close>, and neither
  \<open>-\<close> nor the caret of \<^verbatim>\<open>[^a-]\<close> matches.
\<close>

lemma caret_set_reads_range:
  "shell_match ''[^A-]'' ''M''" "\<not> shell_match ''[^A-]'' ''-''" "\<not> shell_match ''[^a-]'' ''^''"
  by (simp_all add: shell_match.simps bracket_def in_bracket_def)

lemma star_stops_at_newline: "\<not> shell_match ''*'' [CHR ''a'', NL]"
  by (simp add: shell_match.simps)

text \<open>Without a dash the order of the characters does not matter.\<close>

lemma in_seq_no_dash: "CHR ''-'' \<notin> set w \<Longrightarrow> in_seq w x \<longleftrightarrow> x \<in> set w"
proof (induction w)
  case (Cons a w)
  then show ?case by (cases w) (auto simp: in_seq_Cons simp del: in_seq.simps(4))
qed simp

lemma in_bracket_no_dash:
  assumes "CHR ''-'' \<notin> set (c # w)"
  shows "in_bracket (c # w) x \<longleftrightarrow> (if c = CHR ''!'' then x \<notin> set w else x \<in> set (c # w))"
proof -
  have "set (dropWhile P s) \<union> set (takeWhile P s) = set s" for P and s :: string
    by (metis set_append sup_commute takeWhile_dropWhile_id)
  moreover have "CHR ''-'' \<notin> set (dropWhile P (c # w) @ takeWhile P (c # w))" for P
    using assms by (metis Un_iff set_append set_dropWhileD set_takeWhileD)
  ultimately show ?thesis
    using assms by (simp add: in_bracket_def in_seq_no_dash Un_commute)
qed

end
