(* ===== verification/Files.thy ===== *)
theory Files
  imports Str
begin

section \<open>File objects\<close>

text \<open>
  What the modules that read and write files rely on.  A file object is a state together with a
  record of its methods, as Python passes any object that has them; the built-in file object is
  the instance \<open>pyfile\<close> (its bytes and position), \<open>StringIO\<close> another.  The locale states
  the laws of a file whose content can be read from any position; the modules that read files are
  proved against it once.
\<close>

record 'f file_ops =
  fo_read :: "int \<Rightarrow> ('f, string) act"
  fo_readline :: "('f, string) act"
  fo_tell :: "('f, int) act"
  fo_seek :: "int \<Rightarrow> int \<Rightarrow> ('f, unit) act"
  fo_write :: "string \<Rightarrow> ('f, unit) act"
  fo_isfile :: bool \<comment> \<open>a built-in file object, which C code can reach into\<close>

text \<open>An action on the file of an object that has its own state beside it.\<close>

definition on_file :: "('f, 'a) act \<Rightarrow> ('c \<times> 'f, 'a) act" where
  "on_file m = (\<lambda>(c, f). let (r, f) = m f in (r, (c, f)))"

lemma on_file_simp [simp]: "m f = (r, g) \<Longrightarrow> on_file m (c, f) = (r, (c, g))"
  by (simp add: on_file_def)

text \<open>Running the steps of a sequence one by one.\<close>

lemma thenA_step: "m s = (Inr x, t) \<Longrightarrow> k t = r \<Longrightarrow> thenA m k s = r"
  by simp

subsection \<open>Lines\<close>

text \<open>The first line of a text with its newline, or the whole text when it has none.\<close>

fun first_line :: "string \<Rightarrow> string" where
  "first_line [] = []"
| "first_line (c # cs) = (if c = NL then [NL] else c # first_line cs)"

lemma first_line_empty [simp]: "first_line s = [] \<longleftrightarrow> s = []"
  by (cases s) simp_all

lemma first_line_empty' [simp]: "[] = first_line s \<longleftrightarrow> s = []"
  by (cases s) simp_all

lemma first_line_length: "length (first_line s) \<le> length s"
  by (induction s) simp_all

lemma first_line_drop: "first_line s @ drop (length (first_line s)) s = s"
  by (induction s) simp_all

lemma first_line_take: "take (length (first_line s)) s = first_line s"
  by (induction s) simp_all

lemma first_line_append: "NL \<notin> set l \<Longrightarrow> first_line (l @ NL # s) = l @ [NL]"
  by (induction l) auto

lemma first_line_no_NL: "NL \<notin> set l \<Longrightarrow> first_line l = l"
  by (induction l) auto

lemma first_line_takeWhile:
  "first_line s = (if NL \<in> set s then takeWhile (\<lambda>c. c \<noteq> NL) s @ [NL] else s)"
  by (induction s) auto

function text_lines :: "string \<Rightarrow> string list" where
  "text_lines s = (if s = [] then [] else first_line s # text_lines (drop (length (first_line s)) s))"
  by pat_completeness auto
termination
  by (relation "measure length") (auto simp: length_greater_0_conv)

declare text_lines.simps [simp del]

lemma text_lines_Nil [simp]: "text_lines [] = []"
  by (simp add: text_lines.simps)

lemma concat_text_lines: "concat (text_lines s) = s"
proof (induction s rule: text_lines.induct)
  case (1 s)
  then show ?case
    by (cases "s = []") (simp_all add: text_lines.simps [of s] first_line_drop)
qed

lemma text_lines_nonempty: "[] \<notin> set (text_lines s)"
proof (induction s rule: text_lines.induct)
  case (1 s)
  then show ?case
    by (cases "s = []") (simp_all add: text_lines.simps [of s])
qed

lemma text_lines_line: "NL \<notin> set l \<Longrightarrow> text_lines (l @ NL # s) = (l @ [NL]) # text_lines s"
  by (simp add: text_lines.simps [of "l @ NL # s"] first_line_append)

text \<open>Searching a character from a position.\<close>

lemma find_char_from:
  "find_s s [c] (int p) =
     (if c \<in> set (drop p s) then int (p + length (takeWhile (\<lambda>d. d \<noteq> c) (drop p s))) else - 1)"
proof (cases rule: find_s_cases [of s "[c]" "int p"])
  case none
  have "c \<notin> set (drop p s)"
  proof
    assume "c \<in> set (drop p s)"
    then obtain u v where d: "drop p s = u @ c # v" by (meson split_list)
    then have "p < length s" by (cases "p < length s") auto
    moreover from d have "s = (take p s @ u) @ [c] @ v"
      by (metis append.assoc append_Cons append_Nil append_take_drop_id)
    ultimately have "occurs [c] s (p + length u)"
      unfolding occurs_iff_append by (intro exI [of _ "take p s @ u"] exI [of _ v]) simp
    with none(2) [of "p + length u"] show False by simp
  qed
  with none show ?thesis by simp
next
  case (found r)
  then obtain u v where s: "s = u @ c # v" "length u = r" by (auto simp: occurs_iff_append)
  with found(2) have d: "drop p s = drop p u @ c # v" by simp
  have "c \<notin> set (drop p u)"
  proof
    assume "c \<in> set (drop p u)"
    then obtain k where k: "k < length (drop p u)" "drop p u ! k = c" by (auto simp: in_set_conv_nth)
    then have "p + k < length u" "u ! (p + k) = c" by auto
    from id_take_nth_drop [OF this(1)] this(2)
    have "u = take (p + k) u @ [c] @ drop (Suc (p + k)) u" by simp
    with s(1) have "s = take (p + k) u @ [c] @ (drop (Suc (p + k)) u @ c # v)"
      by (metis append.assoc append_Cons append_Nil)
    moreover have "length (take (p + k) u) = p + k" using k by simp
    ultimately have "occurs [c] s (p + k)" unfolding occurs_iff_append by blast
    moreover have "p + k < r" using k(1) s(2) by simp
    ultimately show False using found(4) [of "p + k"] by simp
  qed
  then have "takeWhile (\<lambda>d. d \<noteq> c) (drop p s) = drop p u"
    unfolding d by (subst takeWhile_append2) auto
  with found s(2) d show ?thesis by simp
qed

subsection \<open>The interface\<close>

locale line_file =
  fixes ops :: "'f file_ops"
    and content :: "'f \<Rightarrow> string"
    and posn :: "'f \<Rightarrow> nat"
    and ok :: "'f \<Rightarrow> bool"
  assumes tell: "ok f \<Longrightarrow> fo_tell ops f = (Inr (int (posn f)), f)"
    and seek: "ok f \<Longrightarrow> \<exists>g. fo_seek ops (int p) 0 f = (Inr (), g) \<and> ok g \<and> posn g = p \<and> content g = content f"
    and readline: "ok f \<Longrightarrow> \<exists>g. fo_readline ops f = (Inr (first_line (drop (posn f) (content f))), g) \<and> ok g \<and>
          content g = content f \<and>
          drop (posn g) (content f) =
            drop (length (first_line (drop (posn f) (content f)))) (drop (posn f) (content f)) \<and>
          (posn f \<le> length (content f) \<longrightarrow>
            posn g = posn f + length (first_line (drop (posn f) (content f))))"
    and seek_rel: "ok f \<Longrightarrow> 0 \<le> int (posn f) + d \<Longrightarrow>
      \<exists>g. fo_seek ops d 1 f = (Inr (), g) \<and> ok g \<and> posn g = nat (int (posn f) + d) \<and> content g = content f"
begin

definition ahead :: "'f \<Rightarrow> string" where
  \<comment> \<open>what is still to be read\<close>
  "ahead f = drop (posn f) (content f)"

lemma readline_ahead:
  assumes "ok f"
  obtains g where "fo_readline ops f = (Inr (first_line (ahead f)), g)" "ok g" "content g = content f"
    "ahead g = drop (length (first_line (ahead f))) (ahead f)"
  using readline [OF assms] unfolding ahead_def by force

lemma readline_eof: "ok f \<Longrightarrow> ahead f = [] \<Longrightarrow> fst (fo_readline ops f) = Inr []"
  using readline [of f] unfolding ahead_def by force

text \<open>Going back to a remembered position and reading again gives the same line.\<close>

lemma seek_back:
  assumes "ok f"
  obtains p g where "fo_tell ops f = (Inr (int p), f)" "fo_seek ops (int p) 0 h = (Inr (), g)"
    "ok g" "content g = content h" "content h = content f \<longrightarrow> ahead g = ahead f"
    | "\<not> ok h"
proof (cases "ok h")
  case True
  with assms seek [of h "posn f"] tell [of f] that show ?thesis
    unfolding ahead_def by metis
qed (use that in blast)

end

text \<open>A file whose \<open>read(n)\<close> returns the next \<open>n\<close> bytes, too.\<close>

locale readable_file = line_file ops content posn ok
  for ops :: "'f file_ops" and content :: "'f \<Rightarrow> string" and posn :: "'f \<Rightarrow> nat" and ok :: "'f \<Rightarrow> bool" +
  assumes read_some: "ok f \<Longrightarrow> \<exists>g. fo_read ops (int n) f = (Inr (take n (drop (posn f) (content f))), g) \<and> ok g \<and>
          content g = content f \<and> drop (posn g) (content f) = drop n (drop (posn f) (content f)) \<and>
          (posn f \<le> length (content f) \<longrightarrow> posn g = min (posn f + n) (length (content f)))"
begin

lemma read_ahead:
  assumes "ok f"
  obtains g where "fo_read ops (int n) f = (Inr (take n (ahead f)), g)" "ok g" "content g = content f"
    "ahead g = drop n (ahead f)"
  using read_some [OF assms, of n] unfolding ahead_def by force

end

subsection \<open>The built-in file object\<close>

text \<open>
  A file opened for reading and writing: \<open>read\<close>, \<open>readline\<close>, \<open>tell\<close>, \<open>seek\<close> and
  \<open>write\<close> of \<open>Objects/fileobject.c\<close> on a regular file, whose operations do not fail.  A
  seek before the start raises \<open>IOError\<close>; a write beyond the end fills with zero bytes.
\<close>

record pyfile =
  f_data :: string
  f_pos :: nat

definition pf_read :: "int \<Rightarrow> (pyfile, string) act" where
  "pf_read n f =
     (let r = drop (f_pos f) (f_data f); s = (if n < 0 then r else take (nat n) r)
      in (Inr s, f\<lparr>f_pos := f_pos f + length s\<rparr>))"

definition pf_readline :: "(pyfile, string) act" where
  "pf_readline f =
     (let s = first_line (drop (f_pos f) (f_data f)) in (Inr s, f\<lparr>f_pos := f_pos f + length s\<rparr>))"

definition pf_tell :: "(pyfile, int) act" where
  "pf_tell = getA (\<lambda>f. int (f_pos f))"

definition pf_seek :: "int \<Rightarrow> int \<Rightarrow> (pyfile, unit) act" where
  "pf_seek p whence f =
     (let q = (if whence = 1 then p + int (f_pos f)
               else if whence = 2 then p + int (length (f_data f)) else p)
      in if q < 0 then (Inl (IOError ''Invalid argument''), f) else (Inr (), f\<lparr>f_pos := nat q\<rparr>))"

definition write_at :: "nat \<Rightarrow> string \<Rightarrow> string \<Rightarrow> string" where
  "write_at p s d =
     (if s = [] then d
      else take p d @ replicate (p - length d) NUL @ s @ drop (p + length s) d)"

definition pf_write :: "string \<Rightarrow> (pyfile, unit) act" where
  "pf_write s f =
     (Inr (), f\<lparr>f_data := write_at (f_pos f) s (f_data f), f_pos := f_pos f + length s\<rparr>)"

definition pf_ops :: "pyfile file_ops" where
  "pf_ops = \<lparr>fo_read = pf_read, fo_readline = pf_readline, fo_tell = pf_tell, fo_seek = pf_seek,
     fo_write = pf_write, fo_isfile = True\<rparr>"

interpretation pf: readable_file pf_ops f_data f_pos "\<lambda>_. True"
proof unfold_locales
  fix f :: pyfile and n :: nat
  have "drop (f_pos f + min n (length (f_data f) - f_pos f)) (f_data f) = drop (n + f_pos f) (f_data f)"
    by (cases "n \<le> length (f_data f) - f_pos f") (auto simp: min_def add.commute)
  then show "\<exists>g. fo_read pf_ops (int n) f = (Inr (take n (drop (f_pos f) (f_data f))), g) \<and> True \<and>
      f_data g = f_data f \<and> drop (f_pos g) (f_data f) = drop n (drop (f_pos f) (f_data f)) \<and>
      (f_pos f \<le> length (f_data f) \<longrightarrow> f_pos g = min (f_pos f + n) (length (f_data f)))"
    by (auto simp: pf_ops_def pf_read_def Let_def min.commute)
qed (auto simp: pf_ops_def pf_tell_def pf_seek_def pf_readline_def Let_def add.commute)

lemma write_at_length: "length (write_at p s d) = (if s = [] then length d else max (length d) (p + length s))"
  by (auto simp: write_at_def)

lemma write_at_read: "s \<noteq> [] \<Longrightarrow> take (length s) (drop p (write_at p s d)) = s"
  by (cases "p \<le> length d") (auto simp: write_at_def)

lemma write_at_end: "write_at (length d) s d = d @ s"
  by (simp add: write_at_def)

lemma write_at_before: "q \<le> p \<Longrightarrow> q \<le> length d \<Longrightarrow> take q (write_at p s d) = take q d"
  by (auto simp: write_at_def take_append min_def)

text \<open>A file whose position is at its end: writing appends.\<close>

definition file_end :: "string \<Rightarrow> pyfile" where
  "file_end d = \<lparr>f_data = d, f_pos = length d\<rparr>"

lemma write_file_end: "fo_write pf_ops s (file_end d) = (Inr (), file_end (d @ s))"
  by (simp add: pf_ops_def pf_write_def file_end_def write_at_end)

lemma forA_write: "forA (fo_write pf_ops) hs (file_end d) = (Inr (), file_end (d @ concat hs))"
  by (induction hs arbitrary: d) (simp_all add: write_file_end)

end
