(* ===== verification/Formatter.thy ===== *)
theory Formatter
  imports Files
begin

section \<open>\<open>Lib/formatter.py\<close>: formatters and writers\<close>

text \<open>
  A formatter turns document events into calls of a writer.  A writer is a state with a
  function that takes a method call; the calls are the datatype \<open>writer_call\<close>.  Alignments,
  margins, spacings and styles are values of the client, here strings, and \<open>None\<close> is the
  option.  The writers are those of the module and do not raise.
\<close>

subsection \<open>Writers\<close>

type_synonym fontspec = "string option \<times> int option \<times> int option \<times> int option"

datatype writer_call =
    NewAlignment "string option"
  | NewFont "fontspec option"
  | NewMargin "string option" nat
  | NewSpacing "string option"
  | NewStyles "string list"
  | SendParagraph int
  | SendLineBreak
  | SendHorRule "string list"
  | SendLabelData string
  | SendFlowingData string
  | SendLiteralData string

type_synonym 'w writer = "writer_call \<Rightarrow> 'w \<Rightarrow> 'w"

definition null_writer :: "unit writer" where
  "null_writer call w = ()"

subsection \<open>The abstract formatter\<close>

record formatter =
  align :: "string option"
  align_stack :: "string option list"
  font_stack :: "fontspec list"
  margin_stack :: "string option list"
  spacing :: "string option"
  style_stack :: "string list"
  nospace :: bool
  softspace :: bool
  para_end :: bool
  parskip :: int
  hard_break :: bool
  have_label :: bool

definition formatter_init :: formatter where
  "formatter_init = \<lparr>align = None, align_stack = [], font_stack = [], margin_stack = [], spacing = None,
     style_stack = [], nospace = True, softspace = False, para_end = True, parskip = 0,
     hard_break = True, have_label = False\<rparr>"

text \<open>A method: the formatter and the writer before and after.\<close>

type_synonym 'w fmt_method = "formatter \<times> 'w \<Rightarrow> formatter \<times> 'w"

definition end_paragraph :: "'w writer \<Rightarrow> int \<Rightarrow> 'w fmt_method" where
  "end_paragraph wr blankline = (\<lambda>(f, w).
     let (f, w) = (if \<not> hard_break f then (f\<lparr>have_label := False\<rparr>, wr SendLineBreak w) else (f, w));
         (f, w) = (if parskip f < blankline \<and> \<not> have_label f
                   then (f\<lparr>parskip := blankline, have_label := False\<rparr>,
                         wr (SendParagraph (blankline - parskip f)) w)
                   else (f, w))
     in (f\<lparr>hard_break := True, nospace := True, para_end := True, softspace := False\<rparr>, w))"

definition add_line_break :: "'w writer \<Rightarrow> 'w fmt_method" where
  "add_line_break wr = (\<lambda>(f, w).
     let (f, w) = (if \<not> (hard_break f \<or> para_end f)
                   then (f\<lparr>have_label := False, parskip := 0\<rparr>, wr SendLineBreak w) else (f, w))
     in (f\<lparr>hard_break := True, nospace := True, softspace := False\<rparr>, w))"

definition add_hor_rule :: "'w writer \<Rightarrow> string list \<Rightarrow> 'w fmt_method" where
  "add_hor_rule wr args = (\<lambda>(f, w).
     let w = (if \<not> hard_break f then wr SendLineBreak w else w);
         w = wr (SendHorRule args) w
     in (f\<lparr>hard_break := True, nospace := True, have_label := False, para_end := False,
           softspace := False, parskip := 0\<rparr>, w))"

text \<open>Counters in labels.  \<open>divmod\<close> on positive numbers is \<open>div\<close> and \<open>mod\<close>.\<close>

function format_letter_loop :: "char \<Rightarrow> int \<Rightarrow> string \<Rightarrow> string" where
  "format_letter_loop lcase counter label =
     (if counter > 0 then
        let x = (counter - 1) mod 26; counter = (counter - 1) div 26;
            s = [chr (ord lcase + nat x)]
        in format_letter_loop lcase counter (s @ label)
      else label)"
  by pat_completeness auto
termination
  by (relation "measure (\<lambda>(lcase, counter, label). nat counter)") (auto simp: nat_less_iff)

declare format_letter_loop.simps [simp del]

definition format_letter :: "char \<Rightarrow> int \<Rightarrow> string" where
  "format_letter lcase counter = format_letter_loop lcase counter []"

definition roman_ones :: "string list" where
  "roman_ones = [''i'', ''x'', ''c'', ''m'']"

definition roman_fives :: "string list" where
  "roman_fives = [''v'', ''l'', ''d'']"

definition roman_digit :: "int \<Rightarrow> int \<Rightarrow> string res" where
  \<comment> \<open>the letters of digit \<open>x\<close> at position \<open>index\<close>\<close>
  "roman_digit x index =
     (if x = 9 then
        bindR (pindex roman_ones index) (\<lambda>a. bindR (pindex roman_ones (index + 1)) (\<lambda>b. Inr (a @ b)))
      else if x = 4 then
        bindR (pindex roman_ones index) (\<lambda>a. bindR (pindex roman_fives index) (\<lambda>b. Inr (a @ b)))
      else
        bindR (if x \<ge> 5 then bindR (pindex roman_fives index) (\<lambda>s. Inr (s, x - 5)) else Inr ([], x))
          (\<lambda>(s, x). bindR (pindex roman_ones index) (\<lambda>a. Inr (s @ concat (replicate (nat x) a)))))"

function format_roman_loop :: "int \<Rightarrow> int \<Rightarrow> string \<Rightarrow> string res" where
  "format_roman_loop counter index label =
     (if counter > 0 then
        let x = counter mod 10; counter = counter div 10
        in bindR (roman_digit x index) (\<lambda>s. format_roman_loop counter (index + 1) (s @ label))
      else Inr label)"
  by pat_completeness auto
termination
  by (relation "measure (\<lambda>(counter, index, label). nat counter)") (auto simp: nat_less_iff)

declare format_roman_loop.simps [simp del]

definition format_roman :: "char \<Rightarrow> int \<Rightarrow> string res" where
  "format_roman lcase counter =
     bindR (format_roman_loop counter 0 [])
       (\<lambda>label. Inr (if lcase = CHR ''I'' then upper label else label))"

definition format_counter_char :: "int \<Rightarrow> string \<Rightarrow> char \<Rightarrow> string" where
  \<comment> \<open>one round of the loop; the handler of any exception adds the character itself\<close>
  "format_counter_char counter label c =
     (if c = CHR ''1'' then label @ int_repr counter
      else if c \<in> {CHR ''a'', CHR ''A''} then
        if counter > 0 then label @ format_letter c counter else label
      else if c \<in> {CHR ''i'', CHR ''I''} then
        if counter > 0 then
          (case format_roman c counter of Inl _ \<Rightarrow> label @ [c] | Inr s \<Rightarrow> label @ s)
        else label
      else label @ [c])"

definition format_counter :: "string \<Rightarrow> int \<Rightarrow> string" where
  "format_counter format counter = foldl (format_counter_char counter) [] format"

text \<open>A label format: a string to be formatted, or any other object, sent as it is.\<close>

datatype label_format = FormatString string | FormatObject string

definition add_label_data :: "'w writer \<Rightarrow> label_format \<Rightarrow> int \<Rightarrow> int option \<Rightarrow> 'w fmt_method" where
  "add_label_data wr format counter blankline = (\<lambda>(f, w).
     let w = (if have_label f \<or> \<not> hard_break f then wr SendLineBreak w else w);
         w = (if \<not> para_end f
              then wr (SendParagraph (case blankline of None \<Rightarrow> 0 | Some b \<Rightarrow> if b \<noteq> 0 then 1 else 0)) w
              else w);
         w = (case format of
                FormatString s \<Rightarrow> wr (SendLabelData (format_counter s counter)) w
              | FormatObject d \<Rightarrow> wr (SendLabelData d) w)
     in (f\<lparr>nospace := True, have_label := True, hard_break := True, para_end := True,
           softspace := False, parskip := 0\<rparr>, w))"

definition add_flowing_data :: "'w writer \<Rightarrow> string \<Rightarrow> 'w fmt_method" where
  "add_flowing_data wr data = (\<lambda>(f, w).
     if data = [] then (f, w)
     else
       let prespace = hd data \<in> set whitespace;
           postspace = last data \<in> set whitespace;
           data = join_s (split_s data None 0) '' ''
       in if nospace f \<and> data = [] then (f, w)
          else if (prespace \<or> softspace f) \<and> data = [] then
            (if \<not> nospace f then (f\<lparr>softspace := True, parskip := 0\<rparr>, w) else (f, w))
          else
            let data = (if (prespace \<or> softspace f) \<and> \<not> nospace f then '' '' @ data else data)
            in (f\<lparr>hard_break := False, nospace := False, para_end := False, parskip := 0,
                  have_label := False, softspace := postspace\<rparr>, wr (SendFlowingData data) w))"

definition add_literal_data :: "'w writer \<Rightarrow> string \<Rightarrow> 'w fmt_method" where
  "add_literal_data wr data = (\<lambda>(f, w).
     if data = [] then (f, w)
     else
       let w = (if softspace f then wr (SendFlowingData '' '') w else w)
       in (f\<lparr>hard_break := (last data = NL), nospace := False, para_end := False, softspace := False,
             parskip := 0, have_label := False\<rparr>, wr (SendLiteralData data) w))"

definition flush_softspace :: "'w writer \<Rightarrow> 'w fmt_method" where
  "flush_softspace wr = (\<lambda>(f, w).
     if softspace f
     then (f\<lparr>hard_break := False, para_end := False, parskip := 0, have_label := False,
             softspace := False, nospace := True\<rparr>, wr (SendFlowingData '' '') w)
     else (f, w))"

definition truthy :: "string option \<Rightarrow> bool" where
  "truthy x = (case x of None \<Rightarrow> False | Some s \<Rightarrow> s \<noteq> [])"

definition push_alignment :: "'w writer \<Rightarrow> string option \<Rightarrow> 'w fmt_method" where
  "push_alignment wr a = (\<lambda>(f, w).
     if truthy a \<and> a \<noteq> align f
     then (f\<lparr>align := a, align_stack := align_stack f @ [a]\<rparr>, wr (NewAlignment a) w)
     else (f\<lparr>align_stack := align_stack f @ [align f]\<rparr>, w))"

definition pop_alignment :: "'w writer \<Rightarrow> 'w fmt_method" where
  "pop_alignment wr = (\<lambda>(f, w).
     let f = (if align_stack f \<noteq> [] then f\<lparr>align_stack := butlast (align_stack f)\<rparr> else f)
     in if align_stack f \<noteq> []
        then (f\<lparr>align := last (align_stack f)\<rparr>, wr (NewAlignment (last (align_stack f))) w)
        else (f\<lparr>align := None\<rparr>, wr (NewAlignment None) w))"

definition soft_to_hard :: "'w writer \<Rightarrow> 'w fmt_method" where
  \<comment> \<open>the first lines of \<open>push_font\<close> and \<open>push_style\<close>\<close>
  "soft_to_hard wr = (\<lambda>(f, w).
     if softspace f
     then (f\<lparr>hard_break := False, para_end := False, softspace := False, nospace := True\<rparr>,
           wr (SendFlowingData '' '') w)
     else (f, w))"

definition as_is :: "'a option \<Rightarrow> 'a option \<Rightarrow> 'a option" where
  "as_is x c = (case x of None \<Rightarrow> c | Some _ \<Rightarrow> x)"

definition push_font :: "'w writer \<Rightarrow> fontspec \<Rightarrow> 'w fmt_method" where
  "push_font wr = (\<lambda>(size, i, b, tt) fw.
     let (f, w) = soft_to_hard wr fw;
         font = (if font_stack f \<noteq> [] then
                   let (csize, ci, cb, ctt) = last (font_stack f)
                   in (as_is size csize, as_is i ci, as_is b cb, as_is tt ctt)
                 else (size, i, b, tt))
     in (f\<lparr>font_stack := font_stack f @ [font]\<rparr>, wr (NewFont (Some font)) w))"

definition pop_font :: "'w writer \<Rightarrow> 'w fmt_method" where
  "pop_font wr = (\<lambda>(f, w).
     let f = (if font_stack f \<noteq> [] then f\<lparr>font_stack := butlast (font_stack f)\<rparr> else f);
         font = (if font_stack f \<noteq> [] then Some (last (font_stack f)) else None)
     in (f, wr (NewFont font) w))"

definition push_margin :: "'w writer \<Rightarrow> string option \<Rightarrow> 'w fmt_method" where
  "push_margin wr margin = (\<lambda>(f, w).
     let f = f\<lparr>margin_stack := margin_stack f @ [margin]\<rparr>;
         fstack = filter truthy (margin_stack f);
         margin = (if \<not> truthy margin \<and> fstack \<noteq> [] then last fstack else margin)
     in (f, wr (NewMargin margin (length fstack)) w))"

definition pop_margin :: "'w writer \<Rightarrow> 'w fmt_method" where
  "pop_margin wr = (\<lambda>(f, w).
     let f = (if margin_stack f \<noteq> [] then f\<lparr>margin_stack := butlast (margin_stack f)\<rparr> else f);
         fstack = filter truthy (margin_stack f);
         margin = (if fstack \<noteq> [] then last fstack else None)
     in (f, wr (NewMargin margin (length fstack)) w))"

definition set_spacing :: "'w writer \<Rightarrow> string option \<Rightarrow> 'w fmt_method" where
  "set_spacing wr sp = (\<lambda>(f, w). (f\<lparr>spacing := sp\<rparr>, wr (NewSpacing sp) w))"

definition push_style :: "'w writer \<Rightarrow> string list \<Rightarrow> 'w fmt_method" where
  "push_style wr styles fw =
     (let (f, w) = soft_to_hard wr fw; f = f\<lparr>style_stack := style_stack f @ styles\<rparr>
      in (f, wr (NewStyles (style_stack f)) w))"

definition pop_style :: "'w writer \<Rightarrow> int \<Rightarrow> 'w fmt_method" where
  \<comment> \<open>\<open>del self.style_stack[-n:]\<close>\<close>
  "pop_style wr n = (\<lambda>(f, w).
     let f = f\<lparr>style_stack := pupto (- n) (style_stack f)\<rparr> in (f, wr (NewStyles (style_stack f)) w))"

definition assert_line_data :: "bool \<Rightarrow> 'w fmt_method" where
  "assert_line_data flag = (\<lambda>(f, w).
     (f\<lparr>nospace := \<not> flag, hard_break := \<not> flag, para_end := False, parskip := 0,
        have_label := False\<rparr>, w))"

subsection \<open>The dumb writer\<close>

text \<open>The writer to a file: the text written so far, the column and the break flag.\<close>

record dumb_writer =
  dw_file :: string
  dw_maxcol :: int
  dw_col :: int
  dw_atbreak :: bool

definition dumb_init :: "int \<Rightarrow> dumb_writer" where
  "dumb_init maxcol = \<lparr>dw_file = [], dw_maxcol = maxcol, dw_col = 0, dw_atbreak = False\<rparr>"

definition dumb_put :: "string \<Rightarrow> dumb_writer \<Rightarrow> dumb_writer" where
  "dumb_put s w = w\<lparr>dw_file := dw_file w @ s\<rparr>"

definition dumb_reset :: "dumb_writer \<Rightarrow> dumb_writer" where
  "dumb_reset w = w\<lparr>dw_col := 0, dw_atbreak := False\<rparr>"

primrec dumb_flow :: "string list \<Rightarrow> bool \<Rightarrow> int \<Rightarrow> int \<Rightarrow> string \<Rightarrow> string \<times> int" where
  \<comment> \<open>the loop over the words: \<open>out\<close> is what it has written\<close>
  "dumb_flow [] atbreak col maxcol out = (out, col)"
| "dumb_flow (word # ws) atbreak col maxcol out =
     (let (out, col) =
            (if atbreak then
               if col + int (length word) \<ge> maxcol then (out @ [NL], 0) else (out @ '' '', col + 1)
             else (out, col))
      in dumb_flow ws True (col + int (length word)) maxcol (out @ word))"

definition dumb_send_flowing :: "string \<Rightarrow> dumb_writer \<Rightarrow> dumb_writer" where
  "dumb_send_flowing data w =
     (if data = [] then w
      else
        let atbreak = (dw_atbreak w \<or> hd data \<in> set whitespace);
            (out, col) = dumb_flow (split_s data None 0) atbreak (dw_col w) (dw_maxcol w) []
        in (dumb_put out w)\<lparr>dw_col := col, dw_atbreak := (last data \<in> set whitespace)\<rparr>)"

definition dumb_send_literal :: "string \<Rightarrow> dumb_writer \<Rightarrow> dumb_writer" where
  "dumb_send_literal data w =
     (let w = dumb_put data w;
          i = rfind data [NL] 0;
          (w, data) = (if i \<ge> 0 then (w\<lparr>dw_col := 0\<rparr>, pfrom (i + 1) data) else (w, data));
          data = (case expandtabs data 8 of Inr d \<Rightarrow> d | Inl _ \<Rightarrow> data)
      in w\<lparr>dw_col := dw_col w + int (length data), dw_atbreak := False\<rparr>)"

fun dumb_writer_call :: "dumb_writer writer" where
  "dumb_writer_call (SendParagraph blankline) w = dumb_reset (dumb_put ([NL] @ replicate (nat blankline) NL) w)"
| "dumb_writer_call SendLineBreak w = dumb_reset (dumb_put [NL] w)"
| "dumb_writer_call (SendHorRule args) w =
     dumb_reset (dumb_put [NL] (dumb_put (replicate (nat (dw_maxcol w)) CHR ''-'') (dumb_put [NL] w)))"
| "dumb_writer_call (SendLiteralData data) w = dumb_send_literal data w"
| "dumb_writer_call (SendFlowingData data) w = dumb_send_flowing data w"
| "dumb_writer_call call w = w"

text \<open>The module's \<open>test\<close>: fill the paragraphs of a text, given as its lines.\<close>

definition formatter_test_line :: "formatter \<times> dumb_writer \<Rightarrow> string \<Rightarrow> formatter \<times> dumb_writer" where
  "formatter_test_line fw line =
     (if line = [NL] then end_paragraph dumb_writer_call 1 fw
      else add_flowing_data dumb_writer_call line fw)"

definition formatter_test :: "string list \<Rightarrow> string" where
  "formatter_test lines =
     dw_file (snd (end_paragraph dumb_writer_call 0
       (foldl formatter_test_line (formatter_init, dumb_init 72) lines)))"

subsection \<open>Counters\<close>

text \<open>Letters count like \<open>a\<close>, \<open>b\<close>, \dots, \<open>z\<close>, \<open>aa\<close>: a bijective numeral in base 26.\<close>

definition letter_value :: "char \<Rightarrow> string \<Rightarrow> int" where
  "letter_value lcase s = foldl (\<lambda>v c. v * 26 + (int (ord c) - int (ord lcase) + 1)) 0 s"

lemma positional: "q * b ^ Suc k + x * b ^ k = (q * b + x) * (b :: int) ^ k"
  by (simp add: algebra_simps)

lemma letter_foldl:
  "foldl (\<lambda>v c. v * 26 + (int (ord c) - int (ord lcase) + 1)) v s =
    v * 26 ^ length s + letter_value lcase s"
proof (induction s arbitrary: v)
  case Nil
  then show ?case by (simp add: letter_value_def)
next
  case (Cons c s)
  let ?d = "int (ord c) - int (ord lcase) + 1"
  have "letter_value lcase (c # s) = ?d * 26 ^ length s + letter_value lcase s"
    using Cons.IH [of ?d] by (simp add: letter_value_def)
  then show ?case
    using Cons.IH [of "v * 26 + ?d"] by (simp add: algebra_simps)
qed

lemma letter_value_Cons:
  "letter_value lcase (c # s) = (int (ord c) - int (ord lcase) + 1) * 26 ^ length s + letter_value lcase s"
  using letter_foldl [of lcase "int (ord c) - int (ord lcase) + 1" s] by (simp add: letter_value_def)

lemma format_letter_loop_value:
  "0 \<le> n \<Longrightarrow> ord lcase + 25 < 256 \<Longrightarrow>
    letter_value lcase (format_letter_loop lcase n label) = n * 26 ^ length label + letter_value lcase label"
proof (induction lcase n label rule: format_letter_loop.induct)
  case (1 lcase n label)
  show ?case
  proof (cases "n > 0")
    case True
    let ?x = "(n - 1) mod 26" and ?q = "(n - 1) div 26"
    have x: "0 \<le> ?x" "?x < 26" by simp_all
    have "ord lcase + nat ?x < 256" using x 1(3) by linarith
    then have c: "int (ord (chr (ord lcase + nat ?x) :: char)) = int (ord lcase) + ?x"
      using x by (simp only: ord_chr of_nat_add int_nat_eq if_True)
    have "letter_value lcase (format_letter_loop lcase n label) =
        ?q * 26 ^ length ([chr (ord lcase + nat ?x)] @ label) + letter_value lcase ([chr (ord lcase + nat ?x)] @ label)"
      using 1(1) [OF True refl refl refl _ 1(3)] True x
      by (subst format_letter_loop.simps) (simp add: Let_def pos_imp_zdiv_nonneg_iff)
    also have "letter_value lcase ([chr (ord lcase + nat ?x)] @ label) =
        (?x + 1) * 26 ^ length label + letter_value lcase label"
      by (simp only: append_Cons append_Nil letter_value_Cons c add_diff_cancel_left')
    also have "?q * 26 ^ length ([chr (ord lcase + nat ?x)] @ label) = ?q * 26 ^ Suc (length label)"
      by simp
    also have "?q * 26 ^ Suc (length label) + ((?x + 1) * 26 ^ length label + letter_value lcase label) =
        (?q * 26 + (?x + 1)) * 26 ^ length label + letter_value lcase label"
      using positional [of ?q 26 "length label" "?x + 1"] by linarith
    also have "?q * 26 + (?x + 1) = n" by simp
    finally show ?thesis .
  next
    case False
    with 1(2) have "n = 0" by simp
    then show ?thesis by (simp add: format_letter_loop.simps [of lcase 0 label])
  qed
qed

lemma format_letter_value:
  "0 \<le> n \<Longrightarrow> lcase \<in> {CHR ''a'', CHR ''A''} \<Longrightarrow> letter_value lcase (format_letter lcase n) = n"
  using format_letter_loop_value [of n lcase "[]"] by (auto simp: format_letter_def letter_value_def)

text \<open>
  Roman numerals, read the usual way: a letter before a greater one counts negatively.
\<close>

definition roman_letter :: "char \<Rightarrow> int" where
  "roman_letter c =
     (if c = CHR ''i'' then 1 else if c = CHR ''v'' then 5 else if c = CHR ''x'' then 10
      else if c = CHR ''l'' then 50 else if c = CHR ''c'' then 100 else if c = CHR ''d'' then 500
      else if c = CHR ''m'' then 1000 else 0)"

fun roman_value :: "string \<Rightarrow> int" where
  "roman_value [] = 0"
| "roman_value [c] = roman_letter c"
| "roman_value (c # d # s) =
     (if roman_letter c < roman_letter d then - roman_letter c else roman_letter c) + roman_value (d # s)"

lemma roman_value_append:
  "a \<noteq> [] \<Longrightarrow> b \<noteq> [] \<Longrightarrow> roman_letter (hd b) \<le> roman_letter (last a) \<Longrightarrow>
    roman_value (a @ b) = roman_value a + roman_value b"
proof (induction a rule: roman_value.induct)
  case (2 c)
  then show ?case by (cases b) auto
qed auto

definition roman_digit_ok :: "int \<Rightarrow> nat \<Rightarrow> bool" where
  "roman_digit_ok x k =
     (case roman_digit x (int k) of
        Inl _ \<Rightarrow> False
      | Inr s \<Rightarrow> roman_value s = x * 10 ^ k \<and>
          list_all (\<lambda>c. 10 ^ k \<le> roman_letter c) s \<and>
          (case s of [] \<Rightarrow> True | c # _ \<Rightarrow> roman_letter c \<le> 5 * 10 ^ k))"

lemma roman_digits_ok:
  assumes "0 \<le> x" "x \<le> 9" "k < 3 \<or> k = 3 \<and> x \<le> 3"
  shows "roman_digit_ok x k"
proof -
  have "list_all (\<lambda>x. list_all (roman_digit_ok x) [0, 1, 2]) [0, 1, 2, 3, 4, 5, 6, 7, 8, 9]"
    and "list_all (\<lambda>x. roman_digit_ok x 3) [0, 1, 2, 3]"
    by code_simp+
  moreover have "x \<in> {0, 1, 2, 3, 4, 5, 6, 7, 8, 9}" using assms(1,2) by simp presburger
  moreover have "k < 3 \<Longrightarrow> k \<in> {0, 1, 2}" by auto
  moreover have "x \<le> 3 \<Longrightarrow> x \<in> {0, 1, 2, 3}" using assms(1) by simp presburger
  ultimately show ?thesis using assms(3) by (auto simp: list_all_iff)
qed

lemma format_roman_loop_value:
  "0 \<le> n \<Longrightarrow> n * 10 ^ k < 4000 \<Longrightarrow> (label \<noteq> [] \<Longrightarrow> roman_letter (hd label) < 10 ^ k) \<Longrightarrow>
    \<exists>s. format_roman_loop n (int k) label = Inr s \<and> roman_value s = n * 10 ^ k + roman_value label"
proof (induction "nat n" arbitrary: n k label rule: less_induct)
  case less
  show ?case
  proof (cases "n > 0")
    case True
    let ?x = "n mod 10" and ?q = "n div 10"
    have x: "0 \<le> ?x" "?x \<le> 9" and q: "0 \<le> ?q" "nat ?q < nat n" and n: "n = ?q * 10 + ?x"
      using True by auto
    have k: "k < 3 \<or> k = 3 \<and> ?x \<le> 3"
    proof (rule ccontr)
      assume a: "\<not> ?thesis"
      have "1 * 10 ^ k \<le> n * 10 ^ k" using True by (intro mult_right_mono) auto
      then have "(10 :: int) ^ k \<le> n * 10 ^ k" by simp
      moreover have "n * 10 ^ k < 10 ^ 4" using less.prems(2) by simp
      ultimately have "(10 :: int) ^ k < 10 ^ 4" by (rule le_less_trans)
      then have "k < 4" by (rule power_less_imp_less_exp [rotated]) simp
      with a have "k = 3" "3 < ?x" by auto
      with less.prems(2) n q(1) show False by simp
    qed
    from roman_digits_ok [OF x k] obtain s where s: "roman_digit ?x (int k) = Inr s"
      "roman_value s = ?x * 10 ^ k" "list_all (\<lambda>c. 10 ^ k \<le> roman_letter c) s"
      "s \<noteq> [] \<Longrightarrow> roman_letter (hd s) \<le> 5 * 10 ^ k"
      by (auto simp: roman_digit_ok_def split: sum.splits list.splits)
    have app: "roman_value (s @ label) = roman_value s + roman_value label"
    proof (cases "s = [] \<or> label = []")
      case False
      then have "10 ^ k \<le> roman_letter (last s)" using s(3) by (simp add: list_all_iff)
      with less.prems(3) False show ?thesis by (intro roman_value_append) auto
    qed auto
    have "?q * 10 ^ Suc k \<le> n * 10 ^ k" using n x by (simp add: mult_right_mono flip: mult.assoc)
    then have b: "?q * 10 ^ Suc k < 4000" using less.prems(2) by linarith
    have h: "roman_letter (hd (s @ label)) < 10 ^ Suc k" if "s @ label \<noteq> []"
    proof (cases "s = []")
      case True
      with that less.prems(3) have "roman_letter (hd label) < 10 ^ k" by simp
      also have "\<dots> \<le> 10 ^ Suc k" by simp
      finally show ?thesis using True by simp
    next
      case False
      with s(4) have "roman_letter (hd s) \<le> 5 * 10 ^ k" by simp
      also have "\<dots> < 10 ^ Suc k" by simp
      finally show ?thesis using False by simp
    qed
    from less.hyps [OF q(2) q(1) b, of "s @ label"] h
    obtain r where r: "format_roman_loop ?q (int (Suc k)) (s @ label) = Inr r"
      "roman_value r = ?q * 10 ^ Suc k + roman_value (s @ label)" by blast
    have "format_roman_loop n (int k) label = Inr r"
      using True s(1) r(1) by (subst format_roman_loop.simps) (simp add: Let_def add.commute)
    moreover have "?q * 10 ^ Suc k + ?x * 10 ^ k = (?q * 10 + ?x) * 10 ^ k"
      by (rule positional)
    then have "?q * 10 ^ Suc k + ?x * 10 ^ k = n * 10 ^ k" by (simp only: n [symmetric])
    ultimately show ?thesis using r(2) app s(2) by auto
  next
    case False
    with less.prems(1) have "n = 0" by simp
    then show ?thesis by (simp add: format_roman_loop.simps [of 0])
  qed
qed

lemma format_roman_value:
  assumes "0 \<le> n" "n < 4000"
  shows "\<exists>s. format_roman CHR ''i'' n = Inr s \<and> roman_value s = n"
  using format_roman_loop_value [of n 0 "[]"] assms by (auto simp: format_roman_def)

text \<open>From 4000 on the tables are too short; \<open>format_counter\<close> then copies the letter.\<close>

lemma roman_digit_4: "x < 0 \<or> 0 \<le> x \<Longrightarrow> roman_digit x 4 = Inl IndexError"
  by (simp add: roman_digit_def roman_ones_def roman_fives_def pindex_def)

lemma roman_digit_3: "4 \<le> x \<Longrightarrow> roman_digit x 3 = Inl IndexError"
  by (simp add: roman_digit_def roman_ones_def roman_fives_def pindex_def)

subsection \<open>White space normalised\<close>

lemma words_Nil_iff: "words s = [] \<longleftrightarrow> list_all is_ws s"
proof -
  have "words s = [] \<longleftrightarrow> concat (words s) = []"
    using words_nonempty [of _ s] by (auto simp: concat_eq_Nil_conv)
  then show ?thesis by (simp add: concat_words filter_empty_conv list_all_iff)
qed

lemma words_snoc:
  "words (t @ [c]) =
    (if is_ws c then words t
     else if t = [] \<or> is_ws (last t) then words t @ [[c]]
     else butlast (words t) @ [last (words t) @ [c]])"
proof (induction t rule: words.induct)
  case (2 d s)
  let ?P = "\<lambda>d. \<not> is_ws d"
  show ?case
  proof (cases "is_ws d")
    case True
    with 2 show ?thesis by (cases s) auto
  next
    case False
    show ?thesis
    proof (cases "dropWhile ?P s = []")
      case True
      then have all: "\<forall>x \<in> set s. ?P x" by (simp add: dropWhile_eq_Nil_conv)
      then have "s \<noteq> [] \<Longrightarrow> ?P (last s)" by simp
      moreover have "takeWhile ?P (s @ [c]) = s @ takeWhile ?P [c]" "dropWhile ?P (s @ [c]) = dropWhile ?P [c]"
        "takeWhile ?P s = s"
        using all by (simp_all add: takeWhile_append2 dropWhile_append2 takeWhile_eq_all_conv)
      ultimately show ?thesis using False True by (cases s) auto
    next
      case rest: False
      then obtain x where "x \<in> set s" "is_ws x" by (auto simp: dropWhile_eq_Nil_conv)
      then have tw: "takeWhile ?P (s @ [c]) = takeWhile ?P s" "dropWhile ?P (s @ [c]) = dropWhile ?P s @ [c]"
        by (simp_all add: takeWhile_append1 dropWhile_append1)
      have l: "last (dropWhile ?P s) = last s" "s \<noteq> []"
        using rest takeWhile_dropWhile_id [of ?P s] by (metis last_appendR, auto)
      have w: "words (dropWhile ?P s) \<noteq> []" if "?P (last s)"
        using that rest l(1) last_in_set [OF rest] by (auto simp: words_Nil_iff list_all_iff)
      have "words ((d # s) @ [c]) = (d # takeWhile ?P s) # words (dropWhile ?P s @ [c])"
        "words (d # s) = (d # takeWhile ?P s) # words (dropWhile ?P s)"
        using False tw by simp_all
      moreover have "words (dropWhile ?P s @ [c]) =
          (if is_ws c then words (dropWhile ?P s)
           else if is_ws (last s) then words (dropWhile ?P s) @ [[c]]
           else butlast (words (dropWhile ?P s)) @ [last (words (dropWhile ?P s)) @ [c]])"
        unfolding "2.IH"(2) [OF False] l(1) using rest by (simp only: simp_thms)
      moreover have "last (d # s) = last s" "d # s \<noteq> []" using l(2) by simp_all
      ultimately show ?thesis
        using w by (cases "is_ws c"; cases "is_ws (last s)") (simp_all del: words.simps)
    qed
  qed
qed simp

definition norm :: "string \<Rightarrow> string" where
  \<comment> \<open>\<open>join(split(s))\<close>\<close>
  "norm s = joinfields (words s) '' ''"

definition starts_ws :: "string \<Rightarrow> bool" where
  "starts_ws s \<longleftrightarrow> s \<noteq> [] \<and> is_ws (hd s)"

definition ends_ws :: "string \<Rightarrow> bool" where
  "ends_ws s \<longleftrightarrow> s \<noteq> [] \<and> is_ws (last s)"

lemma join_split_norm: "join_s (split_s s None m) '' '' = norm s"
  by (simp add: norm_def join_s_def split_words)

lemma words_norm: "words (norm s) = words s"
  unfolding norm_def using words_nonempty by (intro words_join_words) blast

lemma norm_eq_words: "norm s = norm t \<longleftrightarrow> words s = words t"
  using words_norm by (metis norm_def)

lemma norm_Nil: "norm s = [] \<longleftrightarrow> words s = []"
proof (cases "words s")
  case (Cons w ws)
  with words_nonempty [of w s] show ?thesis by (simp add: norm_def)
qed (simp add: norm_def)

lemma norm_snoc:
  "norm (t @ [c]) =
    (if is_ws c then norm t else norm t @ (if words t \<noteq> [] \<and> ends_ws t then '' '' else []) @ [c])"
proof (cases "is_ws c")
  case True
  then show ?thesis by (simp add: norm_def words_snoc)
next
  case nws: False
  show ?thesis
  proof (cases "t = [] \<or> is_ws (last t)")
    case True
    with nws show ?thesis by (auto simp: norm_def words_snoc joinfields_snoc ends_ws_def)
  next
    case False
    then have "\<not> list_all is_ws t" using last_in_set [of t] by (auto simp: list_all_iff)
    then have "words t \<noteq> []" by (simp add: words_Nil_iff)
    then obtain ws w where w: "words t = ws @ [w]" by (metis rev_exhaust)
    have "joinfields (ws @ [w @ [c]]) '' '' = joinfields (ws @ [w]) '' '' @ [c]"
      by (simp add: joinfields_snoc)
    with nws False w show ?thesis by (simp add: norm_def words_snoc ends_ws_def)
  qed
qed

lemma norm_append:
  "norm (t @ d) =
    norm t @ (if words t \<noteq> [] \<and> words d \<noteq> [] \<and> (ends_ws t \<or> starts_ws d) then '' '' else []) @ norm d"
proof (induction d rule: rev_induct)
  case Nil
  then show ?case by (simp add: norm_def)
next
  case (snoc c d)
  have n: "words (t @ d) = [] \<longleftrightarrow> words t = [] \<and> words d = []"
    by (simp add: words_Nil_iff)
  have w: "words (d @ [c]) = [] \<longleftrightarrow> words d = [] \<and> is_ws c"
    by (simp add: words_Nil_iff)
  show ?case
  proof (cases "d = []")
    case True
    then show ?thesis
      using norm_snoc [of t c] norm_snoc [of "[]" c] by (auto simp: norm_def starts_ws_def)
  next
    case False
    then have e: "ends_ws (t @ d) = ends_ws d" "starts_ws (d @ [c]) = starts_ws d"
      by (simp_all add: ends_ws_def starts_ws_def)
    have blank: "words d = [] \<Longrightarrow> starts_ws d \<and> ends_ws d"
      using False by (auto simp: words_Nil_iff list_all_iff starts_ws_def ends_ws_def)
    have "norm (t @ d @ [c]) =
        (if is_ws c then norm (t @ d) else norm (t @ d) @ (if words (t @ d) \<noteq> [] \<and> ends_ws d then '' '' else []) @ [c])"
      using norm_snoc [of "t @ d" c] by (simp add: e)
    then show ?thesis
      unfolding snoc norm_snoc [of d c] n w e using blank norm_Nil [of d] by auto
  qed
qed

subsection \<open>Flowing data\<close>

text \<open>
  What the formatter remembers of the flowing text \<open>t\<close> it was given since the last break:
  whether it had a word, and whether it ended in white space.
\<close>

definition flow_state :: "string \<Rightarrow> formatter \<Rightarrow> bool" where
  "flow_state t f \<longleftrightarrow> nospace f = (words t = []) \<and> softspace f = (words t \<noteq> [] \<and> ends_ws t)"

lemma hd_ws: "d \<noteq> [] \<Longrightarrow> hd d \<in> set whitespace \<longleftrightarrow> starts_ws d"
  by (simp add: starts_ws_def)

lemma last_ws: "d \<noteq> [] \<Longrightarrow> last d \<in> set whitespace \<longleftrightarrow> ends_ws d"
  by (simp add: ends_ws_def)

lemma words_append_Nil: "words (t @ d) = [] \<longleftrightarrow> words t = [] \<and> words d = []"
  by (simp add: words_Nil_iff)

lemma blank_ends: "d \<noteq> [] \<Longrightarrow> words d = [] \<Longrightarrow> starts_ws d \<and> ends_ws d"
  by (auto simp: words_Nil_iff list_all_iff starts_ws_def ends_ws_def)

text \<open>
  One call, whatever the state: what is sent, if anything, is the normalised data after a space
  where one is due.
\<close>

lemma add_flowing_data_eq:
  assumes "d \<noteq> []"
  shows "add_flowing_data wr d (f, w) =
    (if words d = [] then ((if nospace f then f else f\<lparr>softspace := True, parskip := 0\<rparr>), w)
     else
       (f\<lparr>hard_break := False, nospace := False, para_end := False, parskip := 0, have_label := False,
          softspace := ends_ws d\<rparr>,
        wr (SendFlowingData ((if (starts_ws d \<or> softspace f) \<and> \<not> nospace f then '' '' else []) @ norm d)) w))"
  using assms blank_ends [OF assms] norm_Nil [of d]
  by (simp add: add_flowing_data_def join_split_norm hd_ws last_ws)

lemma flow_step:
  assumes "flow_state t f"
  shows "\<exists>f' s. add_flowing_data wr d (f, w) = (f', if s = [] then w else wr (SendFlowingData s) w) \<and>
    flow_state (t @ d) f' \<and> norm (t @ d) = norm t @ s"
proof (cases "d = []")
  case True
  with assms show ?thesis
    by (intro exI [of _ f] exI [of _ "[]"]) (simp add: add_flowing_data_def)
next
  case False
  show ?thesis
  proof (cases "words d = []")
    case True
    have "flow_state (t @ d) (if nospace f then f else f\<lparr>softspace := True, parskip := 0\<rparr>)"
      using assms True blank_ends [OF False True] False
      by (auto simp: flow_state_def words_append_Nil ends_ws_def)
    moreover have "norm (t @ d) = norm t" using True by (simp add: norm_append norm_Nil)
    ultimately show ?thesis
      using True by (intro exI [of _ "if nospace f then f else f\<lparr>softspace := True, parskip := 0\<rparr>"]
        exI [of _ "[]"]) (simp add: add_flowing_data_eq [OF False])
  next
    case words: False
    let ?s = "(if (starts_ws d \<or> softspace f) \<and> \<not> nospace f then '' '' else []) @ norm d"
    have "norm (t @ d) = norm t @ ?s" "?s \<noteq> []"
      using assms words norm_Nil [of d] by (auto simp: norm_append flow_state_def)
    then show ?thesis
      using assms words False
      by (intro exI [of _ "f\<lparr>hard_break := False, nospace := False, para_end := False, parskip := 0,
          have_label := False, softspace := ends_ws d\<rparr>"] exI [of _ ?s])
        (auto simp: add_flowing_data_eq [OF False] flow_state_def words_append_Nil ends_ws_def)
  qed
qed

definition trace_writer :: "writer_call list writer" where
  "trace_writer call calls = calls @ [call]"

definition flow_text :: "writer_call list \<Rightarrow> string" where
  "flow_text calls = concat (map (\<lambda>c. case c of SendFlowingData s \<Rightarrow> s | _ \<Rightarrow> []) calls)"

text \<open>However a text is cut into pieces, the data sent is the text with its white space normalised.\<close>

lemma flowing_chunks_from:
  "flow_state t f \<Longrightarrow>
    flow_text (snd (foldl (\<lambda>fw d. add_flowing_data trace_writer d fw) (f, calls) ds)) =
      flow_text calls @ drop (length (norm t)) (norm (t @ concat ds)) \<and>
    (\<exists>u. norm (t @ concat ds) = norm t @ u)"
proof (induction ds arbitrary: t f calls)
  case Nil
  then show ?case by simp
next
  case (Cons d ds)
  from flow_step [OF Cons.prems, of trace_writer d calls] obtain f' s where
    s: "add_flowing_data trace_writer d (f, calls) = (f', if s = [] then calls else trace_writer (SendFlowingData s) calls)"
      "flow_state (t @ d) f'" "norm (t @ d) = norm t @ s" by blast
  have "flow_text (if s = [] then calls else trace_writer (SendFlowingData s) calls) = flow_text calls @ s"
    by (simp add: flow_text_def trace_writer_def)
  with Cons.IH [OF s(2), of "if s = [] then calls else trace_writer (SendFlowingData s) calls"] s(1,3)
  show ?case by auto
qed

lemma flowing_chunks:
  "flow_text (snd (foldl (\<lambda>fw d. add_flowing_data trace_writer d fw) (formatter_init, []) ds)) =
    joinfields (words (concat ds)) '' ''"
proof -
  have "flow_state [] formatter_init" by (simp add: flow_state_def formatter_init_def)
  from flowing_chunks_from [OF this, of "[]" ds] show ?thesis
    by (simp add: norm_def flow_text_def)
qed

subsection \<open>Filling lines\<close>

definition blank :: "char \<Rightarrow> char" where
  "blank c = (if is_ws c then CHR '' '' else c)"

lemma space_ws: "is_ws CHR '' ''" "is_ws NL"
  by (simp_all add: whitespace_def)

lemma ws_blank: "is_ws (blank c) = is_ws c"
  using space_ws by (simp add: blank_def)

lemma map_blank_nws: "\<forall>c \<in> set s. \<not> is_ws c \<Longrightarrow> map blank s = s"
  by (simp add: map_idI blank_def)

lemma words_blank: "words (map blank s) = words s"
proof (induction s rule: words.induct)
  case (2 c s)
  let ?P = "\<lambda>d. \<not> is_ws d"
  have c: "?P \<circ> blank = ?P" by (simp add: fun_eq_iff ws_blank)
  have t: "map blank (takeWhile ?P s) = takeWhile ?P s"
    by (rule map_blank_nws) (metis set_takeWhileD)
  have "takeWhile ?P (map blank s) = takeWhile ?P s" "dropWhile ?P (map blank s) = map blank (dropWhile ?P s)"
    unfolding takeWhile_map dropWhile_map c by (simp_all only: t)
  then show ?case
    using 2 by (cases "is_ws c") (simp_all add: ws_blank, simp add: blank_def)
qed simp

text \<open>
  The loop writes the words with a space or a newline before each one where a break is due.
\<close>

lemma dumb_flow_out:
  "\<exists>x c. dumb_flow ws atbreak col maxcol out = (out @ x, c) \<and>
    ((\<forall>w \<in> set ws. w \<noteq> [] \<and> (\<forall>d \<in> set w. \<not> is_ws d)) \<longrightarrow>
      map blank x = (if ws = [] then [] else (if atbreak then '' '' else []) @ joinfields ws '' ''))"
proof (induction ws arbitrary: atbreak col out)
  case Nil
  then show ?case by simp
next
  case (Cons w ws)
  let ?br = "if atbreak then if col + int (length w) \<ge> maxcol then [NL] else '' '' else []"
  let ?col = "if atbreak then if col + int (length w) \<ge> maxcol then 0 else col + 1 else col"
  from Cons.IH [of True "?col + int (length w)" "out @ ?br @ w"] obtain x c where x:
    "dumb_flow ws True (?col + int (length w)) maxcol (out @ ?br @ w) = ((out @ ?br @ w) @ x, c)"
    "(\<forall>w \<in> set ws. w \<noteq> [] \<and> (\<forall>d \<in> set w. \<not> is_ws d)) \<longrightarrow>
      map blank x = (if ws = [] then [] else '' '' @ joinfields ws '' '')" by auto
  have "dumb_flow (w # ws) atbreak col maxcol out =
      dumb_flow ws True (?col + int (length w)) maxcol (out @ ?br @ w)"
    by simp
  also note x(1)
  also have "(out @ ?br @ w) @ x = out @ (?br @ w @ x)" by (simp only: append.assoc)
  finally have "dumb_flow (w # ws) atbreak col maxcol out = (out @ (?br @ w @ x), c)" .
  moreover have "map blank ?br = (if atbreak then '' '' else [])"
    using space_ws by (simp add: blank_def)
  ultimately show ?case
    using x(2) map_blank_nws [of w]
    by (intro exI [of _ "?br @ w @ x"] exI [of _ c]) (cases ws; simp)
qed

text \<open>The column is that of the last line, and lines stay within the width.\<close>

definition col_of :: "string \<Rightarrow> nat" where
  "col_of s = length (takeWhile (\<lambda>c. c \<noteq> NL) (rev s))"

definition fits :: "nat \<Rightarrow> string \<Rightarrow> bool" where
  "fits m s \<longleftrightarrow> (\<forall>u v w. s = u @ v @ w \<longrightarrow> NL \<notin> set v \<longrightarrow> length v \<le> m)"

lemma col_of_NL: "col_of (s @ [NL]) = 0"
  by (simp add: col_of_def)

lemma col_of_append: "NL \<notin> set x \<Longrightarrow> col_of (s @ x) = col_of s + length x"
  unfolding col_of_def rev_append by (subst takeWhile_append2) auto

lemma fits_prefix: "fits m (s @ t) \<Longrightarrow> fits m s"
  unfolding fits_def by (metis append.assoc)

lemma fits_snoc:
  "fits m (s @ [c]) \<longleftrightarrow> fits m s \<and> (c = NL \<or> col_of s < m)"
proof
  assume f: "fits m (s @ [c])"
  show "fits m s \<and> (c = NL \<or> col_of s < m)"
  proof (rule conjI)
    show "fits m s" using f by (rule fits_prefix)
    show "c = NL \<or> col_of s < m"
    proof (rule disjCI)
      assume n: "\<not> col_of s < m"
      let ?v = "rev (takeWhile (\<lambda>c. c \<noteq> NL) (rev s))"
      have "s = rev (dropWhile (\<lambda>c. c \<noteq> NL) (rev s)) @ ?v"
        by (metis rev_append rev_rev_ident takeWhile_dropWhile_id)
      then have "s @ [c] = rev (dropWhile (\<lambda>c. c \<noteq> NL) (rev s)) @ (?v @ [c]) @ []" by simp
      moreover have "length (?v @ [c]) > m" using n by (simp add: col_of_def)
      ultimately have "NL \<in> set (?v @ [c])" using f unfolding fits_def by (meson linorder_not_less)
      then show "c = NL" by (auto dest: set_takeWhileD)
    qed
  qed
next
  assume a: "fits m s \<and> (c = NL \<or> col_of s < m)"
  show "fits m (s @ [c])"
    unfolding fits_def
  proof (intro allI impI)
    fix u v w assume e: "s @ [c] = u @ v @ w" and v: "NL \<notin> set v"
    show "length v \<le> m"
    proof (cases w rule: rev_cases)
      case (snoc w' d)
      with e have "s @ [c] = (u @ v @ w') @ [d]" by simp
      then have "s = u @ v @ w'" by (simp only: append1_eq_conv)
      with a v show ?thesis unfolding fits_def by blast
    next
      case Nil
      show ?thesis
      proof (cases v rule: rev_cases)
        case (snoc v' d)
        with e Nil have "s @ [c] = (u @ v') @ [d]" by simp
        then have s: "s = u @ v'" "d = c" by (simp_all only: append1_eq_conv)
        with v snoc have "c \<noteq> NL" "NL \<notin> set v'" by auto
        with s(1) have "length v' \<le> col_of s" by (simp add: col_of_append)
        with a \<open>c \<noteq> NL\<close> snoc show ?thesis by simp
      qed simp
    qed
  qed
qed

lemma fits_append: "NL \<notin> set x \<Longrightarrow> fits m (s @ x) \<longleftrightarrow> fits m s \<and> (x = [] \<or> col_of s + length x \<le> m)"
proof (induction x rule: rev_induct)
  case (snoc c x)
  then have "c \<noteq> NL" "NL \<notin> set x" by auto
  with snoc.IH fits_snoc [of m "s @ x" c] show ?case
    by (auto simp: col_of_append)
qed simp

lemma dumb_flow_width:
  "list_all (\<lambda>w. NL \<notin> set w \<and> length w \<le> m) ws \<Longrightarrow> fits m (F @ out) \<Longrightarrow> col = int (col_of (F @ out)) \<Longrightarrow>
    atbreak \<or> col = 0 \<Longrightarrow> dumb_flow ws atbreak col (int m) out = (out', col') \<Longrightarrow>
    fits m (F @ out') \<and> col' = int (col_of (F @ out'))"
proof (induction ws arbitrary: atbreak col out)
  case Nil
  then show ?case by auto
next
  case (Cons w ws)
  let ?br = "if atbreak then if col + int (length w) \<ge> int m then [NL] else '' '' else []"
  let ?col = "if atbreak then if col + int (length w) \<ge> int m then 0 else col + 1 else col"
  have w: "NL \<notin> set w" "length w \<le> m" using Cons.prems(1) by auto
  have br: "fits m (F @ out @ ?br) \<and> ?col = int (col_of (F @ out @ ?br)) \<and> col_of (F @ out @ ?br) + length w \<le> m"
  proof (cases "atbreak \<and> \<not> col + int (length w) \<ge> int m")
    case True
    then have "?br = '' ''" by simp
    moreover have "col_of ((F @ out) @ '' '') = col_of (F @ out) + 1" by (subst col_of_append) simp_all
    moreover have "fits m ((F @ out) @ '' '')"
      using True Cons.prems(2,3) by (subst fits_append) auto
    ultimately show ?thesis using True Cons.prems(3) by auto
  next
    case False
    then show ?thesis
      using Cons.prems(2-4) w fits_snoc [of m "F @ out" NL] col_of_NL [of "F @ out"] by auto
  qed
  have step: "dumb_flow (w # ws) atbreak col (int m) out =
      dumb_flow ws True (?col + int (length w)) (int m) (out @ ?br @ w)"
    by simp
  have "fits m (F @ (out @ ?br @ w))" "?col + int (length w) = int (col_of (F @ (out @ ?br @ w)))"
    using br w fits_append [of w m "F @ out @ ?br"] col_of_append [of w "F @ out @ ?br"] by auto
  with Cons.IH [of "out @ ?br @ w" "?col + int (length w)" True] Cons.prems(1,5) step show ?case
    by auto
qed

lemma norm_ends:
  assumes "words d \<noteq> []"
  shows "norm d \<noteq> []" "\<not> starts_ws (norm d)" "\<not> ends_ws (norm d)"
proof -
  show n: "norm d \<noteq> []" using assms by (simp add: norm_Nil)
  obtain w ws where w: "words d = w # ws" using assms by (cases "words d") auto
  with words_nonempty [of w d] have "w \<noteq> []" "\<not> is_ws (hd w)" by auto
  then show "\<not> starts_ws (norm d)" using w by (auto simp: norm_def starts_ws_def)
  obtain us u where u: "words d = us @ [u]" using assms by (metis rev_exhaust)
  with words_nonempty [of u d] have "u \<noteq> []" "\<not> is_ws (last u)" by auto
  then show "\<not> ends_ws (norm d)" using u by (auto simp: norm_def ends_ws_def joinfields_snoc)
qed

lemma map_blank_norm: "map blank (norm d) = norm d"
proof -
  have "blank c = c" if "c \<in> set (norm d)" for c
  proof -
    from that have "(\<exists>w \<in> set (words d). c \<in> set w) \<or> c = CHR '' ''"
      unfolding norm_def by (cases "words d") (auto split: if_splits)
    then show ?thesis using words_nonempty by (auto simp: blank_def)
  qed
  then show ?thesis by (simp add: map_idI)
qed

lemma words_no_NL: "w \<in> set (words d) \<Longrightarrow> NL \<notin> set w"
  using words_nonempty [of w d] space_ws(2) by blast

text \<open>The writer given one piece of normalised data.\<close>

lemma dumb_send_norm:
  assumes words: "words d \<noteq> []" and s: "s = (if gap then '' '' else []) @ norm d"
    and at: "\<not> dw_atbreak w"
  obtains x w' where "dumb_send_flowing s w = w'" "dw_file w' = dw_file w @ x" "words (dw_file w @ x) = words (dw_file w @ s)"
    "\<not> ends_ws (dw_file w @ x)" "x \<noteq> []" "\<not> dw_atbreak w'" "dw_maxcol w' = dw_maxcol w"
    "dw_maxcol w = int m \<Longrightarrow> list_all (\<lambda>v. length v \<le> m) (words d) \<Longrightarrow> fits m (dw_file w) \<Longrightarrow>
      dw_col w = int (col_of (dw_file w)) \<Longrightarrow> gap \<or> dw_col w = 0 \<Longrightarrow>
      fits m (dw_file w @ x) \<and> dw_col w' = int (col_of (dw_file w @ x))"
proof -
  note ends = norm_ends [OF words]
  have ne: "s \<noteq> []" and last: "last s = last (norm d)" and first: "is_ws (hd s) = gap"
    using ends space_ws s by (auto simp: starts_ws_def)
  have ws: "words s = words d"
    using s space_ws words_norm [of d] by (cases gap) auto
  from dumb_flow_out [of "words d" gap "dw_col w" "dw_maxcol w" "[]"] obtain x c where
    x: "dumb_flow (words d) gap (dw_col w) (dw_maxcol w) [] = (x, c)"
      "map blank x = (if gap then '' '' else []) @ norm d"
    using words words_nonempty [of _ d] by (auto simp: norm_def)
  let ?w = "(dumb_put x w)\<lparr>dw_col := c, dw_atbreak := False\<rparr>"
  have send: "dumb_send_flowing s w = ?w"
    using ne at first last ends x(1)
    by (simp add: dumb_send_flowing_def split_words ws ends_ws_def)
  have "map blank s = s" using s map_blank_norm space_ws by (simp add: blank_def)
  with x(2) s have b: "map blank x = map blank s" by simp
  then have eq: "words (dw_file w @ x) = words (dw_file w @ s)"
    using words_blank [of "dw_file w @ x"] words_blank [of "dw_file w @ s"] by simp
  from b ne have xne: "x \<noteq> []" by auto
  have "is_ws (last x) = is_ws (last s)"
    using b xne ne ws_blank by (metis last_map)
  then have "\<not> ends_ws (dw_file w @ x)"
    using xne last ends by (simp add: ends_ws_def)
  moreover have "fits m (dw_file w @ x) \<and> c = int (col_of (dw_file w @ x))"
    if "dw_maxcol w = int m" "list_all (\<lambda>v. length v \<le> m) (words d)" "fits m (dw_file w)"
      "dw_col w = int (col_of (dw_file w))" "gap \<or> dw_col w = 0"
    using that x(1) words_no_NL [of _ d]
    by (intro dumb_flow_width [of m "words d" "dw_file w" "[]" "dw_col w" gap x c]) (auto simp: list_all_iff)
  ultimately show ?thesis
    using eq xne by (intro that [of ?w x]) (auto simp: send dumb_put_def)
qed

definition fill_state :: "string \<Rightarrow> formatter \<Rightarrow> dumb_writer \<Rightarrow> bool" where
  "fill_state t f w \<longleftrightarrow>
     words (dw_file w) = words t \<and> \<not> dw_atbreak w \<and>
     (if nospace f
      then \<not> softspace f \<and> (dw_file w = [] \<or> last (dw_file w) = NL) \<and> (words t = [] \<or> ends_ws t)
      else dw_file w \<noteq> [] \<and> \<not> ends_ws (dw_file w) \<and> softspace f = ends_ws t)"

definition width_state :: "nat \<Rightarrow> dumb_writer \<Rightarrow> bool" where
  "width_state m w \<longleftrightarrow>
     dw_maxcol w = int m \<and> fits m (dw_file w) \<and> dw_col w = int (col_of (dw_file w))"

lemma col_of_line_start: "s = [] \<or> last s = NL \<Longrightarrow> col_of s = 0"
  by (cases s rule: rev_cases) (auto simp: col_of_def)

lemma words_join_gap:
  assumes "words F = words t" "words d \<noteq> []"
    and "words t \<noteq> [] \<Longrightarrow> (ends_ws F \<or> g) \<longleftrightarrow> (ends_ws t \<or> starts_ws d)"
  shows "words (F @ (if g then '' '' else []) @ norm d) = words (t @ d)"
proof -
  let ?s = "(if g then '' '' else []) @ norm d"
  have w: "words ?s = words d" using words_norm [of d] space_ws by (cases g) auto
  have s: "starts_ws ?s = g" using norm_ends [OF assms(2)] space_ws by (auto simp: starts_ws_def)
  have "norm (F @ ?s) = norm (t @ d)"
    unfolding norm_append [of F] norm_append [of t] w s using assms w norm_eq_words [of ?s d]
    norm_eq_words [of F t] by auto
  then show ?thesis by (simp add: norm_eq_words)
qed

lemma fill_flow:
  assumes st: "fill_state t f w" and d: "d \<noteq> []"
  obtains f' w' where "add_flowing_data dumb_writer_call d (f, w) = (f', w')" "fill_state (t @ d) f' w'"
    "width_state m w \<Longrightarrow> list_all (\<lambda>v. length v \<le> m) (words d) \<Longrightarrow> nospace f \<or> ends_ws t \<Longrightarrow> width_state m w'"
proof (cases "words d = []")
  case True
  have "norm (t @ d) = norm t" using True norm_Nil [of d] by (simp add: norm_append)
  then have "words (t @ d) = words t" by (simp only: norm_eq_words)
  then have "fill_state (t @ d) (if nospace f then f else f\<lparr>softspace := True, parskip := 0\<rparr>) w"
    using st blank_ends [OF d True] d by (auto simp: fill_state_def ends_ws_def)
  with that True show ?thesis by (simp add: add_flowing_data_eq [OF d])
next
  case False
  let ?g = "(starts_ws d \<or> softspace f) \<and> \<not> nospace f"
  let ?s = "(if ?g then '' '' else []) @ norm d"
  let ?f = "f\<lparr>hard_break := False, nospace := False, para_end := False, parskip := 0,
    have_label := False, softspace := ends_ws d\<rparr>"
  have at: "\<not> dw_atbreak w" using st by (simp add: fill_state_def)
  from dumb_send_norm [OF False refl at, of ?g m] obtain x w' where w':
    "dumb_send_flowing ?s w = w'" "dw_file w' = dw_file w @ x" "words (dw_file w @ x) = words (dw_file w @ ?s)"
    "\<not> ends_ws (dw_file w @ x)" "x \<noteq> []" "\<not> dw_atbreak w'" "dw_maxcol w' = dw_maxcol w"
    "dw_maxcol w = int m \<Longrightarrow> list_all (\<lambda>v. length v \<le> m) (words d) \<Longrightarrow> fits m (dw_file w) \<Longrightarrow>
      dw_col w = int (col_of (dw_file w)) \<Longrightarrow> ?g \<or> dw_col w = 0 \<Longrightarrow>
      fits m (dw_file w @ x) \<and> dw_col w' = int (col_of (dw_file w @ x))"
    by metis
  have e: "ends_ws (t @ d) = ends_ws d" using d by (simp add: ends_ws_def)
  have "words (dw_file w @ ?s) = words (t @ d)"
  proof (rule words_join_gap [OF _ False])
    show "words (dw_file w) = words t" using st by (simp add: fill_state_def)
    show "(ends_ws (dw_file w) \<or> ?g) \<longleftrightarrow> (ends_ws t \<or> starts_ws d)" if "words t \<noteq> []"
    proof -
      have "dw_file w \<noteq> []" using st that by (auto simp: fill_state_def)
      with st that space_ws(2) show ?thesis
        by (auto simp: fill_state_def ends_ws_def split: if_splits)
    qed
  qed
  with w' e have "fill_state (t @ d) ?f w'"
    by (simp add: fill_state_def)
  moreover have "add_flowing_data dumb_writer_call d (f, w) = (?f, w')"
    using w'(1) False by (simp add: add_flowing_data_eq [OF d])
  moreover have "width_state m w'"
    if "width_state m w" "list_all (\<lambda>v. length v \<le> m) (words d)" "nospace f \<or> ends_ws t"
  proof -
    have "?g \<or> dw_col w = 0"
      using st that(1,3) col_of_line_start [of "dw_file w"]
      by (auto simp: fill_state_def width_state_def split: if_splits)
    with that w'(2,7,8) show ?thesis by (simp add: width_state_def)
  qed
  ultimately show ?thesis using that by blast
qed

lemma fill_paragraph:
  assumes st: "fill_state t f w"
  obtains f' w' where "end_paragraph dumb_writer_call b (f, w) = (f', w')"
    "0 \<le> b \<Longrightarrow> \<not> nospace f \<longrightarrow> \<not> hard_break f \<Longrightarrow> fill_state (t @ [NL]) f' w'" "nospace f'" "hard_break f'"
    "width_state m w \<Longrightarrow> width_state m w'"
    "words (dw_file w') = words (dw_file w)"
proof -
  let ?w1 = "if \<not> hard_break f then dumb_writer_call SendLineBreak w else w"
  let ?f1 = "if \<not> hard_break f then f\<lparr>have_label := False\<rparr> else f"
  let ?p = "parskip ?f1 < b \<and> \<not> have_label ?f1"
  let ?w2 = "if ?p then dumb_writer_call (SendParagraph (b - parskip ?f1)) ?w1 else ?w1"
  let ?f2 = "if ?p then ?f1\<lparr>parskip := b, have_label := False\<rparr> else ?f1"
  let ?f3 = "?f2\<lparr>hard_break := True, nospace := True, para_end := True, softspace := False\<rparr>"
  have e: "end_paragraph dumb_writer_call b (f, w) = (?f3, ?w2)"
    by (simp add: end_paragraph_def Let_def)
  have words_NL: "words (s @ NL # replicate n NL) = words s" for s n
  proof -
    have "words (s @ replicate k NL) = words s" for k
    proof (induction k)
      case (Suc k)
      have "s @ replicate (Suc k) NL = (s @ replicate k NL) @ [NL]"
        by (simp add: replicate_append_same)
      with Suc space_ws(2) show ?case by (simp only: words_snoc if_True)
    qed simp
    from this [of "Suc n"] show ?thesis by simp
  qed
  note words_NL1 = words_NL [where n = 0, simplified]
  have words: "words (dw_file ?w2) = words (dw_file w)"
    by (simp add: dumb_put_def dumb_reset_def words_NL words_NL1 flip: append.assoc)
  have wid: "width_state m (dumb_reset (dumb_put (NL # replicate n NL) v))" if "width_state m v" for v n
  proof -
    have "fits m (s @ replicate k NL)" if "fits m s" for s k
    proof (induction k)
      case (Suc k)
      have "s @ replicate (Suc k) NL = (s @ replicate k NL) @ [NL]"
        by (simp add: replicate_append_same)
      with Suc show ?case by (simp only: fits_snoc) simp
    qed (simp add: that)
    from this [of "dw_file v" "Suc n"] that have "fits m (dw_file v @ NL # replicate n NL)"
      by (simp add: width_state_def)
    moreover have "col_of (dw_file v @ NL # replicate n NL) = 0"
      by (rule col_of_line_start) simp
    ultimately show ?thesis
      using that by (simp add: width_state_def dumb_reset_def dumb_put_def)
  qed
  have width: "width_state m w \<Longrightarrow> width_state m ?w2"
    using wid [of w 0] wid [of w] wid [OF wid [of w 0]] by auto
  have "fill_state (t @ [NL]) ?f3 ?w2" if "\<not> nospace f \<longrightarrow> \<not> hard_break f"
  proof -
    have "words (t @ [NL]) = words t" "ends_ws (t @ [NL])"
      using space_ws(2) by (simp_all add: words_snoc ends_ws_def)
    moreover have "dw_file ?w2 = [] \<or> last (dw_file ?w2) = NL"
      using st that by (auto simp: fill_state_def dumb_put_def dumb_reset_def)
    moreover have "\<not> dw_atbreak ?w2" using st by (auto simp: fill_state_def dumb_put_def dumb_reset_def)
    ultimately show ?thesis using st words by (simp add: fill_state_def)
  qed
  with words width show ?thesis by (intro that [OF e]) auto
qed

lemma formatter_test_loop:
  assumes "fill_state t f w" "\<not> nospace f \<longrightarrow> \<not> hard_break f" "[] \<notin> set lines"
  shows "\<exists>f' w'. foldl formatter_test_line (f, w) lines = (f', w') \<and>
    fill_state (t @ concat lines) f' w' \<and> (\<not> nospace f' \<longrightarrow> \<not> hard_break f') \<and>
    (width_state m w \<longrightarrow> nospace f \<or> ends_ws t \<longrightarrow> list_all (\<lambda>l. last l = NL) lines \<longrightarrow>
      list_all (\<lambda>l. list_all (\<lambda>v. length v \<le> m) (words l)) lines \<longrightarrow> width_state m w')"
  using assms
proof (induction lines arbitrary: t f w)
  case Nil
  then show ?case by simp
next
  case (Cons l ls)
  have l: "l \<noteq> []" using Cons.prems(3) by auto
  show ?case
  proof (cases "l = [NL]")
    case True
    from fill_paragraph [OF Cons.prems(1), of 1 m] Cons.prems(2) obtain f' w' where s:
      "end_paragraph dumb_writer_call 1 (f, w) = (f', w')" "fill_state (t @ [NL]) f' w'" "nospace f'"
      "width_state m w \<Longrightarrow> width_state m w'" by (metis zero_le_one)
    with Cons.IH [OF s(2)] Cons.prems(3) True show ?thesis
      by (auto simp: formatter_test_line_def)
  next
    case False
    from fill_flow [OF Cons.prems(1) l, of m] obtain f' w' where s:
      "add_flowing_data dumb_writer_call l (f, w) = (f', w')" "fill_state (t @ l) f' w'"
      "width_state m w \<Longrightarrow> list_all (\<lambda>v. length v \<le> m) (words l) \<Longrightarrow> nospace f \<or> ends_ws t \<Longrightarrow> width_state m w'"
      by metis
    have "\<not> nospace f' \<longrightarrow> \<not> hard_break f'"
      using s(1) Cons.prems(2) by (auto simp: add_flowing_data_eq [OF l] split: if_splits)
    moreover have "ends_ws (t @ l) \<or> last l \<noteq> NL"
      using l space_ws(2) by (auto simp: ends_ws_def)
    ultimately show ?thesis
      using Cons.IH [OF s(2)] Cons.prems(3) False s(1,3) by (auto simp: formatter_test_line_def)
  qed
qed

text \<open>
  Filling a text keeps its words and, when every line of it is terminated and no word is wider than
  the page, breaks it into lines no wider than the page.
\<close>

lemma fill_init: "fill_state [] formatter_init (dumb_init n)" "width_state m (dumb_init (int m))"
  by (simp_all add: fill_state_def formatter_init_def dumb_init_def width_state_def fits_def col_of_def)

lemma formatter_test_words:
  assumes "[] \<notin> set lines"
  shows "words (formatter_test lines) = words (concat lines)"
proof -
  from formatter_test_loop [OF fill_init(1) _ assms, of 72 72] obtain f' w' where r:
    "foldl formatter_test_line (formatter_init, dumb_init 72) lines = (f', w')"
    "fill_state (concat lines) f' w'"
    by (auto simp: formatter_init_def)
  with fill_paragraph [OF r(2), of 0] show ?thesis
    by (metis (no_types, lifting) fill_state_def formatter_test_def snd_conv)
qed

lemma text_lines_fits: "fits m s \<Longrightarrow> list_all (\<lambda>l. length l \<le> m + 1) (text_lines s)"
proof (induction s rule: text_lines.induct)
  case (1 s)
  show ?case
  proof (cases "s = []")
    case False
    let ?l = "first_line s"
    have "fits m (drop (length ?l) s)"
      using 1(2) first_line_drop [of s] unfolding fits_def by (metis append.assoc)
    moreover have "length ?l \<le> m + 1"
    proof (cases "NL \<in> set s")
      case True
      then have l: "?l = takeWhile (\<lambda>c. c \<noteq> NL) s @ [NL]" by (simp add: first_line_takeWhile)
      then have "s = [] @ takeWhile (\<lambda>c. c \<noteq> NL) s @ ([NL] @ drop (length ?l) s)"
        using first_line_drop [of s] by simp
      moreover have "NL \<notin> set (takeWhile (\<lambda>c. c \<noteq> NL) s)" by (auto dest: set_takeWhileD)
      ultimately have "length (takeWhile (\<lambda>c. c \<noteq> NL) s) \<le> m"
        using 1(2) unfolding fits_def by blast
      then show ?thesis using l by simp
    next
      case nl: False
      then have "length s \<le> m"
        using 1(2) unfolding fits_def by (metis append.left_neutral append.right_neutral)
      with nl show ?thesis by (simp add: first_line_takeWhile)
    qed
    ultimately show ?thesis
      using 1(1) False by (subst text_lines.simps) simp
  qed simp
qed

lemma formatter_test_width:
  assumes "list_all (\<lambda>l. l \<noteq> [] \<and> last l = NL \<and> list_all (\<lambda>v. length v \<le> 72) (words l)) lines"
  shows "list_all (\<lambda>l. length l \<le> 73) (text_lines (formatter_test lines))"
proof -
  have "[] \<notin> set lines" using assms by (auto simp: list_all_iff)
  from formatter_test_loop [OF fill_init(1) _ this, of 72 72] assms fill_init(2) [of 72] obtain f' w' where r:
    "foldl formatter_test_line (formatter_init, dumb_init 72) lines = (f', w')"
    "fill_state (concat lines) f' w'" "width_state 72 w'"
    by (auto simp: formatter_init_def list_all_iff)
  from fill_paragraph [OF r(2), of 0 72] r(3) obtain f2 w2 where
    "end_paragraph dumb_writer_call 0 (f', w') = (f2, w2)" "width_state 72 w2" by metis
  with r(1) have "fits 72 (formatter_test lines)"
    by (simp add: formatter_test_def width_state_def)
  from text_lines_fits [OF this] show ?thesis by simp
qed

end
