(* ===== verification/Getopt.thy ===== *)
theory Getopt
  imports Str "HOL-Library.List_Lexorder" "HOL-Library.Multiset"
begin

section \<open>\<open>Lib/getopt.py\<close>: command line options\<close>

text \<open>
  The four functions of the module.  \<open>list\<close> is the accumulated list of options (here
  \<open>acc\<close>), an option is a pair of strings; every \<open>raise error\<close> is a value of the
  result type.  The sort of the long options is the interpreter's order on strings, which is the
  lexicographic order of the library.
\<close>

subsection \<open>Definitions\<close>

type_synonym opt_list = "(string \<times> string) list"

definition getopt_error :: "string \<Rightarrow> pyexc" where
  "getopt_error msg = ModError ''getopt.error'' msg"

fun short_has_arg :: "char \<Rightarrow> string \<Rightarrow> bool res" where
  "short_has_arg opt [] = Inl (getopt_error (''option -'' @ [opt] @ '' not recognized''))"
| "short_has_arg opt (c # shortopts) =
     (if opt = c \<and> c \<noteq> CHR '':'' then Inr (take 1 shortopts = '':'') else short_has_arg opt shortopts)"

fun do_shorts :: "opt_list \<Rightarrow> string \<Rightarrow> string \<Rightarrow> string list \<Rightarrow> (opt_list \<times> string list) res" where
  "do_shorts acc [] shortopts args = Inr (acc, args)"
| "do_shorts acc (opt # optstring) shortopts args =
     bindR (short_has_arg opt shortopts) (\<lambda>has_arg.
       if has_arg then
         if optstring = [] then
           (case args of
              [] \<Rightarrow> Inl (getopt_error (''option -'' @ [opt] @ '' requires argument''))
            | optarg # args \<Rightarrow> Inr (acc @ [(''-'' @ [opt], optarg)], args))
         else Inr (acc @ [(''-'' @ [opt], optstring)], args)
       else do_shorts (acc @ [(''-'' @ [opt], [])]) optstring shortopts args)"

fun long_has_args :: "string \<Rightarrow> string list \<Rightarrow> (bool \<times> string) res" where
  "long_has_args opt [] = Inl (getopt_error (''option --'' @ opt @ '' not recognized''))"
| "long_has_args opt (lo # longopts) =
     (let optlen = length opt; x = take optlen lo; y = drop optlen lo
      in if opt \<noteq> x then long_has_args opt longopts
         else if y \<noteq> [] \<and> y \<noteq> ''='' \<and> longopts \<noteq> [] \<and> opt = take optlen (hd longopts)
         then Inl (getopt_error (''option --'' @ opt @ '' not a unique prefix''))
         else if pfrom (- 1) lo = ''='' then Inr (True, butlast lo)
         else Inr (False, lo))"

definition do_longs ::
  "opt_list \<Rightarrow> string \<Rightarrow> string list \<Rightarrow> string list \<Rightarrow> (opt_list \<times> string list) res" where
  "do_longs acc opt longopts args =
     (let i = find_s opt ''='' 0;
          (opt, optarg) = (if i \<ge> 0 then (pupto i opt, Some (pfrom (i + 1) opt)) else (opt, None))
      in bindR (long_has_args opt longopts) (\<lambda>(has_arg, opt).
           if has_arg then
             (case optarg of
                Some a \<Rightarrow> Inr (acc @ [(''--'' @ opt, a)], args)
              | None \<Rightarrow>
                  (case args of
                     [] \<Rightarrow> Inl (getopt_error (''option --'' @ opt @ '' requires argument''))
                   | a # args \<Rightarrow> Inr (acc @ [(''--'' @ opt, a)], args)))
           else
             (case optarg of
                Some (c # cs) \<Rightarrow>
                  Inl (getopt_error (''option --'' @ opt @ '' must not have an argument''))
              | _ \<Rightarrow> Inr (acc @ [(''--'' @ opt, [])], args))))"

lemma do_shorts_shrinks:
  "do_shorts acc optstring shortopts args = Inr (acc', args') \<Longrightarrow> length args' \<le> length args"
  by (induction acc optstring shortopts args rule: do_shorts.induct)
    (auto simp: bindR_Inr_iff split: if_splits list.splits)

lemma do_longs_shrinks:
  "do_longs acc opt longopts args = Inr (acc', args') \<Longrightarrow> length args' \<le> length args"
  by (auto simp: do_longs_def bindR_Inr_iff Let_def split: if_splits list.splits option.splits)

function getopt_loop ::
  "opt_list \<Rightarrow> string list \<Rightarrow> string \<Rightarrow> string list \<Rightarrow> (opt_list \<times> string list) res" where
  "getopt_loop acc args shortopts longopts =
     (case args of
        [] \<Rightarrow> Inr (acc, args)
      | a # rest \<Rightarrow>
          if take 1 a = ''-'' \<and> a \<noteq> ''-'' then
            if a = ''--'' then Inr (acc, rest)
            else
              bindR (if take 2 a = ''--'' then do_longs acc (drop 2 a) longopts rest
                     else do_shorts acc (drop 1 a) shortopts rest)
                (\<lambda>(acc, args). getopt_loop acc args shortopts longopts)
          else Inr (acc, args))"
  by pat_completeness auto
termination
  by (relation "measure (\<lambda>(acc, args, so, lo). length args)")
    (auto split: if_splits dest: do_shorts_shrinks do_longs_shrinks)

declare getopt_loop.simps [simp del]

definition getopt :: "string list \<Rightarrow> string \<Rightarrow> string list \<Rightarrow> (opt_list \<times> string list) res" where
  "getopt args shortopts longopts = getopt_loop [] args shortopts (sort longopts)"

subsection \<open>Options written out and parsed\<close>

text \<open>
  An abstract command line: a short option, a short option with its argument attached to it or as
  the next word, a long option, a long option with its argument after \<open>=\<close> or as the next
  word.
\<close>

datatype opt_use =
    Short char
  | ShortJoined char string
  | ShortSep char string
  | Long string
  | LongJoined string string
  | LongSep string string

fun render_opt :: "opt_use \<Rightarrow> string list" where
  "render_opt (Short c) = [[CHR ''-'', c]]"
| "render_opt (ShortJoined c a) = [CHR ''-'' # c # a]"
| "render_opt (ShortSep c a) = [[CHR ''-'', c], a]"
| "render_opt (Long n) = [''--'' @ n]"
| "render_opt (LongJoined n a) = [''--'' @ n @ ''='' @ a]"
| "render_opt (LongSep n a) = [''--'' @ n, a]"

fun meaning :: "opt_use \<Rightarrow> string \<times> string" where
  "meaning (Short c) = (''-'' @ [c], [])"
| "meaning (ShortJoined c a) = (''-'' @ [c], a)"
| "meaning (ShortSep c a) = (''-'' @ [c], a)"
| "meaning (Long n) = (''--'' @ n, [])"
| "meaning (LongJoined n a) = (''--'' @ n, a)"
| "meaning (LongSep n a) = (''--'' @ n, a)"

text \<open>
  The uses the option tables allow: a short option is declared with or without a colon, a long
  option name is declared with or without \<open>=\<close> and is not a prefix of another declared name.
\<close>

definition long_declared :: "string \<Rightarrow> bool \<Rightarrow> string list \<Rightarrow> bool" where
  "long_declared n has_arg longopts \<longleftrightarrow>
     n \<noteq> [] \<and> CHR ''='' \<notin> set n \<and>
     filter (\<lambda>lo. take (length n) lo = n) longopts = [n @ (if has_arg then ''='' else [])]"

fun allowed_use :: "string \<Rightarrow> string list \<Rightarrow> opt_use \<Rightarrow> bool" where
  "allowed_use so lo (Short c) = (c \<noteq> CHR ''-'' \<and> short_has_arg c so = Inr False)"
| "allowed_use so lo (ShortJoined c a) = (c \<noteq> CHR ''-'' \<and> a \<noteq> [] \<and> short_has_arg c so = Inr True)"
| "allowed_use so lo (ShortSep c a) = (c \<noteq> CHR ''-'' \<and> short_has_arg c so = Inr True)"
| "allowed_use so lo (Long n) = long_declared n False lo"
| "allowed_use so lo (LongJoined n a) = long_declared n True lo"
| "allowed_use so lo (LongSep n a) = long_declared n True lo"

text \<open>The words at which option parsing stops, and what it leaves.\<close>

definition stops :: "string list \<Rightarrow> string list \<Rightarrow> bool" where
  "stops args rest \<longleftrightarrow>
     args = ''--'' # rest \<or>
     args = rest \<and> (case args of [] \<Rightarrow> True | a # _ \<Rightarrow> a = ''-'' \<or> take 1 a \<noteq> ''-'')"

lemma long_has_args_filter:
  assumes "filter (\<lambda>lo. take (length n) lo = n) los = [n @ s]" "s = [] \<or> s = ''=''" "CHR ''='' \<notin> set n"
    "n \<noteq> []"
  shows "long_has_args n los = Inr (s \<noteq> [], n)"
  using assms(1)
proof (induction los)
  case Nil
  then show ?case by simp
next
  case (Cons lo los)
  show ?case
  proof (cases "take (length n) lo = n")
    case True
    with Cons.prems have "lo = n @ s" by simp
    moreover have "last n \<noteq> CHR ''=''"
      using assms(3,4) last_in_set by metis
    ultimately show ?thesis
      using assms(2,4) by (auto simp: pfrom_minus1)
  next
    case False
    with Cons show ?thesis by auto
  qed
qed

lemma sort_filter_single:
  fixes los :: "string list"
  assumes "filter P los = [x]"
  shows "filter P (sort los) = [x]"
proof -
  have "mset (filter P (sort los)) = mset (filter P los)" by (simp add: mset_filter)
  then have "mset (filter P (sort los)) = {#x#}" by (simp only: assms mset.simps)
  then show ?thesis by (simp only: mset_single_iff)
qed

lemma long_has_args_declared:
  "long_declared n b los \<Longrightarrow> long_has_args n (sort los) = Inr (b, n)"
proof -
  assume d: "long_declared n b los"
  then have "filter (\<lambda>lo. take (length n) lo = n) (sort los) = [n @ (if b then ''='' else [])]"
    unfolding long_declared_def by (intro sort_filter_single) blast
  from long_has_args_filter [OF this] d show "long_has_args n (sort los) = Inr (b, n)"
    by (cases b) (simp_all add: long_declared_def)
qed

lemma do_longs_no_eq:
  assumes "long_has_args n los = Inr (b, n)" "CHR ''='' \<notin> set n"
  shows "do_longs acc n los args =
    (if b then
       (case args of
          [] \<Rightarrow> Inl (getopt_error (''option --'' @ n @ '' requires argument''))
        | a # args \<Rightarrow> Inr (acc @ [(''--'' @ n, a)], args))
     else Inr (acc @ [(''--'' @ n, [])], args))"
  using assms by (simp add: do_longs_def find_char)

lemma do_longs_eq:
  assumes "long_has_args n los = Inr (True, n)" "CHR ''='' \<notin> set n"
  shows "do_longs acc (n @ ''='' @ a) los args = Inr (acc @ [(''--'' @ n, a)], args)"
proof -
  have "takeWhile (\<lambda>d. d \<noteq> CHR ''='') (n @ ''='' @ a) = n"
    using assms(2) by (subst takeWhile_append2) auto
  then have f: "find_s (n @ ''='' @ a) ''='' 0 = int (length n)"
    by (simp add: find_char)
  have "pfrom (int (length n) + 1) (n @ ''='' @ a) = a"
    using pfrom_nat [of "Suc (length n)" "n @ ''='' @ a"] by (simp add: add.commute)
  with f assms(1) show ?thesis
    unfolding do_longs_def f by simp
qed

lemma getopt_step:
  assumes "allowed_use so lo u"
  shows "getopt_loop acc (render_opt u @ args) so (sort lo) =
    getopt_loop (acc @ [meaning u]) args so (sort lo)"
proof (cases u)
  case (ShortJoined c a)
  with assms obtain d ds where a: "a = d # ds" by (cases a) auto
  from assms ShortJoined show ?thesis
    by (simp add: a getopt_loop.simps [of acc "(CHR ''-'' # c # d # ds) # args"])
next
  case (Long n)
  with assms long_has_args_declared [of n False lo] show ?thesis
    by (simp add: getopt_loop.simps [of acc "(CHR ''-'' # CHR ''-'' # n) # args"] long_declared_def
        do_longs_no_eq [of n _ False])
next
  case (LongJoined n a)
  with assms long_has_args_declared [of n True lo] show ?thesis
    using do_longs_eq [of n "sort lo" acc a args]
    by (simp add: getopt_loop.simps [of acc "(CHR ''-'' # CHR ''-'' # n @ CHR ''='' # a) # args"]
        long_declared_def)
next
  case (LongSep n a)
  with assms long_has_args_declared [of n True lo] show ?thesis
    by (simp add: getopt_loop.simps [of acc "(CHR ''-'' # CHR ''-'' # n) # a # args"] long_declared_def
        do_longs_no_eq [of n _ True])
qed (use assms in \<open>simp_all add: getopt_loop.simps [of acc "[CHR ''-'', c] # as" for c as]\<close>)

lemma getopt_stop: "stops args rest \<Longrightarrow> getopt_loop acc args so lo = Inr (acc, rest)"
  by (auto simp: stops_def getopt_loop.simps [of acc args] getopt_loop.simps [of acc "''--'' # rest"]
      split: list.splits)

lemma getopt_render:
  assumes "list_all (allowed_use so lo) us" "stops args rest"
  shows "getopt (concat (map render_opt us) @ args) so lo = Inr (map meaning us, rest)"
proof -
  have "getopt_loop acc (concat (map render_opt us) @ args) so (sort lo) = Inr (acc @ map meaning us, rest)" for acc
    using assms(1) by (induction us arbitrary: acc) (auto simp: getopt_step getopt_stop [OF assms(2)])
  then show ?thesis by (simp add: getopt_def)
qed

text \<open>A cluster of short options is the same as the options one by one.\<close>

lemma getopt_cluster:
  assumes "short_has_arg c so = Inr False" "c \<noteq> CHR ''-''" "d \<noteq> CHR ''-''"
  shows "getopt ((CHR ''-'' # c # d # cs) # args) so lo = getopt ([CHR ''-'', c] # (CHR ''-'' # d # cs) # args) so lo"
  using assms
  by (simp add: getopt_def getopt_loop.simps [of _ "(CHR ''-'' # c # d # cs) # args"]
      getopt_loop.simps [of _ "[CHR ''-'', c] # (CHR ''-'' # d # cs) # args"]
      getopt_loop.simps [of _ "(CHR ''-'' # d # cs) # args"])

text \<open>What is left over is always a suffix of the arguments.\<close>

lemma do_shorts_suffix:
  "do_shorts acc optstring shortopts args = Inr (acc', args') \<Longrightarrow> \<exists>u. args = u @ args'"
  by (induction acc optstring shortopts args rule: do_shorts.induct)
    (auto simp: bindR_Inr_iff split: if_splits list.splits)

lemma do_longs_suffix:
  "do_longs acc opt longopts args = Inr (acc', args') \<Longrightarrow> \<exists>u. args = u @ args'"
  by (auto simp: do_longs_def bindR_Inr_iff Let_def split: if_splits list.splits option.splits)

text \<open>
  A declared long option is refused when its name is a proper prefix of an option that sorts
  before it: the test for a unique prefix looks at the next entry only after the entry it matched.
\<close>

lemma getopt_exact_refused:
  "getopt [''--foo'', ''x''] [] [''foo='', ''foo-bar''] =
     Inl (getopt_error ''option --foo not a unique prefix'')"
  by code_simp

end
