(* ===== verification/Macpath.thy ===== *)
theory Macpath
  imports Posixpath
begin

section \<open>\<open>Lib/macpath.py\<close>: operations on Macintosh pathnames\<close>

text \<open>
  All of the module.  \<open>mac.stat\<close> and \<open>mac.listdir\<close> are the operating system of
  \<open>Osfs\<close>.  \<open>normpath\<close> may raise \<open>norm_error\<close>.
\<close>

subsection \<open>Definitions\<close>

definition mac_normcase :: "string \<Rightarrow> string" where
  "mac_normcase s = lower s"

definition mac_isabs :: "string \<Rightarrow> bool" where
  "mac_isabs s = (CHR '':'' \<in> set s \<and> hd s \<noteq> CHR '':'')"

definition mac_join :: "string \<Rightarrow> string \<Rightarrow> string" where
  "mac_join s t =
     (if s = [] \<or> mac_isabs t then t
      else
        let t = (if take 1 t = '':'' then drop 1 t else t);
            s = (if CHR '':'' \<notin> set s then '':'' @ s else s);
            s = (if pfrom (- 1) s \<noteq> '':'' then s @ '':'' else s)
        in s @ t)"

definition mac_split :: "string \<Rightarrow> string \<times> string" where
  "mac_split s =
     (if CHR '':'' \<notin> set s then ([], s)
      else
        let colon = foldl (\<lambda>colon i. if s ! i = CHR '':'' then i + 1 else colon) 0 [0..<length s]
        in (pupto (int colon - 1) s, drop colon s))"

fun mac_splitext_loop :: "string \<Rightarrow> string \<Rightarrow> string \<Rightarrow> string \<times> string" where
  "mac_splitext_loop [] root ext = (root, ext)"
| "mac_splitext_loop (c # p) root ext =
     (if c = CHR '':'' then mac_splitext_loop p (root @ ext @ [c]) []
      else if c = CHR ''.'' then
        (if ext \<noteq> [] then mac_splitext_loop p (root @ ext) [c] else mac_splitext_loop p root [c])
      else if ext \<noteq> [] then mac_splitext_loop p root (ext @ [c])
      else mac_splitext_loop p (root @ [c]) ext)"

definition mac_splitext :: "string \<Rightarrow> string \<times> string" where
  "mac_splitext p = mac_splitext_loop p [] []"

definition mac_splitdrive :: "string \<Rightarrow> string \<times> string" where
  "mac_splitdrive p = ([], p)"

definition mac_dirname :: "string \<Rightarrow> string" where
  "mac_dirname s = fst (mac_split s)"

definition mac_basename :: "string \<Rightarrow> string" where
  "mac_basename s = snd (mac_split s)"

definition mac_isdir :: "osys \<Rightarrow> string \<Rightarrow> bool" where
  "mac_isdir os s = (case os_stat os s of None \<Rightarrow> False | Some st \<Rightarrow> S_ISDIR (st_mode st))"

definition mac_subdir :: "osys \<Rightarrow> string \<Rightarrow> string \<Rightarrow> string option" where
  "mac_subdir os topdir name = (let name = mac_join topdir name in if mac_isdir os name then Some name else None)"

definition mac_walk :: "nat \<Rightarrow> osys \<Rightarrow> 's visitor \<Rightarrow> string \<Rightarrow> 's \<Rightarrow> 's option" where
  "mac_walk fuel os = tree_walk fuel os (mac_subdir os)"

definition mac_islink :: "string \<Rightarrow> bool" where
  "mac_islink s = False"

definition mac_isfile :: "osys \<Rightarrow> string \<Rightarrow> bool" where
  "mac_isfile os s = (case os_stat os s of None \<Rightarrow> False | Some st \<Rightarrow> S_ISREG (st_mode st))"

definition mac_exists :: "osys \<Rightarrow> string \<Rightarrow> bool" where
  "mac_exists os s = (case os_stat os s of None \<Rightarrow> False | Some st \<Rightarrow> True)"

definition mac_expandvars :: "string \<Rightarrow> string" where
  "mac_expandvars path = path"

definition mac_expanduser :: "string \<Rightarrow> string" where
  "mac_expanduser path = path"

definition norm_error :: "string \<Rightarrow> pyexc" where
  "norm_error msg = ModError ''macpath.norm_error: path cannot be normalized'' msg"

text \<open>The loop over the segments; \<open>pre\<close> is empty or one empty string.\<close>

fun mac_normpath_loop :: "string list \<Rightarrow> string list \<Rightarrow> string list \<Rightarrow> string list res" where
  "mac_normpath_loop pre [] res = Inr res"
| "mac_normpath_loop pre (seg # f) res =
     (if seg \<noteq> [] then mac_normpath_loop pre f (res @ [seg])
      else if res = [] then Inl (norm_error ''path starts with ::'')
      else
        let res = butlast res
        in if \<not> (pre \<noteq> [] \<or> res \<noteq> []) then Inl (norm_error ''path starts with volume::'')
           else mac_normpath_loop pre f res)"

definition mac_normpath :: "string \<Rightarrow> string res" where
  "mac_normpath s =
     (if CHR '':'' \<notin> set s then Inr ('':'' @ s)
      else
        let f = splitfields s '':'' 0;
            (pre, f) = (if f ! 0 = [] then (take 1 f, drop 1 f) else ([], f));
            (post, f) = (if last f = [] then (pfrom (- 1) f, butlast f) else ([], f))
        in bindR (mac_normpath_loop pre f []) (\<lambda>res.
             let res = (if pre \<noteq> [] then pre @ res else res);
                 res = (if post \<noteq> [] then res @ post else res)
             in case res of
                  [] \<Rightarrow> Inl IndexError
                | s # segs \<Rightarrow> Inr (foldl (\<lambda>s seg. s @ '':'' @ seg) s segs)))"

subsection \<open>Facts\<close>

lemma mac_colon_loop:
  "n \<le> length s \<Longrightarrow>
     foldl (\<lambda>colon i. if s ! i = CHR '':'' then i + 1 else colon) 0 [0..<n] =
     n - length (takeWhile (\<lambda>d. d \<noteq> CHR '':'') (rev (take n s)))"
  by (induction n) (auto simp: take_Suc_conv_app_nth Suc_diff_le length_takeWhile_le
      le_trans [OF length_takeWhile_le])

lemma mac_split_append:
  assumes "CHR '':'' \<notin> set v"
  shows "mac_split (u @ CHR '':'' # v) = (u, v)"
proof -
  let ?s = "u @ CHR '':'' # v"
  have "takeWhile (\<lambda>d. d \<noteq> CHR '':'') (rev v @ CHR '':'' # rev u) = rev v"
    using assms by (subst takeWhile_append2) auto
  then have "foldl (\<lambda>colon i. if ?s ! i = CHR '':'' then i + 1 else colon) 0 [0..<length ?s] =
      length u + 1"
    using mac_colon_loop [of "length ?s" ?s] by simp
  then show ?thesis by (simp add: mac_split_def Let_def pupto_nonneg del: upt_Suc)
qed

lemma mac_split_join:
  assumes "mac_split s = (h, t)" and "CHR '':'' \<in> set s"
  shows "s = h @ '':'' @ t \<and> CHR '':'' \<notin> set t"
proof -
  obtain u v where s: "s = u @ CHR '':'' # v" "CHR '':'' \<notin> set v"
    using split_list_last [OF assms(2)] by blast
  with mac_split_append [OF s(2), of u] assms(1) show ?thesis by simp
qed

lemma mac_splitext_loop_append:
  "mac_splitext_loop p root ext = (r, e) \<Longrightarrow> r @ e = root @ ext @ p"
  by (induction p root ext rule: mac_splitext_loop.induct) (auto split: if_splits)

definition mac_ext_ok :: "string \<Rightarrow> bool" where
  "mac_ext_ok e \<longleftrightarrow> (e = [] \<or> hd e = CHR ''.'') \<and> CHR '':'' \<notin> set e"

lemma mac_ext_ok_Nil: "mac_ext_ok []" and mac_ext_ok_dot: "mac_ext_ok ''.''"
  by (simp_all add: mac_ext_ok_def)

lemma mac_ext_ok_snoc: "mac_ext_ok e \<Longrightarrow> e \<noteq> [] \<Longrightarrow> c \<noteq> CHR '':'' \<Longrightarrow> mac_ext_ok (e @ [c])"
  by (auto simp: mac_ext_ok_def)

lemma mac_splitext_loop_ext:
  "mac_ext_ok ext \<Longrightarrow> mac_splitext_loop p root ext = (r, e) \<Longrightarrow> mac_ext_ok e"
proof (induction p root ext rule: mac_splitext_loop.induct)
  case (2 c p root ext)
  consider "c = CHR '':''" | "c = CHR ''.''" | "c \<noteq> CHR '':''" "c \<noteq> CHR ''.''" "ext \<noteq> []"
    | "c \<noteq> CHR '':''" "c \<noteq> CHR ''.''" "ext = []" by blast
  then show ?case
  proof cases
    case 1
    with 2 mac_ext_ok_Nil show ?thesis by simp
  next
    case 2
    with "2.IH"(2,3) "2.prems" mac_ext_ok_dot show ?thesis by (cases "ext = []") simp_all
  next
    case 3
    with "2.IH"(4) "2.prems" mac_ext_ok_snoc show ?thesis by simp
  next
    case 4
    with "2.IH"(5) "2.prems" show ?thesis by simp
  qed
qed simp

interpretation mac_e: ext_splitter "\<lambda>c. c = CHR '':''" mac_splitext
proof
  fix p r e c
  assume "mac_splitext p = (r, e)"
  then have s: "mac_splitext_loop p [] [] = (r, e)" by (simp add: mac_splitext_def)
  show "r @ e = p" using mac_splitext_loop_append [OF s] by simp
  from mac_splitext_loop_ext [OF mac_ext_ok_Nil s]
  show "e = [] \<or> hd e = CHR ''.''" and "c \<in> set e \<Longrightarrow> c \<noteq> CHR '':''"
    by (auto simp: mac_ext_ok_def)
qed

interpretation mac_j: path_joiner mac_isabs mac_join
  by unfold_locales (simp_all add: mac_join_def)

text \<open>The comment's promise that \<open>join\<close> undoes \<open>split\<close> fails for a file on a volume.\<close>

lemma mac_split_join_volume:
  "mac_split ''vol:file'' = (''vol'', ''file'')" and "mac_join ''vol'' ''file'' = '':vol:file''"
  by (simp_all add: mac_split_def mac_join_def mac_isabs_def pupto_nonneg pfrom_minus1 upt_rec)

end
