(* ===== verification/Lines.thy ===== *)
theory Lines
  imports Files
begin

section \<open>Loops over the lines of a file\<close>

text \<open>
  The loop most text modules are written with:
  \<^verbatim>\<open>while 1: line = fp.readline(); if not line: break; ...\<close>.  The body answers
  \<open>None\<close> to go on and \<open>Some r\<close> to leave the loop (\<open>break\<close>, or \<open>return\<close> from the
  function).  Nothing bounds the number of lines a file object returns, so the loop has fuel.
\<close>

primrec line_loop ::
  "nat \<Rightarrow> ('s, string) act \<Rightarrow> (string \<Rightarrow> ('s, 'r option) act) \<Rightarrow> 's \<Rightarrow> ('r option res \<times> 's) option"
where
  "line_loop 0 rd body s = None"
| "line_loop (Suc fuel) rd body s =
     (case rd s of
        (Inl e, t) \<Rightarrow> Some (Inl e, t)
      | (Inr line, t) \<Rightarrow>
          if line = [] then Some (Inr None, t)
          else
            (case body line t of
               (Inl e, u) \<Rightarrow> Some (Inl e, u)
             | (Inr (Some r), u) \<Rightarrow> Some (Inr (Some r), u)
             | (Inr None, u) \<Rightarrow> line_loop fuel rd body u))"

lemma line_loop_mono:
  "line_loop fuel rd body s = Some r \<Longrightarrow> fuel \<le> fuel' \<Longrightarrow> line_loop fuel' rd body s = Some r"
proof (induction fuel arbitrary: s fuel')
  case (Suc fuel)
  then obtain m where "fuel' = Suc m" "fuel \<le> m" by (cases fuel') auto
  with Suc show ?case by (auto split: prod.splits sum.splits option.splits if_splits)
qed simp

lemma text_lines_Cons: "s \<noteq> [] \<Longrightarrow> text_lines s = first_line s # text_lines (drop (length (first_line s)) s)"
  by (simp add: text_lines.simps [of s])

definition text_line :: "string \<Rightarrow> bool" where
  \<comment> \<open>one complete line\<close>
  "text_line l \<longleftrightarrow> (\<exists>k. l = k @ [NL] \<and> NL \<notin> set k)"

lemma text_line_code [code]: "text_line l \<longleftrightarrow> l \<noteq> [] \<and> last l = NL \<and> NL \<notin> set (butlast l)"
proof
  assume "l \<noteq> [] \<and> last l = NL \<and> NL \<notin> set (butlast l)"
  then show "text_line l"
    unfolding text_line_def by (metis append_butlast_last_id)
qed (auto simp: text_line_def)

lemma first_line_text_line: "text_line l \<Longrightarrow> first_line (l @ s) = l"
  using first_line_append by (auto simp: text_line_def)

lemma text_lines_concat:
  assumes "list_all (\<lambda>l. \<exists>k. l = k @ [NL] \<and> NL \<notin> set k) ls" "NL \<notin> set t"
  shows "text_lines (concat ls @ t) = ls @ (if t = [] then [] else [t])"
  using assms(1)
proof (induction ls)
  case Nil
  then show ?case using assms(2) by (cases "t = []") (simp_all add: text_lines_Cons first_line_no_NL)
next
  case (Cons l ls)
  then obtain k where "l = k @ [NL]" "NL \<notin> set k" by auto
  with Cons show ?case using text_lines_line [of k "concat ls @ t"] by simp
qed

lemma first_line_shape: "(\<exists>k. first_line s = k @ [NL] \<and> NL \<notin> set k) \<or> (first_line s = s \<and> NL \<notin> set s)"
proof -
  have "NL \<notin> set (takeWhile (\<lambda>c. c \<noteq> NL) s)" by (metis set_takeWhileD)
  then show ?thesis by (auto simp: first_line_takeWhile)
qed

lemma text_lines_append_NL:
  assumes "NL \<notin> set k"
  shows "text_lines (k @ [NL]) = [k @ [NL]]"
  using text_lines_line [OF assms, of "[]"] by simp

lemma text_lines_le: "length (text_lines s) \<le> length s"
proof (induction s rule: text_lines.induct)
  case (1 s)
  show ?case
  proof (cases "s = []")
    case False
    then have "length (first_line s) \<noteq> 0" by simp
    moreover have "length (text_lines s) = Suc (length (text_lines (drop (length (first_line s)) s)))"
      using False by (simp add: text_lines_Cons)
    moreover have "length (text_lines (drop (length (first_line s)) s)) \<le> length s - length (first_line s)"
      using 1 [OF False] by simp
    ultimately show ?thesis using first_line_length [of s] by linarith
  qed simp
qed

context line_file
begin

text \<open>A body that leaves the file alone sees exactly the lines that are still to be read.\<close>

lemma line_loop_fold:
  assumes "\<And>line c f. line \<noteq> [] \<Longrightarrow> body line (c, f) = (Inr None, (step c line, f))"
  shows "ok f \<Longrightarrow> length (text_lines (ahead f)) < fuel \<Longrightarrow>
    \<exists>g. line_loop fuel (on_file (fo_readline ops)) body (c, f) =
      Some (Inr None, (foldl step c (text_lines (ahead f)), g)) \<and>
      ok g \<and> content g = content f \<and> ahead g = []"
proof (induction fuel arbitrary: c f)
  case (Suc fuel)
  obtain g where g: "fo_readline ops f = (Inr (first_line (ahead f)), g)" "ok g" "content g = content f"
    "ahead g = drop (length (first_line (ahead f))) (ahead f)"
    using readline_ahead [OF Suc.prems(1)] .
  show ?case
  proof (cases "ahead f = []")
    case True
    with g show ?thesis by simp
  next
    case False
    then have l: "text_lines (ahead f) = first_line (ahead f) # text_lines (ahead g)"
      by (simp add: text_lines_Cons g(4))
    with Suc.prems(2) have "length (text_lines (ahead g)) < fuel" by simp
    from Suc.IH [OF g(2) this, of "step c (first_line (ahead f))"] False show ?thesis
      by (auto simp: g(1,3) l assms)
  qed
qed simp

end

end
