(* ===== verification/Rfc822.thy ===== *)
theory Rfc822
  imports Lines "HOL-Library.AList"
begin

section \<open>\<open>Lib/rfc822.py\<close>: mail headers\<close>

text \<open>
  A \<open>Message\<close> beside the file it reads.  The dictionary of the headers is an association list in
  the order of insertion (the order of \<open>keys()\<close> in a Python dictionary is that of its hash table,
  which is not modelled).  The loop over the header lines is \<open>line_loop\<close>; its local variables
  \<open>headerseen\<close> and \<open>firstline\<close> are carried beside the message.
\<close>

subsection \<open>The message and its headers\<close>

record message =
  msg_seekable :: bool
  msg_startofheaders :: "int option"
  msg_startofbody :: "int option"
  msg_dict :: "(string \<times> string) list"
  msg_unixfrom :: string
  msg_headers :: "string list"
  msg_status :: string

definition new_message :: "bool \<Rightarrow> message" where
  "new_message seekable = \<lparr>msg_seekable = seekable, msg_startofheaders = None, msg_startofbody = None,
     msg_dict = [], msg_unixfrom = [], msg_headers = [], msg_status = []\<rparr>"

definition blanklines :: "string list" where
  "blanklines = [[CR, NL], [NL]]"

definition islast :: "string \<Rightarrow> bool" where
  "islast line \<longleftrightarrow> line \<in> set blanklines"

type_synonym header_loop = "message \<times> string \<times> bool"

text \<open>What one line does to the message, and how the loop goes on.\<close>

datatype header_line = GoOn | EndOfHeaders | NotAHeader

definition header_step :: "string \<Rightarrow> header_loop \<Rightarrow> header_line \<times> header_loop" where
  "header_step line = (\<lambda>(m, headerseen, firstline).
     if firstline \<and> take 5 line = ''From '' then
       (GoOn, (m\<lparr>msg_unixfrom := msg_unixfrom m @ line\<rparr>, headerseen, firstline))
     else if islast line then (EndOfHeaders, (m, headerseen, False))
     else if headerseen \<noteq> [] \<and> line ! 0 \<in> {CHR '' '', TAB} then
       let x = the (map_of (msg_dict m) headerseen) @ [NL] @ '' '' @ strip line
       in (GoOn, (m\<lparr>msg_headers := msg_headers m @ [line],
             msg_dict := AList.update headerseen (strip x) (msg_dict m)\<rparr>, headerseen, False))
     else if CHR '':'' \<in> set line then
       let i = find_s line '':'' 0; headerseen = lower (pupto i line)
       in (GoOn, (m\<lparr>msg_headers := msg_headers m @ [line],
             msg_dict := AList.update headerseen (strip (pfrom (i + 1) line)) (msg_dict m)\<rparr>, headerseen, False))
     else
       (NotAHeader, (m\<lparr>msg_status := (if headerseen = [] then ''No headers'' else ''Bad header'')\<rparr>, headerseen, False)))"

definition header_body :: "'f file_ops \<Rightarrow> string \<Rightarrow> (header_loop \<times> 'f, unit option) act" where
  "header_body ops line = (\<lambda>(l, f).
     case header_step line l of
       (GoOn, l') \<Rightarrow> (Inr None, (l', f))
     | (EndOfHeaders, l') \<Rightarrow> (Inr (Some ()), (l', f))
     | (NotAHeader, l') \<Rightarrow>
         if msg_seekable (fst l') then
           (case fo_seek ops (- int (length line)) 1 f of
              (Inl e, g) \<Rightarrow> (Inl e, (l', g))
            | (Inr _, g) \<Rightarrow> (Inr (Some ()), (l', g)))
         else
           (let (m, r) = l' in (Inr (Some ()), ((m\<lparr>msg_status := msg_status m @ ''; bad seek''\<rparr>, r), f))))"

definition readheaders :: "nat \<Rightarrow> 'f file_ops \<Rightarrow> message \<times> 'f \<Rightarrow> (unit res \<times> message \<times> 'f) option" where
  "readheaders fuel ops = (\<lambda>(m, f).
     let m = m\<lparr>msg_dict := [], msg_unixfrom := [], msg_headers := [], msg_status := []\<rparr>
     in case line_loop fuel (on_file (fo_readline ops)) (header_body ops) ((m, [], True), f) of
          None \<Rightarrow> None
        | Some (Inl e, ((m, _), f)) \<Rightarrow> Some (Inl e, (m, f))
        | Some (Inr None, ((m, _), f)) \<Rightarrow> Some (Inr (), (m\<lparr>msg_status := ''EOF in headers''\<rparr>, f))
        | Some (Inr (Some _), ((m, _), f)) \<Rightarrow> Some (Inr (), (m, f)))"

text \<open>\<open>try: self.x = self.fp.tell() except IOError: self.seekable = 0\<close>\<close>

definition try_tell ::
  "'f file_ops \<Rightarrow> (int option \<Rightarrow> message \<Rightarrow> message) \<Rightarrow> message \<times> 'f \<Rightarrow> unit res \<times> message \<times> 'f" where
  "try_tell ops put = (\<lambda>(m, f).
     if msg_seekable m then
       (case fo_tell ops f of
          (Inr p, g) \<Rightarrow> (Inr (), (put (Some p) m, g))
        | (Inl (IOError _), g) \<Rightarrow> (Inr (), (m\<lparr>msg_seekable := False\<rparr>, g))
        | (Inl e, g) \<Rightarrow> (Inl e, (m, g)))
     else (Inr (), (m, f)))"

definition message_init :: "nat \<Rightarrow> 'f file_ops \<Rightarrow> bool \<Rightarrow> 'f \<Rightarrow> (unit res \<times> message \<times> 'f) option" where
  "message_init fuel ops seekable f =
     (case try_tell ops (\<lambda>p. msg_startofheaders_update (\<lambda>_. p)) (new_message seekable, f) of
        (Inl e, s) \<Rightarrow> Some (Inl e, s)
      | (Inr _, s) \<Rightarrow>
          (case readheaders fuel ops s of
             None \<Rightarrow> None
           | Some (Inl e, t) \<Rightarrow> Some (Inl e, t)
           | Some (Inr _, t) \<Rightarrow> Some (try_tell ops (\<lambda>p. msg_startofbody_update (\<lambda>_. p)) t)))"

definition rewindbody :: "'f file_ops \<Rightarrow> (message \<times> 'f, unit) act" where
  "rewindbody ops = (\<lambda>(m, f).
     if \<not> msg_seekable m then (Inl (IOError ''unseekable file''), (m, f))
     else
       (case msg_startofbody m of
          None \<Rightarrow> (Inl TypeError, (m, f))
        | Some p \<Rightarrow> on_file (fo_seek ops p 0) (m, f)))"

subsection \<open>Looking headers up\<close>

definition matching_step :: "string \<Rightarrow> string list \<times> bool \<Rightarrow> string \<Rightarrow> string list \<times> bool" where
  "matching_step name = (\<lambda>(acc, hit) line.
     let n = length name;
         hit = (if lower (take n line) = name then True
                else if take 1 line \<noteq> [] \<and> \<not> is_ws (line ! 0) then False else hit)
     in (if hit then acc @ [line] else acc, hit))"

definition getallmatchingheaders :: "message \<Rightarrow> string \<Rightarrow> string list" where
  "getallmatchingheaders m name =
     (let name = lower name @ '':'' in fst (foldl (matching_step name) ([], False) (msg_headers m)))"

fun first_matching :: "string \<Rightarrow> string list \<Rightarrow> bool \<Rightarrow> string list \<Rightarrow> string list" where
  "first_matching name acc hit [] = acc"
| "first_matching name acc hit (line # headers) =
     (if hit then
        if take 1 line \<noteq> [] \<and> \<not> is_ws (line ! 0) then acc
        else first_matching name (acc @ [line]) hit headers
      else if lower (take (length name) line) = name
      then first_matching name (acc @ [line]) True headers
      else first_matching name acc False headers)"

definition getfirstmatchingheader :: "message \<Rightarrow> string \<Rightarrow> string list" where
  "getfirstmatchingheader m name =
     (let name = lower name @ '':'' in first_matching name [] False (msg_headers m))"

definition getrawheader :: "message \<Rightarrow> string \<Rightarrow> string option" where
  "getrawheader m name =
     (case getfirstmatchingheader m name of
        [] \<Rightarrow> None
      | l # ls \<Rightarrow> Some (joinfields (drop (length name + 1) l # ls) []))"

definition getheader :: "message \<Rightarrow> string \<Rightarrow> string option" where
  "getheader m name = map_of (msg_dict m) (lower name)"

definition msg_getitem :: "message \<Rightarrow> string \<Rightarrow> string res" where
  "msg_getitem m name = (case map_of (msg_dict m) (lower name) of None \<Rightarrow> Inl KeyError | Some v \<Rightarrow> Inr v)"

definition msg_len :: "message \<Rightarrow> nat" where
  "msg_len m = length (msg_dict m)"

definition msg_has_key :: "message \<Rightarrow> string \<Rightarrow> bool" where
  "msg_has_key m name = (map_of (msg_dict m) (lower name) \<noteq> None)"

definition msg_keys :: "message \<Rightarrow> string list" where
  "msg_keys m = map fst (msg_dict m)"

definition msg_values :: "message \<Rightarrow> string list" where
  "msg_values m = map snd (msg_dict m)"

definition msg_items :: "message \<Rightarrow> (string \<times> string) list" where
  "msg_items m = msg_dict m"

subsection \<open>Addresses\<close>

definition rfc_unquote :: "string \<Rightarrow> string" where
  "rfc_unquote str =
     (if length str > 1 then
        if str ! 0 = DQUOTE \<and> pfrom (- 1) str = [DQUOTE] then pslice 1 (- 1) str
        else if str ! 0 = CHR ''<'' \<and> pfrom (- 1) str = ''>'' then pslice 1 (- 1) str
        else str
      else str)"

record addr_state =
  ad_str :: string
  ad_email :: string
  ad_comment :: string
  ad_backslash :: bool
  ad_dquote :: bool
  ad_space :: bool
  ad_paren :: nat
  ad_bracket :: bool
  ad_seen :: bool

definition addr_init :: addr_state where
  "addr_init = \<lparr>ad_str = [], ad_email = [], ad_comment = [], ad_backslash = False, ad_dquote = False,
     ad_space = False, ad_paren = 0, ad_bracket = False, ad_seen = False\<rparr>"

text \<open>The part of the loop body after white space has been dealt with; \<open>None\<close> is \<open>break\<close>.\<close>

definition addr_char :: "char \<Rightarrow> addr_state \<Rightarrow> addr_state option" where
  "addr_char c a =
     (if ad_paren a \<noteq> 0 \<and> c = CHR ''('' then
        Some (a\<lparr>ad_paren := ad_paren a + 1, ad_str := ad_str a @ [c]\<rparr>)
      else
        let left = (if ad_paren a \<noteq> 0 \<and> c = CHR '')'' then a\<lparr>ad_paren := ad_paren a - 1\<rparr> else a)
        in if ad_paren a \<noteq> 0 \<and> c = CHR '')'' \<and> ad_paren left = 0 then
             Some (left\<lparr>ad_comment := ad_comment a @ ad_str a, ad_str := []\<rparr>)
           else if c = CHR ''('' then
             (let a = left\<lparr>ad_paren := ad_paren left + 1\<rparr>
              in Some (if ad_bracket a \<or> \<not> ad_seen a then a\<lparr>ad_email := ad_email a @ ad_str a, ad_str := []\<rparr> else a))
           else if ad_bracket left \<and> c = CHR ''>'' then
             Some (left\<lparr>ad_bracket := False, ad_email := ad_email left @ ad_str left, ad_str := []\<rparr>)
           else if c = CHR ''<'' then
             Some (left\<lparr>ad_bracket := True, ad_seen := True, ad_comment := ad_comment left @ ad_str left,
               ad_str := [], ad_email := []\<rparr>)
           else if c = CHR ''#'' \<and> \<not> ad_bracket left \<and> ad_paren left = 0 then None
           else Some (left\<lparr>ad_str := ad_str left @ [c]\<rparr>))"

definition addr_step :: "char \<Rightarrow> addr_state \<Rightarrow> addr_state option" where
  "addr_step c a =
     (if ad_backslash a then Some (a\<lparr>ad_str := ad_str a @ [c], ad_backslash := False\<rparr>)
      else if c = BSLASH then Some (a\<lparr>ad_backslash := True\<rparr>)
      else if ad_dquote a then
        Some (if c = DQUOTE then a\<lparr>ad_dquote := False\<rparr> else a\<lparr>ad_str := ad_str a @ [c]\<rparr>)
      else if c = DQUOTE then Some (a\<lparr>ad_dquote := True\<rparr>)
      else if is_ws c then Some (a\<lparr>ad_space := True\<rparr>)
      else addr_char c (if ad_space a then a\<lparr>ad_str := ad_str a @ '' '', ad_space := False\<rparr> else a))"

primrec addr_loop :: "string \<Rightarrow> addr_state \<Rightarrow> addr_state" where
  "addr_loop [] a = a"
| "addr_loop (c # cs) a = (case addr_step c a of None \<Rightarrow> a | Some b \<Rightarrow> addr_loop cs b)"

definition parseaddr :: "string \<Rightarrow> string \<times> string" where
  "parseaddr address =
     (let a = addr_loop address addr_init;
          a = (if ad_str a \<noteq> [] then
                 if ad_seen a then
                   if ad_bracket a then a\<lparr>ad_email := ad_str a\<rparr>
                   else a\<lparr>ad_comment := ad_comment a @ ad_str a\<rparr>
                 else if ad_paren a \<noteq> 0 then a\<lparr>ad_comment := ad_comment a @ ad_str a\<rparr>
                 else a\<lparr>ad_email := ad_email a @ ad_str a\<rparr>
               else a)
      in (strip (ad_comment a), strip (ad_email a)))"

definition getaddr :: "message \<Rightarrow> string \<Rightarrow> (string \<times> string) option" where
  \<comment> \<open>\<open>None\<close> for \<open>(None, None)\<close>\<close>
  "getaddr m name = (case msg_getitem m name of Inl _ \<Rightarrow> None | Inr data \<Rightarrow> Some (parseaddr data))"

definition getaddrlist :: "message \<Rightarrow> string \<Rightarrow> (string \<times> string) list" where
  "getaddrlist m name =
     (case msg_getitem m name of
        Inl _ \<Rightarrow> []
      | Inr data \<Rightarrow> map parseaddr (splitfields data '','' 0))"

subsection \<open>Dates\<close>

definition rfc_monthnames :: "string list" where
  "rfc_monthnames = [''Jan'', ''Feb'', ''Mar'', ''Apr'', ''May'', ''Jun'', ''Jul'', ''Aug'', ''Sep'', ''Oct'',
     ''Nov'', ''Dec'']"

type_synonym date = "int \<times> int \<times> int \<times> int \<times> int \<times> int"

text \<open>The six fields that vary of the tuple; the last three are always zero.\<close>

definition parsedate :: "string \<Rightarrow> date option res" where
  "parsedate data =
     bindR (pindex (split_s data None 0) 0) (\<lambda>day.
       let data = split_s data None 0;
           data = (if last day = CHR '','' then drop 1 data else data);
           data = (if length data = 4 then
                     let s = data ! 3; i = find_s s ''+'' 0
                     in if i > 0 then take 3 data @ [pupto i s, pfrom (i + 1) s] else data @ [[]]
                   else data)
       in if length data < 5 then Inr None
          else
            let dd = data ! 0; mm = data ! 1; yy = data ! 2; tm = splitfields (data ! 3) '':'' 0
            in if mm \<notin> set rfc_monthnames then Inr None
               else
                 let mm = int (length (takeWhile (\<lambda>n. n \<noteq> mm) rfc_monthnames)) + 1;
                     tm = (if length tm = 2 then tm @ [''0''] else tm)
                 in if length tm \<noteq> 3 then Inl (ValueError ''unpack list of wrong size'')
                    else
                      (case bindR (atoi yy 10) (\<lambda>yy. bindR (atoi dd 10) (\<lambda>dd. bindR (atoi (tm ! 0) 10) (\<lambda>thh.
                              bindR (atoi (tm ! 1) 10) (\<lambda>tmm. bindR (atoi (tm ! 2) 10) (\<lambda>tss.
                                Inr (yy, mm, dd, thh, tmm, tss)))))) of
                         Inl _ \<Rightarrow> Inr None
                       | Inr t \<Rightarrow> Inr (Some t)))"

definition getdate :: "message \<Rightarrow> string \<Rightarrow> date option res" where
  "getdate m name = (case msg_getitem m name of Inl _ \<Rightarrow> Inr None | Inr data \<Rightarrow> parsedate data)"

subsection \<open>The loop over the header lines\<close>

definition loop_message :: "header_loop \<Rightarrow> message" where
  "loop_message l = fst l"

text \<open>What is read is kept: the lines are split between \<open>unixfrom\<close>, \<open>headers\<close> and the separator.\<close>

lemma header_step_keeps:
  assumes "header_step line (m, seen, first) = (k, (m', seen', first'))"
  shows "msg_seekable m' = msg_seekable m \<and> msg_startofheaders m' = msg_startofheaders m"
    and "first' \<longrightarrow> first"
    and "k = GoOn \<longrightarrow> (if first' then msg_unixfrom m' = msg_unixfrom m @ line \<and> msg_headers m' = msg_headers m
      else msg_unixfrom m' = msg_unixfrom m \<and> msg_headers m' = msg_headers m @ [line])"
    and "k \<noteq> GoOn \<longrightarrow> msg_unixfrom m' = msg_unixfrom m \<and> msg_headers m' = msg_headers m"
    and "k = EndOfHeaders \<longrightarrow> islast line"
  using assms by (auto simp: header_step_def Let_def split: if_splits)

context line_file
begin

lemma read_line_posn:
  assumes "ok f" "posn f \<le> length (content f)"
  obtains g where "fo_readline ops f = (Inr (first_line (ahead f)), g)" "ok g" "content g = content f"
    "ahead g = drop (length (first_line (ahead f))) (ahead f)"
    "posn g = posn f + length (first_line (ahead f))" "posn g \<le> length (content g)"
proof -
  have "length (first_line (ahead f)) \<le> length (content f) - posn f"
    using first_line_length [of "ahead f"] by (simp add: ahead_def)
  with readline [OF assms(1)] assms(2) that show ?thesis
    unfolding ahead_def by (metis le_add_diff_inverse nat_add_left_cancel_le)
qed

lemma readheaders_loop_keeps:
  "ok f \<Longrightarrow> posn f \<le> length (content f) \<Longrightarrow> msg_seekable m \<Longrightarrow> length (text_lines (ahead f)) < fuel \<Longrightarrow>
    \<exists>r m' seen' first' g u hs sep.
      line_loop fuel (on_file (fo_readline ops)) (header_body ops) ((m, seen, first), f) =
        Some (Inr r, ((m', seen', first'), g)) \<and> ok g \<and> content g = content f \<and>
      msg_seekable m' \<and> msg_startofheaders m' = msg_startofheaders m \<and>
      msg_unixfrom m' = msg_unixfrom m @ u \<and> msg_headers m' = msg_headers m @ hs \<and> (first \<or> u = []) \<and>
      ahead f = u @ concat hs @ sep @ ahead g \<and> sep \<in> {[], [NL], [CR, NL]} \<and> posn g \<le> length (content g)"
proof (induction fuel arbitrary: m seen first f)
  case (Suc fuel)
  obtain g where g: "fo_readline ops f = (Inr (first_line (ahead f)), g)" "ok g" "content g = content f"
    "ahead g = drop (length (first_line (ahead f))) (ahead f)"
    "posn g = posn f + length (first_line (ahead f))" "posn g \<le> length (content g)"
    using read_line_posn [OF Suc.prems(1,2)] .
  let ?line = "first_line (ahead f)"
  have split: "ahead f = ?line @ ahead g" by (simp add: g(4) first_line_drop)
  show ?case
  proof (cases "ahead f = []")
    case True
    with g Suc.prems(3) show ?thesis
      by (intro exI [of _ None] exI [of _ m] exI [of _ seen] exI [of _ first] exI [of _ g] exI [of _ "[]"]) auto
  next
    case False
    then have line: "?line \<noteq> []" by simp
    obtain k m' seen' first' where st: "header_step ?line (m, seen, first) = (k, (m', seen', first'))"
      by (metis prod_cases4)
    note keep = header_step_keeps [OF st]
    show ?thesis
    proof (cases k)
      case GoOn
      have "length (text_lines (ahead g)) < fuel"
        using Suc.prems(4) False by (simp add: text_lines_Cons [of "ahead f"] g(4))
      moreover have "posn g \<le> length (content g)" "msg_seekable m'" using g(6) keep(1) Suc.prems(3) by auto
      ultimately obtain r m2 seen2 first2 h u hs sep where IH:
        "line_loop fuel (on_file (fo_readline ops)) (header_body ops) ((m', seen', first'), g) =
          Some (Inr r, ((m2, seen2, first2), h))" "ok h" "content h = content g"
        "msg_seekable m2" "msg_startofheaders m2 = msg_startofheaders m'"
        "msg_unixfrom m2 = msg_unixfrom m' @ u" "msg_headers m2 = msg_headers m' @ hs" "first' \<or> u = []"
        "ahead g = u @ concat hs @ sep @ ahead h" "sep \<in> {[], [NL], [CR, NL]}" "posn h \<le> length (content h)"
        using Suc.IH [OF g(2), of m' seen' first'] by blast
      have run: "line_loop (Suc fuel) (on_file (fo_readline ops)) (header_body ops) ((m, seen, first), f) =
          Some (Inr r, ((m2, seen2, first2), h))"
        using g(1) line st GoOn IH(1) by (simp add: header_body_def)
      show ?thesis
      proof (cases first')
        case True
        with run IH keep GoOn g(3) split show ?thesis
          by (intro exI [of _ r] exI [of _ m2] exI [of _ seen2] exI [of _ first2] exI [of _ h]
            exI [of _ "?line @ u"] exI [of _ hs] exI [of _ sep]) simp
      next
        case False
        with run IH keep GoOn g(3) split show ?thesis
          by (intro exI [of _ r] exI [of _ m2] exI [of _ seen2] exI [of _ first2] exI [of _ h]
            exI [of _ u] exI [of _ "?line # hs"] exI [of _ sep]) simp
      qed
    next
      case EndOfHeaders
      then have "?line \<in> {[NL], [CR, NL]}" using keep(5) by (simp add: islast_def blanklines_def) blast
      with EndOfHeaders g line st keep Suc.prems(3) split show ?thesis
        by (intro exI [of _ "Some ()"] exI [of _ m'] exI [of _ seen'] exI [of _ first'] exI [of _ g]
          exI [of _ "[]"] exI [of _ "[]"] exI [of _ ?line]) (simp add: header_body_def)
    next
      case NotAHeader
      obtain h where h: "fo_seek ops (- int (length ?line)) 1 g = (Inr (), h)" "ok h" "posn h = posn f"
        "content h = content f"
        using seek_rel [OF g(2), of "- int (length ?line)"] g(3,5) by auto
      then have "ahead h = ahead f" by (simp add: ahead_def)
      with NotAHeader h g line st keep Suc.prems(2,3) show ?thesis
        by (intro exI [of _ "Some ()"] exI [of _ m'] exI [of _ seen'] exI [of _ first'] exI [of _ h]
          exI [of _ "[]"] exI [of _ "[]"] exI [of _ "[]"]) (simp add: header_body_def)
    qed
  qed
qed simp

lemma message_init_keeps:
  assumes "ok f" "posn f \<le> length (content f)" "length (content f) < fuel"
  shows "\<exists>m g sep. message_init fuel ops True f = Some (Inr (), (m, g)) \<and> ok g \<and> content g = content f \<and>
    ahead f = msg_unixfrom m @ concat (msg_headers m) @ sep @ ahead g \<and> sep \<in> {[], [NL], [CR, NL]} \<and>
    msg_startofheaders m = Some (int (posn f)) \<and> msg_startofbody m = Some (int (posn g))"
proof -
  have "length (text_lines (ahead f)) < fuel"
    using text_lines_le [of "ahead f"] assms(3) by (simp add: ahead_def)
  let ?m = "(new_message True)\<lparr>msg_startofheaders := Some (int (posn f)), msg_dict := [], msg_unixfrom := [],
    msg_headers := [], msg_status := []\<rparr>"
  obtain r m' seen' first' g u hs sep where L:
      "line_loop fuel (on_file (fo_readline ops)) (header_body ops) ((?m, [], True), f) =
        Some (Inr r, ((m', seen', first'), g))" "ok g" "content g = content f" "msg_seekable m'"
      "msg_startofheaders m' = Some (int (posn f))" "msg_unixfrom m' = u" "msg_headers m' = hs"
      "ahead f = u @ concat hs @ sep @ ahead g" "sep \<in> {[], [NL], [CR, NL]}"
    using readheaders_loop_keeps [OF assms(1,2) _ \<open>length (text_lines (ahead f)) < fuel\<close>, of ?m "[]" True]
    by (auto simp: new_message_def)
  let ?n = "case r of None \<Rightarrow> m'\<lparr>msg_status := ''EOF in headers''\<rparr> | Some _ \<Rightarrow> m'"
  have "try_tell ops (\<lambda>p. msg_startofheaders_update (\<lambda>_. p)) (new_message True, f) =
      (Inr (), (new_message True)\<lparr>msg_startofheaders := Some (int (posn f))\<rparr>, f)"
    using tell [OF assms(1)] by (simp add: try_tell_def new_message_def)
  moreover have "readheaders fuel ops ((new_message True)\<lparr>msg_startofheaders := Some (int (posn f))\<rparr>, f) =
      Some (Inr (), (?n, g))"
    using L(1) by (simp add: readheaders_def split: option.splits)
  moreover have "try_tell ops (\<lambda>p. msg_startofbody_update (\<lambda>_. p)) (?n, g) =
      (Inr (), ?n\<lparr>msg_startofbody := Some (int (posn g))\<rparr>, g)"
    using tell [OF L(2)] L(4) by (simp add: try_tell_def split: option.splits)
  ultimately have "message_init fuel ops True f = Some (Inr (), (?n\<lparr>msg_startofbody := Some (int (posn g))\<rparr>, g))"
    by (simp add: message_init_def)
  with L show ?thesis
    by (intro exI [of _ "?n\<lparr>msg_startofbody := Some (int (posn g))\<rparr>"] exI [of _ g] exI [of _ sep])
      (simp split: option.splits)
qed

end

subsection \<open>Headers written and read\<close>

text \<open>Lines that all belong to the header.\<close>

primrec go_on :: "string list \<Rightarrow> header_loop \<Rightarrow> header_loop option" where
  "go_on [] l = Some l"
| "go_on (x # xs) l = (case header_step x l of (GoOn, l') \<Rightarrow> go_on xs l' | _ \<Rightarrow> None)"

lemma go_on_append: "go_on (xs @ ys) l = Option.bind (go_on xs l) (go_on ys)"
  by (induction xs arbitrary: l) (auto split: prod.splits header_line.splits)

context line_file
begin

lemma go_on_loop:
  "go_on ls l = Some l' \<Longrightarrow> list_all text_line ls \<Longrightarrow> ok f \<Longrightarrow> ahead f = concat ls @ rest \<Longrightarrow>
    \<exists>g. line_loop (length ls + fuel) (on_file (fo_readline ops)) (header_body ops) (l, f) =
        line_loop fuel (on_file (fo_readline ops)) (header_body ops) (l', g) \<and>
      ok g \<and> content g = content f \<and> ahead g = rest"
proof (induction ls arbitrary: l f)
  case (Cons x ls)
  from Cons.prems(2) have x: "text_line x" "x \<noteq> []" by (auto simp: text_line_def)
  from Cons.prems(1) obtain l1 where l1: "header_step x l = (GoOn, l1)" "go_on ls l1 = Some l'"
    by (auto split: prod.splits header_line.splits)
  obtain g where g: "fo_readline ops f = (Inr (first_line (ahead f)), g)" "ok g" "content g = content f"
    "ahead g = drop (length (first_line (ahead f))) (ahead f)"
    using readline_ahead [OF Cons.prems(3)] .
  have "first_line (ahead f) = x"
    using Cons.prems(4) first_line_text_line [OF x(1)] by simp
  with g Cons.prems(4) have "ahead g = concat ls @ rest" by simp
  from Cons.IH [OF l1(2) _ g(2) this] Cons.prems(2) g(1,3) l1(1) x(2) \<open>first_line (ahead f) = x\<close>
  show ?case by (simp add: header_body_def)
qed auto

lemma readheaders_well_formed:
  assumes "go_on ls (m\<lparr>msg_dict := [], msg_unixfrom := [], msg_headers := [], msg_status := []\<rparr>, [], True) = Some (m', seen, first)"
    and "list_all text_line ls" "ok f" "ahead f = concat ls @ sep @ body" "length ls < fuel" "islast sep"
  shows "\<exists>g. readheaders fuel ops (m, f) = Some (Inr (), (m', g)) \<and> ok g \<and> content g = content f \<and> ahead g = body"
proof -
  obtain n where n: "fuel = length ls + Suc n" using assms(5) less_imp_Suc_add by fastforce
  let ?l = "(m\<lparr>msg_dict := [], msg_unixfrom := [], msg_headers := [], msg_status := []\<rparr>, [], True)"
  obtain g where g: "line_loop fuel (on_file (fo_readline ops)) (header_body ops) (?l, f) =
      line_loop (Suc n) (on_file (fo_readline ops)) (header_body ops) ((m', seen, first), g)"
    "ok g" "content g = content f" "ahead g = sep @ body"
    using go_on_loop [OF assms(1-4), of "Suc n"] n by auto
  have sep: "text_line sep" "sep = [NL] \<or> sep = [CR, NL]" "sep \<noteq> []"
    using assms(6) by (auto simp: islast_def blanklines_def text_line_def)
  obtain h where h: "fo_readline ops g = (Inr (first_line (ahead g)), h)" "ok h" "content h = content g"
    "ahead h = drop (length (first_line (ahead g))) (ahead g)"
    using readline_ahead [OF g(2)] .
  have fl: "first_line (ahead g) = sep" using first_line_text_line [OF sep(1)] by (simp add: g(4))
  have "ahead h = body" unfolding h(4) fl by (simp add: g(4))
  have "header_step sep (m', seen, first) = (EndOfHeaders, (m', seen, False))"
    using sep(2) by (auto simp: header_step_def islast_def blanklines_def)
  then have "line_loop (Suc n) (on_file (fo_readline ops)) (header_body ops) ((m', seen, first), g) =
      Some (Inr (Some ()), ((m', seen, False), h))"
    using h(1) sep(3) by (simp add: fl header_body_def)
  with g(1-3) h(2,3) \<open>ahead h = body\<close> show ?thesis
    by (intro exI [of _ h]) (simp add: readheaders_def)
qed

lemma message_init_ends:
  assumes "go_on ls ((new_message True)\<lparr>msg_startofheaders := Some (int (posn f))\<rparr>, [], True) = Some (m', seen, first)"
    and "list_all text_line ls" "ok f" "ahead f = concat ls @ sep @ body" "length ls < fuel" "msg_seekable m'" "islast sep"
  shows "\<exists>g. message_init fuel ops True f = Some (Inr (), (m'\<lparr>msg_startofbody := Some (int (posn g))\<rparr>, g)) \<and>
    ok g \<and> content g = content f \<and> ahead g = body"
proof -
  let ?m = "(new_message True)\<lparr>msg_startofheaders := Some (int (posn f))\<rparr>"
  have "?m\<lparr>msg_dict := [], msg_unixfrom := [], msg_headers := [], msg_status := []\<rparr> = ?m"
    by (simp add: new_message_def)
  with assms(1) have "go_on ls (?m\<lparr>msg_dict := [], msg_unixfrom := [], msg_headers := [], msg_status := []\<rparr>, [], True) =
      Some (m', seen, first)" by (simp only:)
  from readheaders_well_formed [OF this assms(2-5,7)] obtain g where
    g: "readheaders fuel ops (?m, f) = Some (Inr (), (m', g))" "ok g" "content g = content f" "ahead g = body" by blast
  have "try_tell ops (\<lambda>p. msg_startofheaders_update (\<lambda>_. p)) (new_message True, f) = (Inr (), ?m, f)"
    using tell [OF assms(3)] by (simp add: try_tell_def new_message_def)
  with g tell [OF g(2)] assms(6) show ?thesis
    by (intro exI [of _ g]) (simp add: message_init_def try_tell_def)
qed

lemma message_init_well_formed:
  assumes "go_on ls ((new_message True)\<lparr>msg_startofheaders := Some (int (posn f))\<rparr>, [], True) = Some (m', seen, first)"
    and "list_all text_line ls" "ok f" "ahead f = concat ls @ [NL] @ body" "length ls < fuel" "msg_seekable m'"
  shows "\<exists>g. message_init fuel ops True f = Some (Inr (), (m'\<lparr>msg_startofbody := Some (int (posn g))\<rparr>, g)) \<and>
    ok g \<and> content g = content f \<and> ahead g = body"
  by (rule message_init_ends [OF assms]) (simp add: islast_def blanklines_def)

end

text \<open>A header with the lines of its value, as it is written and as it is read.\<close>

definition header_name :: "string \<Rightarrow> bool" where
  "header_name key \<longleftrightarrow> key \<noteq> [] \<and> list_all (\<lambda>c. \<not> is_ws c \<and> c \<noteq> CHR '':'') key"

fun header_lines :: "string \<times> string list \<Rightarrow> string list" where
  "header_lines (key, []) = []"
| "header_lines (key, l # ls) = (key @ '': '' @ l @ [NL]) # map (\<lambda>l. ''    '' @ strip l @ [NL]) ls"

definition value_read :: "string list \<Rightarrow> string" where
  "value_read ls = joinfields (map strip ls) [NL, CHR '' '']"

lemma strip_padded:
  assumes "list_all is_ws a" "list_all is_ws b"
  shows "strip (a @ s @ b) = strip s"
proof -
  have d: "dropWhile is_ws (a @ t) = dropWhile is_ws t" if "list_all is_ws a" for a t :: string
    using that by (induction a) auto
  show ?thesis
  proof (cases "\<exists>c \<in> set s. \<not> is_ws c")
    case True
    then have "dropWhile is_ws (s @ b) = dropWhile is_ws s @ b"
      by (metis dropWhile_append1)
    then show ?thesis
      using d [OF assms(1), of "s @ b"] d [of "rev b" "rev (dropWhile is_ws s)"] assms(2)
      by (simp add: strip_lstrip_rstrip lstrip_dropWhile rstrip_dropWhile)
  next
    case False
    have "strip t = []" if "list_all is_ws t" for t
    proof -
      have "dropWhile is_ws t = []" using that by (simp add: list_all_iff)
      then show ?thesis by (simp only: strip_lstrip_rstrip lstrip_dropWhile rstrip_dropWhile) simp
    qed
    from this [of "a @ s @ b"] this [of s] False assms show ?thesis by (simp add: list_all_iff ball_Un)
  qed
qed

lemma ws_chars: "is_ws NL" "is_ws CR" "is_ws CHR '' ''" "is_ws TAB"
  by (simp_all add: whitespace_def)

lemma header_line_read:
  assumes "header_name key"
  shows "header_step (key @ '': '' @ l @ [NL]) (m, seen, first) =
    (GoOn, (m\<lparr>msg_headers := msg_headers m @ [key @ '': '' @ l @ [NL]],
      msg_dict := AList.update (lower key) (strip l) (msg_dict m)\<rparr>, lower key, False))"
proof -
  let ?line = "key @ '': '' @ l @ [NL]"
  from assms have key: "key \<noteq> []" "CHR '':'' \<notin> set key" "\<And>c. c \<in> set key \<Longrightarrow> \<not> is_ws c"
    by (auto simp: header_name_def list_all_iff)
  have "take 5 ?line \<noteq> ''From ''"
  proof
    assume from_line: "take 5 ?line = ''From ''"
    show False
    proof (cases "length key < 5")
      case True
      then have "CHR '':'' \<in> set (take 5 ?line)"
        by (cases "5 - length key") (auto simp: take_Cons')
      with from_line show False by simp
    next
      case False
      then have "take 5 ?line = take 5 key" by simp
      then have "CHR '' '' \<in> set key"
        using from_line by (metis in_set_takeD list.set_intros(1,2))
      with key(3) ws_chars show False by blast
    qed
  qed
  moreover have h: "?line ! 0 = hd key" "hd key \<in> set key" using key(1) by (cases key; simp)+
  moreover have "\<not> islast ?line"
    using h key(3) [of "hd key"] ws_chars by (cases key) (auto simp: islast_def blanklines_def)
  moreover have "find_s ?line '':'' 0 = int (length key)"
    using key(2) by (subst find_char) (simp add: takeWhile_append)
  moreover have "strip (CHR '' '' # l @ [NL]) = strip l"
    using strip_padded [of "'' ''" "[NL]" l] ws_chars by simp
  moreover have "pfrom (int (length key) + 1) ?line = CHR '' '' # l @ [NL]"
    by (simp add: pfrom_nonneg nat_add_distrib)
  ultimately show ?thesis
    using key(3) ws_chars by (auto simp: header_step_def Let_def)
qed

lemma continuation_read:
  assumes "seen \<noteq> []" "map_of (msg_dict m) seen = Some v" "v \<noteq> []" "strip v = v" "strip l \<noteq> []"
  shows "header_step (''    '' @ strip l @ [NL]) (m, seen, False) =
    (GoOn, (m\<lparr>msg_headers := msg_headers m @ [''    '' @ strip l @ [NL]],
      msg_dict := AList.update seen (v @ [NL, CHR '' ''] @ strip l) (msg_dict m)\<rparr>, seen, False))"
proof -
  have "strip (''    '' @ strip l @ [NL]) = strip l"
    using strip_padded [of "''    ''" "[NL]" "strip l"] strip_idem [of l] ws_chars by simp
  moreover have "strip (v @ [NL, CHR '' ''] @ strip l) = v @ [NL, CHR '' ''] @ strip l"
    using assms(3,5) strip_ends [OF assms(4,3)] strip_ends [OF refl assms(5)] by (intro strip_fixpoint) simp
  ultimately show ?thesis
    using assms by (auto simp: header_step_def islast_def blanklines_def Let_def)
qed

lemma continuations_read:
  "\<lbrakk>seen \<noteq> []; map_of (msg_dict m) seen = Some v; v \<noteq> []; strip v = v; list_all (\<lambda>l. strip l \<noteq> []) ls\<rbrakk> \<Longrightarrow>
    \<exists>d. go_on (map (\<lambda>l. ''    '' @ strip l @ [NL]) ls) (m, seen, False) =
        Some (m\<lparr>msg_headers := msg_headers m @ map (\<lambda>l. ''    '' @ strip l @ [NL]) ls, msg_dict := d\<rparr>, seen, False) \<and>
      map_of d = (map_of (msg_dict m))(seen \<mapsto> v @ concat (map (\<lambda>l. [NL, CHR '' ''] @ strip l) ls))"
proof (induction ls arbitrary: m v)
  case Nil
  then show ?case by (intro exI [of _ "msg_dict m"]) (auto simp: fun_upd_idem)
next
  case (Cons l ls)
  let ?v = "v @ [NL, CHR '' ''] @ strip l"
  let ?m = "m\<lparr>msg_headers := msg_headers m @ [''    '' @ strip l @ [NL]],
    msg_dict := AList.update seen ?v (msg_dict m)\<rparr>"
  from Cons.prems have ne: "strip l \<noteq> []" by simp
  have "strip ?v = ?v"
    using Cons.prems(3) ne strip_ends [OF Cons.prems(4,3)] strip_ends [OF refl ne] by (intro strip_fixpoint) simp
  then have "\<exists>d. go_on (map (\<lambda>l. ''    '' @ strip l @ [NL]) ls) (?m, seen, False) =
        Some (?m\<lparr>msg_headers := msg_headers ?m @ map (\<lambda>l. ''    '' @ strip l @ [NL]) ls, msg_dict := d\<rparr>, seen, False) \<and>
      map_of d = (map_of (msg_dict ?m))(seen \<mapsto> ?v @ concat (map (\<lambda>l. [NL, CHR '' ''] @ strip l) ls))"
    by (intro Cons.IH) (use Cons.prems in \<open>simp_all add: update_conv'\<close>)
  then obtain d where d: "go_on (map (\<lambda>l. ''    '' @ strip l @ [NL]) ls) (?m, seen, False) =
      Some (?m\<lparr>msg_headers := msg_headers ?m @ map (\<lambda>l. ''    '' @ strip l @ [NL]) ls, msg_dict := d\<rparr>, seen, False)"
    "map_of d = (map_of (msg_dict ?m))(seen \<mapsto> ?v @ concat (map (\<lambda>l. [NL, CHR '' ''] @ strip l) ls))"
    by blast
  have "go_on (map (\<lambda>l. ''    '' @ strip l @ [NL]) (l # ls)) (m, seen, False) =
      go_on (map (\<lambda>l. ''    '' @ strip l @ [NL]) ls) (?m, seen, False)"
    using continuation_read [OF Cons.prems(1-4) ne] by simp
  with d show ?case by (intro exI [of _ d]) (simp add: update_conv')
qed

definition good_header :: "string \<times> string list \<Rightarrow> bool" where
  "good_header = (\<lambda>(key, ls). header_name key \<and> ls \<noteq> [] \<and> list_all (\<lambda>l. strip l \<noteq> [] \<and> NL \<notin> set l) ls)"

lemma joinfields_concat: "joinfields (w # ws) sep = w @ concat (map (\<lambda>v. sep @ v) ws)"
proof -
  have "foldl (\<lambda>res v. res @ (sep @ v)) r ws = r @ concat (map (\<lambda>v. sep @ v) ws)" for r
    by (induction ws arbitrary: r) simp_all
  then show ?thesis by (simp add: joinfields_def)
qed

lemma header_read:
  assumes "good_header (key, ls)"
  shows "\<exists>d. go_on (header_lines (key, ls)) (m, seen, first) =
      Some (m\<lparr>msg_headers := msg_headers m @ header_lines (key, ls), msg_dict := d\<rparr>, lower key, False) \<and>
    map_of d = (map_of (msg_dict m))(lower key \<mapsto> value_read ls)"
proof -
  obtain l ls' where ls: "ls = l # ls'" using assms by (cases ls) (auto simp: good_header_def)
  with assms have key: "header_name key" "strip l \<noteq> []" "list_all (\<lambda>l. strip l \<noteq> []) ls'"
    by (auto simp: good_header_def list_all_iff)
  let ?m = "m\<lparr>msg_headers := msg_headers m @ [key @ '': '' @ l @ [NL]],
      msg_dict := AList.update (lower key) (strip l) (msg_dict m)\<rparr>"
  have "lower key \<noteq> []" using key(1) by (metis header_name_def length_0_conv length_lower)
  from continuations_read [OF this, of ?m "strip l" ls'] key(2,3) obtain d where
    "go_on (map (\<lambda>l. ''    '' @ strip l @ [NL]) ls') (?m, lower key, False) =
      Some (?m\<lparr>msg_headers := msg_headers ?m @ map (\<lambda>l. ''    '' @ strip l @ [NL]) ls', msg_dict := d\<rparr>, lower key, False)"
    "map_of d = (map_of (msg_dict ?m))(lower key \<mapsto> strip l @ concat (map (\<lambda>l. [NL, CHR '' ''] @ strip l) ls'))"
    by (auto simp: update_conv' strip_idem)
  with header_line_read [OF key(1), of l m seen first] show ?thesis
    by (intro exI [of _ d]) (simp add: ls value_read_def joinfields_concat update_conv' comp_def)
qed

lemma headers_read:
  "list_all good_header hs \<Longrightarrow>
    \<exists>d seen' first'. go_on (concat (map header_lines hs)) (m, seen, first) =
        Some (m\<lparr>msg_headers := msg_headers m @ concat (map header_lines hs), msg_dict := d\<rparr>, seen', first') \<and>
      map_of d = foldl (\<lambda>dict (k, ls). dict(lower k \<mapsto> value_read ls)) (map_of (msg_dict m)) hs"
proof (induction hs arbitrary: m seen first)
  case Nil
  then show ?case by (intro exI [of _ "msg_dict m"]) simp
next
  case (Cons h hs)
  obtain k ls where h: "h = (k, ls)" by (cases h)
  with Cons.prems have "good_header (k, ls)" by simp
  from header_read [OF this, of m seen first] obtain d where
    d: "go_on (header_lines (k, ls)) (m, seen, first) =
      Some (m\<lparr>msg_headers := msg_headers m @ header_lines (k, ls), msg_dict := d\<rparr>, lower k, False)"
    "map_of d = (map_of (msg_dict m))(lower k \<mapsto> value_read ls)" by blast
  let ?m = "m\<lparr>msg_headers := msg_headers m @ header_lines (k, ls), msg_dict := d\<rparr>"
  from Cons.IH [of ?m "lower k" False] Cons.prems
  obtain d' seen' first' where "go_on (concat (map header_lines hs)) (?m, lower k, False) =
      Some (?m\<lparr>msg_headers := msg_headers ?m @ concat (map header_lines hs), msg_dict := d'\<rparr>, seen', first')"
    "map_of d' = foldl (\<lambda>dict (k, ls). dict(lower k \<mapsto> value_read ls)) (map_of (msg_dict ?m)) hs"
    unfolding list.pred_inject by blast
  with d show ?case
    by (intro exI [of _ d'] exI [of _ seen'] exI [of _ first']) (simp add: h go_on_append del: fun_upd_apply)
qed

lemma header_lines_text:
  assumes "good_header (k, ls)"
  shows "list_all text_line (header_lines (k, ls))"
proof -
  have "NL \<notin> set (strip l)" if "NL \<notin> set l" for l
    using that set_take_subset set_drop_subset by (fastforce simp: strip_def Let_def)
  moreover from assms have "NL \<notin> set k" using ws_chars by (auto simp: good_header_def header_name_def list_all_iff)
  ultimately show ?thesis
    using assms by (cases ls) (auto simp: text_line_def good_header_def list_all_iff)
qed

subsection \<open>Parsing addresses\<close>

definition addr_plain :: "char \<Rightarrow> bool" where
  "addr_plain c \<longleftrightarrow> \<not> is_ws c \<and> c \<notin> {BSLASH, DQUOTE, CHR ''('', CHR '')'', CHR ''<'', CHR ''>'', CHR ''#''}"

definition addr_word :: "string \<Rightarrow> bool" where
  "addr_word w \<longleftrightarrow> w \<noteq> [] \<and> list_all addr_plain w"

lemma addr_loop_plain:
  "list_all addr_plain w \<Longrightarrow> \<not> ad_backslash a \<Longrightarrow> \<not> ad_dquote a \<Longrightarrow> \<not> ad_space a \<Longrightarrow>
    addr_loop (w @ rest) a = addr_loop rest (a\<lparr>ad_str := ad_str a @ w\<rparr>)"
proof (induction w arbitrary: a)
  case (Cons c w)
  from Cons.prems have "addr_step c a = Some (a\<lparr>ad_str := ad_str a @ [c]\<rparr>)"
    by (auto simp: addr_step_def addr_char_def addr_plain_def Let_def)
  with Cons.IH [of "a\<lparr>ad_str := ad_str a @ [c]\<rparr>"] Cons.prems show ?case by simp
qed simp

lemma addr_loop_blank:
  assumes "addr_word w" "\<not> ad_backslash a" "\<not> ad_dquote a" "\<not> ad_space a"
  shows "addr_loop (CHR '' '' # w @ rest) a = addr_loop rest (a\<lparr>ad_str := ad_str a @ '' '' @ w\<rparr>)"
proof -
  obtain c v where w: "w = c # v" "addr_plain c" "list_all addr_plain v"
    using assms(1) by (cases w) (auto simp: addr_word_def)
  have "addr_step CHR '' '' a = Some (a\<lparr>ad_space := True\<rparr>)"
    using assms ws_chars by (simp add: addr_step_def)
  moreover have "addr_step c (a\<lparr>ad_space := True\<rparr>) = Some (a\<lparr>ad_str := ad_str a @ '' '' @ [c]\<rparr>)"
    using assms w(2) by (auto simp: addr_step_def addr_char_def addr_plain_def Let_def)
  ultimately show ?thesis
    using addr_loop_plain [OF w(3), of "a\<lparr>ad_str := ad_str a @ '' '' @ [c]\<rparr>" rest] assms by (simp add: w(1))
qed

lemma addr_loop_words:
  assumes "ws \<noteq> []" "list_all addr_word ws"
  shows "\<not> ad_backslash a \<Longrightarrow> \<not> ad_dquote a \<Longrightarrow> \<not> ad_space a \<Longrightarrow>
    addr_loop (joinfields ws '' '' @ rest) a = addr_loop rest (a\<lparr>ad_str := ad_str a @ joinfields ws '' ''\<rparr>)"
proof -
  assume a: "\<not> ad_backslash a" "\<not> ad_dquote a" "\<not> ad_space a"
  obtain w vs where ws: "ws = w # vs" using assms(1) by (cases ws) auto
  have "list_all addr_word vs \<Longrightarrow> \<not> ad_backslash b \<Longrightarrow> \<not> ad_dquote b \<Longrightarrow> \<not> ad_space b \<Longrightarrow>
      addr_loop (concat (map (\<lambda>v. '' '' @ v) vs) @ rest) b =
      addr_loop rest (b\<lparr>ad_str := ad_str b @ concat (map (\<lambda>v. '' '' @ v) vs)\<rparr>)" for b
  proof (induction vs arbitrary: b)
    case (Cons v vs)
    then show ?case
      using addr_loop_blank [of v b "concat (map (\<lambda>v. '' '' @ v) vs) @ rest"] by simp
  qed simp
  note vs_step = this
  have e: "(@) '' '' = (#) CHR '' ''" by (rule ext) simp
  from vs_step [of "a\<lparr>ad_str := ad_str a @ w\<rparr>"]
    addr_loop_plain [of w a "concat (map (\<lambda>v. '' '' @ v) vs) @ rest"] assms(2) a
  show ?thesis by (simp add: ws addr_word_def joinfields_concat e)
qed

lemma strip_words:
  assumes "ws \<noteq> []" "list_all addr_word ws"
  shows "strip (joinfields ws '' '' @ '' '') = joinfields ws '' ''" "strip (joinfields ws '' '') = joinfields ws '' ''"
proof -
  obtain w vs where ws: "ws = w # vs" using assms(1) by (cases ws) auto
  let ?s = "joinfields ws '' ''"
  have "hd ?s = hd w" "\<not> is_ws (hd w)" "?s \<noteq> []"
    using assms(2) by (auto simp: ws joinfields_concat addr_word_def addr_plain_def neq_Nil_conv)
  moreover have "\<not> is_ws (last ?s)"
  proof (cases vs rule: rev_cases)
    case Nil
    with assms(2) show ?thesis
      by (auto simp: ws joinfields_concat addr_word_def list_all_iff addr_plain_def)
  next
    case (snoc us v)
    with assms(2) show ?thesis
      by (auto simp: ws joinfields_concat addr_word_def list_all_iff addr_plain_def)
  qed
  ultimately show "strip ?s = ?s" by (intro strip_fixpoint) simp
  with strip_padded [of "[]" "'' ''" ?s] ws_chars show "strip (?s @ '' '') = ?s" by simp
qed

lemma parseaddr_bracket:
  assumes "ws \<noteq> []" "list_all addr_word ws" "addr_word addr"
  shows "parseaddr (joinfields ws '' '' @ '' <'' @ addr @ ''>'') = (joinfields ws '' '', addr)"
proof -
  let ?s = "joinfields ws '' ''"
  let ?a = "addr_init\<lparr>ad_str := ?s\<rparr>"
  let ?b = "addr_init\<lparr>ad_comment := ?s @ '' '', ad_bracket := True, ad_seen := True\<rparr>"
  have "addr_loop (?s @ '' <'' @ addr @ ''>'') addr_init = addr_loop ('' <'' @ addr @ ''>'') ?a"
    using addr_loop_words [OF assms(1,2), of addr_init] by (simp add: addr_init_def)
  also have "\<dots> = addr_loop (addr @ ''>'') ?b"
    using ws_chars by (simp add: addr_step_def addr_char_def addr_init_def Let_def whitespace_def)
  also have "\<dots> = addr_loop ''>'' (?b\<lparr>ad_str := addr\<rparr>)"
    using addr_loop_plain [of addr ?b "''>''"] assms(3) by (simp add: addr_word_def addr_init_def)
  also have "\<dots> = ?b\<lparr>ad_bracket := False, ad_email := addr\<rparr>"
    by (simp add: addr_step_def addr_char_def addr_init_def Let_def whitespace_def)
  finally show ?thesis
    using strip_words [OF assms(1,2)] strip_words(2) [of "[addr]"] assms(3)
    by (simp add: parseaddr_def addr_init_def joinfields_concat)
qed

lemma parseaddr_comment:
  assumes "ws \<noteq> []" "list_all addr_word ws" "addr_word addr"
  shows "parseaddr (addr @ '' ('' @ joinfields ws '' '' @ '')'') = (joinfields ws '' '', addr)"
proof -
  let ?s = "joinfields ws '' ''"
  let ?b = "addr_init\<lparr>ad_email := addr @ '' '', ad_paren := 1\<rparr>"
  have "addr_loop (addr @ '' ('' @ ?s @ '')'') addr_init = addr_loop ('' ('' @ ?s @ '')'') (addr_init\<lparr>ad_str := addr\<rparr>)"
    using addr_loop_plain [of addr addr_init] assms(3) by (simp add: addr_word_def addr_init_def)
  also have "\<dots> = addr_loop (?s @ '')'') ?b"
    using ws_chars by (simp add: addr_step_def addr_char_def addr_init_def Let_def whitespace_def)
  also have "\<dots> = addr_loop '')'' (?b\<lparr>ad_str := ?s\<rparr>)"
    using addr_loop_words [OF assms(1,2), of ?b] by (simp add: addr_init_def)
  also have "\<dots> = ?b\<lparr>ad_paren := 0, ad_comment := ?s\<rparr>"
    by (simp add: addr_step_def addr_char_def addr_init_def Let_def whitespace_def)
  finally show ?thesis
    using strip_words(2) [OF assms(1,2)] strip_words(1) [of "[addr]"] assms(3)
    by (simp add: parseaddr_def addr_init_def joinfields_concat)
qed

subsection \<open>Parsing dates\<close>

definition ws_free :: "string \<Rightarrow> bool" where
  "ws_free w \<longleftrightarrow> w \<noteq> [] \<and> list_all (\<lambda>c. \<not> is_ws c) w"

lemma words_join_free: "list_all ws_free ws \<Longrightarrow> words (joinfields ws '' '') = ws"
  by (rule words_join_words) (simp add: ws_free_def list_all_iff)

lemma ws_free_append: "ws_free v \<or> v = [] \<Longrightarrow> ws_free w \<Longrightarrow> ws_free (v @ w)"
  by (auto simp: ws_free_def)

lemma ws_free_punct: "ws_free '',''" "ws_free '':''"
  by (simp_all add: ws_free_def whitespace_def)

lemma ws_free_colon: "ws_free w \<Longrightarrow> ws_free (CHR '':'' # w)"
  by (simp add: ws_free_def whitespace_def)

lemma digit_chars: "c \<in> set digits \<Longrightarrow> \<not> is_ws c \<and> c \<notin> {CHR '','', CHR '':'', CHR ''+''}"
  by (auto simp: digits_def whitespace_def)

lemma int_repr_digits: "0 \<le> i \<Longrightarrow> int_repr i \<noteq> [] \<and> set (int_repr i) \<subseteq> set digits"
  using nat_repr_digits by (auto simp: int_repr_def)

lemma month_index:
  assumes "k < 12"
  shows "length (takeWhile (\<lambda>n. n \<noteq> rfc_monthnames ! k) rfc_monthnames) = k \<and> rfc_monthnames ! k \<in> set rfc_monthnames \<and>
    ws_free (rfc_monthnames ! k)"
proof -
  have "list_all (\<lambda>k. length (takeWhile (\<lambda>n. n \<noteq> rfc_monthnames ! k) rfc_monthnames) = k \<and>
      rfc_monthnames ! k \<in> set rfc_monthnames \<and> ws_free (rfc_monthnames ! k)) [0..<12]"
    by code_simp
  with assms show ?thesis by (simp add: list_all_iff)
qed

lemma parsedate_fields:
  assumes "list_all (\<lambda>i. 0 \<le> i) [dd, yy, h, mi, s]" "k < 12" "list_all ws_free tz"
    and "day = [] \<or> (\<exists>d. day = [d @ '',''] \<and> list_all (\<lambda>c. \<not> is_ws c) d)"
  shows "parsedate (joinfields (day @ [int_repr dd, rfc_monthnames ! k, int_repr yy,
      int_repr h @ '':'' @ int_repr mi @ '':'' @ int_repr s] @ tz) '' '') =
    Inr (Some (yy, int k + 1, dd, h, mi, s))"
proof -
  let ?tm = "int_repr h @ '':'' @ int_repr mi @ '':'' @ int_repr s"
  let ?ds = "[int_repr dd, rfc_monthnames ! k, int_repr yy, ?tm] @ tz"
  have free: "ws_free (int_repr i)" if "0 \<le> i" for i
    using int_repr_digits [OF that] digit_chars by (auto simp: ws_free_def list_all_iff)
  have tm: "ws_free ?tm" using free [of h] free [of mi] free [of s] assms(1)
    by (simp add: ws_free_append ws_free_colon)
  have "list_all ws_free day"
  proof (cases "day = []")
    case False
    with assms(4) obtain d where d: "day = [d @ '','']" "list_all (\<lambda>c. \<not> is_ws c) d" by blast
    then have "ws_free d \<or> d = []" by (simp add: ws_free_def)
    from ws_free_append [OF this ws_free_punct(1)] show ?thesis by (simp only: d(1) list.pred_inject)
  qed simp
  moreover have "ws_free (int_repr dd)" "ws_free (int_repr yy)" "ws_free (rfc_monthnames ! k)"
    using free [of dd] free [of yy] assms(1) month_index [OF assms(2)] by simp_all
  ultimately have "list_all ws_free (day @ ?ds)"
    using tm assms(3) by (simp only: list_all_append list.pred_inject simp_thms)
  then have "words (joinfields (day @ ?ds) '' '') = day @ ?ds" by (rule words_join_free)
  then have w: "split_s (joinfields (day @ ?ds) '' '') None 0 = day @ ?ds" by (simp add: split_words)
  have "last (int_repr dd) \<noteq> CHR '',''"
    using int_repr_digits [of dd] digit_chars assms(1) by (metis last_in_set list.pred_inject(2) subsetD insertI1)
  then have day: "(if last (hd (day @ ?ds)) = CHR '','' then drop 1 (day @ ?ds) else day @ ?ds) = ?ds"
    using assms(4) by auto
  have no: "c \<notin> set (int_repr i)" if "0 \<le> i" "c \<in> {CHR '':'', CHR ''+''}" for c i
    using int_repr_digits [OF that(1)] digit_chars that(2) by blast
  have "find_s ?tm ''+'' 0 = - 1"
    using no [of h "CHR ''+''"] no [of mi "CHR ''+''"] no [of s "CHR ''+''"] assms(1) by (simp add: find_char)
  then have four: "(if length ?ds = 4 then
        let s = ?ds ! 3; i = find_s s ''+'' 0
        in if i > 0 then take 3 ?ds @ [pupto i s, pfrom (i + 1) s] else ?ds @ [[]]
      else ?ds) = [int_repr dd, rfc_monthnames ! k, int_repr yy, ?tm] @ (if tz = [] then [[]] else tz)"
    by (auto simp: Let_def)
  have "split_on CHR '':'' (joinfields [int_repr h, int_repr mi, int_repr s] '':'') = [int_repr h, int_repr mi, int_repr s]"
    using no [of h "CHR '':''"] no [of mi "CHR '':''"] no [of s "CHR '':''"] assms(1) by (intro split_on_fields) auto
  then have f: "splitfields ?tm '':'' 0 = [int_repr h, int_repr mi, int_repr s]"
    by (simp add: splitfields_split_on joinfields_concat)
  have pi: "pindex (day @ ?ds) 0 = Inr (hd (day @ ?ds))" by (cases day) (simp_all add: pindex_def)
  show ?thesis
    unfolding parsedate_def w pi bindR_simps Let_def [of "day @ ?ds"] day Let_def [of ?ds] four
    using month_index [OF assms(2)] by (simp add: Let_def f [simplified] atoi_int_repr)
qed

end
