(* ===== verification/Mailbox.thy ===== *)
theory Mailbox
  imports Rfc822
begin

section \<open>\<open>Lib/mailbox.py\<close>: messages inside a mailbox file\<close>

text \<open>
  A \<open>_Subfile\<close> is a part of a file with a position of its own, beside the file; it calls
  \<open>readline\<close> with a limit, which the interface \<open>sized_file\<close> adds to a file.  The class
  \<open>_Mailbox\<close> finds the bounds of the next message; the lines that begin and end one are what
  distinguishes \<open>UnixMailbox\<close> and \<open>MmdfMailbox\<close>.
\<close>

subsection \<open>Definitions\<close>

record 'f sized_ops = "'f file_ops" +
  fo_readline_n :: "int \<Rightarrow> ('f, string) act"

record subfile =
  sf_start :: int
  sf_stop :: int
  sf_pos :: int

definition subfile_init :: "int \<Rightarrow> int \<Rightarrow> subfile" where
  "subfile_init start stop = \<lparr>sf_start = start, sf_stop = stop, sf_pos = start\<rparr>"

definition sf_read :: "'f sized_ops \<Rightarrow> int option \<Rightarrow> (subfile \<times> 'f, string) act" where
  "sf_read ops len = (\<lambda>(s, f).
     if sf_pos s \<ge> sf_stop s then (Inr [], (s, f))
     else
       let n = (case len of None \<Rightarrow> sf_stop s - sf_pos s | Some n \<Rightarrow> n)
       in thenA (on_file (fo_seek ops (sf_pos s) 0))
            (thenA (updA (\<lambda>(s, f). (s\<lparr>sf_pos := sf_pos s + n\<rparr>, f))) (on_file (fo_read ops n))) (s, f))"

definition sf_readline :: "'f sized_ops \<Rightarrow> int option \<Rightarrow> (subfile \<times> 'f, string) act" where
  "sf_readline ops len = (\<lambda>(s, f).
     if sf_pos s \<ge> sf_stop s then (Inr [], (s, f))
     else
       let n = (case len of None \<Rightarrow> sf_stop s - sf_pos s | Some n \<Rightarrow> n)
       in thenA (on_file (fo_seek ops (sf_pos s) 0))
            (bindA (on_file (fo_readline_n ops n)) (\<lambda>data.
              let n = (if int (length data) < n then int (length data) else n)
              in thenA (updA (\<lambda>(s, f). (s\<lparr>sf_pos := sf_pos s + n\<rparr>, f))) (retA data))) (s, f))"

definition sf_tell :: "(subfile \<times> 'f, int) act" where
  "sf_tell = getA (\<lambda>(s, f). sf_pos s - sf_start s)"

definition sf_seek :: "int \<Rightarrow> int \<Rightarrow> (subfile \<times> 'f, unit) act" where
  "sf_seek pos whence = updA (\<lambda>(s, f).
     (if whence = 0 then s\<lparr>sf_pos := sf_start s + pos\<rparr>
      else if whence = 1 then s\<lparr>sf_pos := sf_pos s + pos\<rparr>
      else if whence = 2 then s\<lparr>sf_pos := sf_stop s + pos\<rparr>
      else s, f))"

text \<open>The methods of a \<open>_Subfile\<close> as those of a file; it has no \<open>write\<close>.\<close>

definition sf_ops :: "'f sized_ops \<Rightarrow> (subfile \<times> 'f) file_ops" where
  "sf_ops ops = \<lparr>fo_read = (\<lambda>n. sf_read ops (Some n)), fo_readline = sf_readline ops None, fo_tell = sf_tell,
     fo_seek = sf_seek, fo_write = (\<lambda>_. raiseA AttributeError), fo_isfile = False\<rparr>"

text \<open>The state of a mailbox is \<open>seekp\<close>; its \<open>seek\<close> uses attributes that are never set.\<close>

definition mb_seek :: "int \<Rightarrow> int \<Rightarrow> (int \<times> 'f, unit) act" where
  "mb_seek pos whence = raiseA AttributeError"

definition search_start :: "nat \<Rightarrow> 'f file_ops \<Rightarrow> (string \<Rightarrow> bool) \<Rightarrow> 'f \<Rightarrow> (unit res \<times> 'f) option" where
  "search_start fuel ops is_start f =
     map_option (\<lambda>(r, g). (bindR r (\<lambda>found. case found of None \<Rightarrow> Inl EOFError | Some _ \<Rightarrow> Inr ()), g))
       (line_loop fuel (fo_readline ops) (\<lambda>line. retA (if is_start line then Some () else None)) f)"

text \<open>Each round of \<open>_search_end\<close> remembers where the line begins, to go back to it.\<close>

definition tell_readline :: "'f file_ops \<Rightarrow> (int \<times> 'f, string) act" where
  "tell_readline ops = bindA (on_file (fo_tell ops)) (\<lambda>pos.
     thenA (updA (\<lambda>(_, f). (pos, f))) (on_file (fo_readline ops)))"

definition search_end :: "nat \<Rightarrow> 'f file_ops \<Rightarrow> (string \<Rightarrow> bool) \<Rightarrow> 'f \<Rightarrow> (unit res \<times> 'f) option" where
  "search_end fuel ops is_end f =
     map_option (\<lambda>(r, (_, g)). (bindR r (\<lambda>_. Inr ()), g))
       (line_loop fuel (tell_readline ops)
         (\<lambda>line (pos, f). if is_end line
            then thenA (on_file (fo_seek ops pos 0)) (retA (Some ())) (pos, f) else (Inr None, (pos, f)))
         (0, f))"

definition unix_from :: "string \<Rightarrow> bool" where
  "unix_from line \<longleftrightarrow> take 5 line = ''From ''"

definition mmdf_mark :: string where
  "mmdf_mark = replicate 4 (chr 1) @ [NL]"

definition mmdf_start :: "string \<Rightarrow> bool" where
  "mmdf_start line \<longleftrightarrow> take 5 line = mmdf_mark"

definition mmdf_end :: "string \<Rightarrow> bool" where
  "mmdf_end line \<longleftrightarrow> line = mmdf_mark"

text \<open>
  \<open>next\<close> without the construction of the message: the subfile, or \<open>None\<close> at the end.  An empty
  part is skipped by another round of the loop.
\<close>

primrec mb_next_loop ::
  "nat \<Rightarrow> nat \<Rightarrow> 'f file_ops \<Rightarrow> (string \<Rightarrow> bool) \<Rightarrow> (string \<Rightarrow> bool) \<Rightarrow> int \<times> 'f \<Rightarrow> (subfile option res \<times> int \<times> 'f) option"
where
  "mb_next_loop 0 lines ops is_start is_end s = None"
| "mb_next_loop (Suc fuel) lines ops is_start is_end s =
     (case on_file (fo_seek ops (fst s) 0) s of
        (Inl e, t) \<Rightarrow> Some (Inl e, t)
      | (Inr _, (seekp, f)) \<Rightarrow>
          (case search_start lines ops is_start f of
             None \<Rightarrow> None
           | Some (Inl EOFError, g) \<Rightarrow>
               Some (bindA (on_file (fo_tell ops)) (\<lambda>p. thenA (updA (\<lambda>(_, f). (p, f))) (retA None)) (seekp, g))
           | Some (Inl e, g) \<Rightarrow> Some (Inl e, (seekp, g))
           | Some (Inr _, g) \<Rightarrow>
               (case fo_tell ops g of
                  (Inl e, g) \<Rightarrow> Some (Inl e, (seekp, g))
                | (Inr start, g) \<Rightarrow>
                    (case search_end lines ops is_end g of
                       None \<Rightarrow> None
                     | Some (Inl e, h) \<Rightarrow> Some (Inl e, (seekp, h))
                     | Some (Inr _, h) \<Rightarrow>
                         (case fo_tell ops h of
                            (Inl e, h) \<Rightarrow> Some (Inl e, (seekp, h))
                          | (Inr stop, h) \<Rightarrow>
                              if start \<noteq> stop then Some (Inr (Some (subfile_init start stop)), (stop, h))
                              else mb_next_loop fuel lines ops is_start is_end (stop, h))))))"

definition unix_next :: "nat \<Rightarrow> nat \<Rightarrow> 'f file_ops \<Rightarrow> int \<times> 'f \<Rightarrow> (subfile option res \<times> int \<times> 'f) option" where
  "unix_next fuel lines ops = mb_next_loop fuel lines ops unix_from unix_from"

definition mmdf_next :: "nat \<Rightarrow> nat \<Rightarrow> 'f file_ops \<Rightarrow> int \<times> 'f \<Rightarrow> (subfile option res \<times> int \<times> 'f) option" where
  "mmdf_next fuel lines ops = mb_next_loop fuel lines ops mmdf_start mmdf_end"

text \<open>The message of a part: its headers are read through the subfile.\<close>

definition mb_message :: "nat \<Rightarrow> 'f sized_ops \<Rightarrow> subfile \<Rightarrow> 'f \<Rightarrow> (unit res \<times> message \<times> subfile \<times> 'f) option" where
  "mb_message fuel ops s f = message_init fuel (sf_ops ops) True (s, f)"

subsection \<open>A subfile is a file\<close>

lemma first_line_take_n: "first_line (take n s) = take n (first_line s)"
  by (induction s arbitrary: n) (auto simp: take_Cons' )

locale sized_file = line_file "file_ops.truncate ops" content posn ok
  for ops :: "'f sized_ops" and content :: "'f \<Rightarrow> string" and posn :: "'f \<Rightarrow> nat" and ok :: "'f \<Rightarrow> bool" +
  assumes readline_n: "ok f \<Longrightarrow> \<exists>g. fo_readline_n ops (int n) f =
      (Inr (take n (first_line (drop (posn f) (content f)))), g) \<and> ok g \<and> content g = content f"
begin

definition sub_ok :: "subfile \<times> 'f \<Rightarrow> bool" where
  "sub_ok = (\<lambda>(s, f). ok f \<and> 0 \<le> sf_start s \<and> sf_start s \<le> sf_stop s \<and> sf_stop s \<le> int (length (content f)) \<and>
     sf_start s \<le> sf_pos s)"

definition sub_content :: "subfile \<times> 'f \<Rightarrow> string" where
  "sub_content = (\<lambda>(s, f). pslice (sf_start s) (sf_stop s) (content f))"

definition sub_posn :: "subfile \<times> 'f \<Rightarrow> nat" where
  "sub_posn = (\<lambda>(s, f). nat (sf_pos s - sf_start s))"

lemma seek_sized: "ok f \<Longrightarrow> \<exists>g. fo_seek ops (int p) 0 f = (Inr (), g) \<and> ok g \<and> posn g = p \<and> content g = content f"
  using seek [of f p] by (simp add: file_ops.truncate_def)

lemma sub_readline:
  assumes "sub_ok (s, f)"
  shows "\<exists>g. sf_readline ops None (s, f) = (Inr (first_line (drop (sub_posn (s, f)) (sub_content (s, f)))), g) \<and>
    sub_ok g \<and> sub_content g = sub_content (s, f) \<and>
    drop (sub_posn g) (sub_content (s, f)) =
      drop (length (first_line (drop (sub_posn (s, f)) (sub_content (s, f))))) (drop (sub_posn (s, f)) (sub_content (s, f))) \<and>
    (sub_posn (s, f) \<le> length (sub_content (s, f)) \<longrightarrow>
      sub_posn g = sub_posn (s, f) + length (first_line (drop (sub_posn (s, f)) (sub_content (s, f)))))"
proof -
  define a b p where "a = nat (sf_start s)" and "b = nat (sf_stop s)" and "p = nat (sf_pos s)"
  with assms have n: "sf_start s = int a" "sf_stop s = int b" "sf_pos s = int p" "a \<le> b" "b \<le> length (content f)"
    "a \<le> p" "ok f"
    by (auto simp: sub_ok_def)
  have c: "sub_content (s, f) = take (b - a) (drop a (content f))" "sub_posn (s, f) = p - a"
    using n by (simp_all add: sub_content_def sub_posn_def pslice_nat)
  have rest: "drop (sub_posn (s, f)) (sub_content (s, f)) = take (b - p) (drop p (content f))"
    using n by (simp add: c drop_take)
  show ?thesis
  proof (cases "p < b")
    case False
    with n have "length (sub_content (s, f)) \<le> sub_posn (s, f)" by (simp add: c)
    with False n show ?thesis unfolding rest by (auto simp: sf_readline_def assms)
  next
    case True
    obtain g where g: "fo_seek ops (int p) 0 f = (Inr (), g)" "ok g" "posn g = p" "content g = content f"
      using seek_sized [OF n(7)] by blast
    obtain h where h: "fo_readline_n ops (int (b - p)) g = (Inr (take (b - p) (first_line (drop p (content f)))), h)"
      "ok h" "content h = content f"
      using readline_n [OF g(2), of "b - p"] g(3,4) by auto
    let ?l = "first_line (drop (sub_posn (s, f)) (sub_content (s, f)))"
    have l: "take (b - p) (first_line (drop p (content f))) = ?l" unfolding rest by (simp add: first_line_take_n)
    have len: "length ?l \<le> b - p" unfolding rest using first_line_length [of "take (b - p) (drop p (content f))"] by simp
    let ?t = "s\<lparr>sf_pos := int p + int (length ?l)\<rparr>"
    have bp: "int b - int p = int (b - p)" using True by simp
    have r: "fo_readline_n ops (int b - int p) g = (Inr ?l, h)" unfolding bp h(1) l ..
    have m: "(if int (length ?l) < int b - int p then int (length ?l) else int b - int p) = int (length ?l)"
      using of_nat_mono [OF len, where 'a = int] unfolding bp by auto
    have "sf_readline ops None (s, f) = (Inr ?l, (?t, h))"
      using True by (simp add: sf_readline_def n(1-3) g(1) thenA_def bindA_def r m)
    moreover have "sub_ok (?t, h)" using n h by (simp add: sub_ok_def)
    moreover have "sub_content (?t, h) = sub_content (s, f)" using h(3) by (simp add: sub_content_def)
    moreover have "sub_posn (?t, h) = sub_posn (s, f) + length ?l" using n by (simp add: sub_posn_def)
    ultimately show ?thesis by (intro exI [of _ "(?t, h)"]) (simp add: add.commute)
  qed
qed

end

sublocale sized_file \<subseteq> sub: line_file "sf_ops ops" sub_content sub_posn sub_ok
proof unfold_locales
  fix x :: "subfile \<times> 'f" and p :: nat and d :: int
  obtain s f where x: "x = (s, f)" by (cases x)
  assume ok: "sub_ok x"
  show "fo_tell (sf_ops ops) x = (Inr (int (sub_posn x)), x)"
    using ok by (auto simp: x sf_ops_def sf_tell_def sub_posn_def sub_ok_def)
  show "\<exists>g. fo_seek (sf_ops ops) (int p) 0 x = (Inr (), g) \<and> sub_ok g \<and> sub_posn g = p \<and> sub_content g = sub_content x"
    using ok by (auto simp: x sf_ops_def sf_seek_def sub_posn_def sub_ok_def sub_content_def)
  show "\<exists>g. fo_readline (sf_ops ops) x = (Inr (first_line (drop (sub_posn x) (sub_content x))), g) \<and> sub_ok g \<and>
      sub_content g = sub_content x \<and>
      drop (sub_posn g) (sub_content x) = drop (length (first_line (drop (sub_posn x) (sub_content x)))) (drop (sub_posn x) (sub_content x)) \<and>
      (sub_posn x \<le> length (sub_content x) \<longrightarrow>
        sub_posn g = sub_posn x + length (first_line (drop (sub_posn x) (sub_content x))))"
    using sub_readline [of s f] ok by (simp add: x sf_ops_def)
  show "\<exists>g. fo_seek (sf_ops ops) d 1 x = (Inr (), g) \<and> sub_ok g \<and> sub_posn g = nat (int (sub_posn x) + d) \<and>
      sub_content g = sub_content x" if "0 \<le> int (sub_posn x) + d"
    using ok that by (auto simp: x sf_ops_def sf_seek_def sub_posn_def sub_ok_def sub_content_def)
qed

text \<open>The built-in file has the limited \<open>readline\<close>.\<close>

definition pf_sized_ops :: "pyfile sized_ops" where
  "pf_sized_ops = file_ops.extend pf_ops \<lparr>fo_readline_n = (\<lambda>n f.
     let s = take (nat n) (first_line (drop (f_pos f) (f_data f))) in (Inr s, f\<lparr>f_pos := f_pos f + length s\<rparr>))\<rparr>"

interpretation spf: sized_file pf_sized_ops f_data f_pos "\<lambda>_. True"
proof -
  have "file_ops.truncate pf_sized_ops = pf_ops"
    by (simp add: pf_sized_ops_def file_ops.truncate_def file_ops.extend_def)
  then show "sized_file pf_sized_ops f_data f_pos (\<lambda>_. True)"
    using pf.line_file_axioms
    by (simp add: sized_file_def sized_file_axioms_def) (simp add: pf_sized_ops_def file_ops.extend_def Let_def)
qed

subsection \<open>The messages of a mailbox\<close>

text \<open>A client: the parts in the order \<open>next\<close> returns them.\<close>

primrec mb_parts ::
  "nat \<Rightarrow> nat \<Rightarrow> 'f file_ops \<Rightarrow> (string \<Rightarrow> bool) \<Rightarrow> (string \<Rightarrow> bool) \<Rightarrow> subfile list \<Rightarrow> int \<times> 'f \<Rightarrow>
     (subfile list res \<times> int \<times> 'f) option" where
  "mb_parts 0 lines ops is_start is_end acc s = None"
| "mb_parts (Suc fuel) lines ops is_start is_end acc s =
     (case mb_next_loop (Suc fuel) lines ops is_start is_end s of
        None \<Rightarrow> None
      | Some (Inl e, t) \<Rightarrow> Some (Inl e, t)
      | Some (Inr None, t) \<Rightarrow> Some (Inr acc, t)
      | Some (Inr (Some p), t) \<Rightarrow> mb_parts fuel lines ops is_start is_end (acc @ [p]) t)"

text \<open>A mailbox as its messages: the separator line and the lines of the message.\<close>

definition mb_text :: "(string \<times> string list) list \<Rightarrow> string" where
  "mb_text ms = concat (map (\<lambda>(h, ls). h @ concat ls) ms)"

definition mb_bounds :: "nat \<Rightarrow> (string \<times> string list) list \<Rightarrow> subfile list" where
  "mb_bounds p ms = snd (foldl (\<lambda>(p, acc) (h, ls).
     (p + length h + length (concat ls), acc @ [subfile_init (int (p + length h)) (int (p + length h + length (concat ls)))]))
     (p, []) ms)"

lemma mb_bounds_Cons:
  "mb_bounds p ((h, ls) # ms) = subfile_init (int (p + length h)) (int (p + length h + length (concat ls))) #
    mb_bounds (p + length h + length (concat ls)) ms"
proof -
  have "foldl (\<lambda>(p, acc) (h, ls). (p + length h + length (concat ls),
      acc @ [subfile_init (int (p + length h)) (int (p + length h + length (concat ls)))])) (p, acc) ms =
    (fst (foldl (\<lambda>(p, acc) (h, ls). (p + length h + length (concat ls),
      acc @ [subfile_init (int (p + length h)) (int (p + length h + length (concat ls)))])) (p, []) ms),
     acc @ mb_bounds p ms)" for p acc
    unfolding mb_bounds_def
  proof (induction ms arbitrary: p acc)
    case (Cons m ms)
    obtain h ls where m: "m = (h, ls)" by (cases m)
    let ?q = "p + length h + length (concat ls)"
    let ?e = "subfile_init (int (p + length h)) (int ?q)"
    show ?case
      using Cons.IH [of ?q "acc @ [?e]"] Cons.IH [of ?q "[?e]"] by (simp add: m)
  qed simp
  from this [of "p + length h + length (concat ls)" "[subfile_init (int (p + length h)) (int (p + length h + length (concat ls)))]"]
  show ?thesis unfolding mb_bounds_def by simp
qed

context line_file
begin

definition inside :: "'f \<Rightarrow> bool" where
  "inside f \<longleftrightarrow> ok f \<and> posn f \<le> length (content f)"

lemma inside_line:
  assumes "inside f" "text_line l" "ahead f = l @ rest"
  obtains g where "fo_readline ops f = (Inr l, g)" "inside g" "content g = content f" "ahead g = rest"
    "posn g = posn f + length l"
proof -
  obtain g where "fo_readline ops f = (Inr (first_line (ahead f)), g)" "ok g" "content g = content f"
    "ahead g = drop (length (first_line (ahead f))) (ahead f)"
    "posn g = posn f + length (first_line (ahead f))" "posn g \<le> length (content g)"
    using read_line_posn assms(1) unfolding inside_def by metis
  then show ?thesis
    using that [of g] first_line_text_line [OF assms(2), of rest] assms(3) by (simp add: inside_def)
qed

lemma search_start_line:
  assumes "inside f" "text_line h" "is_start h" "ahead f = h @ rest" "0 < fuel"
  obtains g where "search_start fuel ops is_start f = Some (Inr (), g)" "inside g" "content g = content f"
    "ahead g = rest" "posn g = posn f + length h"
proof -
  obtain n where "fuel = Suc n" using assms(5) by (cases fuel) auto
  moreover from assms(2) have "h \<noteq> []" by (auto simp: text_line_def)
  moreover obtain g where "fo_readline ops f = (Inr h, g)" "inside g" "content g = content f" "ahead g = rest"
    "posn g = posn f + length h"
    using inside_line [OF assms(1,2,4)] .
  ultimately show ?thesis using assms(3) by (intro that [of g]) (simp_all add: search_start_def)
qed

lemma search_start_eof:
  assumes "inside f" "ahead f = []" "0 < fuel"
  obtains g where "search_start fuel ops is_start f = Some (Inl EOFError, g)" "inside g" "content g = content f"
    "ahead g = []"
proof -
  obtain n where "fuel = Suc n" using assms(3) by (cases fuel) auto
  moreover obtain g where "fo_readline ops f = (Inr [], g)" "inside g" "content g = content f" "ahead g = []"
    using read_line_posn [of f] assms(1,2) unfolding inside_def by (metis drop_Nil first_line.simps(1))
  ultimately show ?thesis by (intro that [of g]) (simp_all add: search_start_def)
qed

lemma search_end_loop:
  "inside f \<Longrightarrow> list_all (\<lambda>l. text_line l \<and> \<not> is_end l) ls \<Longrightarrow> ahead f = concat ls @ rest \<Longrightarrow>
    rest = [] \<or> (\<exists>h t. rest = h @ t \<and> text_line h \<and> is_end h) \<Longrightarrow> length ls < fuel \<Longrightarrow>
    \<exists>r p g. line_loop fuel (tell_readline ops)
        (\<lambda>line (pos, f). if is_end line
            then thenA (on_file (fo_seek ops pos 0)) (retA (Some ())) (pos, f) else (Inr None, (pos, f))) (q, f) =
        Some (Inr r, (p, g)) \<and> inside g \<and> content g = content f \<and> posn g = posn f + length (concat ls)"
proof (induction ls arbitrary: f q fuel)
  case Nil
  from Nil(5) obtain n where n: "fuel = Suc n" by (cases fuel) auto
  from Nil(1) have ok: "ok f" by (simp add: inside_def)
  show ?case
  proof (cases "rest = []")
    case True
    obtain g where g: "fo_readline ops f = (Inr [], g)" "inside g" "content g = content f" "posn g = posn f"
      using read_line_posn [of f] Nil(1,3) True unfolding inside_def
      by simp (metis add.right_neutral list.size(3))
    then show ?thesis
      using tell [OF ok] by (intro exI [of _ None] exI [of _ "int (posn f)"] exI [of _ g])
        (simp add: n tell_readline_def thenA_def bindA_def)
  next
    case False
    with Nil(4) obtain h t where h: "rest = h @ t" "text_line h" "is_end h" by blast
    obtain g where g: "fo_readline ops f = (Inr h, g)" "inside g" "content g = content f"
      using inside_line [OF Nil(1) h(2), of t] Nil(3) h(1) by auto
    obtain k where k: "fo_seek ops (int (posn f)) 0 g = (Inr (), k)" "ok k" "posn k = posn f" "content k = content g"
      using seek [of g "posn f"] g(2) by (auto simp: inside_def)
    have "h \<noteq> []" using h(2) by (auto simp: text_line_def)
    with tell [OF ok] g k h(3) Nil(1) show ?thesis
      by (intro exI [of _ "Some ()"] exI [of _ "int (posn f)"] exI [of _ k])
        (simp add: n tell_readline_def inside_def thenA_def bindA_def)
  qed
next
  case (Cons l ls)
  from Cons.prems(5) obtain n where n: "fuel = Suc n" by (cases fuel) auto
  from Cons.prems(1) have ok: "ok f" by (simp add: inside_def)
  from Cons.prems(2) have l: "text_line l" "l \<noteq> []" "\<not> is_end l" by (auto simp: text_line_def)
  obtain g where g: "fo_readline ops f = (Inr l, g)" "inside g" "content g = content f" "ahead g = concat ls @ rest"
    "posn g = posn f + length l"
    using inside_line [OF Cons.prems(1) l(1), of "concat ls @ rest"] Cons.prems(3) by auto
  have "tell_readline ops (q, f) = (Inr l, (int (posn f), g))"
    using tell [OF ok] g(1) by (simp add: tell_readline_def thenA_def bindA_def)
  with Cons.IH [OF g(2) _ g(4) Cons.prems(4), of n "int (posn f)"] Cons.prems(2,5) g l
  show ?case by (simp add: n add.assoc)
qed

lemma search_end_lines:
  assumes "inside f" "list_all (\<lambda>l. text_line l \<and> \<not> is_end l) ls" "ahead f = concat ls @ rest"
    and "rest = [] \<or> (\<exists>h t. rest = h @ t \<and> text_line h \<and> is_end h)" "length ls < fuel"
  obtains g where "search_end fuel ops is_end f = Some (Inr (), g)" "inside g" "content g = content f"
    "posn g = posn f + length (concat ls)"
  using search_end_loop [OF assms, of 0] that by (auto simp: search_end_def)

lemma mb_parts_read:
  assumes se: "\<And>h. is_start h \<longleftrightarrow> is_end h" and lines: "list_all (\<lambda>(h, ls). length ls < lines) ms" "0 < lines"
    and good: "list_all (\<lambda>(h, ls). text_line h \<and> is_end h \<and> ls \<noteq> [] \<and> list_all (\<lambda>l. text_line l \<and> \<not> is_end l) ls) ms"
  shows "inside f \<Longrightarrow> drop p (content f) = mb_text ms \<Longrightarrow> p \<le> length (content f) \<Longrightarrow> length ms < fuel \<Longrightarrow>
    \<exists>t. mb_parts fuel lines ops is_start is_end acc (int p, f) = Some (Inr (acc @ mb_bounds p ms), t)"
  using lines(1) good
proof (induction ms arbitrary: f p acc fuel)
  case Nil
  from Nil(4) obtain n where n: "fuel = Suc n" by (cases fuel) auto
  obtain f1 where f1: "fo_seek ops (int p) 0 f = (Inr (), f1)" "inside f1" "posn f1 = p" "content f1 = content f"
    using seek [of f p] Nil(1,3) by (auto simp: inside_def)
  have "ahead f1 = []" using Nil(2) f1(3,4) by (simp add: ahead_def mb_text_def)
  then obtain g where g: "search_start lines ops is_start f1 = Some (Inl EOFError, g)" "inside g"
    using search_start_eof [OF f1(2) _ lines(2)] by metis
  from g(2) have "ok g" by (simp add: inside_def)
  with f1 g tell [of g] show ?case
    by (simp add: n mb_bounds_def thenA_def bindA_def)
next
  case (Cons m ms)
  obtain h ls where m: "m = (h, ls)" by (cases m)
  from Cons.prems(4) obtain n where n: "fuel = Suc n" "length ms < n" by (cases fuel) auto
  from Cons.prems(5,6) have g: "text_line h" "is_end h" "ls \<noteq> []" "list_all (\<lambda>l. text_line l \<and> \<not> is_end l) ls"
    "length ls < lines"
    "list_all (\<lambda>(h, ls). text_line h \<and> is_end h \<and> ls \<noteq> [] \<and> list_all (\<lambda>l. text_line l \<and> \<not> is_end l) ls) ms"
    by (auto simp: m)
  obtain f1 where f1: "fo_seek ops (int p) 0 f = (Inr (), f1)" "inside f1" "posn f1 = p" "content f1 = content f"
    using seek [of f p] Cons.prems(1,3) by (auto simp: inside_def)
  have a: "ahead f1 = h @ concat ls @ mb_text ms"
    using Cons.prems(2) f1(3,4) by (simp add: ahead_def mb_text_def m)
  obtain f2 where f2: "search_start lines ops is_start f1 = Some (Inr (), f2)" "inside f2" "content f2 = content f1"
    "ahead f2 = concat ls @ mb_text ms" "posn f2 = posn f1 + length h"
    using search_start_line [OF f1(2) g(1) _ a lines(2)] g(2) se by metis
  have rest: "mb_text ms = [] \<or> (\<exists>h t. mb_text ms = h @ t \<and> text_line h \<and> is_end h)"
  proof (cases ms)
    case (Cons k ms')
    with g(6) show ?thesis
      by (intro disjI2 exI [of _ "fst k"] exI [of _ "concat (snd k) @ mb_text ms'"])
        (auto simp: mb_text_def split_beta)
  qed (simp add: mb_text_def)
  obtain f3 where f3: "search_end lines ops is_end f2 = Some (Inr (), f3)" "inside f3" "content f3 = content f2"
    "posn f3 = posn f2 + length (concat ls)"
    using search_end_lines [OF f2(2) g(4) f2(4) rest g(5)] .
  let ?start = "p + length h" and ?stop = "p + length h + length (concat ls)"
  have ne: "concat ls \<noteq> []" using g(3,4) by (cases ls) (auto simp: text_line_def)
  have t: "fo_tell ops f2 = (Inr (int ?start), f2)" "fo_tell ops f3 = (Inr (int ?stop), f3)"
    using tell [of f2] tell [of f3] f1(3) f2(2,5) f3(2,4) by (simp_all add: inside_def add.assoc)
  have nxt: "mb_next_loop (Suc n) lines ops is_start is_end (int p, f) =
      Some (Inr (Some (subfile_init (int ?start) (int ?stop))), (int ?stop, f3))"
    using f1(1) f2(1) f3(1) t ne by simp
  have "drop ?stop (content f3) = mb_text ms"
  proof -
    have "drop ?stop (content f) = drop (length (h @ concat ls)) (drop p (content f))"
      by (simp add: add.commute add.left_commute)
    then show ?thesis
      unfolding Cons.prems(2) using f3(3) f2(3) f1(4) by (simp add: m mb_text_def)
  qed
  moreover have "?stop \<le> length (content f3)"
    using f3(2) f3(4) f2(5) f1(3) by (simp add: inside_def add.assoc)
  moreover have "list_all (\<lambda>(h, ls). length ls < lines) ms" using Cons.prems(5) by (simp add: m)
  ultimately have "\<exists>u. mb_parts n lines ops is_start is_end
      (acc @ [subfile_init (int ?start) (int ?stop)]) (int ?stop, f3) =
      Some (Inr ((acc @ [subfile_init (int ?start) (int ?stop)]) @ mb_bounds ?stop ms), u)"
    by (intro Cons.IH [OF f3(2) _ _ n(2) _ g(6)])
  then show ?case
    unfolding n(1) mb_parts.simps nxt by (simp add: m mb_bounds_Cons)
qed

end

lemma mb_bounds_content:
  "drop p d = mb_text ms \<Longrightarrow> map (\<lambda>s. pslice (sf_start s) (sf_stop s) d) (mb_bounds p ms) = map (\<lambda>(h, ls). concat ls) ms"
proof (induction ms arbitrary: p)
  case Nil
  then show ?case by (simp add: mb_bounds_def)
next
  case (Cons m ms)
  obtain h ls where m: "m = (h, ls)" by (cases m)
  let ?q = "p + length h + length (concat ls)"
  have d: "drop p d = h @ concat ls @ mb_text ms" using Cons.prems by (simp add: m mb_text_def)
  have "drop (p + length h) d = drop (length h) (drop p d)" by (simp add: add.commute)
  then have a: "drop (p + length h) d = concat ls @ mb_text ms" unfolding d by simp
  have "drop ?q d = drop (length (concat ls)) (drop (p + length h) d)" by (simp add: add.commute)
  then have "drop ?q d = mb_text ms" unfolding a by simp
  from Cons.IH [OF this] a show ?case
    by (simp only: m mb_bounds_Cons list.map prod.case subfile_init_def subfile.simps pslice_nat) simp
qed

text \<open>The messages of a Unix mailbox are found, and each one is read from its own part.\<close>

lemma unix_mailbox_parts:
  assumes "list_all (\<lambda>(h, ls). text_line h \<and> unix_from h \<and> ls \<noteq> [] \<and> list_all (\<lambda>l. text_line l \<and> \<not> unix_from l) ls) ms"
    and "list_all (\<lambda>(h, ls). length ls < lines) ms" "0 < lines" "length ms < fuel"
  shows "\<exists>parts t. mb_parts fuel lines pf_ops unix_from unix_from [] (0, \<lparr>f_data = mb_text ms, f_pos = 0\<rparr>) = Some (Inr parts, t) \<and>
    map (\<lambda>s. pslice (sf_start s) (sf_stop s) (mb_text ms)) parts = map (\<lambda>(h, ls). concat ls) ms"
  using pf.mb_parts_read [OF refl assms(2,3,1), of "\<lparr>f_data = mb_text ms, f_pos = 0\<rparr>" 0 fuel "[]"] assms(4)
    mb_bounds_content [of 0 "mb_text ms" ms]
  by (auto simp: pf.inside_def)

lemma mb_message_reads_part:
  assumes "0 \<le> start" "start \<le> stop" "stop \<le> int (length d)" "nat (stop - start) < fuel"
  shows "\<exists>m g sep. mb_message fuel pf_sized_ops (subfile_init start stop) \<lparr>f_data = d, f_pos = p\<rparr> = Some (Inr (), (m, g)) \<and>
    pslice start stop d = msg_unixfrom m @ concat (msg_headers m) @ sep @ spf.sub.ahead g \<and> sep \<in> {[], [NL], [CR, NL]}"
proof -
  let ?s = "(subfile_init start stop, \<lparr>f_data = d, f_pos = p\<rparr>)"
  have ok: "spf.sub_ok ?s" using assms by (simp add: spf.sub_ok_def subfile_init_def)
  have c: "spf.sub_content ?s = pslice start stop d" "spf.sub_posn ?s = 0"
    by (simp_all add: spf.sub_content_def spf.sub_posn_def subfile_init_def)
  have "length (spf.sub_content ?s) < fuel"
    using assms by (simp add: c pslice_nonneg)
  from spf.sub.message_init_keeps [OF ok _ this] c show ?thesis
    by (auto simp: mb_message_def spf.sub.ahead_def)
qed

text \<open>An explicit length is not limited to the part: the read goes on into the next message.\<close>

lemma sf_read_past_end:
  "fst (sf_read pf_sized_ops (Some 5) (subfile_init 0 3, \<lparr>f_data = ''abcdef'', f_pos = 0\<rparr>)) = Inr ''abcde''"
  by (simp add: sf_read_def subfile_init_def pf_sized_ops_def file_ops.extend_def pf_ops_def pf_seek_def pf_read_def
    thenA_def bindA_def)

end
