(* ===== verification/Mimewriter.thy ===== *)
theory Mimewriter
  imports Rfc822
begin

section \<open>\<open>Lib/MimeWriter.py\<close>: writing multipart messages\<close>

text \<open>
  A writer is its pending headers and its boundary (unset until \<open>startmultipartbody\<close>), beside the
  file it writes to.  The boundary that \<open>mimetools.choose_boundary\<close> makes from the host, the
  process and the time is a parameter.  A message written this way is read back by
  \<open>Lib/rfc822.py\<close>.
\<close>

subsection \<open>Definitions\<close>

record mime_writer =
  mw_headers :: "string list"
  mw_boundary :: "string option"

definition mw_init :: mime_writer where
  "mw_init = \<lparr>mw_headers = [], mw_boundary = None\<rparr>"

definition mw_header_line :: "string \<Rightarrow> string \<Rightarrow> string" where
  "mw_header_line key value =
     (let lines = splitfields value [NL] 0;
          lines = rev (dropWhile (\<lambda>l. l = []) (rev lines));
          lines = dropWhile (\<lambda>l. l = []) lines;
          lines = foldl (\<lambda>lines i. lines[i := ''    '' @ strip (lines ! i)]) lines [1..<length lines];
          value = joinfields lines [NL] @ [NL]
      in key @ '': '' @ value)"

definition mw_addheader :: "string \<Rightarrow> string \<Rightarrow> bool \<Rightarrow> (mime_writer \<times> 'f, unit) act" where
  "mw_addheader key value front =
     (let line = mw_header_line key value
      in updA (\<lambda>(w, f). (if front then w\<lparr>mw_headers := line # mw_headers w\<rparr>
           else w\<lparr>mw_headers := mw_headers w @ [line]\<rparr>, f)))"

definition mw_flushheaders :: "'f file_ops \<Rightarrow> (mime_writer \<times> 'f, unit) act" where
  "mw_flushheaders ops =
     bindA (getA (\<lambda>(w, f). mw_headers w)) (\<lambda>hs.
       thenA (on_file (forA (fo_write ops) hs)) (updA (\<lambda>(w, f). (w\<lparr>mw_headers := []\<rparr>, f))))"

definition mw_startbody ::
  "'f file_ops \<Rightarrow> string \<Rightarrow> (string \<times> string) list \<Rightarrow> bool \<Rightarrow> (mime_writer \<times> 'f, unit) act" where
  \<comment> \<open>it returns the file, which is the state\<close>
  "mw_startbody ops ctype plist front =
     (let ctype = foldl (\<lambda>ctype (name, value). ctype @ '';'' @ [NL] @ '' '' @ name @ ''='' @ [DQUOTE] @ value @ [DQUOTE])
            ctype plist
      in thenA (mw_addheader ''Content-Type'' ctype front)
         (thenA (mw_flushheaders ops) (on_file (fo_write ops [NL]))))"

definition mw_startmultipartbody ::
  "'f file_ops \<Rightarrow> string \<Rightarrow> string \<Rightarrow> string option \<Rightarrow> (string \<times> string) list \<Rightarrow> bool \<Rightarrow> (mime_writer \<times> 'f, unit) act"
where
  "mw_startmultipartbody ops chosen subtype boundary plist front =
     (let b = (case boundary of None \<Rightarrow> chosen | Some b \<Rightarrow> if b = [] then chosen else b)
      in thenA (updA (\<lambda>(w, f). (w\<lparr>mw_boundary := Some b\<rparr>, f)))
           (mw_startbody ops (''multipart/'' @ subtype) ((''boundary'', b) # plist) front))"

definition mw_separator :: "'f file_ops \<Rightarrow> string \<Rightarrow> (mime_writer \<times> 'f, unit) act" where
  "mw_separator ops tail = (\<lambda>(w, f).
     case mw_boundary w of
       None \<Rightarrow> (Inl AttributeError, (w, f))
     | Some b \<Rightarrow> on_file (fo_write ops ([NL] @ ''--'' @ b @ tail @ [NL])) (w, f))"

definition mw_nextpart :: "'f file_ops \<Rightarrow> (mime_writer \<times> 'f, mime_writer) act" where
  "mw_nextpart ops = thenA (mw_separator ops []) (retA mw_init)"

definition mw_lastpart :: "'f file_ops \<Rightarrow> (mime_writer \<times> 'f, unit) act" where
  "mw_lastpart ops = mw_separator ops ''--''"

subsection \<open>What is written\<close>

lemma strip_continuations:
  "n \<le> length ls \<Longrightarrow> foldl (\<lambda>lines i. lines[i := ''    '' @ strip (lines ! i)]) ls [1..<n] =
    map (\<lambda>i. if 1 \<le> i \<and> i < n then ''    '' @ strip (ls ! i) else ls ! i) [0..<length ls]"
proof (induction n)
  case 0
  then show ?case by (simp add: map_nth)
next
  case (Suc n)
  then show ?case
    by (cases n) (auto intro!: nth_equalityI simp: nth_list_update less_Suc_eq map_nth)
qed

lemma joinfields_lines: "joinfields (l # ls) [NL] @ [NL] = concat (map (\<lambda>l. l @ [NL]) (l # ls))"
  by (induction ls arbitrary: l) (simp_all add: joinfields_concat)

lemma dropWhile_first: "ls \<noteq> [] \<Longrightarrow> hd ls \<noteq> [] \<Longrightarrow> dropWhile (\<lambda>l. l = []) ls = ls"
  by (cases ls) simp_all

text \<open>The header of a value without blank lines at its ends is the header with its continuation lines.\<close>

lemma mw_header_line_lines:
  assumes "good_header (key, ls)"
  shows "mw_header_line key (joinfields ls [NL]) = concat (header_lines (key, ls))"
proof -
  have "strip [] = []" by code_simp
  with assms have ls: "ls \<noteq> []" "\<And>l. l \<in> set ls \<Longrightarrow> l \<noteq> [] \<and> NL \<notin> set l"
    by (auto simp: good_header_def list_all_iff)
  obtain l ls' where l: "ls = l # ls'" using ls(1) by (cases ls) auto
  have "hd (rev ls) \<noteq> []" "hd ls \<noteq> []" using ls by (simp_all add: hd_rev)
  then have d: "dropWhile (\<lambda>l. l = []) (rev ls) = rev ls" "dropWhile (\<lambda>l. l = []) ls = ls"
    using ls(1) by (simp_all add: dropWhile_first)
  have s: "splitfields (joinfields ls [NL]) [NL] 0 = ls"
    using ls by (simp add: splitfields_split_on split_on_fields)
  have "map (\<lambda>i. if 1 \<le> i \<and> i < length ls then ''    '' @ strip (ls ! i) else ls ! i) [0..<length ls] =
      l # map (\<lambda>l. ''    '' @ strip l) ls'" (is "?L = ?R")
  proof (rule nth_equalityI)
    fix i
    assume "i < length ?L"
    then show "?L ! i = ?R ! i" by (cases i) (simp_all add: l del: upt_Suc)
  qed (simp add: l)
  with strip_continuations [OF le_refl, of ls]
  have "mw_header_line key (joinfields ls [NL]) = key @ '': '' @ joinfields (l # map (\<lambda>l. ''    '' @ strip l) ls') [NL] @ [NL]"
    by (simp add: mw_header_line_def Let_def s d)
  then show ?thesis
    unfolding joinfields_lines by (simp add: l comp_def)
qed

lemma mw_addheaders:
  "forA (\<lambda>(k, v). mw_addheader k v False) kvs (w, f) =
    (Inr (), (w\<lparr>mw_headers := mw_headers w @ map (\<lambda>(k, v). mw_header_line k v) kvs\<rparr>, f))"
  by (induction kvs arbitrary: w)
    (simp_all add: mw_addheader_def Let_def thenA_def bindA_def split_beta)

lemma mw_startbody_written:
  "mw_startbody pf_ops ctype [] True (w, file_end d) =
    (Inr (), (w\<lparr>mw_headers := []\<rparr>, file_end (d @ mw_header_line ''Content-Type'' ctype @ concat (mw_headers w) @ [NL])))"
proof -
  have "mw_flushheaders pf_ops (v, file_end d) =
      (Inr (), (v\<lparr>mw_headers := []\<rparr>, file_end (d @ concat (mw_headers v))))" for v
    by (simp add: mw_flushheaders_def bindA_def thenA_def forA_write)
  then show ?thesis
    by (simp add: mw_startbody_def mw_addheader_def Let_def thenA_def bindA_def write_file_end)
qed

subsection \<open>Written and read\<close>

text \<open>A client: the headers, the content type, the body; the file that is written is then read.\<close>

definition mime_save :: "(string \<times> string) list \<Rightarrow> string \<Rightarrow> string \<Rightarrow> unit res \<times> pyfile" where
  "mime_save kvs ctype body =
     (let (r, (_, f)) =
        thenA (forA (\<lambda>(k, v). mw_addheader k v False) kvs)
        (thenA (mw_startbody pf_ops ctype [] True) (on_file (fo_write pf_ops body))) (mw_init, file_end [])
      in (r, f))"

lemma mime_roundtrip:
  assumes hs: "list_all good_header hs" and ct: "strip ctype \<noteq> []" "NL \<notin> set ctype"
  defines "all \<equiv> (''Content-Type'', [ctype]) # hs"
  shows "\<exists>data m g. mime_save (map (\<lambda>(k, ls). (k, joinfields ls [NL])) hs) ctype body = (Inr (), file_end data) \<and>
    message_init (length data + 1) pf_ops True \<lparr>f_data = data, f_pos = 0\<rparr> = Some (Inr (), (m, g)) \<and>
    msg_headers m = concat (map header_lines all) \<and> msg_status m = [] \<and>
    (\<forall>k. getheader m k = map_of (rev (map (\<lambda>(k, ls). (lower k, value_read ls)) all)) (lower k)) \<and>
    drop (f_pos g) (f_data g) = body"
proof -
  have "header_name ''Content-Type''" by (simp add: header_name_def whitespace_def)
  with ct have gct: "good_header (''Content-Type'', [ctype])" by (simp add: good_header_def)
  with hs have good: "list_all good_header all" by (simp add: all_def)
  have written: "concat (map (\<lambda>(k, ls). mw_header_line k (joinfields ls [NL])) hs) = concat (concat (map header_lines hs))"
    using hs by (induction hs) (auto simp: mw_header_line_lines)
  have ctl: "mw_header_line ''Content-Type'' ctype = concat (header_lines (''Content-Type'', [ctype]))"
    using mw_header_line_lines [OF gct] by (simp add: joinfields_concat)
  define data where "data = concat (concat (map header_lines all)) @ [NL] @ body"
  let ?kvs = "map (\<lambda>(k, ls). (k, joinfields ls [NL])) hs"
  let ?w = "mw_init\<lparr>mw_headers := map (\<lambda>(k, v). mw_header_line k v) ?kvs\<rparr>"
  have w: "concat (mw_headers ?w) = concat (concat (map header_lines hs))"
    by (simp add: comp_def split_beta written [unfolded split_beta])
  have 1: "forA (\<lambda>(k, v). mw_addheader k v False) ?kvs (mw_init, file_end []) = (Inr (), (?w, file_end []))"
    using mw_addheaders [of ?kvs mw_init "file_end []"] by (simp add: mw_init_def)
  have 2: "mw_startbody pf_ops ctype [] True (?w, file_end []) =
      (Inr (), (?w\<lparr>mw_headers := []\<rparr>, file_end (concat (concat (map header_lines all)) @ [NL])))"
    unfolding mw_startbody_written w ctl by (simp add: all_def)
  have 3: "on_file (fo_write pf_ops body) (?w\<lparr>mw_headers := []\<rparr>, file_end (concat (concat (map header_lines all)) @ [NL])) =
      (Inr (), (?w\<lparr>mw_headers := []\<rparr>, file_end data))"
    by (simp add: write_file_end data_def)
  have "thenA (forA (\<lambda>(k, v). mw_addheader k v False) ?kvs)
      (thenA (mw_startbody pf_ops ctype [] True) (on_file (fo_write pf_ops body))) (mw_init, file_end []) =
      (Inr (), (?w\<lparr>mw_headers := []\<rparr>, file_end data))"
    by (rule thenA_step, rule 1, rule thenA_step, rule 2, rule 3)
  then have "mime_save ?kvs ctype body = (Inr (), file_end data)"
    by (simp only: mime_save_def Let_def prod.case)
  note saved = this
  have lines: "list_all text_line (concat (map header_lines all))"
    using good header_lines_text by (fastforce simp: list_all_iff)
  let ?f = "\<lparr>f_data = data, f_pos = 0\<rparr>"
  let ?m = "(new_message True)\<lparr>msg_startofheaders := Some (int (f_pos ?f))\<rparr>"
  obtain d seen first where d: "go_on (concat (map header_lines all)) (?m, [], True) =
      Some (?m\<lparr>msg_headers := msg_headers ?m @ concat (map header_lines all), msg_dict := d\<rparr>, seen, first)"
    "map_of d = foldl (\<lambda>dict (k, ls). dict(lower k \<mapsto> value_read ls)) (map_of (msg_dict ?m)) all"
    using headers_read [OF good, of ?m "[]" True] by blast
  have len: "length ls \<le> length (concat ls)" if "list_all text_line ls" for ls
    using that by (induction ls) (auto simp: text_line_def)
  have "length (concat (map header_lines all)) < length data + 1"
    using len [OF lines] by (simp add: data_def)
  from pf.message_init_well_formed [OF d(1) lines TrueI _ this] obtain g where
    g: "message_init (length data + 1) pf_ops True ?f =
        Some (Inr (), (?m\<lparr>msg_headers := msg_headers ?m @ concat (map header_lines all), msg_dict := d,
          msg_startofbody := Some (int (f_pos g))\<rparr>, g))" "pf.ahead g = body"
    by (auto simp: pf.ahead_def data_def new_message_def)
  have upd: "foldl (\<lambda>dict (k, ls). dict(lower k \<mapsto> value_read ls)) e hs =
      e ++ map_of (rev (map (\<lambda>(k, ls). (lower k, value_read ls)) hs))" for e hs
    by (induction hs arbitrary: e) (auto simp: map_add_upd_left split_beta)
  have "map_of d = map_of (rev (map (\<lambda>(k, ls). (lower k, value_read ls)) all))"
    unfolding d(2) upd by (simp add: new_message_def)
  with saved g(1) show ?thesis
    by (intro exI [of _ data] exI [of _ "?m\<lparr>msg_headers := msg_headers ?m @ concat (map header_lines all), msg_dict := d,
        msg_startofbody := Some (int (f_pos g))\<rparr>"] exI [of _ g])
      (use g(2) in \<open>simp add: getheader_def new_message_def pf.ahead_def\<close>)
qed

end
