(* ===== verification/Multifile.thy ===== *)
theory Multifile
  imports Lines
begin

section \<open>\<open>Lib/multifile.py\<close>: the parts of a multipart message as files\<close>

text \<open>
  A \<open>MultiFile\<close> beside the file it reads.  The stacks grow at the front, as in the code;
  \<open>lastpos\<close> is an attribute that only a separator line sets.  What is written to the standard
  error is kept in \<open>mf_err\<close>.
\<close>

subsection \<open>Definitions\<close>

record multifile =
  mf_stack :: "string list"
  mf_level :: nat
  mf_last :: bool
  mf_start :: int
  mf_posstack :: "int list"
  mf_lastpos :: "int option"
  mf_err :: "string list"

type_synonym ('f, 'a) mf_act = "(multifile \<times> 'f, 'a) act"

definition multifile_error :: "string \<Rightarrow> pyexc" where
  "multifile_error t = ModError ''multifile.Error'' t"

definition mf_init :: "'f file_ops \<Rightarrow> ('f, multifile) act" where
  "mf_init ops =
     bindA (fo_tell ops) (\<lambda>p. retA \<lparr>mf_stack = [], mf_level = 0, mf_last = False, mf_start = p, mf_posstack = [],
       mf_lastpos = None, mf_err = []\<rparr>)"

definition mf_attr_lastpos :: "('f, int) mf_act" where
  "mf_attr_lastpos = (\<lambda>(m, f). case mf_lastpos m of None \<Rightarrow> (Inl AttributeError, (m, f)) | Some p \<Rightarrow> (Inr p, (m, f)))"

definition mf_tell :: "'f file_ops \<Rightarrow> ('f, int) mf_act" where
  "mf_tell ops = (\<lambda>(m, f).
     if mf_level m > 0 then mf_attr_lastpos (m, f)
     else bindA (on_file (fo_tell ops)) (\<lambda>p. retA (p - mf_start m)) (m, f))"

definition mf_seek :: "'f file_ops \<Rightarrow> int \<Rightarrow> ('f, unit) mf_act" where
  "mf_seek ops pos =
     bindA (if 0 \<le> pos then bindA (mf_tell ops) (\<lambda>t. retA (pos \<le> t)) else retA False) (\<lambda>inside.
     bindA (if \<not> inside then retA True
            else bindA (getA (\<lambda>(m, f). mf_level m > 0)) (\<lambda>b.
              if b then bindA mf_attr_lastpos (\<lambda>p. retA (pos > p)) else retA False)) (\<lambda>bad.
     if bad then raiseA (multifile_error ''bad MultiFile.seek() call'')
     else
       bindA (getA (\<lambda>(m, f). mf_start m)) (\<lambda>start.
         thenA (on_file (fo_seek ops (pos + start) 0))
           (updA (\<lambda>(m, f). (m\<lparr>mf_level := 0, mf_last := False\<rparr>, f))))))"

text \<open>
  The separator that a line is, if any: its index in the stack and whether it is the end marker.
\<close>

primrec mf_match :: "string \<Rightarrow> string option \<Rightarrow> string list \<Rightarrow> (nat \<times> bool) option" where
  "mf_match mark mark1 [] = None"
| "mf_match mark mark1 (sep # stack) =
     (if sep = mark then Some (0, False)
      else if mark1 \<noteq> None \<and> Some sep = mark1 then Some (0, True)
      else map_option (\<lambda>(i, b). (Suc i, b)) (mf_match mark mark1 stack))"

definition mf_separator :: "string list \<Rightarrow> string \<Rightarrow> (nat \<times> bool) option" where
  "mf_separator stack line =
     (if take 2 line \<noteq> ''--'' then None
      else
        let n = length line;
            k = scan_down is_ws line 0 n;
            mark = pslice 2 (int k) line;
            mark1 = (if pfrom (- 2) mark = ''--'' then Some (pupto (- 2) mark) else None)
        in mf_match mark mark1 stack)"

definition mf_readline :: "'f file_ops \<Rightarrow> ('f, string) mf_act" where
  "mf_readline ops = (\<lambda>(m, f).
     if mf_level m > 0 then (Inr [], (m, f))
     else
       bindA (on_file (fo_readline ops)) (\<lambda>line.
         if line = [] then
           thenA (updA (\<lambda>(m, f). (let l = length (mf_stack m) in
               m\<lparr>mf_level := l, mf_last := l > 0,
                 mf_err := mf_err m @ (if l > 0 then [''*** Sudden EOF in MultiFile.readline()'' @ [NL]] else [])\<rparr>, f)))
             (retA [])
         else
           bindA (getA (\<lambda>(m, f). mf_separator (mf_stack m) line)) (\<lambda>sep.
             case sep of
               None \<Rightarrow> retA line
             | Some (i, fin) \<Rightarrow>
                 thenA (updA (\<lambda>(m, f). (m\<lparr>mf_last := fin\<rparr>, f)))
                 (bindA (mf_tell ops) (\<lambda>t.
                   thenA (updA (\<lambda>(m, f). (m\<lparr>mf_lastpos := Some (t - int (length line)), mf_level := i + 1,
                       mf_err := mf_err m @
                         (if i + 1 > 1 then [''*** Missing endmarker in MultiFile.readline()'' @ [NL]] else [])\<rparr>, f)))
                     (retA []))))) (m, f))"

primrec mf_readlines_loop :: "nat \<Rightarrow> 'f file_ops \<Rightarrow> string list \<Rightarrow> multifile \<times> 'f \<Rightarrow> (string list res \<times> multifile \<times> 'f) option" where
  "mf_readlines_loop 0 ops acc s = None"
| "mf_readlines_loop (Suc fuel) ops acc s =
     (case mf_readline ops s of
        (Inl e, t) \<Rightarrow> Some (Inl e, t)
      | (Inr line, t) \<Rightarrow> if line = [] then Some (Inr acc, t) else mf_readlines_loop fuel ops (acc @ [line]) t)"

definition mf_readlines :: "nat \<Rightarrow> 'f file_ops \<Rightarrow> multifile \<times> 'f \<Rightarrow> (string list res \<times> multifile \<times> 'f) option" where
  "mf_readlines fuel ops = mf_readlines_loop fuel ops []"

definition mf_read :: "nat \<Rightarrow> 'f file_ops \<Rightarrow> multifile \<times> 'f \<Rightarrow> (string res \<times> multifile \<times> 'f) option" where
  "mf_read fuel ops s = map_option (\<lambda>(r, t). (bindR r (\<lambda>ls. Inr (joinfields ls [])), t)) (mf_readlines fuel ops s)"

definition mf_next :: "nat \<Rightarrow> 'f file_ops \<Rightarrow> multifile \<times> 'f \<Rightarrow> (bool res \<times> multifile \<times> 'f) option" where
  "mf_next fuel ops s =
     (case line_loop fuel (mf_readline ops) (\<lambda>_. retA (None :: unit option)) s of
        None \<Rightarrow> None
      | Some (Inl e, t) \<Rightarrow> Some (Inl e, t)
      | Some (Inr _, (m, f)) \<Rightarrow>
          if mf_level m > 1 \<or> mf_last m then Some (Inr False, (m, f))
          else
            Some (bindA (on_file (fo_tell ops)) (\<lambda>p.
              thenA (updA (\<lambda>(m, f). (m\<lparr>mf_start := p\<rparr>, f))) (retA True)) (m\<lparr>mf_level := 0, mf_last := False\<rparr>, f)))"

definition mf_push :: "'f file_ops \<Rightarrow> string \<Rightarrow> ('f, unit) mf_act" where
  "mf_push ops sep = (\<lambda>(m, f).
     if mf_level m > 0 then (Inl (multifile_error ''bad MultiFile.push() call''), (m, f))
     else
       bindA (on_file (fo_tell ops)) (\<lambda>p. updA (\<lambda>(m, f). (m\<lparr>mf_start := p\<rparr>, f)))
         (m\<lparr>mf_stack := sep # mf_stack m, mf_posstack := mf_start m # mf_posstack m\<rparr>, f))"

definition mf_pop :: "('f, unit) mf_act" where
  "mf_pop = (\<lambda>(m, f).
     if mf_stack m = [] then (Inl (multifile_error ''bad MultiFile.pop() call''), (m, f))
     else
       bindA (if mf_level m \<le> 1 then thenA (updA (\<lambda>(m, f). (m\<lparr>mf_last := False\<rparr>, f))) (retA 0)
              else bindA mf_attr_lastpos (\<lambda>p. retA (p + mf_start m))) (\<lambda>abslastpos.
         thenA (updA (\<lambda>(m, f). (m\<lparr>mf_level := mf_level m - 1, mf_stack := drop 1 (mf_stack m)\<rparr>, f)))
         (bindA (getA (\<lambda>(m, f). mf_posstack m)) (\<lambda>ps.
           case ps of
             [] \<Rightarrow> raiseA IndexError
           | p # ps' \<Rightarrow>
               updA (\<lambda>(m, f).
                 (m\<lparr>mf_start := p, mf_posstack := ps',
                    mf_lastpos := (if mf_level m > 0 then Some (abslastpos - p) else mf_lastpos m)\<rparr>, f))))) (m, f))"

subsection \<open>Separator lines\<close>

definition plain_lines :: "string list \<Rightarrow> string list \<Rightarrow> bool" where
  \<comment> \<open>complete lines none of which is a separator\<close>
  "plain_lines stack ls \<longleftrightarrow> list_all (\<lambda>l. text_line l \<and> mf_separator stack l = None) ls"

text \<open>A separator that is pushed: it does not end in white space.\<close>

definition good_sep :: "string \<Rightarrow> bool" where
  "good_sep sep \<longleftrightarrow> sep = [] \<or> \<not> is_ws (last sep)"

lemma scan_down_line:
  assumes "t \<noteq> []" "\<not> is_ws (last t)"
  shows "scan_down is_ws (t @ [NL]) 0 (Suc (length t)) = length t"
proof -
  obtain u z where t: "t = u @ [z]" using assms(1) by (cases t rule: rev_cases) auto
  with assms(2) show ?thesis by (simp add: nth_append whitespace_def)
qed

lemma mark_of_line:
  assumes "\<not> is_ws (last (''--'' @ mark))"
  shows "mf_separator stack (''--'' @ mark @ [NL]) =
    mf_match mark (if pfrom (- 2) mark = ''--'' then Some (pupto (- 2) mark) else None) stack"
  using scan_down_line [of "''--'' @ mark"] assms by (simp add: mf_separator_def Let_def pslice_nonneg)

lemma dash_not_ws: "\<not> is_ws CHR ''-''"
  by (simp add: whitespace_def)

lemma mf_separator_part:
  "good_sep sep \<Longrightarrow> mf_separator (sep # stack) (''--'' @ sep @ [NL]) = Some (0, False)"
  using mark_of_line [of sep "sep # stack"] dash_not_ws by (auto simp: good_sep_def)

lemma mf_separator_end: "mf_separator (sep # stack) (''--'' @ sep @ ''--'' @ [NL]) = Some (0, True)"
proof -
  have "pfrom (- 2) (sep @ ''--'') = ''--''" "pupto (- 2) (sep @ ''--'') = sep"
    by (simp_all add: pfrom_def pupto_def norm_bound_def)
  then show ?thesis using mark_of_line [of "sep @ ''--''" "sep # stack"] dash_not_ws by simp
qed

subsection \<open>Reading the parts\<close>

context line_file
begin

lemma mf_readline_line:
  assumes "ok f" "mf_level m = 0" "text_line l" "ahead f = l @ rest" "mf_separator (mf_stack m) l = None"
  obtains g where "mf_readline ops (m, f) = (Inr l, (m, g))" "ok g" "content g = content f" "ahead g = rest"
proof -
  from assms(3) have "l \<noteq> []" by (auto simp: text_line_def)
  obtain g where g: "fo_readline ops f = (Inr l, g)" "ok g" "content g = content f" "ahead g = rest"
    using readline_ahead [OF assms(1)] first_line_text_line [OF assms(3), of rest] unfolding assms(4) by auto
  from g \<open>l \<noteq> []\<close> assms(2,5) show ?thesis
    by (intro that [of g]) (simp_all add: mf_readline_def)
qed

lemma mf_readline_separator:
  assumes "ok f" "mf_level m = 0" "text_line l" "ahead f = l @ rest" "mf_separator (mf_stack m) l = Some (0, fin)"
  obtains g p where "mf_readline ops (m, f) = (Inr [], (m\<lparr>mf_last := fin, mf_lastpos := Some p, mf_level := 1\<rparr>, g))"
    "ok g" "content g = content f" "ahead g = rest"
proof -
  from assms(3) have "l \<noteq> []" by (auto simp: text_line_def)
  obtain g where g: "fo_readline ops f = (Inr l, g)" "ok g" "content g = content f" "ahead g = rest"
    using readline_ahead [OF assms(1)] first_line_text_line [OF assms(3), of rest] unfolding assms(4) by auto
  from g \<open>l \<noteq> []\<close> assms(2,5) tell [OF g(2)] show ?thesis
    by (intro that [of _ g]) (simp_all add: mf_readline_def mf_tell_def thenA_def bindA_def)
qed

lemma mf_readlines_part:
  "ok f \<Longrightarrow> mf_level m = 0 \<Longrightarrow> plain_lines (mf_stack m) ls \<Longrightarrow> ahead f = concat ls @ l @ rest \<Longrightarrow> text_line l \<Longrightarrow>
    mf_separator (mf_stack m) l = Some (0, fin) \<Longrightarrow> length ls < fuel \<Longrightarrow>
    \<exists>g p. mf_readlines_loop fuel ops acc (m, f) =
        Some (Inr (acc @ ls), (m\<lparr>mf_last := fin, mf_lastpos := Some p, mf_level := 1\<rparr>, g)) \<and>
      ok g \<and> content g = content f \<and> ahead g = rest"
proof (induction ls arbitrary: f acc fuel)
  case Nil
  then obtain n where n: "fuel = Suc n" by (cases fuel) auto
  obtain g p where "mf_readline ops (m, f) = (Inr [], (m\<lparr>mf_last := fin, mf_lastpos := Some p, mf_level := 1\<rparr>, g))"
    "ok g" "content g = content f" "ahead g = rest"
    by (rule mf_readline_separator [OF Nil(1,2,5) _ Nil(6), of rest]) (use Nil(4) in simp_all)
  then show ?case by (auto simp: n)
next
  case (Cons x ls)
  then obtain n where n: "fuel = Suc n" by (cases fuel) auto
  from Cons.prems(3) have x: "text_line x" "x \<noteq> []" "mf_separator (mf_stack m) x = None" "plain_lines (mf_stack m) ls"
    by (auto simp: plain_lines_def text_line_def)
  obtain g where g: "mf_readline ops (m, f) = (Inr x, (m, g))" "ok g" "content g = content f"
    "ahead g = concat ls @ l @ rest"
    using mf_readline_line [OF Cons.prems(1,2) x(1) _ x(3), of "concat ls @ l @ rest"] Cons.prems(4) by auto
  from Cons.IH [OF g(2) Cons.prems(2) x(4) g(4) Cons.prems(5,6), of n "acc @ [x]"] Cons.prems(7) g x(2) n
  show ?case by simp
qed

lemma mf_next_after:
  assumes "ok f" "mf_level m = 1" "mf_last m = fin" "0 < fuel"
  shows "mf_next fuel ops (m, f) = Some (Inr (\<not> fin),
    (if fin then m else m\<lparr>mf_level := 0, mf_last := False, mf_start := int (posn f)\<rparr>, f))"
proof -
  obtain n where "fuel = Suc n" using assms(4) by (cases fuel) auto
  then show ?thesis
    using assms(2,3) tell [OF assms(1)] by (simp add: mf_next_def mf_readline_def thenA_def bindA_def)
qed

end

text \<open>A client that reads all the parts up to the end marker.\<close>

primrec mf_parts ::
  "nat \<Rightarrow> 'f file_ops \<Rightarrow> string list list \<Rightarrow> multifile \<times> 'f \<Rightarrow> (string list list res \<times> multifile \<times> 'f) option" where
  "mf_parts 0 ops acc s = None"
| "mf_parts (Suc fuel) ops acc s =
     (case mf_readlines fuel ops s of
        None \<Rightarrow> None
      | Some (Inl e, t) \<Rightarrow> Some (Inl e, t)
      | Some (Inr ls, t) \<Rightarrow>
          (case mf_next fuel ops t of
             None \<Rightarrow> None
           | Some (Inl e, u) \<Rightarrow> Some (Inl e, u)
           | Some (Inr again, u) \<Rightarrow> if again then mf_parts fuel ops (acc @ [ls]) u else Some (Inr (acc @ [ls]), u)))"

definition multipart_text :: "string \<Rightarrow> string list list \<Rightarrow> string" where
  "multipart_text sep parts =
     concat (map (\<lambda>ls. concat ls @ ''--'' @ sep @ [NL]) (butlast parts)) @ concat (last parts) @ ''--'' @ sep @ ''--'' @ [NL]"

lemma multipart_text_simps:
  "multipart_text sep [ls] = concat ls @ (''--'' @ sep @ ''--'' @ [NL])"
  "ps \<noteq> [] \<Longrightarrow> multipart_text sep (ls # ps) = concat ls @ (''--'' @ sep @ [NL]) @ multipart_text sep ps"
  by (simp_all add: multipart_text_def)

context line_file
begin

lemma mf_parts_read:
  assumes "good_sep sep" "NL \<notin> set sep"
  shows "parts \<noteq> [] \<Longrightarrow> ok f \<Longrightarrow> mf_level m = 0 \<Longrightarrow> mf_stack m = sep # stack \<Longrightarrow>
    list_all (plain_lines (sep # stack)) parts \<Longrightarrow> ahead f = multipart_text sep parts @ rest \<Longrightarrow>
    list_all (\<lambda>ls. length ls + length parts < fuel) parts \<Longrightarrow>
    \<exists>n g. mf_parts fuel ops acc (m, f) = Some (Inr (acc @ parts), (n, g)) \<and> ok g \<and> content g = content f \<and>
      ahead g = rest \<and> mf_last n \<and> mf_level n = 1 \<and> mf_stack n = sep # stack"
proof (induction parts arbitrary: m f acc fuel)
  case (Cons ls parts)
  obtain n where n: "fuel = Suc n" "length ls < n" "0 < n" using Cons.prems(7) by (cases fuel) auto
  have tl: "text_line (''--'' @ sep @ [NL])" "text_line (''--'' @ sep @ ''--'' @ [NL])"
    using assms(2) by (auto simp: text_line_def)
  have pl: "plain_lines (mf_stack m) ls" using Cons.prems(4,5) by simp
  show ?case
  proof (cases "parts = []")
    case True
    have a: "ahead f = concat ls @ (''--'' @ sep @ ''--'' @ [NL]) @ rest"
      using Cons.prems(6) True by (simp add: multipart_text_simps)
    have s: "mf_separator (mf_stack m) (''--'' @ sep @ ''--'' @ [NL]) = Some (0, True)"
      by (simp only: Cons.prems(4) mf_separator_end)
    obtain g p where g: "mf_readlines_loop n ops [] (m, f) =
        Some (Inr ls, (m\<lparr>mf_last := True, mf_lastpos := Some p, mf_level := 1\<rparr>, g))"
      "ok g" "content g = content f" "ahead g = rest"
      using mf_readlines_part [OF Cons.prems(2,3) pl a tl(2) s n(2), of "[]"] by auto
    with mf_next_after [OF g(2), of "m\<lparr>mf_last := True, mf_lastpos := Some p, mf_level := 1\<rparr>" True n] n True Cons.prems(4)
    show ?thesis by (simp add: mf_readlines_def)
  next
    case False
    have a: "ahead f = concat ls @ (''--'' @ sep @ [NL]) @ multipart_text sep parts @ rest"
      using Cons.prems(6) False by (simp add: multipart_text_simps)
    have s: "mf_separator (mf_stack m) (''--'' @ sep @ [NL]) = Some (0, False)"
      by (simp only: Cons.prems(4) mf_separator_part [OF assms(1)])
    obtain g p where g: "mf_readlines_loop n ops [] (m, f) =
        Some (Inr ls, (m\<lparr>mf_last := False, mf_lastpos := Some p, mf_level := 1\<rparr>, g))"
      "ok g" "content g = content f" "ahead g = multipart_text sep parts @ rest"
      using mf_readlines_part [OF Cons.prems(2,3) pl a tl(1) s n(2), of "[]"] by auto
    let ?m = "m\<lparr>mf_lastpos := Some p, mf_level := 0, mf_last := False, mf_start := int (posn g)\<rparr>"
    have "mf_parts fuel ops acc (m, f) = mf_parts n ops (acc @ [ls]) (?m, g)"
      using mf_next_after [OF g(2), of "m\<lparr>mf_last := False, mf_lastpos := Some p, mf_level := 1\<rparr>" False n] n g(1)
      by (simp add: mf_readlines_def)
    moreover have "list_all (\<lambda>ls. length ls + length parts < n) parts"
      using Cons.prems(7) n(1) by (auto simp: list_all_iff)
    ultimately show ?thesis
      using Cons.IH [OF False g(2) _ _ _ g(4), of ?m n "acc @ [ls]"] Cons.prems(4,5) g(3) by auto
  qed
qed simp

end

text \<open>At a sudden end of the file \<open>level\<close> is set but \<open>lastpos\<close> is not, and \<open>tell\<close> fails.\<close>

lemma mf_tell_after_eof:
  "fst (thenA (mf_push pf_ops ''x'') (thenA (mf_readline pf_ops) (mf_tell pf_ops))
    (\<lparr>mf_stack = [], mf_level = 0, mf_last = False, mf_start = 0, mf_posstack = [], mf_lastpos = None, mf_err = []\<rparr>,
     file_end [])) = Inl AttributeError"
  by (simp add: mf_push_def mf_readline_def mf_tell_def mf_attr_lastpos_def file_end_def pf_ops_def pf_tell_def
    pf_readline_def thenA_def bindA_def)

end
