(* ===== verification/Nturl2path.thy ===== *)
theory Nturl2path
  imports Str
begin

section \<open>\<open>Lib/nturl2path.py\<close>: NT paths and file URLs\<close>

definition nt_url2pathname :: "string \<Rightarrow> string res" where
  "nt_url2pathname url =
     (let comp = splitfields url ''|'' 0 in
      if length comp \<noteq> 2 then Inl (IOError (''Bad URL: '' @ url))
      else bindR (pindex (comp ! 0) (- 1)) (\<lambda>c.
        if c \<notin> set letters then Inl (IOError (''Bad URL: '' @ url))
        else
          let drive = upper [c];
              components = splitfields (comp ! 1) ''/'' 0
          in Inr (foldl (\<lambda>path comp. if comp \<noteq> [] then path @ [BSLASH] @ comp else path)
                    (drive @ '':'') components)))"

definition nt_pathname2url :: "string \<Rightarrow> string res" where
  "nt_pathname2url p =
     (let comp = splitfields p '':'' 0 in
      if length comp \<noteq> 2 \<or> length (comp ! 0) > 1 then Inl (IOError (''Bad path: '' @ p))
      else
        let drive = upper (comp ! 0);
            components = splitfields (comp ! 1) [BSLASH] 0
        in Inr (foldl (\<lambda>path comp. if comp \<noteq> [] then path @ ''/'' @ comp else path)
                  (''///'' @ drive @ ''|'') components))"

text \<open>
  A plain absolute path: a drive letter and components that are not empty and hold none of the
  characters with a meaning in either notation.
\<close>

definition nt_path :: "char \<Rightarrow> string list \<Rightarrow> string" where
  "nt_path d cs = [d] @ '':'' @ concat (map ((@) [BSLASH]) cs)"

definition plain_comp :: "string \<Rightarrow> bool" where
  "plain_comp c \<longleftrightarrow> c \<noteq> [] \<and> set c \<inter> {CHR ''|'', CHR ''/'', CHR '':'', BSLASH} = {}"

lemma foldl_comps:
  "\<forall>c \<in> set cs. c \<noteq> [] \<Longrightarrow>
     foldl (\<lambda>path comp. if comp \<noteq> [] then path @ sep @ comp else path) s cs =
     s @ concat (map ((@) sep) cs)"
  by (induction cs arbitrary: s) auto

lemma split_on_rooted:
  assumes "\<forall>c \<in> set cs. sep \<notin> set c" and "cs \<noteq> []"
  shows "split_on sep (concat (map ((@) [sep]) cs)) = [] # cs"
  using split_on_fields [of "[] # cs" sep] assms by simp

lemma split_on_two: "c \<notin> set u \<Longrightarrow> c \<notin> set v \<Longrightarrow> split_on c (u @ c # v) = [u, v]"
  using split_on_fields [of "[u, v]" c] by simp

lemma nt_roundtrip:
  assumes "d \<in> set uppercase" and "\<forall>c \<in> set cs. plain_comp c" and "cs \<noteq> []"
  shows "bindR (nt_pathname2url (nt_path d cs)) nt_url2pathname = Inr (nt_path d cs)"
proof -
  let ?bs = "concat (map ((@) [BSLASH]) cs)" and ?sl = "concat (map ((@) ''/'') cs)"
  have d: "ord d \<in> set (map ord uppercase)" using assms(1) by simp
  then have dr: "65 \<le> ord d" "ord d < 91" by (simp_all only: case_ords set_upt atLeastLessThan_iff)
  then have up: "upper [d] = [d]" by (simp add: upper_map upper_c_def)
  have sep: "d \<noteq> CHR '':''" "d \<noteq> CHR ''|''" using dr by auto
  have "CHR '':'' \<notin> set ?bs" and "CHR ''|'' \<notin> set ?sl"
    and nosep: "\<forall>c \<in> set cs. BSLASH \<notin> set c" "\<forall>c \<in> set cs. CHR ''/'' \<notin> set c"
    and ne: "\<forall>c \<in> set cs. c \<noteq> []"
    using assms(2) by (auto simp: plain_comp_def)
  then have "split_on CHR '':'' (nt_path d cs) = [[d], ?bs]"
    and two: "split_on CHR ''|'' ((''///'' @ [d]) @ CHR ''|'' # ?sl) = [''///'' @ [d], ?sl]"
    using split_on_two [of "CHR '':''" "[d]" ?bs] split_on_two [of "CHR ''|''" "''///'' @ [d]" ?sl] sep
    by (simp_all add: nt_path_def)
  then have "nt_pathname2url (nt_path d cs) = Inr ((''///'' @ [d]) @ CHR ''|'' # ?sl)"
    using split_on_rooted [OF nosep(1) assms(3)] foldl_comps [OF ne, of "''/''"]
    by (simp add: nt_pathname2url_def splitfields_split_on up)
  moreover have "d \<in> set letters" using assms(1) by (simp add: letters_def)
  then have "nt_url2pathname ((''///'' @ [d]) @ CHR ''|'' # ?sl) = Inr (nt_path d cs)"
    using split_on_rooted [OF nosep(2) assms(3)] foldl_comps [OF ne, of "[BSLASH]"] two
    by (simp add: nt_url2pathname_def splitfields_split_on up pindex_def nt_path_def)
  ultimately show ?thesis by (simp only: bindR_simps)
qed

end
