(* ===== verification/Pickle.thy ===== *)
theory Pickle
  imports Py_Heap Files
begin

section \<open>\<open>Lib/pickle.py\<close>: objects as text\<close>

text \<open>
  Objects live in a heap, a list of objects in which an object refers to others by their index;
  the index is also what \<open>id()\<close> gives.  The \<open>Pickler\<close> reads the heap and writes text, the
  \<open>Unpickler\<close> reads the text and extends a heap.  Classes and methods of instances, the import
  of a class by name and the hooks that subclasses override are parameters, collected in
  \<open>pickle_env\<close> and \<open>unpickle_env\<close>; so are the literals (\<open>Literals\<close>).  The argument \<open>n\<close> of
  the recursive functions is the depth of recursion the interpreter allows: beyond it
  \<open>RuntimeError\<close> is raised.
\<close>

subsection \<open>The pickler\<close>

fun all_res :: "('a \<Rightarrow> bool res) \<Rightarrow> 'a list \<Rightarrow> bool res" where
  \<comment> \<open>a loop that returns at the first item that fails the test\<close>
  "all_res f [] = Inr True"
| "all_res f (x # xs) = bindR (f x) (\<lambda>b. if b then all_res f xs else Inr False)"

primrec safe :: "nat \<Rightarrow> 'x heap \<Rightarrow> nat \<Rightarrow> bool res" where
  "safe 0 h x = Inl RuntimeError"
| "safe (Suc n) h x =
     (case h ! x of
        PNone \<Rightarrow> Inr True | PInt i \<Rightarrow> Inr True | PFloat r \<Rightarrow> Inr True | PStr s \<Rightarrow> Inr True
      | PTuple xs \<Rightarrow> all_res (safe n h) xs
      | _ \<Rightarrow> Inr False)"

record pickler =
  pk_out :: string
  pk_memo :: "nat list"
  pk_classmap :: "(nat \<times> string) list"

record 'x pickle_env =
  pe_lits :: "'x literals"
  pe_persistent_id :: "nat \<Rightarrow> string option"
  pe_modules :: "(string \<times> (string \<Rightarrow> nat option)) list" \<comment> \<open>\<open>sys.modules.items()\<close>\<close>
  pe_initargs :: "nat \<Rightarrow> nat list option" \<comment> \<open>\<open>__getinitargs__()\<close>, if there is one\<close>
  pe_getstate :: "nat \<Rightarrow> nat option" \<comment> \<open>\<open>__getstate__()\<close>, if there is one\<close>

type_synonym 'a pickling = "(pickler, 'a) act"

definition PicklingError :: "string \<Rightarrow> pyexc" where
  "PicklingError msg = ModError ''pickle.PicklingError'' msg"

definition pickler_init :: pickler where
  "pickler_init = \<lparr>pk_out = [], pk_memo = [], pk_classmap = []\<rparr>"

definition pk_write :: "string \<Rightarrow> unit pickling" where
  "pk_write s = updA (\<lambda>p. p\<lparr>pk_out := pk_out p @ s\<rparr>)"

definition pk_remember :: "nat \<Rightarrow> unit pickling" where
  \<comment> \<open>\<open>self.memo[d] = object\<close>\<close>
  "pk_remember d = updA (\<lambda>p. p\<lparr>pk_memo := d # pk_memo p\<rparr>)"

definition PUT_code :: "nat \<Rightarrow> string" where
  "PUT_code d = ''p'' @ int_repr (int d) @ [NL]"

definition GET_code :: "nat \<Rightarrow> string" where
  "GET_code d = ''g'' @ int_repr (int d) @ [NL]"

definition save_none :: "unit pickling" where
  "save_none = pk_write ''N''"

definition save_int :: "int \<Rightarrow> unit pickling" where
  "save_int i = pk_write (''I'' @ int_repr i @ [NL])"

definition save_long :: "int \<Rightarrow> unit pickling" where
  "save_long i = pk_write (''L'' @ (int_repr i @ ''L'') @ [NL])"

definition save_float :: "'x pickle_env \<Rightarrow> 'x \<Rightarrow> unit pickling" where
  "save_float E r = pk_write (''F'' @ lit_float_repr (pe_lits E) r @ [NL])"

definition save_string :: "nat \<Rightarrow> string \<Rightarrow> unit pickling" where
  "save_string d s =
     thenA (pk_write (''S'' @ string_repr s @ [NL])) (thenA (pk_write (PUT_code d)) (pk_remember d))"

text \<open>The functions that save components take \<open>save\<close> as their argument \<open>sv\<close>.\<close>

primrec save_tuple_items :: "(nat \<Rightarrow> unit pickling) \<Rightarrow> nat \<Rightarrow> nat \<Rightarrow> nat list \<Rightarrow> unit pickling" where
  "save_tuple_items sv d k [] = thenA (pk_write (''t'' @ PUT_code d)) (pk_remember d)"
| "save_tuple_items sv d k (x # xs) =
     thenA (sv x)
       (bindA (getA (\<lambda>p. d \<in> set (pk_memo p))) (\<lambda>saved.
          if saved then thenA (forA (\<lambda>_. pk_write ''0'') [0..<Suc k]) (pk_write (GET_code d))
          else save_tuple_items sv d (Suc k) xs))"

definition save_tuple :: "(nat \<Rightarrow> unit pickling) \<Rightarrow> nat \<Rightarrow> nat list \<Rightarrow> unit pickling" where
  "save_tuple sv d xs = thenA (pk_write ''('') (save_tuple_items sv d 0 xs)"

text \<open>
  Lists and dictionaries save the safe items (for a dictionary the pairs of a key and a value)
  before the object exists; the loop returns the items from the first unsafe one on.
\<close>

primrec save_safe_items ::
  "(nat \<Rightarrow> bool res) \<Rightarrow> (nat \<Rightarrow> unit pickling) \<Rightarrow> nat list list \<Rightarrow> (nat list list) pickling" where
  "save_safe_items sf sv [] = retA []"
| "save_safe_items sf sv (g # gs) =
     bindA (liftA (all_res sf g)) (\<lambda>b.
       if b then thenA (forA sv g) (save_safe_items sf sv gs) else retA (g # gs))"

definition save_container ::
  "(nat \<Rightarrow> bool res) \<Rightarrow> (nat \<Rightarrow> unit pickling) \<Rightarrow> nat \<Rightarrow> string \<Rightarrow> string \<Rightarrow> nat list list \<Rightarrow> unit pickling" where
  "save_container sf sv d code add gs =
     thenA (pk_write ''('')
       (bindA (save_safe_items sf sv gs) (\<lambda>rest.
          thenA (pk_write (code @ PUT_code d))
            (thenA (pk_remember d)
              (forA (\<lambda>g. thenA (forA sv g) (pk_write add)) rest))))"

definition save_list :: "(nat \<Rightarrow> bool res) \<Rightarrow> (nat \<Rightarrow> unit pickling) \<Rightarrow> nat \<Rightarrow> nat list \<Rightarrow> unit pickling" where
  "save_list sf sv d xs = save_container sf sv d ''l'' ''a'' (map (\<lambda>x. [x]) xs)"

definition save_dict ::
  "(nat \<Rightarrow> bool res) \<Rightarrow> (nat \<Rightarrow> unit pickling) \<Rightarrow> nat \<Rightarrow> (nat \<times> nat) list \<Rightarrow> unit pickling" where
  "save_dict sf sv d items = save_container sf sv d ''d'' ''s'' (map (\<lambda>(k, v). [k, v]) items)"

definition whichmodule :: "(string \<times> (string \<Rightarrow> nat option)) list \<Rightarrow> nat \<Rightarrow> string \<Rightarrow> string pickling" where
  "whichmodule modules cls clsname =
     bindA (getA (\<lambda>p. map_of (pk_classmap p) cls)) (\<lambda>m.
       case m of
         Some name \<Rightarrow> retA name
       | None \<Rightarrow>
           let name = (case filter (\<lambda>(name, attrs). name \<noteq> ''__main__'' \<and> attrs clsname = Some cls) modules of
                         [] \<Rightarrow> ''__main__'' | (name, _) # _ \<Rightarrow> name)
           in thenA (updA (\<lambda>p. p\<lparr>pk_classmap := (cls, name) # pk_classmap p\<rparr>)) (retA name))"

definition class_name :: "'x heap \<Rightarrow> nat \<Rightarrow> string res" where
  "class_name h cls = (case h ! cls of PClass name \<Rightarrow> Inr name | _ \<Rightarrow> Inl AttributeError)"

definition save_inst ::
  "'x pickle_env \<Rightarrow> 'x heap \<Rightarrow> (nat \<Rightarrow> unit pickling) \<Rightarrow> nat \<Rightarrow> nat \<Rightarrow> nat \<Rightarrow> unit pickling" where
  "save_inst E h sv d cls attrs =
     bindA (liftA (class_name h cls)) (\<lambda>name.
     bindA (whichmodule (pe_modules E) cls name) (\<lambda>module.
       let args = (case pe_initargs E d of Some args \<Rightarrow> args | None \<Rightarrow> []);
         stuff = (case pe_getstate E d of Some state \<Rightarrow> state | None \<Rightarrow> attrs)
       in thenA (pk_write ''('')
         (thenA (forA sv args)
         (thenA (pk_write (''i'' @ module @ [NL] @ name @ [NL] @ PUT_code d))
         (thenA (pk_remember d)
         (thenA (sv stuff) (pk_write ''b'')))))))"

definition save_class :: "'x pickle_env \<Rightarrow> nat \<Rightarrow> string \<Rightarrow> unit pickling" where
  "save_class E d name =
     bindA (whichmodule (pe_modules E) d name) (\<lambda>module.
       pk_write (''c'' @ module @ [NL] @ name @ [NL] @ PUT_code d))"

primrec save :: "nat \<Rightarrow> 'x pickle_env \<Rightarrow> 'x heap \<Rightarrow> nat \<Rightarrow> unit pickling" where
  "save 0 E h x = raiseA RuntimeError"
| "save (Suc n) E h x =
     (let pid = pe_persistent_id E x in
      if pid \<noteq> None \<and> pid \<noteq> Some [] then pk_write (''P'' @ the pid @ [NL])
      else
        bindA (getA (\<lambda>p. x \<in> set (pk_memo p))) (\<lambda>saved.
          if saved then pk_write (GET_code x)
          else
            case h ! x of
              PNone \<Rightarrow> save_none
            | PInt i \<Rightarrow> save_int i
            | PLong i \<Rightarrow> save_long i
            | PFloat r \<Rightarrow> save_float E r
            | PStr s \<Rightarrow> save_string x s
            | PTuple xs \<Rightarrow> save_tuple (save n E h) x xs
            | PList xs \<Rightarrow> save_list (safe n h) (save n E h) x xs
            | PDict items \<Rightarrow> save_dict (safe n h) (save n E h) x items
            | PInst cls attrs \<Rightarrow> save_inst E h (save n E h) x cls attrs
            | PClass name \<Rightarrow> save_class E x name
            | POther tname \<Rightarrow> raiseA (PicklingError (''can't pickle '' @ string_repr tname @ '' objects''))))"

definition pickler_dump :: "nat \<Rightarrow> 'x pickle_env \<Rightarrow> 'x heap \<Rightarrow> nat \<Rightarrow> unit pickling" where
  "pickler_dump n E h x = thenA (save n E h x) (pk_write ''.'')"

definition dumps :: "nat \<Rightarrow> 'x pickle_env \<Rightarrow> 'x heap \<Rightarrow> nat \<Rightarrow> string res" where
  "dumps n E h x =
     (case pickler_dump n E h x pickler_init of (Inl e, p) \<Rightarrow> Inl e | (Inr _, p) \<Rightarrow> Inr (pk_out p))"

subsection \<open>The unpickler\<close>

record 'x unpickler =
  up_stack :: "nat list"
  up_mark :: nat
  up_memo :: "string \<Rightarrow> nat option"
  up_heap :: "'x heap"
  up_in :: string \<comment> \<open>what is still to be read\<close>

record 'x unpickle_env =
  ue_lits :: "'x literals"
  ue_persistent_load :: "string \<Rightarrow> 'x heap \<Rightarrow> nat res \<times> 'x heap"
  ue_import :: "string \<Rightarrow> string \<Rightarrow> 'x heap \<Rightarrow> (nat \<times> bool) option \<times> 'x heap"
    \<comment> \<open>\<open>from module import name\<close>: the object, and whether it is a built-in function\<close>
  ue_apply :: "nat \<Rightarrow> nat list \<Rightarrow> 'x heap \<Rightarrow> nat res \<times> 'x heap"
  ue_setstate :: "nat \<Rightarrow> (nat \<Rightarrow> 'x heap \<Rightarrow> unit res \<times> 'x heap) option"
    \<comment> \<open>the \<open>__setstate__\<close> of an instance, if it has one\<close>

type_synonym ('x, 'a) loading = "('x unpickler, 'a) act"

definition up_push :: "nat \<Rightarrow> ('x, unit) loading" where
  "up_push a = updA (\<lambda>u. u\<lparr>up_stack := up_stack u @ [a]\<rparr>)"

definition up_new :: "('x, nat) pyobj \<Rightarrow> ('x, nat) loading" where
  "up_new ob = (\<lambda>u. (Inr (length (up_heap u)), u\<lparr>up_heap := up_heap u @ [ob]\<rparr>))"

definition up_heap_act :: "('x heap \<Rightarrow> 'a res \<times> 'x heap) \<Rightarrow> ('x, 'a) loading" where
  "up_heap_act f = (\<lambda>u. let (r, h) = f (up_heap u) in (r, u\<lparr>up_heap := h\<rparr>))"

definition up_read1 :: "('x, string) loading" where
  "up_read1 = (\<lambda>u. (Inr (take 1 (up_in u)), u\<lparr>up_in := drop 1 (up_in u)\<rparr>))"

definition up_line :: "('x, string) loading" where
  \<comment> \<open>\<open>self.readline()[:-1]\<close>\<close>
  "up_line = (\<lambda>u. let l = first_line (up_in u) in (Inr (butlast l), u\<lparr>up_in := drop (length l) (up_in u)\<rparr>))"

definition up_top :: "('x, nat) loading" where
  "up_top = (\<lambda>u. (if up_stack u = [] then Inl IndexError else Inr (last (up_stack u)), u))"

definition up_drop :: "('x, unit) loading" where
  \<comment> \<open>\<open>del stack[-1]\<close>\<close>
  "up_drop = (\<lambda>u. if up_stack u = [] then (Inl IndexError, u) else (Inr (), u\<lparr>up_stack := butlast (up_stack u)\<rparr>))"

definition up_pop :: "('x, nat) loading" where
  "up_pop = bindA up_top (\<lambda>a. thenA up_drop (retA a))"

definition up_marker :: "('x, nat) loading" where
  \<comment> \<open>the position of the last mark; running off the start of the stack is an \<open>IndexError\<close>\<close>
  "up_marker = (\<lambda>u.
     let above = takeWhile (\<lambda>a. a \<noteq> up_mark u) (rev (up_stack u))
     in (if length above < length (up_stack u) then Inr (length (up_stack u) - 1 - length above) else Inl IndexError, u))"

definition up_above_mark :: "('x, nat list) loading" where
  \<comment> \<open>\<open>k = self.marker()\<close>, \<open>stack[k+1:]\<close> and \<open>del stack[k:]\<close>\<close>
  "up_above_mark = bindA up_marker (\<lambda>k. (\<lambda>u. (Inr (drop (k + 1) (up_stack u)), u\<lparr>up_stack := take k (up_stack u)\<rparr>)))"

definition up_set :: "nat \<Rightarrow> ('x, nat) pyobj \<Rightarrow> ('x, unit) loading" where
  "up_set a ob = updA (\<lambda>u. u\<lparr>up_heap := (up_heap u)[a := ob]\<rparr>)"

definition load_int :: "'x unpickle_env \<Rightarrow> ('x, unit) loading" where
  "load_int E = bindA up_line (\<lambda>l. bindA (liftA (lit_atoi (ue_lits E) l)) (\<lambda>i. bindA (up_new (PInt i)) up_push))"

definition load_long :: "'x unpickle_env \<Rightarrow> ('x, unit) loading" where
  "load_long E = bindA up_line (\<lambda>l. bindA (liftA (lit_atol (ue_lits E) l)) (\<lambda>i. bindA (up_new (PLong i)) up_push))"

definition load_float :: "'x unpickle_env \<Rightarrow> ('x, unit) loading" where
  "load_float E = bindA up_line (\<lambda>l. bindA (liftA (lit_atof (ue_lits E) l)) (\<lambda>r. bindA (up_new (PFloat r)) up_push))"

definition load_string :: "'x unpickle_env \<Rightarrow> ('x, unit) loading" where
  "load_string E = bindA up_line (\<lambda>l. bindA (liftA (lit_eval (ue_lits E) l)) (\<lambda>s. bindA (up_new (PStr s)) up_push))"

definition load_none :: "('x, unit) loading" where
  "load_none = bindA (up_new PNone) up_push"

definition load_persid :: "'x unpickle_env \<Rightarrow> ('x, unit) loading" where
  "load_persid E = bindA up_line (\<lambda>pid. bindA (up_heap_act (ue_persistent_load E pid)) up_push)"

definition load_tuple :: "('x, unit) loading" where
  "load_tuple = bindA up_above_mark (\<lambda>xs. bindA (up_new (PTuple xs)) up_push)"

definition load_list :: "('x, unit) loading" where
  "load_list = bindA up_above_mark (\<lambda>xs. bindA (up_new (PList xs)) up_push)"

fun dict_of_items ::
  "nat \<Rightarrow> 'x literals \<Rightarrow> 'x heap \<Rightarrow> (nat \<times> nat) list \<Rightarrow> nat list \<Rightarrow> (nat \<times> nat) list res" where
  "dict_of_items n L h d (k # v # xs) = bindR (dict_update n L h d k v) (\<lambda>d. dict_of_items n L h d xs)"
| "dict_of_items n L h d [k] = Inl IndexError"
| "dict_of_items n L h d [] = Inr d"

definition load_dict :: "nat \<Rightarrow> 'x unpickle_env \<Rightarrow> ('x, unit) loading" where
  "load_dict n E =
     bindA up_above_mark (\<lambda>xs.
     bindA (getA up_heap) (\<lambda>h.
     bindA (liftA (dict_of_items n (ue_lits E) h [] xs)) (\<lambda>d. bindA (up_new (PDict d)) up_push)))"

definition SystemError :: "string \<Rightarrow> pyexc" where
  "SystemError msg = ModError ''SystemError'' msg"

definition find_class :: "'x unpickle_env \<Rightarrow> string \<Rightarrow> string \<Rightarrow> ('x, nat) loading" where
  "find_class E module name = (\<lambda>u.
     case ue_import E module name (up_heap u) of
       (None, h) \<Rightarrow> (Inl (SystemError (''Failed to import class '' @ name @ '' from module '' @ module)), u\<lparr>up_heap := h\<rparr>)
     | (Some (klass, builtin), h) \<Rightarrow>
         (if builtin then
            Inl (SystemError (''Imported object '' @ name @ '' from module '' @ module @ '' is not a class''))
          else Inr klass, u\<lparr>up_heap := h\<rparr>))"

definition load_inst :: "'x unpickle_env \<Rightarrow> ('x, unit) loading" where
  "load_inst E =
     bindA up_above_mark (\<lambda>args. bindA up_line (\<lambda>module. bindA up_line (\<lambda>name.
     bindA (find_class E module name) (\<lambda>klass. bindA (up_heap_act (ue_apply E klass args)) up_push))))"

definition load_class :: "'x unpickle_env \<Rightarrow> ('x, unit) loading" where
  "load_class E = bindA up_line (\<lambda>module. bindA up_line (\<lambda>name. bindA (find_class E module name) up_push))"

definition load_dup :: "('x, unit) loading" where
  \<comment> \<open>\<open>stack\<close> is not a name of the method\<close>
  "load_dup = raiseA (ModError ''NameError'' ''stack'')"

definition load_get :: "('x, unit) loading" where
  "load_get = bindA up_line (\<lambda>l. bindA (getA (\<lambda>u. up_memo u l)) (\<lambda>m. case m of None \<Rightarrow> raiseA KeyError | Some a \<Rightarrow> up_push a))"

definition load_put :: "('x, unit) loading" where
  "load_put = bindA up_line (\<lambda>l. bindA up_top (\<lambda>a. updA (\<lambda>u. u\<lparr>up_memo := (up_memo u)(l \<mapsto> a)\<rparr>)))"

definition load_append :: "('x, unit) loading" where
  "load_append =
     bindA up_pop (\<lambda>v. bindA up_top (\<lambda>a. bindA (getA up_heap) (\<lambda>h.
       case h ! a of PList xs \<Rightarrow> up_set a (PList (xs @ [v])) | _ \<Rightarrow> raiseA AttributeError)))"

definition set_item :: "nat \<Rightarrow> 'x unpickle_env \<Rightarrow> nat \<Rightarrow> nat \<Rightarrow> nat \<Rightarrow> ('x, unit) loading" where
  "set_item n E a k v = up_heap_act (heap_setitem n (ue_lits E) a k v)"

definition load_setitem :: "nat \<Rightarrow> 'x unpickle_env \<Rightarrow> ('x, unit) loading" where
  "load_setitem n E =
     bindA up_pop (\<lambda>v. bindA up_pop (\<lambda>k. bindA up_top (\<lambda>a. set_item n E a k v)))"

definition set_attr :: "nat \<Rightarrow> 'x unpickle_env \<Rightarrow> nat \<Rightarrow> nat \<times> nat \<Rightarrow> ('x, unit) loading" where
  "set_attr n E a = (\<lambda>(k, v). up_heap_act (heap_setattr n (ue_lits E) a k v))"

definition load_build :: "nat \<Rightarrow> 'x unpickle_env \<Rightarrow> ('x, unit) loading" where
  "load_build n E =
     bindA up_pop (\<lambda>v. bindA up_top (\<lambda>a.
       case ue_setstate E a of
         Some f \<Rightarrow> up_heap_act (f v)
       | None \<Rightarrow>
           bindA (getA up_heap) (\<lambda>h. case h ! v of
             PDict items \<Rightarrow> forA (set_attr n E a) items
           | _ \<Rightarrow> raiseA AttributeError)))"

text \<open>One round of the loop of \<open>load\<close>: a value is the one \<open>STOP\<close> raises.\<close>

definition go_on :: "('x, unit) loading \<Rightarrow> ('x, nat option) loading" where
  "go_on m = thenA m (retA None)"

definition dispatch :: "nat \<Rightarrow> 'x unpickle_env \<Rightarrow> string \<Rightarrow> ('x, nat option) loading" where
  "dispatch n E key =
     (if key = [] then raiseA EOFError
      else if key = ''('' then go_on (bindA (getA up_mark) up_push)
      else if key = ''0'' then go_on up_drop
      else if key = ''2'' then go_on load_dup
      else if key = ''.'' then bindA up_pop (\<lambda>a. retA (Some a))
      else if key = ''t'' then go_on load_tuple
      else if key = ''l'' then go_on load_list
      else if key = ''d'' then go_on (load_dict n E)
      else if key = ''i'' then go_on (load_inst E)
      else if key = ''c'' then go_on (load_class E)
      else if key = ''g'' then go_on load_get
      else if key = ''p'' then go_on load_put
      else if key = ''a'' then go_on load_append
      else if key = ''s'' then go_on (load_setitem n E)
      else if key = ''b'' then go_on (load_build n E)
      else if key = ''N'' then go_on load_none
      else if key = ''I'' then go_on (load_int E)
      else if key = ''L'' then go_on (load_long E)
      else if key = ''F'' then go_on (load_float E)
      else if key = ''S'' then go_on (load_string E)
      else if key = ''P'' then go_on (load_persid E)
      else raiseA KeyError)"

definition load_step :: "nat \<Rightarrow> 'x unpickle_env \<Rightarrow> ('x, nat option) loading" where
  "load_step n E = bindA up_read1 (dispatch n E)"

primrec load_loop :: "nat \<Rightarrow> nat \<Rightarrow> 'x unpickle_env \<Rightarrow> 'x unpickler \<Rightarrow> (nat res \<times> 'x unpickler) option" where
  "load_loop 0 n E u = None"
| "load_loop (Suc fuel) n E u =
     (case load_step n E u of
        (Inl e, u) \<Rightarrow> Some (Inl e, u)
      | (Inr (Some a), u) \<Rightarrow> Some (Inr a, u)
      | (Inr None, u) \<Rightarrow> load_loop fuel n E u)"

definition unpickler_load :: "nat \<Rightarrow> 'x unpickle_env \<Rightarrow> 'x unpickler \<Rightarrow> (nat res \<times> 'x unpickler) option" where
  \<comment> \<open>the mark is a new list; every round reads a byte\<close>
  "unpickler_load n E u =
     load_loop (length (up_in u) + 1) n E
       (u\<lparr>up_stack := [], up_mark := length (up_heap u) + 1,
          up_heap := up_heap u @ [PStr ''spam'', PList [length (up_heap u)]]\<rparr>)"

definition unpickler_init :: "'x heap \<Rightarrow> string \<Rightarrow> 'x unpickler" where
  "unpickler_init h s = \<lparr>up_stack = [], up_mark = 0, up_memo = (\<lambda>_. None), up_heap = h, up_in = s\<rparr>"

definition loads :: "nat \<Rightarrow> 'x unpickle_env \<Rightarrow> string \<Rightarrow> (nat res \<times> 'x heap) option" where
  "loads n E s = map_option (\<lambda>(r, u). (r, up_heap u)) (unpickler_load n E (unpickler_init [] s))"

text \<open>An environment without classes or persistent identifiers.\<close>

definition data_pickle_env :: "unit pickle_env" where
  "data_pickle_env = \<lparr>pe_lits = data_literals, pe_persistent_id = (\<lambda>_. None), pe_modules = [],
     pe_initargs = (\<lambda>_. None), pe_getstate = (\<lambda>_. None)\<rparr>"

definition data_unpickle_env :: "unit unpickle_env" where
  "data_unpickle_env = \<lparr>ue_lits = data_literals, ue_persistent_load = (\<lambda>_ h. (Inl AttributeError, h)),
     ue_import = (\<lambda>_ _ h. (None, h)), ue_apply = (\<lambda>_ _ h. (Inl TypeError, h)), ue_setstate = (\<lambda>_. None)\<rparr>"

end
