(* ===== verification/Pickle_Types.thy ===== *)
theory Pickle_Types
  imports Pickle
begin

section \<open>What the unpickler builds is well formed\<close>

text \<open>
  Whatever text it reads, the unpickler never makes a reference to an object that does not exist:
  its stack, its memo, its mark and the components of every object stay inside the heap.
  \<open>typed S act R\<close> says so of one action: \<open>S\<close> are addresses the action is given, \<open>R\<close> gives the
  addresses in its value.  Code that the unpickler calls (imports, constructors, \<open>__setstate__\<close>,
  \<open>persistent_load\<close>) has to keep the heap well formed, which is \<open>env_ok\<close>.
\<close>

definition up_ok :: "'x unpickler \<Rightarrow> bool" where
  "up_ok u \<longleftrightarrow> heap_ok (up_heap u) \<and> set (up_stack u) \<subseteq> {..<length (up_heap u)} \<and>
     up_mark u < length (up_heap u) \<and> ran (up_memo u) \<subseteq> {..<length (up_heap u)}"

definition persid_ok :: "'x unpickle_env \<Rightarrow> bool" where
  "persid_ok E \<longleftrightarrow> (\<forall>pid h. heap_ok h \<longrightarrow> keeps_heap h (ue_persistent_load E pid h) (\<lambda>a. {a}))"

definition import_ok :: "'x unpickle_env \<Rightarrow> bool" where
  "import_ok E \<longleftrightarrow> (\<forall>module name h. heap_ok h \<longrightarrow>
     (case ue_import E module name h of
        (m, h') \<Rightarrow> heap_ok h' \<and> length h \<le> length h' \<and> (case m of Some (k, b) \<Rightarrow> k < length h' | None \<Rightarrow> True)))"

definition apply_ok :: "'x unpickle_env \<Rightarrow> bool" where
  "apply_ok E \<longleftrightarrow> (\<forall>klass args h. heap_ok h \<longrightarrow> set (klass # args) \<subseteq> {..<length h} \<longrightarrow>
     keeps_heap h (ue_apply E klass args h) (\<lambda>a. {a}))"

definition setstate_ok :: "'x unpickle_env \<Rightarrow> bool" where
  "setstate_ok E \<longleftrightarrow> (\<forall>a v h. heap_ok h \<longrightarrow> {a, v} \<subseteq> {..<length h} \<longrightarrow>
     (case ue_setstate E a of None \<Rightarrow> True | Some f \<Rightarrow> keeps_heap h (f v h) (\<lambda>_. {})))"

definition env_ok :: "'x unpickle_env \<Rightarrow> bool" where
  "env_ok E \<longleftrightarrow> persid_ok E \<and> import_ok E \<and> apply_ok E \<and> setstate_ok E"

lemma env_import:
  assumes "env_ok E" "heap_ok h" "ue_import E module name h = (m, h')"
  shows "heap_ok h' \<and> length h \<le> length h' \<and> (case m of Some (k, b) \<Rightarrow> k < length h' | None \<Rightarrow> True)"
proof -
  have "import_ok E" using assms(1) by (simp add: env_ok_def)
  from this [unfolded import_ok_def, rule_format, OF assms(2), of module name] assms(3) show ?thesis by simp
qed

lemma env_apply:
  assumes "env_ok E" "heap_ok h" "set (klass # args) \<subseteq> {..<length h}"
  shows "keeps_heap h (ue_apply E klass args h) (\<lambda>a. {a})"
proof -
  have "apply_ok E" using assms(1) by (simp add: env_ok_def)
  from this [unfolded apply_ok_def, rule_format, OF assms(2,3)] show ?thesis .
qed

lemma env_setstate:
  assumes "env_ok E" "heap_ok h" "{a, v} \<subseteq> {..<length h}" "ue_setstate E a = Some f"
  shows "keeps_heap h (f v h) (\<lambda>_. {})"
proof -
  have "setstate_ok E" using assms(1) by (simp add: env_ok_def)
  from this [unfolded setstate_ok_def, rule_format, OF assms(2,3)] assms(4) show ?thesis by simp
qed

subsection \<open>Typed actions\<close>

definition typed :: "nat set \<Rightarrow> ('x, 'a) loading \<Rightarrow> ('a \<Rightarrow> nat set) \<Rightarrow> bool" where
  "typed S act R \<longleftrightarrow> (\<forall>u r v. up_ok u \<longrightarrow> S \<subseteq> {..<length (up_heap u)} \<longrightarrow> act u = (r, v) \<longrightarrow>
     up_ok v \<and> length (up_heap u) \<le> length (up_heap v) \<and>
     (case r of Inr a \<Rightarrow> R a \<subseteq> {..<length (up_heap v)} | Inl e \<Rightarrow> True))"

named_theorems typing

lemma typedI:
  assumes "\<And>u r v. up_ok u \<Longrightarrow> S \<subseteq> {..<length (up_heap u)} \<Longrightarrow> act u = (r, v) \<Longrightarrow>
     up_ok v \<and> length (up_heap u) \<le> length (up_heap v) \<and>
     (case r of Inr a \<Rightarrow> R a \<subseteq> {..<length (up_heap v)} | Inl e \<Rightarrow> True)"
  shows "typed S act R"
  using assms unfolding typed_def by blast

lemma typedD:
  assumes "typed S act R" "up_ok u" "S \<subseteq> {..<length (up_heap u)}" "act u = (r, v)"
  shows "up_ok v" "length (up_heap u) \<le> length (up_heap v)" "r = Inr a \<Longrightarrow> R a \<subseteq> {..<length (up_heap v)}"
  using assms unfolding typed_def by fastforce+

lemma typed_bind [typing]:
  assumes "typed S act Q" "\<And>a. typed (S \<union> Q a) (f a) R"
  shows "typed S (bindA act f) R"
proof (rule typedI)
  fix u r v
  assume u: "up_ok u" "S \<subseteq> {..<length (up_heap u)}" "bindA act f u = (r, v)"
  obtain r1 v1 where 1: "act u = (r1, v1)" by fastforce
  note t1 = typedD [OF assms(1) u(1,2) 1]
  show "up_ok v \<and> length (up_heap u) \<le> length (up_heap v) \<and>
     (case r of Inr a \<Rightarrow> R a \<subseteq> {..<length (up_heap v)} | Inl e \<Rightarrow> True)"
  proof (cases r1)
    case (Inl e)
    with u(3) 1 t1 show ?thesis by (auto simp: bindA_def)
  next
    case (Inr a)
    with u(3) 1 have 2: "f a v1 = (r, v)" by (simp add: bindA_def)
    have "S \<union> Q a \<subseteq> {..<length (up_heap v1)}" using t1(3) [OF Inr] u(2) t1(2) by auto
    note t2 = typedD [OF assms(2) t1(1) this 2]
    with t1(2) show ?thesis by (auto split: sum.split)
  qed
qed

lemma typed_then [typing]:
  assumes "typed S act (\<lambda>_. {})" "typed S act' R"
  shows "typed S (thenA act act') R"
proof -
  have "thenA act act' = bindA act (\<lambda>_. act')" by (rule ext) (simp add: thenA_def bindA_def)
  with typed_bind [OF assms(1), of "\<lambda>_. act'" R] assms(2) show ?thesis by simp
qed

lemma typed_ret [typing]: "R a \<subseteq> S \<Longrightarrow> typed S (retA a) R"
  by (rule typedI) auto

lemma typed_raise [typing]: "typed S (raiseA e) R"
  by (rule typedI) auto

lemma typed_lift_plain [typing]: "typed S (liftA r) (\<lambda>_. {})"
  by (rule typedI) (auto split: sum.split)

lemma typed_lift: "(\<And>a. r = Inr a \<Longrightarrow> R a \<subseteq> S) \<Longrightarrow> typed S (liftA r) R"
  by (rule typedI) (auto split: sum.split)

lemma typed_push [typing]: "a \<in> S \<Longrightarrow> typed S (up_push a) (\<lambda>_. {})"
  by (rule typedI) (auto simp: up_push_def up_ok_def)

lemma typed_new [typing]: "set (refs ob) \<subseteq> S \<Longrightarrow> typed S (up_new ob) (\<lambda>a. {a})"
  by (rule typedI) (force simp: up_new_def up_ok_def intro!: heap_ok_append)

lemma typed_line [typing]: "typed S up_line (\<lambda>_. {})"
  by (rule typedI) (auto simp: up_line_def up_ok_def Let_def)

lemma typed_top [typing]: "typed S up_top (\<lambda>a. {a})"
  by (rule typedI) (auto simp: up_top_def up_ok_def dest!: subsetD [OF _ last_in_set] split: sum.split if_splits)

lemma typed_drop [typing]: "typed S up_drop (\<lambda>_. {})"
  by (rule typedI) (auto simp: up_drop_def up_ok_def dest: in_set_butlastD split: sum.split if_splits)

lemma typed_set [typing]: "set (refs ob) \<subseteq> S \<Longrightarrow> typed S (up_set a ob) (\<lambda>_. {})"
  by (rule typedI) (auto simp: up_set_def up_ok_def intro!: heap_ok_update)

lemma typed_marker [typing]: "typed S up_marker (\<lambda>_. {})"
  by (rule typedI) (auto simp: up_marker_def up_ok_def Let_def split: sum.split if_splits)

lemma typed_heap:
  assumes "\<And>h. heap_ok h \<Longrightarrow> S \<subseteq> {..<length h} \<Longrightarrow> typed {..<length h} (f h) R"
  shows "typed S (bindA (getA up_heap) f) R"
proof (rule typedI)
  fix u r v
  assume u: "up_ok u" "S \<subseteq> {..<length (up_heap u)}" "bindA (getA up_heap) f u = (r, v)"
  then have h: "heap_ok (up_heap u)" "f (up_heap u) u = (r, v)" by (simp_all add: up_ok_def bindA_def)
  from typedD [OF assms [OF h(1) u(2)] u(1) order_refl h(2)] show "up_ok v \<and> length (up_heap u) \<le> length (up_heap v) \<and>
     (case r of Inr a \<Rightarrow> R a \<subseteq> {..<length (up_heap v)} | Inl e \<Rightarrow> True)" by (auto split: sum.split)
qed

lemma typed_heap_act:
  assumes "\<And>h. heap_ok h \<Longrightarrow> S \<subseteq> {..<length h} \<Longrightarrow> keeps_heap h (f h) R"
  shows "typed S (up_heap_act f) R"
proof (rule typedI)
  fix u r v
  assume u: "up_ok u" "S \<subseteq> {..<length (up_heap u)}" "up_heap_act f u = (r, v)"
  obtain q h where f: "f (up_heap u) = (q, h)" by fastforce
  have "keeps_heap (up_heap u) (f (up_heap u)) R" using assms u(1,2) by (simp add: up_ok_def)
  with f u show "up_ok v \<and> length (up_heap u) \<le> length (up_heap v) \<and>
     (case r of Inr a \<Rightarrow> R a \<subseteq> {..<length (up_heap v)} | Inl e \<Rightarrow> True)"
    by (auto simp: up_heap_act_def keeps_heap_def up_ok_def split: sum.splits)
qed

lemma typed_weaken: "typed S act Q \<Longrightarrow> (\<And>a. R a \<subseteq> Q a) \<Longrightarrow> typed S act R"
  unfolding typed_def by (fastforce split: sum.split)

lemma typed_if: "typed S a R \<Longrightarrow> typed S b R \<Longrightarrow> typed S (if c then a else b) R"
  by simp

lemma typed_forA [typing]: "(\<And>x. x \<in> set xs \<Longrightarrow> typed S (f x) (\<lambda>_. {})) \<Longrightarrow> typed S (forA f xs) (\<lambda>_. {})"
  by (induction xs) (simp_all add: typing)

subsection \<open>The operations\<close>

lemma typed_pop [typing]: "typed S up_pop (\<lambda>a. {a})"
  unfolding up_pop_def by (rule typing | simp)+

lemma typed_above_mark [typing]: "typed S up_above_mark set"
proof -
  have "typed S (\<lambda>u. (Inr (drop (k + 1) (up_stack u)), u\<lparr>up_stack := take k (up_stack u)\<rparr>)) set" for k
    by (rule typedI) (auto simp: up_ok_def dest: in_set_dropD in_set_takeD split: sum.split)
  then show ?thesis unfolding up_above_mark_def by (rule typed_bind [OF typed_marker, simplified])
qed

lemma dict_of_items_refs:
  "dict_of_items n L h d xs = Inr d' \<Longrightarrow> set (refs (PDict d')) \<subseteq> set xs \<union> set (refs (PDict d))"
proof (induction n L h d xs rule: dict_of_items.induct)
  case (1 n L h d k v xs)
  from 1(2) obtain d1 where d1: "dict_update n L h d k v = Inr d1" "dict_of_items n L h d1 xs = Inr d'"
    by (auto simp: bindR_Inr_iff)
  have "set (k # v # xs) = insert k (insert v (set xs))" by simp
  with 1(1) [OF d1] dict_update_refs [OF d1(1)] show ?case by blast
qed auto

lemma typed_set_item [typing]:
  fixes E :: "'x unpickle_env"
  assumes "a \<in> S" "k \<in> S" "v \<in> S"
  shows "typed S (set_item n E a k v) (\<lambda>_. {})"
  unfolding set_item_def using assms by (intro typed_heap_act heap_setitem_keeps) auto

lemma typed_atoms [typing]:
  "typed S load_none (\<lambda>_. {})" "typed S (load_int E) (\<lambda>_. {})" "typed S (load_long E) (\<lambda>_. {})"
  "typed S (load_float E) (\<lambda>_. {})" "typed S (load_string E) (\<lambda>_. {})" "typed S load_tuple (\<lambda>_. {})"
  "typed S load_list (\<lambda>_. {})" "typed S load_dup (\<lambda>_. {})"
  unfolding load_none_def load_int_def load_long_def load_float_def load_string_def load_tuple_def load_list_def
    load_dup_def
  by (rule typing | simp)+

lemma typed_dict [typing]:
  fixes E :: "'x unpickle_env"
  shows "typed S (load_dict n E) (\<lambda>_. {})"
proof -
  have inner: "typed {..<length h} (bindA (liftA (dict_of_items n (ue_lits E) h [] xs)) (\<lambda>d. bindA (up_new (PDict d)) up_push)) (\<lambda>_. {})"
    if "set xs \<subseteq> {..<length h}" for xs and h :: "'x heap"
  proof (rule typed_bind)
    show "typed {..<length h} (liftA (dict_of_items n (ue_lits E) h [] xs)) (\<lambda>d. set (refs (PDict d)))"
      using dict_of_items_refs [of n "ue_lits E" h "[]" xs] that by (intro typed_lift) fastforce
  qed (rule typing | simp)+
  show ?thesis unfolding load_dict_def
    by (intro typed_bind [OF typed_above_mark] typed_heap inner) simp
qed

lemma typed_class [typing]:
  assumes "env_ok E"
  shows "typed S (find_class E module name) (\<lambda>a. {a})"
proof (rule typedI)
  fix u r v
  assume u: "up_ok u" "find_class E module name u = (r, v)"
  obtain m h where i: "ue_import E module name (up_heap u) = (m, h)" by fastforce
  with assms u(1) have "heap_ok h \<and> length (up_heap u) \<le> length h \<and> (case m of Some (k, b) \<Rightarrow> k < length h | None \<Rightarrow> True)"
    using env_import [OF assms, of "up_heap u"] by (auto simp: up_ok_def)
  with u i show "up_ok v \<and> length (up_heap u) \<le> length (up_heap v) \<and>
     (case r of Inr a \<Rightarrow> {a} \<subseteq> {..<length (up_heap v)} | Inl e \<Rightarrow> True)"
    by (force simp: find_class_def up_ok_def split: option.splits prod.splits if_splits)
qed

lemma typed_load_class [typing]: "env_ok E \<Longrightarrow> typed S (load_class E) (\<lambda>_. {})"
  unfolding load_class_def by (rule typing | assumption | simp)+

lemma typed_inst [typing]:
  assumes "env_ok E"
  shows "typed S (load_inst E) (\<lambda>_. {})"
proof -
  have inner: "typed S (up_heap_act (ue_apply E k args)) (\<lambda>a. {a})" if "k \<in> S" "set args \<subseteq> S" for k args S
    using that by (intro typed_heap_act env_apply [OF assms]) auto
  show ?thesis unfolding load_inst_def by (rule typing inner assms | simp | blast)+
qed

lemma typed_persid [typing]:
  assumes "env_ok E"
  shows "typed S (load_persid E) (\<lambda>_. {})"
proof -
  have inner: "typed S (up_heap_act (ue_persistent_load E pid)) (\<lambda>a. {a})" for pid S
    using assms unfolding env_ok_def persid_ok_def by (intro typed_heap_act) blast
  show ?thesis unfolding load_persid_def by (rule typing inner | simp)+
qed

lemma typed_memo [typing]: "typed S (getA (\<lambda>u. up_memo u l)) set_option"
  by (rule typedI) (auto simp: up_ok_def ran_def split: sum.split)

lemma typed_get [typing]: "typed S load_get (\<lambda>_. {})"
proof -
  have inner: "typed (S \<union> set_option m) (case m of None \<Rightarrow> raiseA KeyError | Some a \<Rightarrow> up_push a) (\<lambda>_. {})" for m S
    by (cases m) (simp_all add: typing)
  show ?thesis unfolding load_get_def by (rule typing inner | simp)+
qed

lemma typed_put [typing]: "typed S load_put (\<lambda>_. {})"
proof -
  have inner: "typed S (updA (\<lambda>u. u\<lparr>up_memo := (up_memo u)(l \<mapsto> a)\<rparr>)) (\<lambda>_. {})" if "a \<in> S" for l a S
    using that by (intro typedI) (auto simp: up_ok_def updA_def ran_def split: sum.split if_splits)
  show ?thesis unfolding load_put_def by (rule typing inner | simp)+
qed

lemma typed_append [typing]: "typed S (load_append :: ('x, unit) loading) (\<lambda>_. {})"
proof -
  have inner: "typed T (bindA (getA up_heap) (\<lambda>h :: 'x heap.
       case h ! a of PList xs \<Rightarrow> up_set a (PList (xs @ [v])) | _ \<Rightarrow> raiseA AttributeError)) (\<lambda>_. {})"
    if "a \<in> T" "v \<in> T" for a v and T :: "nat set"
  proof (rule typed_heap)
    fix h :: "'x heap"
    assume h: "heap_ok h" "T \<subseteq> {..<length h}"
    with that have a: "a < length h" "v < length h" by auto
    from heap_ok_nth [OF h(1) a(1)] a(2) show "typed {..<length h}
        (case h ! a of PList xs \<Rightarrow> up_set a (PList (xs @ [v])) | _ \<Rightarrow> raiseA AttributeError) (\<lambda>_. {})"
      by (cases "h ! a") (simp_all add: typing)
  qed
  show ?thesis unfolding load_append_def by (rule typing inner | simp)+
qed

lemma typed_setitem [typing]: "typed S (load_setitem n E) (\<lambda>_. {})"
  unfolding load_setitem_def by (rule typing | simp)+

lemma typed_set_attr [typing]:
  fixes E :: "'x unpickle_env"
  assumes "a \<in> S" "k \<in> S" "v \<in> S"
  shows "typed S (set_attr n E a (k, v)) (\<lambda>_. {})"
  unfolding set_attr_def prod.case using assms by (intro typed_heap_act heap_setattr_keeps) auto

lemma typed_build [typing]:
  fixes E :: "'x unpickle_env"
  assumes env: "env_ok E"
  shows "typed S (load_build n E) (\<lambda>_. {})"
proof -
  let ?rest = "\<lambda>v a. case ue_setstate E a of
         Some f \<Rightarrow> up_heap_act (f v)
       | None \<Rightarrow>
           bindA (getA up_heap) (\<lambda>h. case h ! v of
             PDict items \<Rightarrow> forA (set_attr n E a) items
           | _ \<Rightarrow> raiseA AttributeError)"
  have inner: "typed T (?rest v a) (\<lambda>_. {})" if T: "v \<in> T" "a \<in> T" for v a T
  proof (cases "ue_setstate E a")
    case None
    have "typed T (bindA (getA up_heap) (\<lambda>h. case h ! v of
             PDict items \<Rightarrow> forA (set_attr n E a) items
           | _ \<Rightarrow> raiseA AttributeError)) (\<lambda>_. {})"
    proof (rule typed_heap)
      fix h :: "'x heap"
      assume h: "heap_ok h" "T \<subseteq> {..<length h}"
      with T have l: "v < length h" "a < length h" by auto
      note r = heap_ok_nth [OF h(1) l(1)]
      have "typed {..<length h} (forA (set_attr n E a) items) (\<lambda>_. {})" if "h ! v = PDict items" for items
        using r l(2) that by (intro typed_forA) (auto intro!: typed_set_attr)
      then show "typed {..<length h} (case h ! v of
             PDict items \<Rightarrow> forA (set_attr n E a) items
           | _ \<Rightarrow> raiseA AttributeError) (\<lambda>_. {})"
        by (cases "h ! v") (simp_all add: typing)
    qed
    with None show ?thesis by simp
  next
    case (Some f)
    have "keeps_heap h (f v h) (\<lambda>_. {})" if "heap_ok h" "T \<subseteq> {..<length h}" for h
      by (rule env_setstate [OF env that(1) _ Some]) (use that T in auto)
    with Some show ?thesis by (simp add: typed_heap_act)
  qed
  show ?thesis unfolding load_build_def by (rule typing inner | simp)+
qed

lemma typed_go_on: "typed S m (\<lambda>_. {}) \<Longrightarrow> typed S (go_on m) set_option"
  unfolding go_on_def by (rule typing | assumption | simp)+

lemma typed_mark: "typed S (bindA (getA up_mark) up_push) (\<lambda>_. {})"
proof -
  have "typed S (getA up_mark) (\<lambda>a. {a})" by (rule typedI) (auto simp: up_ok_def)
  then show ?thesis by (rule typed_bind) (rule typing, simp)
qed

lemma typed_stop: "typed S (bindA up_pop (\<lambda>a. retA (Some a))) set_option"
  by (rule typing | simp)+

lemma typed_dispatch: "env_ok E \<Longrightarrow> typed S (dispatch n E key) set_option"
  unfolding dispatch_def by (rule typed_if typed_go_on typed_mark typed_stop typing | assumption)+

theorem load_step_typed: "env_ok E \<Longrightarrow> typed S (load_step n E) set_option"
proof -
  assume "env_ok E"
  moreover have "typed S up_read1 (\<lambda>_. {})" by (rule typedI) (auto simp: up_read1_def up_ok_def)
  ultimately show ?thesis unfolding load_step_def using typed_dispatch by (intro typed_bind)
qed

lemma load_loop_typed:
  "env_ok E \<Longrightarrow> up_ok u \<Longrightarrow> load_loop fuel n E u = Some (r, v) \<Longrightarrow>
    up_ok v \<and> (case r of Inr a \<Rightarrow> a < length (up_heap v) | Inl e \<Rightarrow> True)"
proof (induction fuel arbitrary: u)
  case (Suc fuel)
  obtain q w where step: "load_step n E u = (q, w)" by fastforce
  note t = typedD [OF load_step_typed [OF Suc.prems(1), of "{}"] Suc.prems(2) _ step]
  show ?case
  proof (cases q)
    case (Inl e)
    with Suc.prems(3) step t(1) show ?thesis by auto
  next
    case (Inr m)
    with Suc.IH [OF Suc.prems(1), of w] Suc.prems(3) step t(1,3) show ?thesis by (cases m) auto
  qed
qed simp

theorem loads_typed:
  assumes "env_ok E" "loads n E s = Some (r, h)"
  shows "heap_ok h \<and> (case r of Inr a \<Rightarrow> a < length h | Inl e \<Rightarrow> True)"
proof -
  let ?u = "\<lparr>up_stack = [], up_mark = 1, up_memo = (\<lambda>_. None), up_heap = [PStr ''spam'', PList [0]], up_in = s\<rparr>"
  from assms(2) obtain v where v: "load_loop (length s + 1) n E ?u = Some (r, v)" "h = up_heap v"
    by (auto simp: loads_def unpickler_load_def unpickler_init_def)
  have "up_ok ?u" by (simp add: up_ok_def heap_ok_def)
  from load_loop_typed [OF assms(1) this v(1)] v(2) show ?thesis by (cases r) (simp_all add: up_ok_def)
qed

end
