(* ===== verification/Polys.thy ===== *)
theory Polys
  imports Py_Prelude Complex_Main "HOL-Library.List_Lexorder"
begin

section \<open>\<open>Lib/poly.py\<close> and \<open>Lib/zmod.py\<close>: polynomials as coefficient lists\<close>

text \<open>
  A polynomial is the list of its integer coefficients, the constant one first.  Every operation
  ends in \<open>normalize\<close>, whose loop runs the index through zero into the negative indices of a
  Python list: a non-empty list of zeros ends in \<open>IndexError\<close>.  The meaning of a list is its
  value at a point, \<open>poly_val\<close>.
\<close>

subsection \<open>Definitions\<close>

function normalize_loop :: "int list \<Rightarrow> int \<Rightarrow> int list res" where
  "normalize_loop p n =
     (case pindex p (n - 1) of
        Inl e \<Rightarrow> Inl e
      | Inr c \<Rightarrow> if c \<noteq> 0 then Inr (pupto n p) else normalize_loop p (n - 1))"
  by pat_completeness auto
termination
  by (relation "measure (\<lambda>(p, n). nat (n + int (length p) + 1))")
    (auto simp: pindex_def Let_def split: if_splits)

declare normalize_loop.simps [simp del]

definition poly_normalize :: "int list \<Rightarrow> int list res" where
  "poly_normalize p = (if p \<noteq> [] then normalize_loop p (int (length p)) else Inr [])"

definition poly_plus :: "int list \<Rightarrow> int list \<Rightarrow> int list res" where
  "poly_plus a b =
     (let (a, b) = (if length a < length b then (b, a) else (a, b));
          res = foldl (\<lambda>res i. res[i := res ! i + b ! i]) a [0..<length b]
      in poly_normalize res)"

definition poly_minus :: "int list \<Rightarrow> int list \<Rightarrow> int list res" where
  "poly_minus a b = (let neg_b = map uminus b in poly_plus a neg_b)"

definition poly_one :: "nat \<Rightarrow> int \<Rightarrow> int list" where
  "poly_one n coeff = replicate n 0 @ [coeff]"

definition poly_times :: "int list \<Rightarrow> int list \<Rightarrow> int list res" where
  "poly_times a b =
     foldl (\<lambda>res i. foldl (\<lambda>res j. bindR res (\<lambda>r. poly_plus r (poly_one (i + j) (a ! i * b ! j))))
         res [0..<length b])
       (Inr []) [0..<length a]"

function poly_power :: "int list \<Rightarrow> nat \<Rightarrow> int list res" where
  "poly_power a n =
     (if n = 0 then Inr [1]
      else if n = 1 then Inr a
      else if n div 2 * 2 = n then bindR (poly_power a (n div 2)) (\<lambda>b. poly_times b b)
      else bindR (poly_power a (n - 1)) (\<lambda>b. poly_times b a))"
  by pat_completeness auto
termination
  by (relation "measure snd") auto

declare poly_power.simps [simp del]

definition poly_der :: "int list \<Rightarrow> int list" where
  "poly_der a = (let res = drop 1 a in foldl (\<lambda>res i. res[i := res ! i * (int i + 1)]) res [0..<length res])"

subsection \<open>Definitions: \<open>zmod\<close>\<close>

definition zmod_mod :: "int \<Rightarrow> int \<Rightarrow> int res" where
  "zmod_mod x y = (if y = 0 then Inl ZeroDivisionError else Inr (x mod y))"

definition zmod_norm :: "int list \<Rightarrow> int \<Rightarrow> int list \<Rightarrow> int list res" where
  \<comment> \<open>\<open>poly.modulo\<close> does not exist\<close>
  "zmod_norm a n p = Inl AttributeError"

definition make_all :: "'a list list \<Rightarrow> 'a list" where
  "make_all mat = foldl (\<lambda>all row. foldl (\<lambda>all a. all @ [a]) all row) [] mat"

primrec make_elements :: "nat \<Rightarrow> nat \<Rightarrow> int list list res" where
  "make_elements n 0 = Inr [poly_one 0 0]"
| "make_elements n (Suc d) =
     bindR (make_elements n d) (\<lambda>sub.
       foldl (\<lambda>all a. foldl (\<lambda>all i. bindR all (\<lambda>l.
           bindR (poly_plus a (poly_one d (int i))) (\<lambda>e. Inr (l @ [e])))) all [0..<n]) (Inr []) sub)"

definition make_inv :: "int list list \<Rightarrow> int \<Rightarrow> int list \<Rightarrow> int list list res" where
  "make_inv all n p =
     (let x = poly_one 1 1
      in foldl (\<lambda>inv a. bindR inv (\<lambda>l. bindR (poly_times a x) (\<lambda>t. bindR (zmod_norm t n p) (\<lambda>e. Inr (l @ [e])))))
           (Inr []) all)"

text \<open>
  The verdict that is printed.  On an empty polynomial the recursion of \<open>make_elements\<close> runs
  into the interpreter's limit.
\<close>

definition checkfield :: "nat \<Rightarrow> int list \<Rightarrow> bool res" where
  "checkfield n p =
     (if p = [] then Inl RuntimeError
      else
        bindR (make_elements n (length p - 1)) (\<lambda>all. bindR (make_inv all (int n) p) (\<lambda>inv.
          let all1 = sort all; inv1 = sort inv in Inr (all1 = inv1))))"

definition zmod_rj :: "string \<Rightarrow> int \<Rightarrow> string" where
  "zmod_rj s width =
     (let n = int (length s) in if n \<ge> width then s else replicate (nat (width - n)) CHR '' '' @ s)"

definition zmod_lj :: "string \<Rightarrow> int \<Rightarrow> string" where
  "zmod_lj s width =
     (let n = int (length s) in if n \<ge> width then s else s @ replicate (nat (width - n)) CHR '' '')"

subsection \<open>The loops\<close>

text \<open>\<open>for i in range(n): r[i] = f(i, r[i])\<close>\<close>

lemma update_loop:
  "n \<le> length a \<Longrightarrow>
    foldl (\<lambda>r i. r[i := f i (r ! i)]) a [0..<n] = map (\<lambda>i. if i < n then f i (a ! i) else a ! i) [0..<length a]"
proof (induction n)
  case 0
  then show ?case by (simp add: map_nth)
next
  case (Suc n)
  then show ?case by (auto intro!: nth_equalityI simp: nth_list_update less_Suc_eq)
qed

definition coeff :: "int list \<Rightarrow> nat \<Rightarrow> int" where
  "coeff p i = (if i < length p then p ! i else 0)"

definition poly_val :: "int list \<Rightarrow> 'a::comm_ring_1 \<Rightarrow> 'a" where
  "poly_val p x = (\<Sum>i < length p. of_int (p ! i) * x ^ i)"

lemma poly_val_coeff: "length p \<le> n \<Longrightarrow> poly_val p x = (\<Sum>i < n. of_int (coeff p i) * x ^ i)"
  unfolding poly_val_def coeff_def by (rule sum.mono_neutral_cong_left) auto

lemma poly_val_Nil [simp]: "poly_val [] x = 0"
  by (simp add: poly_val_def)

lemma poly_val_one: "poly_val (poly_one k c) x = of_int c * x ^ k"
proof -
  have "poly_val (poly_one k c) x = (\<Sum>i < Suc k. of_int (if i < k then 0 else c) * x ^ i)"
    by (simp add: poly_val_def poly_one_def nth_append)
  then show ?thesis by simp
qed

lemma normalize_loop_step:
  "0 < n \<Longrightarrow> n \<le> length p \<Longrightarrow>
    normalize_loop p (int n) = (if p ! (n - 1) \<noteq> 0 then Inr (take n p) else normalize_loop p (int (n - 1)))"
  by (subst normalize_loop.simps) (use pindex_nat [of "n - 1" p] in \<open>simp add: of_nat_diff\<close>)

lemma normalize_loop_zero:
  "list_all (\<lambda>c. c = 0) p \<Longrightarrow> n \<le> int (length p) \<Longrightarrow> normalize_loop p n = Inl IndexError"
proof (induction p n rule: normalize_loop.induct)
  case (1 p n)
  show ?case
  proof (cases "pindex p (n - 1)")
    case (Inl e)
    then have "e = IndexError" by (auto simp: pindex_def Let_def split: if_splits)
    with Inl show ?thesis by (subst normalize_loop.simps) simp
  next
    case (Inr c)
    then have "c \<in> set p" by (auto simp: pindex_def Let_def split: if_splits)
    with 1(2) have "c = 0" by (simp add: list_all_iff)
    with Inr 1 show ?thesis by (subst normalize_loop.simps) simp
  qed
qed

lemma normalize_loop_nonzero:
  "\<exists>i < n. p ! i \<noteq> 0 \<Longrightarrow> n \<le> length p \<Longrightarrow>
    \<exists>k < n. p ! k \<noteq> 0 \<and> (\<forall>i. k < i \<and> i < n \<longrightarrow> p ! i = 0) \<and> normalize_loop p (int n) = Inr (take (Suc k) p)"
proof (induction n)
  case (Suc n)
  show ?case
  proof (cases "p ! n = 0")
    case True
    with Suc.prems have "\<exists>i < n. p ! i \<noteq> 0" by (metis less_Suc_eq)
    with Suc.IH Suc.prems(2) obtain k where k: "k < n" "p ! k \<noteq> 0" "\<forall>i. k < i \<and> i < n \<longrightarrow> p ! i = 0"
      "normalize_loop p (int n) = Inr (take (Suc k) p)" by auto
    with True Suc.prems(2) show ?thesis
      using normalize_loop_step [of "Suc n" p] by (intro exI [of _ k]) (auto simp: less_Suc_eq)
  next
    case False
    with Suc.prems(2) show ?thesis
      using normalize_loop_step [of "Suc n" p] by (intro exI [of _ n]) auto
  qed
qed simp

lemma poly_normalize_Inl:
  "poly_normalize p = Inl e \<longleftrightarrow> e = IndexError \<and> p \<noteq> [] \<and> list_all (\<lambda>c. c = 0) p"
proof (cases "list_all (\<lambda>c. c = 0) p")
  case True
  with normalize_loop_zero [OF True] show ?thesis by (auto simp: poly_normalize_def)
next
  case False
  then have "\<exists>i < length p. p ! i \<noteq> 0" by (auto simp: list_all_length)
  from normalize_loop_nonzero [OF this le_refl] False show ?thesis by (auto simp: poly_normalize_def)
qed

lemma poly_normalize_Inr:
  assumes "poly_normalize p = Inr r"
  shows "poly_val r x = poly_val p x" "r \<noteq> [] \<Longrightarrow> last r \<noteq> 0"
proof -
  have "poly_val r x = poly_val p x \<and> (r \<noteq> [] \<longrightarrow> last r \<noteq> 0)"
  proof (cases "\<exists>i < length p. p ! i \<noteq> 0")
    case True
    from normalize_loop_nonzero [OF this le_refl] obtain k where k: "k < length p" "p ! k \<noteq> 0"
      "\<And>i. k < i \<Longrightarrow> i < length p \<Longrightarrow> p ! i = 0" "normalize_loop p (int (length p)) = Inr (take (Suc k) p)"
      by auto
    from k(1) have "p \<noteq> []" by auto
    with k(4) assms have r: "r = take (Suc k) p" by (simp add: poly_normalize_def)
    have "poly_val r x = (\<Sum>i < Suc k. of_int (p ! i) * x ^ i)"
      using k(1) by (simp add: r poly_val_def)
    also have "\<dots> = poly_val p x"
      unfolding poly_val_def using k by (intro sum.mono_neutral_cong_left) auto
    finally show ?thesis using k by (simp add: r take_Suc_conv_app_nth)
  next
    case False
    then have "list_all (\<lambda>c. c = 0) p" by (simp add: list_all_length)
    with assms normalize_loop_zero [of p "int (length p)"] show ?thesis
      by (auto simp: poly_normalize_def split: if_splits)
  qed
  then show "poly_val r x = poly_val p x" "r \<noteq> [] \<Longrightarrow> last r \<noteq> 0" by auto
qed

subsection \<open>Addition\<close>

lemma poly_plus_sum:
  "\<exists>s. poly_plus a b = poly_normalize s \<and> length s = max (length a) (length b) \<and>
    (\<forall>i < length s. s ! i = coeff a i + coeff b i)"
proof -
  define c d where "c = (if length a < length b then b else a)" and "d = (if length a < length b then a else b)"
  have le: "length d \<le> length c" by (auto simp: c_def d_def)
  have "poly_plus a b = poly_normalize (map (\<lambda>i. if i < length d then c ! i + d ! i else c ! i) [0..<length c])"
    using update_loop [OF le, of "\<lambda>i y. y + d ! i"]
    by (cases "length a < length b") (simp_all add: poly_plus_def c_def d_def)
  then show ?thesis
    by (intro exI conjI, assumption) (auto simp: coeff_def c_def d_def)
qed

lemma poly_plus_Inl:
  "poly_plus a b = Inl e \<longleftrightarrow> e = IndexError \<and> (a \<noteq> [] \<or> b \<noteq> []) \<and> (\<forall>i. coeff a i + coeff b i = 0)"
proof -
  obtain s where s: "poly_plus a b = poly_normalize s" "length s = max (length a) (length b)"
    "\<And>i. i < length s \<Longrightarrow> s ! i = coeff a i + coeff b i"
    using poly_plus_sum by blast
  have "list_all (\<lambda>c. c = 0) s \<longleftrightarrow> (\<forall>i. coeff a i + coeff b i = 0)"
    using s(2,3) by (auto simp: list_all_length coeff_def)
  moreover have "s \<noteq> [] \<longleftrightarrow> a \<noteq> [] \<or> b \<noteq> []"
    using s(2) by (metis length_0_conv max_0L max_nat.eq_neutr_iff)
  ultimately show ?thesis by (auto simp: s(1) poly_normalize_Inl)
qed

lemma poly_plus_val:
  assumes "poly_plus a b = Inr r"
  shows "poly_val r x = poly_val a x + poly_val b x" "r \<noteq> [] \<Longrightarrow> last r \<noteq> 0"
proof -
  obtain s where s: "poly_plus a b = poly_normalize s" "length s = max (length a) (length b)"
    "\<And>i. i < length s \<Longrightarrow> s ! i = coeff a i + coeff b i"
    using poly_plus_sum by blast
  let ?n = "length s"
  from assms s(1) have r: "poly_normalize s = Inr r" by simp
  have "poly_val s x = (\<Sum>i < ?n. of_int (coeff a i + coeff b i) * x ^ i)"
    unfolding poly_val_def using s(3) by (intro sum.cong) auto
  also have "\<dots> = poly_val a x + poly_val b x"
    using s(2) by (simp add: poly_val_coeff [of a ?n] poly_val_coeff [of b ?n] distrib_right sum.distrib)
  finally show "poly_val r x = poly_val a x + poly_val b x"
    using poly_normalize_Inr(1) [OF r, of x] by simp
  show "r \<noteq> [] \<Longrightarrow> last r \<noteq> 0" by (rule poly_normalize_Inr(2) [OF r])
qed

lemma poly_minus_val:
  assumes "poly_minus a b = Inr r"
  shows "poly_val r x = poly_val a x - poly_val b x"
proof -
  have "poly_val (map uminus b) x = - poly_val b x"
    by (simp add: poly_val_def flip: sum_negf)
  with poly_plus_val(1) [of a "map uminus b" r x] assms show ?thesis by (simp add: poly_minus_def)
qed

subsection \<open>Multiplication and powers\<close>

lemma foldl_product:
  "foldl (\<lambda>r i. foldl (\<lambda>r j. f r i j) r js) r is = foldl (\<lambda>r (i, j). f r i j) r (List.product is js)"
proof (induction "is" arbitrary: r)
  case (Cons i "is")
  have "foldl (\<lambda>r (i, j). f r i j) r (map (Pair i) js) = foldl (\<lambda>r j. f r i j) r js" for r
    by (induction js arbitrary: r) simp_all
  with Cons show ?case by simp
qed simp

lemma foldl_Inl: "foldl (\<lambda>r p. bindR r (f p)) (Inl e) ps = Inl e"
  by (induction ps) simp_all

lemma plus_loop:
  "foldl (\<lambda>res p. bindR res (\<lambda>r. poly_plus r (poly_one (d p) (c p)))) (Inr r0) ps = Inr r \<Longrightarrow>
    poly_val r x = poly_val r0 x + (\<Sum>p\<leftarrow>ps. of_int (c p) * x ^ d p)"
proof (induction ps arbitrary: r0)
  case (Cons p ps)
  from Cons.prems obtain r1 where r1: "poly_plus r0 (poly_one (d p) (c p)) = Inr r1"
    by (cases "poly_plus r0 (poly_one (d p) (c p))") (simp_all add: foldl_Inl)
  with Cons show ?case
    using poly_plus_val(1) [OF r1, of x] by (simp add: poly_val_one)
qed simp

lemma poly_times_val:
  assumes "poly_times a b = Inr r"
  shows "poly_val r x = poly_val a x * poly_val b x"
proof -
  let ?ps = "List.product [0..<length a] [0..<length b]"
  have "poly_val r x = (\<Sum>p\<leftarrow>?ps. of_int (a ! fst p * b ! snd p) * x ^ (fst p + snd p))"
    using plus_loop [of "\<lambda>p. fst p + snd p" "\<lambda>p. a ! fst p * b ! snd p" "[]" ?ps r x] assms
    by (simp add: poly_times_def foldl_product [where f = "\<lambda>res i j. bindR res (\<lambda>r. poly_plus r (poly_one (i + j) (a ! i * b ! j)))"]
      case_prod_beta')
  also have "\<dots> = (\<Sum>p\<in>set ?ps. of_int (a ! fst p * b ! snd p) * x ^ (fst p + snd p))"
    by (rule sum_list_distinct_conv_sum_set) (simp add: distinct_product)
  also have "\<dots> = (\<Sum>(i, j)\<in>{..<length a} \<times> {..<length b}. (of_int (a ! i) * x ^ i) * (of_int (b ! j) * x ^ j))"
    by (rule sum.cong) (auto simp: power_add algebra_simps)
  also have "\<dots> = poly_val a x * poly_val b x"
    unfolding poly_val_def sum_product sum.cartesian_product ..
  finally show ?thesis .
qed

lemma poly_times_zero_constant:
  assumes "b \<noteq> []"
  shows "poly_times (0 # a) b = Inl IndexError"
proof -
  obtain n where b: "length b = Suc n" using assms by (cases b) auto
  have "poly_plus [] (poly_one 0 0) = Inl IndexError"
    by (simp add: poly_plus_Inl poly_one_def coeff_def)
  then have "foldl (\<lambda>res j. bindR res (\<lambda>r. poly_plus r (poly_one (0 + j) ((0 # a) ! 0 * b ! j)))) (Inr []) [0..<length b]
      = Inl IndexError"
    by (simp add: b upt_conv_Cons foldl_Inl [where f = "\<lambda>j r. poly_plus r (poly_one j 0)"] del: upt_Suc)
  moreover have "foldl (\<lambda>res i. foldl (\<lambda>res j. bindR res (f i j)) res js) (Inl e) ks = Inl e"
    for f :: "nat \<Rightarrow> nat \<Rightarrow> int list \<Rightarrow> int list res" and e js ks
    by (induction ks) (simp_all add: foldl_Inl)
  ultimately show ?thesis
    by (simp add: poly_times_def upt_conv_Cons del: upt_Suc)
qed

lemma poly_power_val:
  "poly_power a n = Inr r \<Longrightarrow> poly_val r x = poly_val a x ^ n"
proof (induction a n arbitrary: r rule: poly_power.induct)
  case (1 a n)
  consider "n = 0" | "n = 1" | "n \<noteq> 0" "n \<noteq> 1" "n div 2 * 2 = n" | "n \<noteq> 0" "n \<noteq> 1" "n div 2 * 2 \<noteq> n"
    by blast
  then show ?case
  proof cases
    case 1
    with "1.prems" have "r = [1]" by (subst (asm) poly_power.simps) simp
    with 1 show ?thesis by (simp add: poly_val_def)
  next
    case 2
    with "1.prems" have "r = a" by (subst (asm) poly_power.simps) simp
    with 2 show ?thesis by simp
  next
    case 3
    with "1.prems" obtain b where b: "poly_power a (n div 2) = Inr b" "poly_times b b = Inr r"
      by (subst (asm) poly_power.simps) (auto simp: bindR_Inr_iff)
    from 3 have "poly_val a x ^ n = poly_val a x ^ (n div 2) * poly_val a x ^ (n div 2)"
      by (simp flip: power_add mult_2_right)
    with "1.IH"(1) [OF 3 b(1)] poly_times_val [OF b(2), of x] show ?thesis by simp
  next
    case 4
    with "1.prems" obtain b where b: "poly_power a (n - 1) = Inr b" "poly_times b a = Inr r"
      by (subst (asm) poly_power.simps) (auto simp: bindR_Inr_iff)
    from 4 have "poly_val a x ^ n = poly_val a x ^ (n - 1) * poly_val a x"
      by (simp flip: power_Suc2)
    with "1.IH"(2) [OF 4 b(1)] poly_times_val [OF b(2), of x] show ?thesis by simp
  qed
qed

subsection \<open>Derivatives\<close>

lemma poly_der_nth: "poly_der a = map (\<lambda>i. a ! Suc i * (int i + 1)) [0..<length a - 1]"
  using update_loop [of "length a - 1" "drop 1 a" "\<lambda>i y. y * (int i + 1)"]
  by (auto simp: poly_der_def intro: nth_equalityI)

lemma poly_der_derivative:
  "((poly_val a :: real \<Rightarrow> real) has_field_derivative poly_val (poly_der a) x) (at x)"
proof -
  have "((\<lambda>x. \<Sum>i<length a. real_of_int (a ! i) * x ^ i) has_field_derivative
      (\<Sum>i<length a. of_int (a ! i) * (real i * x ^ (i - 1)))) (at x)"
    by (rule DERIV_sum) (auto intro!: derivative_eq_intros)
  also have "(\<Sum>i<length a. of_int (a ! i) * (real i * x ^ (i - 1))) = poly_val (poly_der a) x"
  proof (cases "length a")
    case (Suc n)
    have "(\<Sum>i<Suc n. real_of_int (a ! i) * (real i * x ^ (i - 1))) =
        (\<Sum>i<n. real_of_int (a ! Suc i) * (real (Suc i) * x ^ i))"
      by (subst sum.lessThan_Suc_shift) simp
    also have "\<dots> = poly_val (poly_der a) x"
      using Suc by (simp add: poly_val_def poly_der_nth algebra_simps)
    finally show ?thesis using Suc by simp
  qed (simp add: poly_der_nth)
  finally show ?thesis by (simp add: poly_val_def [abs_def])
qed

subsection \<open>The field check\<close>

text \<open>The first element it makes is a sum of zeros, so the check ends in \<open>IndexError\<close>.\<close>

lemma make_elements_raises: "0 < n \<Longrightarrow> make_elements n (Suc d) = Inl IndexError"
proof (induction d)
  case 0
  then obtain m where n: "n = Suc m" by (cases n) auto
  have "poly_plus [0] (poly_one 0 0) = Inl IndexError"
    by (simp add: poly_plus_Inl poly_one_def coeff_def)
  then show ?case
    by (simp add: n upt_conv_Cons poly_one_def foldl_Inl del: upt_Suc)
next
  case (Suc d)
  then show ?case by (subst make_elements.simps) simp
qed

lemma checkfield_raises: "0 < n \<Longrightarrow> 2 \<le> length p \<Longrightarrow> checkfield n p = Inl IndexError"
proof -
  assume "0 < n" "2 \<le> length p"
  then have "make_elements n (length p - 1) = Inl IndexError"
    using make_elements_raises [of n "length p - 2"] by (metis Suc_diff_Suc Suc_1 Suc_le_eq)
  with \<open>2 \<le> length p\<close> show ?thesis by (auto simp: checkfield_def)
qed

lemma zmod_pad_length: "int (length (zmod_rj s w)) = max (int (length s)) w" "int (length (zmod_lj s w)) = max (int (length s)) w"
  by (simp_all add: zmod_rj_def zmod_lj_def Let_def)

end
