(* ===== verification/PyQueue.thy ===== *)
theory PyQueue
  imports Py_Prelude
begin

section \<open>\<open>Lib/Queue.py\<close>: a queue shared by threads\<close>

text \<open>
  The class as a transition system.  The shared state is the three locks (\<open>True\<close> when held)
  and the representation of the queue; a thread is the program counter of the method it is
  executing, with the values of its local variables.  One step of a thread is one lock operation
  or one access to the representation, so every interleaving of the threads is a run.  The
  methods \<open>_empty\<close>, \<open>_full\<close>, \<open>_put\<close>, \<open>_get\<close> and \<open>_qsize\<close>, which a subclass may
  override, are a record of functions; the class's own (a list, first in first out) are its
  instance.
\<close>

subsection \<open>The representation\<close>

record ('q, 'a) queue_org =
  qo_empty :: "'q \<Rightarrow> bool"
  qo_full :: "'q \<Rightarrow> bool"
  qo_put :: "'a \<Rightarrow> 'q \<Rightarrow> 'q"
  qo_get :: "'q \<Rightarrow> ('a \<times> 'q) res"
  qo_qsize :: "'q \<Rightarrow> nat"

record 'a fifo =
  maxsize :: int
  queue :: "'a list"

definition fifo_init :: "int \<Rightarrow> 'a fifo" where
  "fifo_init n = \<lparr>maxsize = n, queue = []\<rparr>"

definition fifo_qsize :: "'a fifo \<Rightarrow> nat" where
  "fifo_qsize q = length (queue q)"

definition fifo_empty :: "'a fifo \<Rightarrow> bool" where
  "fifo_empty q \<longleftrightarrow> queue q = []"

definition fifo_full :: "'a fifo \<Rightarrow> bool" where
  "fifo_full q \<longleftrightarrow> maxsize q > 0 \<and> int (length (queue q)) = maxsize q"

definition fifo_put :: "'a \<Rightarrow> 'a fifo \<Rightarrow> 'a fifo" where
  "fifo_put item q = q\<lparr>queue := queue q @ [item]\<rparr>"

definition fifo_get :: "'a fifo \<Rightarrow> ('a \<times> 'a fifo) res" where
  "fifo_get q =
     (case queue q of [] \<Rightarrow> Inl IndexError | item # rest \<Rightarrow> Inr (item, q\<lparr>queue := rest\<rparr>))"

definition fifo_org :: "('a fifo, 'a) queue_org" where
  "fifo_org = \<lparr>qo_empty = fifo_empty, qo_full = fifo_full, qo_put = fifo_put, qo_get = fifo_get,
     qo_qsize = fifo_qsize\<rparr>"

subsection \<open>Threads\<close>

record 'q qshared =
  q_mutex :: bool
  q_esema :: bool
  q_fsema :: bool
  q_rep :: 'q

definition queue_init :: "'q \<Rightarrow> 'q qshared" where
  "queue_init r = \<lparr>q_mutex = False, q_esema = True, q_fsema = False, q_rep = r\<rparr>"

datatype observer = Qsize | IsEmpty | IsFull

datatype 'a pc =
    PutF 'a | PutM 'a | PutQ 'a | PutE bool | PutFull | PutEnd
  | GetE | GetM | GetQ | GetF bool 'a | GetEmp 'a | GetEnd 'a
  | NowE | NowM bool | NowQ bool | NowFail
  | ObsM observer | ObsQ observer | ObsEnd nat
  | Returned | Got 'a | RaisedEmpty | Observed nat | Crashed pyexc

text \<open>Releasing a lock that nobody holds raises \<open>thread.error\<close>.\<close>

definition unlocked_error :: pyexc where
  "unlocked_error = ModError ''thread.error'' ''release unlocked lock''"

text \<open>
  One step of a thread: \<open>None\<close> when it waits for a lock.  The tail of \<open>get_nowait\<close> is that of
  \<open>get\<close>, from \<open>was_full = self._full()\<close> on.
\<close>

fun pc_step ::
  "('q, 'a) queue_org \<Rightarrow> 'a pc \<Rightarrow> 'q qshared \<Rightarrow> ('a pc \<times> 'q qshared) option" where
  "pc_step org (PutF x) s =
     (if q_fsema s then None else Some (PutM x, s\<lparr>q_fsema := True\<rparr>))"
| "pc_step org (PutM x) s =
     (if q_mutex s then None else Some (PutQ x, s\<lparr>q_mutex := True\<rparr>))"
| "pc_step org (PutQ x) s =
     Some (PutE (qo_empty org (q_rep s)), s\<lparr>q_rep := qo_put org x (q_rep s)\<rparr>)"
| "pc_step org (PutE was_empty) s =
     (if was_empty then
        if q_esema s then Some (PutFull, s\<lparr>q_esema := False\<rparr>) else Some (Crashed unlocked_error, s)
      else Some (PutFull, s))"
| "pc_step org PutFull s =
     (if \<not> qo_full org (q_rep s) then
        if q_fsema s then Some (PutEnd, s\<lparr>q_fsema := False\<rparr>) else Some (Crashed unlocked_error, s)
      else Some (PutEnd, s))"
| "pc_step org PutEnd s =
     (if q_mutex s then Some (Returned, s\<lparr>q_mutex := False\<rparr>) else Some (Crashed unlocked_error, s))"
| "pc_step org GetE s =
     (if q_esema s then None else Some (GetM, s\<lparr>q_esema := True\<rparr>))"
| "pc_step org GetM s =
     (if q_mutex s then None else Some (GetQ, s\<lparr>q_mutex := True\<rparr>))"
| "pc_step org GetQ s =
     (case qo_get org (q_rep s) of
        Inl e \<Rightarrow> Some (Crashed e, s)
      | Inr (x, r) \<Rightarrow> Some (GetF (qo_full org (q_rep s)) x, s\<lparr>q_rep := r\<rparr>))"
| "pc_step org (GetF was_full x) s =
     (if was_full then
        if q_fsema s then Some (GetEmp x, s\<lparr>q_fsema := False\<rparr>) else Some (Crashed unlocked_error, s)
      else Some (GetEmp x, s))"
| "pc_step org (GetEmp x) s =
     (if \<not> qo_empty org (q_rep s) then
        if q_esema s then Some (GetEnd x, s\<lparr>q_esema := False\<rparr>) else Some (Crashed unlocked_error, s)
      else Some (GetEnd x, s))"
| "pc_step org (GetEnd x) s =
     (if q_mutex s then Some (Got x, s\<lparr>q_mutex := False\<rparr>) else Some (Crashed unlocked_error, s))"
| "pc_step org NowE s =
     (if q_esema s then Some (NowM False, s) else Some (NowM True, s\<lparr>q_esema := True\<rparr>))"
| "pc_step org (NowM locked) s =
     (if q_mutex s then None else Some (NowQ locked, s\<lparr>q_mutex := True\<rparr>))"
| "pc_step org (NowQ locked) s =
     (if qo_empty org (q_rep s) then Some (NowFail, s)
      else if locked then Some (GetQ, s)
      else if q_esema s then Some (NowFail, s)
      else Some (GetQ, s\<lparr>q_esema := True\<rparr>))"
| "pc_step org NowFail s =
     (if q_mutex s then Some (RaisedEmpty, s\<lparr>q_mutex := False\<rparr>) else Some (Crashed unlocked_error, s))"
| "pc_step org (ObsM ob) s =
     (if q_mutex s then None else Some (ObsQ ob, s\<lparr>q_mutex := True\<rparr>))"
| "pc_step org (ObsQ ob) s =
     Some (ObsEnd (case ob of Qsize \<Rightarrow> qo_qsize org (q_rep s)
        | IsEmpty \<Rightarrow> of_bool (qo_empty org (q_rep s)) | IsFull \<Rightarrow> of_bool (qo_full org (q_rep s))), s)"
| "pc_step org (ObsEnd n) s =
     (if q_mutex s then Some (Observed n, s\<lparr>q_mutex := False\<rparr>) else Some (Crashed unlocked_error, s))"
| "pc_step org pc s = None"

definition is_done :: "'a pc \<Rightarrow> bool" where
  "is_done pc = (case pc of Returned \<Rightarrow> True | Got _ \<Rightarrow> True | RaisedEmpty \<Rightarrow> True
     | Observed _ \<Rightarrow> True | Crashed _ \<Rightarrow> True | _ \<Rightarrow> False)"

definition is_start :: "'a pc \<Rightarrow> bool" where
  "is_start pc = (case pc of PutF _ \<Rightarrow> True | GetE \<Rightarrow> True | NowE \<Rightarrow> True | ObsM _ \<Rightarrow> True | _ \<Rightarrow> False)"

text \<open>What a step puts in or takes out.\<close>

datatype 'a qevent = In 'a | Out 'a

fun pc_events :: "('q, 'a) queue_org \<Rightarrow> 'a pc \<Rightarrow> 'q qshared \<Rightarrow> 'a qevent list" where
  "pc_events org (PutQ x) s = [In x]"
| "pc_events org GetQ s = (case qo_get org (q_rep s) of Inl _ \<Rightarrow> [] | Inr (x, _) \<Rightarrow> [Out x])"
| "pc_events org pc s = []"

text \<open>Runs of any number of threads; a thread that has finished may call another method.\<close>

inductive queue_run ::
  "('q, 'a) queue_org \<Rightarrow> 'q qshared \<times> 'a pc list \<Rightarrow> 'a qevent list \<Rightarrow> 'q qshared \<times> 'a pc list \<Rightarrow> bool"
  for org where
  run_refl: "queue_run org c [] c"
| run_step: "queue_run org c es (s, ts) \<Longrightarrow> i < length ts \<Longrightarrow> pc_step org (ts ! i) s = Some (pc, s') \<Longrightarrow>
    queue_run org c (es @ pc_events org (ts ! i) s) (s', ts[i := pc])"
| run_call: "queue_run org c es (s, ts) \<Longrightarrow> i < length ts \<Longrightarrow> is_done (ts ! i) \<Longrightarrow> is_start pc \<Longrightarrow>
    queue_run org c es (s, ts[i := pc])"

inductive_cases run_stepE: "queue_run org c es d"

definition initial :: "'q \<Rightarrow> 'q qshared \<times> 'a pc list \<Rightarrow> bool" where
  "initial r c \<longleftrightarrow> fst c = queue_init r \<and> list_all is_start (snd c)"

subsection \<open>The promise of an organisation\<close>

locale queue_organisation =
  fixes org :: "('q, 'a) queue_org"
    and size_of :: "'q \<Rightarrow> nat"
    and cap :: "nat option"
    and good :: "'q \<Rightarrow> bool"
  assumes cap_pos: "cap \<noteq> Some 0"
    and empty_size: "good q \<Longrightarrow> qo_empty org q \<longleftrightarrow> size_of q = 0"
    and full_size: "good q \<Longrightarrow> qo_full org q \<longleftrightarrow> cap = Some (size_of q)"
    and put_size: "good q \<Longrightarrow> good (qo_put org x q) \<and> size_of (qo_put org x q) = Suc (size_of q)"
    and get_size: "good q \<Longrightarrow> size_of q \<noteq> 0 \<Longrightarrow>
      \<exists>x r. qo_get org q = Inr (x, r) \<and> good r \<and> size_of q = Suc (size_of r)"

text \<open>
  The weights of the invariant: which program counters are inside the mutex, which own the
  semaphore of the non-empty queue or owe it, and which own or owe that of the non-full queue.
  After the access to the representation a \<open>get\<close> keeps \<open>esema\<close> only if the queue is left
  non-empty, and a \<open>put\<close> keeps \<open>fsema\<close> only if it is left not full.
\<close>

fun in_mutex :: "'a pc \<Rightarrow> nat" where
  "in_mutex (PutQ _) = 1"
| "in_mutex PutEnd = 1"
| "in_mutex GetQ = 1"
| "in_mutex (GetEnd _) = 1"
| "in_mutex (NowQ _) = 1"
| "in_mutex NowFail = 1"
| "in_mutex (ObsQ _) = 1"
| "in_mutex (ObsEnd _) = 1"
| "in_mutex _ = 0"

fun after_get :: "'a pc \<Rightarrow> nat" where
  "after_get (GetF _ _) = 1"
| "after_get (GetEmp _) = 1"
| "after_get _ = 0"

fun after_put :: "'a pc \<Rightarrow> nat" where
  "after_put (PutE _) = 1"
| "after_put PutFull = 1"
| "after_put _ = 0"

fun holds_e :: "'a pc \<Rightarrow> nat" where
  "holds_e GetM = 1"
| "holds_e GetQ = 1"
| "holds_e (NowM b) = of_bool b"
| "holds_e (NowQ b) = of_bool b"
| "holds_e (PutE b) = of_bool b"
| "holds_e _ = 0"

fun holds_f :: "'a pc \<Rightarrow> nat" where
  "holds_f (PutM _) = 1"
| "holds_f (PutQ _) = 1"
| "holds_f (GetF b _) = of_bool b"
| "holds_f _ = 0"

definition total :: "('a pc \<Rightarrow> nat) \<Rightarrow> 'a pc list \<Rightarrow> nat" where
  "total w ts = sum_list (map w ts)"

definition others :: "('a pc \<Rightarrow> nat) \<Rightarrow> nat \<Rightarrow> 'a pc list \<Rightarrow> nat" where
  "others w i ts = total w (take i ts @ drop (Suc i) ts)"

lemma total_split: "i < length ts \<Longrightarrow> total w ts = w (ts ! i) + others w i ts"
  by (subst id_take_nth_drop [of i ts]) (simp_all add: total_def others_def)

lemma total_update: "i < length ts \<Longrightarrow> total w (ts[i := pc]) = w pc + others w i ts"
  by (simp add: total_def others_def upd_conv_take_nth_drop)

lemma total_zero: "total w ts = 0 \<longleftrightarrow> list_all (\<lambda>pc. w pc = 0) ts"
  by (induction ts) (auto simp: total_def)

definition semaphores ::
  "('q, 'a) queue_org \<Rightarrow> 'q qshared \<Rightarrow> 'a pc list \<Rightarrow> bool" where
  "semaphores org s ts \<longleftrightarrow>
     (if q_mutex s then total in_mutex ts + total after_get ts + total after_put ts = 1
      else total in_mutex ts = 0 \<and> total after_get ts = 0 \<and> total after_put ts = 0) \<and>
     (if qo_empty org (q_rep s) then q_esema s \<and> total holds_e ts = 0
      else if q_esema s then total holds_e ts + total after_get ts = 1
      else total holds_e ts = 0 \<and> total after_get ts = 0) \<and>
     (if qo_full org (q_rep s) then q_fsema s \<and> total holds_f ts = 0
      else if q_fsema s then total holds_f ts + total after_put ts = 1
      else total holds_f ts = 0 \<and> total after_put ts = 0)"

definition no_crash :: "'a pc list \<Rightarrow> bool" where
  "no_crash ts \<longleftrightarrow> list_all (\<lambda>pc. case pc of Crashed _ \<Rightarrow> False | _ \<Rightarrow> True) ts"

context queue_organisation
begin

definition queue_inv :: "'q qshared \<Rightarrow> 'a pc list \<Rightarrow> bool" where
  "queue_inv s ts \<longleftrightarrow> semaphores org s ts \<and> good (q_rep s) \<and>
     (case cap of None \<Rightarrow> True | Some n \<Rightarrow> size_of (q_rep s) \<le> n) \<and> no_crash ts"

lemma step_semaphores:
  assumes sem: "semaphores org s ts" and good: "good (q_rep s)"
    and sz: "case cap of None \<Rightarrow> True | Some n \<Rightarrow> size_of (q_rep s) \<le> n"
    and i: "i < length ts" and st: "pc_step org (ts ! i) s = Some (pc, s')"
  shows "semaphores org s' (ts[i := pc])"
proof (cases "ts ! i")
  case (PutQ x)
  from sem have "\<not> qo_full org (q_rep s)"
    unfolding semaphores_def total_split [OF i] PutQ by (auto split: if_splits)
  moreover from put_size [OF good, of x] have "\<not> qo_empty org (qo_put org x (q_rep s))"
    using empty_size [of "qo_put org x (q_rep s)"] by simp
  ultimately show ?thesis
    using st sem unfolding semaphores_def total_split [OF i] total_update [OF i] PutQ
    by (clarsimp split: if_splits; simp split: if_splits)
next
  case GetQ
  from sem have ne: "\<not> qo_empty org (q_rep s)"
    unfolding semaphores_def total_split [OF i] GetQ by (auto split: if_splits)
  with empty_size [OF good] obtain x r where r: "qo_get org (q_rep s) = Inr (x, r)" "good r"
    "size_of (q_rep s) = Suc (size_of r)"
    using get_size [OF good] by auto
  with sz full_size [of r] have "\<not> qo_full org r" by auto
  with ne r(1) show ?thesis
    using st sem unfolding semaphores_def total_split [OF i] total_update [OF i] GetQ
    by (clarsimp split: if_splits; simp split: if_splits)
qed (insert st sem, (clarsimp simp: semaphores_def total_split [OF i] total_update [OF i] split: if_splits;
    simp split: if_splits)+)

lemma list_all_update: "list_all P ts \<Longrightarrow> P x \<Longrightarrow> list_all P (ts[i := x])"
  by (induction ts arbitrary: i) (auto split: nat.splits)

lemma step_good:
  assumes inv: "queue_inv s ts" and i: "i < length ts"
    and st: "pc_step org (ts ! i) s = Some (pc, s')"
  shows "good (q_rep s')" "case cap of None \<Rightarrow> True | Some n \<Rightarrow> size_of (q_rep s') \<le> n"
    "\<nexists>e. pc = Crashed e"
proof -
  from inv have sem: "semaphores org s ts" and good: "good (q_rep s)"
    and sz: "case cap of None \<Rightarrow> True | Some n \<Rightarrow> size_of (q_rep s) \<le> n"
    by (auto simp: queue_inv_def)
  have "good (q_rep s') \<and> (case cap of None \<Rightarrow> True | Some n \<Rightarrow> size_of (q_rep s') \<le> n) \<and> (\<nexists>e. pc = Crashed e)"
  proof (cases "ts ! i")
    case (PutQ x)
    from sem have "\<not> qo_full org (q_rep s)"
      unfolding semaphores_def total_split [OF i] PutQ by (auto split: if_splits)
    with sz full_size [OF good] have "case cap of None \<Rightarrow> True | Some n \<Rightarrow> Suc (size_of (q_rep s)) \<le> n"
      by (cases cap) auto
    with st PutQ put_size [OF good, of x] show ?thesis by (auto split: option.splits)
  next
    case GetQ
    from sem have "\<not> qo_empty org (q_rep s)"
      unfolding semaphores_def total_split [OF i] GetQ by (auto split: if_splits)
    with empty_size [OF good] obtain x r where "qo_get org (q_rep s) = Inr (x, r)" "good r"
      "size_of (q_rep s) = Suc (size_of r)"
      using get_size [OF good] by auto
    with st GetQ sz show ?thesis by (auto split: option.splits)
  qed (insert st sem good sz, (clarsimp simp: semaphores_def total_split [OF i] split: if_splits;
      simp split: if_splits option.splits)+)
  then show "good (q_rep s')" "case cap of None \<Rightarrow> True | Some n \<Rightarrow> size_of (q_rep s') \<le> n"
    "\<nexists>e. pc = Crashed e" by blast+
qed

lemma step_inv:
  assumes "queue_inv s ts" "i < length ts" "pc_step org (ts ! i) s = Some (pc, s')"
  shows "queue_inv s' (ts[i := pc])"
proof -
  have "no_crash (ts[i := pc])"
    using assms(1) step_good(3) [OF assms] unfolding queue_inv_def no_crash_def
    by (intro list_all_update) (auto split: pc.splits)
  with step_good(1,2) [OF assms] step_semaphores assms show ?thesis
    unfolding queue_inv_def by blast
qed

lemma start_weights:
  "is_start pc \<or> is_done pc \<Longrightarrow> in_mutex pc = 0 \<and> after_get pc = 0 \<and> after_put pc = 0 \<and> holds_e pc = 0 \<and> holds_f pc = 0"
  by (cases pc) (auto simp: is_start_def is_done_def)

lemma call_inv:
  assumes "queue_inv s ts" "i < length ts" "is_done (ts ! i)" "is_start pc"
  shows "queue_inv s (ts[i := pc])"
proof -
  have "no_crash (ts[i := pc])"
    using assms(1,4) unfolding queue_inv_def no_crash_def
    by (intro list_all_update) (auto simp: is_start_def split: pc.splits)
  moreover have "total w (ts[i := pc]) = total w ts"
    if "w \<in> {in_mutex, after_get, after_put, holds_e, holds_f}" for w
    using that start_weights [of "ts ! i"] start_weights [of pc] assms(3,4)
    unfolding total_split [OF assms(2)] total_update [OF assms(2)] by auto
  then have "semaphores org s (ts[i := pc])"
    using assms(1) by (simp add: queue_inv_def semaphores_def)
  ultimately show ?thesis using assms(1) by (simp add: queue_inv_def)
qed

lemma initial_inv:
  assumes "initial r (s, ts)" "good r" "size_of r = 0"
  shows "queue_inv s ts"
proof -
  from assms(1) have s: "s = queue_init r" and all: "list_all is_start ts" by (auto simp: initial_def)
  from all have "total w ts = 0" if "\<And>pc. is_start pc \<Longrightarrow> w pc = 0" for w
    using that by (auto simp: total_zero list_all_iff)
  then have "total in_mutex ts = 0" "total after_get ts = 0" "total after_put ts = 0"
    "total holds_e ts = 0" "total holds_f ts = 0"
    using start_weights by blast+
  moreover have "no_crash ts"
    using all by (auto simp: no_crash_def list_all_iff is_start_def split: pc.splits)
  ultimately show ?thesis
    using assms(2,3) s empty_size [of r] full_size [of r] cap_pos
    by (auto simp: queue_inv_def semaphores_def queue_init_def split: option.splits)
qed

lemma run_inv:
  assumes "queue_run org c es d" "queue_inv (fst c) (snd c)"
  shows "queue_inv (fst d) (snd d)"
  using assms by (induction rule: queue_run.induct) (auto intro: step_inv call_inv)

text \<open>
  No thread is left waiting for nothing: when no thread can move, every unfinished one is a
  \<open>get\<close> waiting at an empty queue or a \<open>put\<close> waiting at a full one.
\<close>

lemma stuck_only_at_semaphores:
  assumes inv: "queue_inv s ts" and stuck: "\<And>i. i < length ts \<Longrightarrow> pc_step org (ts ! i) s = None"
    and i: "i < length ts" and undone: "\<not> is_done (ts ! i)"
  shows "(ts ! i = GetE \<and> size_of (q_rep s) = 0) \<or> (\<exists>x. ts ! i = PutF x \<and> cap = Some (size_of (q_rep s)))"
proof -
  from inv have sem: "semaphores org s ts" and good: "good (q_rep s)" by (auto simp: queue_inv_def)
  have crit: "in_mutex (ts ! j) = 0 \<and> after_get (ts ! j) = 0 \<and> after_put (ts ! j) = 0" if "j < length ts" for j
    using stuck [OF that] by (cases "ts ! j") (auto split: if_splits sum.splits prod.splits)
  then have "total in_mutex ts = 0" "total after_get ts = 0" "total after_put ts = 0"
    by (auto simp: total_zero list_all_length)
  with sem have m: "\<not> q_mutex s" by (auto simp: semaphores_def split: if_splits)
  have wait: "(\<exists>x. ts ! j = PutF x \<and> q_fsema s) \<or> (ts ! j = GetE \<and> q_esema s) \<or> is_done (ts ! j)" if "j < length ts" for j
    using stuck [OF that] crit [OF that] m by (cases "ts ! j") (auto simp: is_done_def split: if_splits)
  then have "holds_e (ts ! j) = 0 \<and> holds_f (ts ! j) = 0" if "j < length ts" for j
    using that start_weights [of "ts ! j"] by fastforce
  then have "total holds_e ts = 0" "total holds_f ts = 0"
    by (auto simp: total_zero list_all_length)
  with sem wait [OF i] undone show ?thesis
    using empty_size [OF good] full_size [OF good] \<open>total after_get ts = 0\<close> \<open>total after_put ts = 0\<close>
    by (auto simp: semaphores_def split: if_splits)
qed

text \<open>What \<open>empty()\<close> in the comment says: who holds \<open>esema\<close> never sees an empty queue.\<close>

lemma holder_not_empty:
  assumes "queue_inv s ts" "i < length ts" "holds_e (ts ! i) = 1"
  shows "size_of (q_rep s) \<noteq> 0"
  using assms empty_size [of "q_rep s"]
  by (auto simp: queue_inv_def semaphores_def total_split [OF assms(2)] split: if_splits)

end

subsection \<open>The class's own organisation: first in, first out\<close>

definition fifo_cap :: "int \<Rightarrow> nat option" where
  "fifo_cap n = (if n > 0 then Some (nat n) else None)"

interpretation fq: queue_organisation fifo_org "\<lambda>q. length (queue q)" "fifo_cap n" "\<lambda>q. maxsize q = n" for n
proof unfold_locales
  fix q :: "'a fifo"
  assume "maxsize q = n" "length (queue q) \<noteq> 0"
  then show "\<exists>x r. qo_get fifo_org q = Inr (x, r) \<and> maxsize r = n \<and> length (queue q) = Suc (length (queue r))"
    by (cases "queue q") (auto simp: fifo_org_def fifo_get_def)
qed (auto simp: fifo_org_def fifo_cap_def fifo_empty_def fifo_full_def fifo_put_def)

definition puts :: "'a qevent list \<Rightarrow> 'a list" where
  "puts es = concat (map (\<lambda>e. case e of In x \<Rightarrow> [x] | Out _ \<Rightarrow> []) es)"

definition gets :: "'a qevent list \<Rightarrow> 'a list" where
  "gets es = concat (map (\<lambda>e. case e of In _ \<Rightarrow> [] | Out x \<Rightarrow> [x]) es)"

lemma fifo_step_order:
  assumes "pc_step fifo_org pc s = Some (pc', s')"
  shows "gets (pc_events fifo_org pc s) @ queue (q_rep s') = queue (q_rep s) @ puts (pc_events fifo_org pc s)"
proof (cases pc)
  case GetQ
  with assms show ?thesis
    by (auto simp: fifo_org_def fifo_get_def puts_def gets_def split: list.splits)
qed (use assms in \<open>auto simp: fifo_org_def fifo_put_def puts_def gets_def split: if_splits\<close>)

lemma fifo_run_order:
  assumes "queue_run fifo_org c es d"
  shows "gets es @ queue (q_rep (fst d)) = queue (q_rep (fst c)) @ puts es"
  using assms
proof (induction rule: queue_run.induct)
  case (run_step c es s ts i pc s')
  from fifo_step_order [OF run_step.hyps(3)] run_step.IH show ?case
    by (simp add: puts_def gets_def)
qed (simp_all add: puts_def gets_def)

lemma fifo_run:
  assumes "initial (fifo_init n) c" "queue_run fifo_org c es d"
  shows "puts es = gets es @ queue (q_rep (fst d))"
    "n > 0 \<Longrightarrow> int (length (queue (q_rep (fst d)))) \<le> n"
    "no_crash (snd d)"
proof -
  from assms(1) have inv: "fq.queue_inv n (fst c) (snd c)"
    using fq.initial_inv [of "fifo_init n" "fst c" "snd c" n] by (simp add: fifo_init_def)
  from fq.run_inv [OF assms(2) inv] have d: "fq.queue_inv n (fst d) (snd d)" .
  from d have d: "case fifo_cap n of None \<Rightarrow> True | Some m \<Rightarrow> length (queue (q_rep (fst d))) \<le> m"
    "no_crash (snd d)"
    unfolding fq.queue_inv_def by blast+
  from d(2) show "no_crash (snd d)" .
  from d(1) show "n > 0 \<Longrightarrow> int (length (queue (q_rep (fst d)))) \<le> n"
    by (auto simp: fifo_cap_def)
  from assms(1) have "queue (q_rep (fst c)) = []"
    by (simp add: initial_def queue_init_def fifo_init_def)
  with fifo_run_order [OF assms(2)] show "puts es = gets es @ queue (q_rep (fst d))" by simp
qed

text \<open>When no thread can move, the unfinished ones wait for items or for room.\<close>

lemma fifo_stuck:
  assumes "initial (fifo_init n) c" "queue_run fifo_org c es (s, ts)"
    and "\<forall>i < length ts. pc_step fifo_org (ts ! i) s = None" "i < length ts" "\<not> is_done (ts ! i)"
  shows "(ts ! i = GetE \<and> queue (q_rep s) = []) \<or>
    (\<exists>x. ts ! i = PutF x \<and> n > 0 \<and> int (length (queue (q_rep s))) = n)"
proof -
  from assms(1) have inv: "fq.queue_inv n (fst c) (snd c)"
    using fq.initial_inv [of "fifo_init n" "fst c" "snd c" n] by (simp add: fifo_init_def)
  from fq.run_inv [OF assms(2) inv] have "fq.queue_inv n s ts" by simp
  then have "(ts ! i = GetE \<and> length (queue (q_rep s)) = 0) \<or>
      (\<exists>x. ts ! i = PutF x \<and> fifo_cap n = Some (length (queue (q_rep s))))"
    by (rule fq.stuck_only_at_semaphores) (use assms(3-5) in auto)
  then show ?thesis by (auto simp: fifo_cap_def split: if_splits)
qed

text \<open>A schedule names the thread to step; it is a run.\<close>

fun schedule ::
  "('q, 'a) queue_org \<Rightarrow> nat list \<Rightarrow> 'q qshared \<times> 'a pc list \<Rightarrow> 'a qevent list \<times> ('q qshared \<times> 'a pc list)" where
  "schedule org [] c = ([], c)"
| "schedule org (i # is) (s, ts) =
     (if i < length ts then
        case pc_step org (ts ! i) s of
          None \<Rightarrow> schedule org is (s, ts)
        | Some (pc, s') \<Rightarrow>
            let (es, d) = schedule org is (s', ts[i := pc]) in (pc_events org (ts ! i) s @ es, d)
      else schedule org is (s, ts))"

lemma schedule_run_from:
  "queue_run org c es d \<Longrightarrow> queue_run org c (es @ fst (schedule org is d)) (snd (schedule org is d))"
proof (induction org "is" d arbitrary: es rule: schedule.induct)
  case (2 org i ts' s ts)
  show ?case
  proof (cases "i < length ts \<and> pc_step org (ts ! i) s \<noteq> None")
    case True
    then obtain pc s' where st: "pc_step org (ts ! i) s = Some (pc, s')" by auto
    from run_step [OF "2.prems" _ st] True
    have "queue_run org c (es @ pc_events org (ts ! i) s) (s', ts[i := pc])" by simp
    from "2.IH"(2) [OF _ st refl this] True st show ?thesis by (simp add: case_prod_beta Let_def)
  next
    case False
    with 2 show ?thesis by (auto split: option.splits)
  qed
qed simp

lemma schedule_run: "queue_run org c (fst (schedule org is c)) (snd (schedule org is c))"
  using schedule_run_from [OF run_refl, of org c "is"] by simp

end
