(* ===== verification/Quopri.thy ===== *)
theory Quopri
  imports Lines
begin

section \<open>\<open>Lib/quopri.py\<close>: quoted-printable encoding\<close>

text \<open>
  \<open>encode\<close> and \<open>decode\<close> read lines from a file object and write to another; the state is what
  has been written and the input file.  In the loop over a line to be decoded the index \<open>i\<close> is
  the rest of the line.
\<close>

subsection \<open>Definitions\<close>

definition ESCAPE :: char where "ESCAPE = CHR ''=''"

definition MAXLINESIZE :: nat where "MAXLINESIZE = 76"

definition HEX :: string where "HEX = ''0123456789ABCDEF''"

definition needsquoting :: "char \<Rightarrow> bool \<Rightarrow> bool" where
  "needsquoting c quotetabs =
     (if c = TAB then \<not> quotetabs else c = ESCAPE \<or> \<not> (CHR '' '' \<le> c \<and> c \<le> CHR ''~''))"

definition qp_quote :: "char \<Rightarrow> string" where
  "qp_quote c =
     (if c = ESCAPE then [ESCAPE, ESCAPE]
      else let i = ord c in [ESCAPE, HEX ! (i div 16), HEX ! (i mod 16)])"

text \<open>The loop over the characters of a line: what is written, the pending text and \<open>prev\<close>.\<close>

primrec qp_encode_chars :: "bool \<Rightarrow> string \<Rightarrow> string \<Rightarrow> string \<Rightarrow> string \<Rightarrow> string \<times> string \<times> string" where
  "qp_encode_chars quotetabs out new prev [] = (out, new, prev)"
| "qp_encode_chars quotetabs out new prev (c # line) =
     (let c' = (if needsquoting c quotetabs then qp_quote c else [c]);
          (out, new) = (if length new + length c' \<ge> MAXLINESIZE then (out @ new @ [ESCAPE, NL], []) else (out, new))
      in qp_encode_chars quotetabs out (new @ c') c' line)"

definition qp_encode_line :: "bool \<Rightarrow> string \<Rightarrow> string \<Rightarrow> string" where
  "qp_encode_line quotetabs out line =
     (let line = (if pfrom (- 1) line = [NL] then pupto (- 1) line else line);
          (out, new, prev) = qp_encode_chars quotetabs out [] [] line
      in if prev \<in> {'' '', [TAB]} then out @ new @ [ESCAPE, NL, NL] else out @ new @ [NL])"

definition qp_encode :: "nat \<Rightarrow> 'f file_ops \<Rightarrow> bool \<Rightarrow> string \<times> 'f \<Rightarrow> (unit option res \<times> string \<times> 'f) option" where
  "qp_encode fuel input quotetabs =
     line_loop fuel (on_file (fo_readline input))
       (\<lambda>line (out, f). (Inr None, (qp_encode_line quotetabs out line, f)))"

definition ishex :: "char \<Rightarrow> bool" where
  "ishex c \<longleftrightarrow> (CHR ''0'' \<le> c \<and> c \<le> CHR ''9'') \<or> (CHR ''a'' \<le> c \<and> c \<le> CHR ''f'') \<or> (CHR ''A'' \<le> c \<and> c \<le> CHR ''F'')"

fun unhex_loop :: "nat \<Rightarrow> string \<Rightarrow> nat" where
  "unhex_loop bits [] = bits"
| "unhex_loop bits (c # s) =
     (if CHR ''0'' \<le> c \<and> c \<le> CHR ''9'' then unhex_loop (bits * 16 + (ord c - ord CHR ''0'')) s
      else if CHR ''a'' \<le> c \<and> c \<le> CHR ''f'' then unhex_loop (bits * 16 + (ord c - (ord CHR ''a'' - 10))) s
      else if CHR ''A'' \<le> c \<and> c \<le> CHR ''F'' then unhex_loop (bits * 16 + (ord c - (ord CHR ''A'' - 10))) s
      else bits)"

definition unhex :: "string \<Rightarrow> nat" where
  "unhex s = unhex_loop 0 s"

text \<open>The inner loop of \<open>decode\<close>: the text decoded so far and whether the line is continued.\<close>

fun qp_decode_chars :: "bool \<Rightarrow> string \<Rightarrow> string \<Rightarrow> string \<times> bool" where
  "qp_decode_chars partial new [] = (new, partial)"
| "qp_decode_chars partial new (c # rest) =
     (if c \<noteq> ESCAPE then qp_decode_chars partial (new @ [c]) rest
      else if rest = [] \<and> \<not> partial then (new, True)
      else if take 1 rest = [ESCAPE] then qp_decode_chars partial (new @ [ESCAPE]) (drop 1 rest)
      else if length rest \<ge> 2 \<and> ishex (rest ! 0) \<and> ishex (rest ! 1)
      then qp_decode_chars partial (new @ [chr (unhex (take 2 rest))]) (drop 2 rest)
      else qp_decode_chars partial (new @ [c]) rest)"

definition qp_decode_line :: "string \<times> string \<Rightarrow> string \<Rightarrow> string \<times> string" where
  "qp_decode_line = (\<lambda>(out, new) line.
     let n = length line;
         (partial, n) =
           (if n > 0 \<and> line ! (n - 1) = NL
            then (False, scan_down (\<lambda>c. c \<in> {CHR '' '', TAB}) line 0 (n - 1))
            else (True, n));
         (new, partial) = qp_decode_chars partial new (take n line)
     in if \<not> partial then (out @ new @ [NL], []) else (out, new))"

definition qp_decode :: "nat \<Rightarrow> 'f file_ops \<Rightarrow> string \<times> 'f \<Rightarrow> (unit res \<times> string \<times> 'f) option" where
  "qp_decode fuel input = (\<lambda>(out, f).
     case line_loop fuel (on_file (fo_readline input))
            (\<lambda>line (w, f). (Inr None :: unit option res, (qp_decode_line w line, f))) ((out, []), f) of
       None \<Rightarrow> None
     | Some (Inl e, ((out, new), f)) \<Rightarrow> Some (Inl e, (out, f))
     | Some (Inr _, ((out, new), f)) \<Rightarrow> Some (Inr (), (if new \<noteq> [] then out @ new else out, f)))"

subsection \<open>Characters\<close>

lemma nat_upto_char: "(\<forall>n < 256. P (chr n)) \<Longrightarrow> P c"
  by (metis char_of_char ord_less_256)

lemma hex_digit:
  assumes "n < 16"
  shows "ishex (HEX ! n) \<and> HEX ! n \<noteq> ESCAPE \<and> HEX ! n \<noteq> NL \<and> HEX ! n \<notin> {CHR '' '', TAB}"
proof -
  have "list_all (\<lambda>n. ishex (HEX ! n) \<and> HEX ! n \<noteq> ESCAPE \<and> HEX ! n \<noteq> NL \<and> HEX ! n \<notin> {CHR '' '', TAB}) [0..<16]"
    by code_simp
  with assms show ?thesis by (simp add: list_all_iff)
qed

lemma unhex_digits:
  assumes "m < 16" "n < 16"
  shows "unhex [HEX ! m, HEX ! n] = m * 16 + n"
proof -
  have "list_all (\<lambda>m. list_all (\<lambda>n. unhex [HEX ! m, HEX ! n] = m * 16 + n) [0..<16]) [0..<16]"
    by code_simp
  with assms show ?thesis by (simp add: list_all_iff)
qed

definition qp_char :: "bool \<Rightarrow> char \<Rightarrow> string" where
  "qp_char quotetabs c = (if needsquoting c quotetabs then qp_quote c else [c])"

lemma qp_quote_hex: "c \<noteq> ESCAPE \<Longrightarrow> qp_quote c = [ESCAPE, HEX ! (ord c div 16), HEX ! (ord c mod 16)]"
  by (simp add: qp_quote_def Let_def)

lemma ord_div_16: "ord c div 16 < 16" "ord c mod 16 < 16"
  using ord_less_256 [of c] by (simp_all add: less_mult_imp_div_less)

lemma qp_char_shape: "NL \<notin> set (qp_char q c)" "qp_char q c \<noteq> []" "length (qp_char q c) \<le> 3"
proof -
  have "needsquoting NL q" by (simp add: needsquoting_def ESCAPE_def less_eq_char_def)
  then show "NL \<notin> set (qp_char q c)"
    using hex_digit [OF ord_div_16(1), of c] hex_digit [OF ord_div_16(2), of c]
    by (auto simp: qp_char_def qp_quote_def Let_def ESCAPE_def)
qed (auto simp: qp_char_def qp_quote_def Let_def)

lemma qp_char_last: "last (qp_char q c) \<in> {CHR '' '', TAB} \<longleftrightarrow> qp_char q c \<in> {'' '', [TAB]}"
  using hex_digit [OF ord_div_16(2), of c]
  by (auto simp: qp_char_def qp_quote_def Let_def ESCAPE_def)

lemma qp_char_decode: "qp_decode_chars p new (qp_char q c @ rest) = qp_decode_chars p (new @ [c]) rest"
proof (cases "needsquoting c q")
  case True
  show ?thesis
  proof (cases "c = ESCAPE")
    case False
    with True show ?thesis
      using hex_digit [OF ord_div_16(1), of c] hex_digit [OF ord_div_16(2), of c]
        unhex_digits [OF ord_div_16, of c c]
      by (simp add: qp_char_def qp_quote_hex)
  qed (use True in \<open>simp add: qp_char_def qp_quote_def\<close>)
next
  case False
  then have "c \<noteq> ESCAPE" by (auto simp: needsquoting_def ESCAPE_def)
  with False show ?thesis by (simp add: qp_char_def)
qed

subsection \<open>Lines\<close>

definition qp_text :: "bool \<Rightarrow> string \<Rightarrow> string" where
  "qp_text q cs = concat (map (qp_char q) cs)"

lemma qp_text_simps [simp]: "qp_text q [] = []" "qp_text q (a @ b) = qp_text q a @ qp_text q b"
  "qp_text q [c] = qp_char q c"
  by (simp_all add: qp_text_def)

lemma qp_text_no_NL: "NL \<notin> set (qp_text q cs)"
  by (auto simp: qp_text_def qp_char_shape)

lemma qp_text_decode: "qp_decode_chars p new (qp_text q cs @ rest) = qp_decode_chars p (new @ cs) rest"
  by (induction cs arbitrary: new) (simp_all add: qp_text_def qp_char_decode)

lemma qp_encode_chars_spec:
  "\<exists>groups g. qp_encode_chars q out (qp_text q pre) prev line =
      (out @ concat (map (\<lambda>g. qp_text q g @ [ESCAPE, NL]) groups), qp_text q g,
       if line = [] then prev else qp_char q (last line)) \<and>
    concat groups @ g = pre @ line \<and> (line \<noteq> [] \<longrightarrow> g \<noteq> []) \<and>
    (length (qp_text q pre) \<le> 75 \<longrightarrow> list_all (\<lambda>g. length (qp_text q g) \<le> 75) (g # groups))"
proof (induction line arbitrary: out pre prev)
  case Nil
  show ?case by (intro exI [of _ "[]"] exI [of _ pre]) simp
next
  case (Cons c line)
  show ?case
  proof (cases "length (qp_text q pre) + length (qp_char q c) \<ge> MAXLINESIZE")
    case True
    obtain groups g where IH: "qp_encode_chars q (out @ qp_text q pre @ [ESCAPE, NL]) (qp_text q [c]) (qp_char q c) line =
        (out @ qp_text q pre @ [ESCAPE, NL] @ concat (map (\<lambda>g. qp_text q g @ [ESCAPE, NL]) groups), qp_text q g,
         if line = [] then qp_char q c else qp_char q (last line))"
      "concat groups @ g = [c] @ line" "line \<noteq> [] \<longrightarrow> g \<noteq> []"
      "length (qp_text q [c]) \<le> 75 \<longrightarrow> list_all (\<lambda>g. length (qp_text q g) \<le> 75) (g # groups)"
      using Cons.IH [of "out @ qp_text q pre @ [ESCAPE, NL]" "[c]" "qp_char q c"] by auto
    from IH(1) True have e: "qp_encode_chars q out (qp_text q pre) prev (c # line) =
        (out @ concat (map (\<lambda>g. qp_text q g @ [ESCAPE, NL]) (pre # groups)), qp_text q g, qp_char q (last (c # line)))"
      by (simp add: Let_def qp_char_def split: if_splits)
    have "g \<noteq> []"
    proof (cases "line = []")
      case True
      show ?thesis
      proof
        assume "g = []"
        have "qp_text q g = qp_char q c \<or> qp_text q g = qp_text q [c]"
          using IH(1) True by simp
        with \<open>g = []\<close> qp_char_shape(2) show False by (metis qp_text_simps(1,3))
      qed
    qed (use IH(3) in simp)
    with e IH(2,4) qp_char_shape(3) [of q c] show ?thesis
      by (intro exI [of _ "pre # groups"] exI [of _ g]) auto
  next
    case False
    obtain groups g where IH: "qp_encode_chars q out (qp_text q (pre @ [c])) (qp_char q c) line =
        (out @ concat (map (\<lambda>g. qp_text q g @ [ESCAPE, NL]) groups), qp_text q g,
         if line = [] then qp_char q c else qp_char q (last line))"
      "concat groups @ g = (pre @ [c]) @ line" "line \<noteq> [] \<longrightarrow> g \<noteq> []"
      "length (qp_text q (pre @ [c])) \<le> 75 \<longrightarrow> list_all (\<lambda>g. length (qp_text q g) \<le> 75) (g # groups)"
      using Cons.IH [of out "pre @ [c]" "qp_char q c"] by blast
    from IH(1) False have e: "qp_encode_chars q out (qp_text q pre) prev (c # line) =
        (out @ concat (map (\<lambda>g. qp_text q g @ [ESCAPE, NL]) groups), qp_text q g, qp_char q (last (c # line)))"
      by (simp add: Let_def qp_char_def split: if_splits)
    have "g \<noteq> []"
    proof (cases "line = []")
      case True
      with IH(1) have "qp_text q g = qp_text q (pre @ [c])" by simp
      with qp_char_shape(2) show ?thesis by (metis append_is_Nil_conv qp_text_simps)
    qed (use IH(3) in simp)
    with e IH(2,4) False show ?thesis
      by (intro exI [of _ groups] exI [of _ g]) (auto simp: MAXLINESIZE_def)
  qed
qed

lemma qp_decode_soft: "qp_decode_line (out, new) (qp_text q g @ [ESCAPE, NL]) = (out, new @ g)"
  by (simp add: qp_decode_line_def nth_append qp_text_decode ESCAPE_def)

lemma qp_decode_hard:
  assumes "s = [] \<or> last s \<notin> {CHR '' '', TAB}" "s = qp_text q g"
  shows "qp_decode_line (out, new) (s @ [NL]) = (out @ new @ g @ [NL], [])"
proof -
  have "scan_down (\<lambda>c. c \<in> {CHR '' '', TAB}) (s @ [NL]) 0 (length s) = length s"
  proof (cases s rule: rev_cases)
    case (snoc t z)
    with assms(1) show ?thesis by (simp add: nth_append)
  qed simp
  then show ?thesis
    using qp_text_decode [of False new q g "[]"] by (simp add: qp_decode_line_def nth_append assms(2))
qed

lemma qp_encode_line_spec:
  assumes "line = k @ [NL] \<or> line = k" "NL \<notin> set k"
  shows "\<exists>ls. qp_encode_line q out line = out @ concat ls \<and>
    foldl qp_decode_line (o', []) ls = (o' @ k @ [NL], []) \<and>
    list_all (\<lambda>l. text_line l \<and> length l \<le> 77) ls"
proof -
  have line: "(if pfrom (- 1) line = [NL] then pupto (- 1) line else line) = k"
    using assms by (cases k rule: rev_cases) (auto simp: pfrom_minus1 pupto_minus1 butlast_append)
  obtain groups g where e: "qp_encode_chars q out [] [] k =
      (out @ concat (map (\<lambda>g. qp_text q g @ [ESCAPE, NL]) groups), qp_text q g,
       if k = [] then [] else qp_char q (last k))"
    and g: "concat groups @ g = k" "k \<noteq> [] \<longrightarrow> g \<noteq> []"
    "list_all (\<lambda>g. length (qp_text q g) \<le> 75) (g # groups)"
    using qp_encode_chars_spec [of q out "[]" "[]" k] by auto
  let ?soft = "map (\<lambda>g. qp_text q g @ [ESCAPE, NL]) groups"
  have dec: "foldl qp_decode_line (o', new) ?soft = (o', new @ concat groups)" for new
    using qp_decode_soft by (induction groups arbitrary: new) simp_all
  have shape: "list_all (\<lambda>l. text_line l \<and> length l \<le> 77) ?soft"
    using g(3) qp_text_no_NL by (auto simp: list_all_iff text_line_def ESCAPE_def)
  have lst: "last (qp_text q g) = last (qp_char q (last k))" if "k \<noteq> []"
  proof -
    from that g(1,2) have "g = butlast g @ [last k]" by (metis append_butlast_last_id last_appendR)
    then have "qp_text q g = qp_text q (butlast g) @ qp_char q (last k)" by (metis qp_text_simps(2,3))
    with qp_char_shape(2) show ?thesis by simp
  qed
  show ?thesis
  proof (cases "k \<noteq> [] \<and> qp_char q (last k) \<in> {'' '', [TAB]}")
    case True
    have "qp_decode_line (out', new) [NL] = (out' @ new @ [NL], [])" for out' new
      using qp_decode_hard [of "[]" q "[]"] by simp
    with True e g dec shape qp_decode_soft [of o' _ q g] show ?thesis
      by (intro exI [of _ "?soft @ [qp_text q g @ [ESCAPE, NL], [NL]]"])
        (auto simp: qp_encode_line_def line text_line_def qp_text_no_NL ESCAPE_def)
  next
    case False
    have "qp_text q g = [] \<or> last (qp_text q g) \<notin> {CHR '' '', TAB}"
      using False lst g(1) qp_char_last [of q "last k"] by (cases "k = []") auto
    from qp_decode_hard [OF this refl] e g dec shape False show ?thesis
      by (intro exI [of _ "?soft @ [qp_text q g @ [NL]]"])
        (auto simp: qp_encode_line_def line text_line_def qp_text_no_NL)
  qed
qed

subsection \<open>Files\<close>

text \<open>A text whose last line is complete.\<close>

definition end_line :: "string \<Rightarrow> string" where
  "end_line s = (if s = [] \<or> last s = NL then s else s @ [NL])"

lemma qp_lines_spec:
  "\<exists>ls. foldl (qp_encode_line q) out (text_lines s) = out @ concat ls \<and>
    foldl qp_decode_line (o', []) ls = (o' @ end_line s, []) \<and> list_all (\<lambda>l. text_line l \<and> length l \<le> 77) ls"
proof (induction s arbitrary: out o' rule: text_lines.induct)
  case (1 s)
  show ?case
  proof (cases "s = []")
    case True
    then show ?thesis by (intro exI [of _ "[]"]) (simp add: end_line_def)
  next
    case False
    let ?l = "first_line s" and ?t = "drop (length (first_line s)) s"
    obtain k where k: "?l = k @ [NL] \<or> ?l = k \<and> ?t = []" "NL \<notin> set k"
      using first_line_shape [of s] by (metis drop_eq_Nil order_refl)
    then obtain ls where ls: "qp_encode_line q out ?l = out @ concat ls"
      "foldl qp_decode_line (o', []) ls = (o' @ k @ [NL], [])" "list_all (\<lambda>l. text_line l \<and> length l \<le> 77) ls"
      using qp_encode_line_spec [of ?l k q out o'] by blast
    from 1 [OF False, of "out @ concat ls" "o' @ k @ [NL]"] obtain ms where
      ms: "foldl (qp_encode_line q) (out @ concat ls) (text_lines ?t) = (out @ concat ls) @ concat ms"
      "foldl qp_decode_line (o' @ k @ [NL], []) ms = ((o' @ k @ [NL]) @ end_line ?t, [])"
      "list_all (\<lambda>l. text_line l \<and> length l \<le> 77) ms" by blast
    have "k @ [NL] @ end_line ?t = end_line s"
    proof (cases "?l = k @ [NL]")
      case True
      then have s: "s = (k @ [NL]) @ ?t" using first_line_drop [of s] by metis
      show ?thesis by (subst (2) s) (auto simp: end_line_def)
    next
      case no: False
      with k(1) have s: "s = k" "?t = []" using first_line_drop [of s] by auto
      with False k(2) show ?thesis by (cases k rule: rev_cases) (auto simp: end_line_def)
    qed
    with False ls ms show ?thesis
      by (intro exI [of _ "ls @ ms"]) (simp add: text_lines_Cons)
  qed
qed

lemma qp_encode_text:
  assumes "length s < fuel"
  shows "\<exists>f. qp_encode fuel pf_ops q ([], \<lparr>f_data = s, f_pos = 0\<rparr>) =
    Some (Inr None, foldl (qp_encode_line q) [] (text_lines s), f)"
  using pf.line_loop_fold [of "\<lambda>line (out, f). (Inr None, (qp_encode_line q out line, f))" "qp_encode_line q"
      "\<lparr>f_data = s, f_pos = 0\<rparr>" fuel "[]"] assms text_lines_le [of s]
  by (auto simp: qp_encode_def pf.ahead_def)

lemma qp_decode_text:
  assumes "length s < fuel" "foldl qp_decode_line ([], []) (text_lines s) = (out, [])"
  shows "\<exists>f. qp_decode fuel pf_ops ([], \<lparr>f_data = s, f_pos = 0\<rparr>) = Some (Inr (), out, f)"
  using pf.line_loop_fold [of "\<lambda>line (w, f). (Inr None :: unit option res, (qp_decode_line w line, f))" qp_decode_line
      "\<lparr>f_data = s, f_pos = 0\<rparr>" fuel "([], [])"] assms text_lines_le [of s]
  by (auto simp: qp_decode_def pf.ahead_def)

lemma qp_roundtrip:
  assumes "length s < fuel"
  shows "\<exists>e f. qp_encode fuel pf_ops q ([], \<lparr>f_data = s, f_pos = 0\<rparr>) = Some (Inr None, e, f) \<and>
    list_all (\<lambda>l. length l \<le> 77) (text_lines e) \<and>
    (\<exists>g. qp_decode (length e + 1) pf_ops ([], \<lparr>f_data = e, f_pos = 0\<rparr>) = Some (Inr (), end_line s, g))"
proof -
  obtain ls where ls: "foldl (qp_encode_line q) [] (text_lines s) = concat ls"
    "foldl qp_decode_line ([], []) ls = (end_line s, [])" "list_all (\<lambda>l. text_line l \<and> length l \<le> 77) ls"
    using qp_lines_spec [of q "[]" s "[]"] by auto
  from ls(3) have "list_all (\<lambda>l. \<exists>k. l = k @ [NL] \<and> NL \<notin> set k) ls"
    by (simp add: list_all_iff text_line_def)
  from text_lines_concat [OF this, of "[]"] have t: "text_lines (concat ls) = ls" by simp
  from qp_encode_text [OF assms, of q] qp_decode_text [of "concat ls" "length (concat ls) + 1" "end_line s"] ls
  show ?thesis by (auto simp: t list_all_iff)
qed

text \<open>The flag works the wrong way round: tabs are quoted unless \<open>quotetabs\<close> is set.\<close>

lemma needsquoting_tab: "needsquoting TAB quotetabs \<longleftrightarrow> \<not> quotetabs"
  by (simp add: needsquoting_def)

end
