(* ===== verification/Regsub.thy ===== *)
theory Regsub
  imports Regex_Sets Str
begin

section \<open>Substituting and splitting with regular expressions (regsub.py)\<close>

text \<open>
  The functions take a compiled pattern, any object with a method \<^verbatim>\<open>search\<close> and an attribute
  \<^verbatim>\<open>regs\<close> (\<^verbatim>\<open>compile\<close> lets such an object through), or the source of a pattern, which they
  compile once and keep in a cache. The object is explicit state: a search changes it. The
  locale \<open>regex_object\<close> states what the functions rely on, and the objects of the module
  \<^verbatim>\<open>regex\<close> are interpreted as it.
\<close>

subsection \<open>The module\<close>

record 'p prog_ops =
  po_search :: "string \<Rightarrow> int \<Rightarrow> 'p \<Rightarrow> (int res \<times> 'p) option"
  po_regs :: "'p \<Rightarrow> regs option"

definition regex_ops :: "regex prog_ops" where
  "regex_ops = \<lparr>po_search = reg_search, po_regs = reg_regs\<rparr>"

text \<open>\<^verbatim>\<open>a, b = regs[0]\<close> of \<^verbatim>\<open>regs = prog.regs\<close>.\<close>

definition get_regs :: "'p prog_ops \<Rightarrow> 'p \<Rightarrow> (regs \<times> int \<times> int) res" where
  "get_regs ops p =
     (case po_regs ops p of
        None \<Rightarrow> Inl TypeError
      | Some regs \<Rightarrow> bindR (pindex regs 0) (\<lambda>ab. Inr (regs, fst ab, snd ab)))"

fun rs_expand_loop :: "string \<Rightarrow> regs \<Rightarrow> string \<Rightarrow> string \<Rightarrow> string res" where
  "rs_expand_loop [] regs str new = Inr new"
| "rs_expand_loop [c] regs str new = Inr (new @ [c])"
| "rs_expand_loop (c # d # ds) regs str new =
     (if c \<noteq> BSLASH then rs_expand_loop (d # ds) regs str (new @ [c])
      else if CHR ''0'' \<le> d \<and> d \<le> CHR ''9'' then
        bindR (pindex regs (int (ord d) - int (ord CHR ''0'')))
          (\<lambda>ab. rs_expand_loop ds regs str (new @ pslice (fst ab) (snd ab) str))
      else if d = BSLASH then rs_expand_loop ds regs str (new @ [d])
      else rs_expand_loop ds regs str (new @ [BSLASH, d]))"

definition rs_expand :: "string \<Rightarrow> regs \<Rightarrow> string \<Rightarrow> string res" where
  "rs_expand repl regs str = (if BSLASH \<notin> set repl then Inr repl else rs_expand_loop repl regs str [])"

definition rs_sub :: "'p prog_ops \<Rightarrow> string \<Rightarrow> string \<Rightarrow> 'p \<Rightarrow> (string res \<times> 'p) option" where
  "rs_sub ops repl str p =
     (case po_search ops str 0 p of
        None \<Rightarrow> None
      | Some (Inl e, p) \<Rightarrow> Some (Inl e, p)
      | Some (Inr k, p) \<Rightarrow>
          if k < 0 then Some (Inr str, p)
          else Some (bindR (get_regs ops p) (\<lambda>(regs, a, b).
            bindR (rs_expand repl regs str) (\<lambda>new. Inr (pupto a str @ new @ pfrom b str))), p))"

text \<open>
  One turn of the loop of \<^verbatim>\<open>gsub\<close>: the bounds and the replacement of the next match, or
  \<open>None\<close> for the end of the loop. An empty match at the end of the previous one is not used: the
  search goes on one character later.
\<close>

definition expand_match :: "'p prog_ops \<Rightarrow> string \<Rightarrow> string \<Rightarrow> 'p \<Rightarrow> (int \<times> int \<times> string) option res" where
  "expand_match ops repl str p =
     bindR (get_regs ops p) (\<lambda>(regs, a, b). bindR (rs_expand repl regs str) (\<lambda>u. Inr (Some (a, b, u))))"

definition gsub_match :: "'p prog_ops \<Rightarrow> string \<Rightarrow> string \<Rightarrow> int \<Rightarrow> bool \<Rightarrow> 'p
    \<Rightarrow> ((int \<times> int \<times> string) option res \<times> 'p) option" where
  "gsub_match ops repl str start first p =
     (case po_search ops str start p of
        None \<Rightarrow> None
      | Some (Inl e, p) \<Rightarrow> Some (Inl e, p)
      | Some (Inr k, p) \<Rightarrow>
          if k < 0 then Some (Inr None, p)
          else case get_regs ops p of
            Inl e \<Rightarrow> Some (Inl e, p)
          | Inr (regs, a, b) \<Rightarrow>
              if a = b \<and> b = start \<and> \<not> first then
                if start \<ge> int (length str) then Some (Inr None, p)
                else case po_search ops str (start + 1) p of
                  None \<Rightarrow> None
                | Some (Inl e, p) \<Rightarrow> Some (Inl e, p)
                | Some (Inr k, p) \<Rightarrow>
                    if k < 0 then Some (Inr None, p) else Some (expand_match ops repl str p, p)
              else Some (expand_match ops repl str p, p))"

partial_function (option) gsub_loop ::
    "'p prog_ops \<Rightarrow> string \<Rightarrow> string \<Rightarrow> int \<Rightarrow> bool \<Rightarrow> string \<Rightarrow> 'p \<Rightarrow> (string res \<times> 'p) option" where
  "gsub_loop ops repl str start first new p =
     (case gsub_match ops repl str start first p of
        None \<Rightarrow> None
      | Some (Inl e, p) \<Rightarrow> Some (Inl e, p)
      | Some (Inr None, p) \<Rightarrow> Some (Inr (new @ pfrom start str), p)
      | Some (Inr (Some (a, b, u)), p) \<Rightarrow>
          gsub_loop ops repl str b False (new @ pslice start a str @ u) p)"

declare gsub_loop.simps [code]

definition rs_gsub :: "'p prog_ops \<Rightarrow> string \<Rightarrow> string \<Rightarrow> 'p \<Rightarrow> (string res \<times> 'p) option" where
  "rs_gsub ops repl str p = gsub_loop ops repl str 0 True [] p"

text \<open>The loop of \<^verbatim>\<open>intsplit\<close>: \<open>nxt\<close> is \<^verbatim>\<open>next\<close>, where the next search starts.\<close>

partial_function (option) rs_split_loop ::
    "'p prog_ops \<Rightarrow> string \<Rightarrow> int \<Rightarrow> bool \<Rightarrow> int \<Rightarrow> int \<Rightarrow> int \<Rightarrow> string list \<Rightarrow> 'p \<Rightarrow> (string list res \<times> 'p) option" where
  "rs_split_loop ops str maxsplit retain start nxt count res p =
     (case po_search ops str nxt p of
        None \<Rightarrow> None
      | Some (Inl e, p) \<Rightarrow> Some (Inl e, p)
      | Some (Inr k, p) \<Rightarrow>
          if k < 0 then Some (Inr (res @ [pfrom start str]), p)
          else case get_regs ops p of
            Inl e \<Rightarrow> Some (Inl e, p)
          | Inr (regs, a, b) \<Rightarrow>
              if a = b then
                if nxt + 1 \<ge> int (length str) then Some (Inr (res @ [pfrom start str]), p)
                else rs_split_loop ops str maxsplit retain start (nxt + 1) count res p
              else
                let res = res @ [pslice start a str] @ (if retain then [pslice a b str] else [])
                in if maxsplit \<noteq> 0 \<and> count + 1 \<ge> maxsplit then Some (Inr (res @ [pfrom b str]), p)
                   else rs_split_loop ops str maxsplit retain b b (count + 1) res p)"

declare rs_split_loop.simps [code]

definition intsplit :: "'p prog_ops \<Rightarrow> string \<Rightarrow> int \<Rightarrow> bool \<Rightarrow> 'p \<Rightarrow> (string list res \<times> 'p) option" where
  "intsplit ops str maxsplit retain p = rs_split_loop ops str maxsplit retain 0 0 0 [] p"

definition rs_split :: "'p prog_ops \<Rightarrow> string \<Rightarrow> int \<Rightarrow> 'p \<Rightarrow> (string list res \<times> 'p) option" where
  "rs_split ops str maxsplit = intsplit ops str maxsplit False"

definition rs_splitx :: "'p prog_ops \<Rightarrow> string \<Rightarrow> int \<Rightarrow> 'p \<Rightarrow> (string list res \<times> 'p) option" where
  "rs_splitx ops str maxsplit = intsplit ops str maxsplit True"

text \<open>\<^verbatim>\<open>for i in range(0, len(words), 2): words[i] = string.capitalize(words[i])\<close>.\<close>

fun capitalize_even :: "string list \<Rightarrow> string list" where
  "capitalize_even [] = []"
| "capitalize_even [w] = [capitalize w]"
| "capitalize_even (w # d # ws) = capitalize w # d # capitalize_even ws"

definition rs_capwords :: "'p prog_ops \<Rightarrow> string \<Rightarrow> 'p \<Rightarrow> (string res \<times> 'p) option" where
  "rs_capwords ops str p =
     (case rs_splitx ops str 0 p of
        None \<Rightarrow> None
      | Some (Inl e, p) \<Rightarrow> Some (Inl e, p)
      | Some (Inr ws, p) \<Rightarrow> Some (Inr (joinfields (capitalize_even ws) []), p))"

text \<open>
  \<^verbatim>\<open>compile\<close> for the source of a pattern, with the module's \<^verbatim>\<open>cache\<close>, and a call of a function
  of the module with it: the object in the cache is the one the function changes.
\<close>

type_synonym 'p rs_cache = "string \<Rightarrow> 'p option"

definition rs_compile :: "(string \<Rightarrow> 'p res) \<Rightarrow> string \<Rightarrow> 'p rs_cache \<Rightarrow> 'p res \<times> 'p rs_cache" where
  "rs_compile compile_new pat cache =
     (case cache pat of
        Some p \<Rightarrow> (Inr p, cache)
      | None \<Rightarrow>
          (case compile_new pat of Inl e \<Rightarrow> (Inl e, cache) | Inr p \<Rightarrow> (Inr p, cache(pat \<mapsto> p))))"

definition with_pattern :: "(string \<Rightarrow> 'p res) \<Rightarrow> string \<Rightarrow> ('p \<Rightarrow> ('a res \<times> 'p) option) \<Rightarrow> 'p rs_cache
    \<Rightarrow> ('a res \<times> 'p rs_cache) option" where
  "with_pattern compile_new pat f cache =
     (case rs_compile compile_new pat cache of
        (Inl e, cache) \<Rightarrow> Some (Inl e, cache)
      | (Inr p, cache) \<Rightarrow>
          (case f p of None \<Rightarrow> None | Some (r, p) \<Rightarrow> Some (r, cache(pat \<mapsto> p))))"

text \<open>The fields and the delimiters of a list as \<^verbatim>\<open>splitx\<close> returns it.\<close>

fun field_texts :: "'a list \<Rightarrow> 'a list" where
  "field_texts [] = []"
| "field_texts [w] = [w]"
| "field_texts (w # d # ws) = w # field_texts ws"

fun delim_texts :: "'a list \<Rightarrow> 'a list" where
  "delim_texts [] = []"
| "delim_texts [w] = []"
| "delim_texts (w # d # ws) = d # delim_texts ws"

text \<open>
  What a substitution does: the text falls into gaps and matches, and each match, with its
  registers, is replaced by the expansion.
\<close>

definition matched :: "string \<Rightarrow> regs \<Rightarrow> string" where
  "matched str regs = pslice (fst (hd regs)) (snd (hd regs)) str"

definition replacements :: "string \<Rightarrow> string \<Rightarrow> (string \<times> regs) list \<Rightarrow> string \<Rightarrow> string \<Rightarrow> bool" where
  "replacements repl str ms tail out \<longleftrightarrow>
     (\<forall>(gap, regs) \<in> set ms. \<exists>u. regs \<noteq> [] \<and> rs_expand repl regs str = Inr u) \<and>
     out = concat (map (\<lambda>(gap, regs). gap @ projr (rs_expand repl regs str)) ms) @ tail"

subsection \<open>What the functions rely on\<close>

locale regex_object =
  fixes ops :: "'p prog_ops"
  assumes search_found: "0 \<le> i \<Longrightarrow> i \<le> int (length s) \<Longrightarrow> po_search ops s i p = Some (Inr k, p') \<Longrightarrow> 0 \<le> k \<Longrightarrow>
    \<exists>b rest. po_regs ops p' = Some ((k, b) # rest) \<and> i \<le> k \<and> k \<le> b \<and> b \<le> int (length s)"
begin

text \<open>A search from \<open>i\<close> that finds something, in natural numbers.\<close>

lemma found:
  assumes "po_search ops s (int i) p = Some (Inr k, p')" "i \<le> length s" "\<not> k < 0"
  obtains a b rest where "k = int a" "get_regs ops p' = Inr ((int a, int b) # rest, int a, int b)"
    "i \<le> a" "a \<le> b" "b \<le> length s"
proof -
  from search_found [OF _ _ assms(1)] assms(2,3) obtain b rest where
    r: "po_regs ops p' = Some ((k, b) # rest)" "int i \<le> k" "k \<le> b" "b \<le> int (length s)" by auto
  then have "get_regs ops p' = Inr ((int (nat k), int (nat b)) # rest, int (nat k), int (nat b))"
    by (simp add: get_regs_def pindex_def)
  with r assms(3) show thesis by (intro that [of "nat k" "nat b" rest]) auto
qed

text \<open>A turn of the loop of \<open>gsub\<close> that goes on has found a match further on.\<close>

lemma expand_match_found:
  assumes "expand_match ops repl str q = Inr (Some (a', b', u))"
    and "get_regs ops q = Inr ((int a, int b) # rest, int a, int b)"
  shows "a' = int a" "b' = int b" "rs_expand repl ((int a, int b) # rest) str = Inr u"
  using assms by (auto simp: expand_match_def bindR_Inr_iff)

lemma gsub_match_found:
  assumes "i \<le> length str" "gsub_match ops repl str (int i) first p = Some (Inr (Some (a', b', u)), q)"
  obtains (match) a b rest where "a' = int a" "b' = int b" "i \<le> a" "a \<le> b" "b \<le> length str" "first \<or> i < b"
    "rs_expand repl ((int a, int b) # rest) str = Inr u"
proof -
  from assms(2) obtain k p1 where s: "po_search ops str (int i) p = Some (Inr k, p1)" "\<not> k < 0"
    by (auto simp: gsub_match_def split: option.splits sum.splits if_splits)
  then obtain a b rest where f: "get_regs ops p1 = Inr ((int a, int b) # rest, int a, int b)"
      "i \<le> a" "a \<le> b" "b \<le> length str"
    using assms(1) by (metis found)
  show thesis
  proof (cases "a = b \<and> b = i \<and> \<not> first")
    case False
    with assms(2) s f have q: "q = p1" "expand_match ops repl str p1 = Inr (Some (a', b', u))"
      by (auto simp: gsub_match_def split: if_splits)
    from expand_match_found [OF q(2) f(1)] f False show thesis by (intro match [of a b rest]) auto
  next
    case True
    have suc: "int i + 1 = int (Suc i)" by simp
    from assms(2) s f True obtain k2 where t: "i < length str" "po_search ops str (int (Suc i)) p1 = Some (Inr k2, q)"
        "\<not> k2 < 0" "expand_match ops repl str q = Inr (Some (a', b', u))"
      by (auto simp: gsub_match_def suc split: option.splits sum.splits if_splits)
    then obtain c d rest' where g: "get_regs ops q = Inr ((int c, int d) # rest', int c, int d)"
        "Suc i \<le> c" "c \<le> d" "d \<le> length str"
      by (metis found Suc_leI)
    from expand_match_found [OF t(4) g(1)] g show thesis by (intro match [of c d rest']) auto
  qed
qed

text \<open>Whether the loop goes on depends on the searches only.\<close>

lemma gsub_match_returns:
  assumes "\<And>j q. j \<le> length str \<Longrightarrow> po_search ops str (int j) q \<noteq> None" "i \<le> length str"
  shows "gsub_match ops repl str (int i) first p \<noteq> None"
proof -
  have suc: "int i + 1 = int (Suc i)" by simp
  obtain r p1 where s1: "po_search ops str (int i) p = Some (r, p1)" using assms by fastforce
  show ?thesis
  proof (cases "i < length str")
    case True
    then have "po_search ops str (int (Suc i)) p1 \<noteq> None" by (intro assms(1)) simp
    then obtain r2 p2 where "po_search ops str (int (Suc i)) p1 = Some (r2, p2)" by fastforce
    with s1 show ?thesis unfolding gsub_match_def suc by (auto split: sum.split)
  next
    case False
    with s1 show ?thesis unfolding gsub_match_def by (auto split: sum.split)
  qed
qed

subsection \<open>Global substitution\<close>

lemma replacements_Cons:
  "regs \<noteq> [] \<Longrightarrow> rs_expand repl regs str = Inr u \<Longrightarrow> replacements repl str ms tail out \<Longrightarrow>
    replacements repl str ((gap, regs) # ms) tail (gap @ u @ out)"
  by (auto simp: replacements_def)

lemma gsub_loop_pieces:
  assumes "i \<le> length str" "gsub_loop ops repl str (int i) first new p = Some (Inr out, q)"
  shows "\<exists>ms tail out'. drop i str = concat (map (\<lambda>(gap, regs). gap @ matched str regs) ms) @ tail \<and>
    replacements repl str ms tail out' \<and> out = new @ out'"
  using assms
proof (induction "2 * (length str - i) + (if first then 1 else 0)" arbitrary: i first new p rule: less_induct)
  case less
  show ?case
  proof (cases "gsub_match ops repl str (int i) first p")
    case None
    with less.prems(2) show ?thesis by (simp add: gsub_loop.simps)
  next
    case (Some x)
    with less.prems(2) obtain r q1 where m: "gsub_match ops repl str (int i) first p = Some (Inr r, q1)"
      by (cases x) (auto simp: gsub_loop.simps split: sum.splits)
    show ?thesis
    proof (cases r)
      case None
      with m less.prems(2) have "out = new @ drop i str" by (simp add: gsub_loop.simps)
      then show ?thesis
        by (intro exI [of _ "[]"] exI [of _ "drop i str"]) (simp add: replacements_def)
    next
      case (Some abu)
      then obtain a' b' u where abu: "r = Some (a', b', u)" by (cases abu) auto
      obtain a b rest where f: "a' = int a" "b' = int b" "i \<le> a" "a \<le> b" "b \<le> length str" "first \<or> i < b"
          "rs_expand repl ((int a, int b) # rest) str = Inr u"
        using gsub_match_found [OF less.prems(1) m [unfolded abu]] by metis
      let ?gap = "take (a - i) (drop i str)" and ?regs = "(int a, int b) # rest"
      have loop: "gsub_loop ops repl str (int b) False (new @ ?gap @ u) q1 = Some (Inr out, q)"
        using less.prems(2) m abu f by (simp add: gsub_loop.simps [of _ _ _ "int i"] pslice_nat)
      have "2 * (length str - b) + (if False then 1 else 0) < 2 * (length str - i) + (if first then 1 else 0)"
        using f by (auto simp: not_le)
      then obtain ms tail out' where IH: "drop b str = concat (map (\<lambda>(gap, regs). gap @ matched str regs) ms) @ tail"
          "replacements repl str ms tail out'" "out = (new @ ?gap @ u) @ out'"
        using less.hyps [OF _ f(5) loop] by blast
      have "drop i str = ?gap @ matched str ?regs @ drop b str"
      proof -
        have "drop i str = ?gap @ drop (a - i) (drop i str)" by (rule append_take_drop_id [symmetric])
        also have "drop (a - i) (drop i str) = drop a str" using f(3) by simp
        also have "drop a str = take (b - a) (drop a str) @ drop b str"
          using f(4) by (metis append_take_drop_id drop_drop le_add_diff_inverse2)
        finally show ?thesis by (simp add: matched_def pslice_nat)
      qed
      with IH f(7) show ?thesis
        by (intro exI [of _ "(?gap, ?regs) # ms"] exI [of _ tail] exI [of _ "?gap @ u @ out'"])
          (simp add: replacements_Cons)
    qed
  qed
qed

theorem gsub_pieces:
  "rs_gsub ops repl str p = Some (Inr out, q) \<Longrightarrow>
    \<exists>ms tail. str = concat (map (\<lambda>(gap, regs). gap @ matched str regs) ms) @ tail \<and> replacements repl str ms tail out"
  using gsub_loop_pieces [of 0 str repl True "[]" p out q] by (simp add: rs_gsub_def)

text \<open>Replacing every match by itself gives the text back.\<close>

lemma expand_group0: "regs \<noteq> [] \<Longrightarrow> rs_expand [BSLASH, CHR ''0''] regs str = Inr (matched str regs)"
  by (simp add: rs_expand_def pindex_def matched_def hd_conv_nth)

theorem gsub_identity:
  assumes "rs_gsub ops [BSLASH, CHR ''0''] str p = Some (Inr out, q)"
  shows "out = str"
proof -
  from gsub_pieces [OF assms] obtain ms tail where
    m: "str = concat (map (\<lambda>(gap, regs). gap @ matched str regs) ms) @ tail"
      "replacements [BSLASH, CHR ''0''] str ms tail out" by blast
  have "map (\<lambda>(gap, regs). gap @ projr (rs_expand [BSLASH, CHR ''0''] regs str)) ms =
      map (\<lambda>(gap, regs). gap @ matched str regs) ms"
    using m(2) by (auto simp: replacements_def expand_group0)
  with m show ?thesis by (simp add: replacements_def)
qed

text \<open>The loop ends: it returns when every search does.\<close>

lemma gsub_loop_returns:
  assumes "\<And>j q. j \<le> length str \<Longrightarrow> po_search ops str (int j) q \<noteq> None" "i \<le> length str"
  shows "gsub_loop ops repl str (int i) first new p \<noteq> None"
  using assms(2)
proof (induction "2 * (length str - i) + (if first then 1 else 0)" arbitrary: i first new p rule: less_induct)
  case less
  from gsub_match_returns [OF assms(1) less.prems] obtain r q where
    m: "gsub_match ops repl str (int i) first p = Some (r, q)" by fastforce
  show ?case
  proof (cases "\<exists>a' b' u. r = Inr (Some (a', b', u))")
    case False
    with m show ?thesis by (subst gsub_loop.simps) (auto split: sum.splits option.splits)
  next
    case True
    then obtain a' b' u where r: "r = Inr (Some (a', b', u))" by blast
    obtain a b where f: "b' = int b" "i \<le> a" "a \<le> b" "b \<le> length str" "first \<or> i < b"
      using gsub_match_found [OF less.prems m [unfolded r]] by metis
    have "gsub_loop ops repl str (int b) False (new @ pslice (int i) a' str @ u) q \<noteq> None"
      using f by (intro less.hyps) (auto simp: not_le)
    with m r f(1) show ?thesis by (subst gsub_loop.simps) simp
  qed
qed

theorem gsub_returns:
  "(\<And>j q. j \<le> length str \<Longrightarrow> po_search ops str (int j) q \<noteq> None) \<Longrightarrow> rs_gsub ops repl str p \<noteq> None"
  using gsub_loop_returns [of str 0 repl True "[]" p] by (simp add: rs_gsub_def)

subsection \<open>Splitting\<close>

lemma rs_split_loop_parts:
  assumes "i \<le> j" "j \<le> length str" "rs_split_loop ops str m True (int i) (int j) c res p = Some (Inr out, q)"
  shows "\<exists>ws. out = res @ ws \<and> concat ws = drop i str \<and> odd (length ws) \<and> [] \<notin> set (delim_texts ws) \<and>
    (\<forall>res. rs_split_loop ops str m False (int i) (int j) c res p = Some (Inr (res @ field_texts ws), q)) \<and>
    (0 \<le> c \<and> c < m \<longrightarrow> c + int (length (delim_texts ws)) \<le> m)"
  using assms
proof (induction "length str - j" arbitrary: i j c res p rule: less_induct)
  case less
  let ?stop = "\<exists>ws. out = res @ ws \<and> concat ws = drop i str \<and> odd (length ws) \<and> [] \<notin> set (delim_texts ws) \<and>
    (\<forall>res. rs_split_loop ops str m False (int i) (int j) c res p = Some (Inr (res @ field_texts ws), q)) \<and>
    (0 \<le> c \<and> c < m \<longrightarrow> c + int (length (delim_texts ws)) \<le> m)"
  from less.prems(3) obtain k p1 where s: "po_search ops str (int j) p = Some (Inr k, p1)"
    by (subst (asm) rs_split_loop.simps) (auto split: option.splits sum.splits)
  show ?case
  proof (cases "k < 0")
    case True
    then have "rs_split_loop ops str m retain (int i) (int j) c res p = Some (Inr (res @ [drop i str]), p1)" for retain res
      using s by (subst rs_split_loop.simps) simp
    with less.prems(3) show ?thesis by (intro exI [of _ "[drop i str]"]) simp
  next
    case False
    from found [OF s less.prems(2) False] obtain a b rest where
      f: "get_regs ops p1 = Inr ((int a, int b) # rest, int a, int b)" "j \<le> a" "a \<le> b" "b \<le> length str" by metis
    have suc: "int j + 1 = int (Suc j)" by simp
    show ?thesis
    proof (cases "a = b")
      case ab: True
      show ?thesis
      proof (cases "length str \<le> Suc j")
        case True
        then have "rs_split_loop ops str m retain (int i) (int j) c res p = Some (Inr (res @ [drop i str]), p1)" for retain res
          using s False f(1) ab by (subst rs_split_loop.simps) simp
        with less.prems(3) show ?thesis by (intro exI [of _ "[drop i str]"]) simp
      next
        case no: False
        then have "rs_split_loop ops str m retain (int i) (int j) c res p =
            rs_split_loop ops str m retain (int i) (int j + 1) c res p1" for retain res
          using s False f(1) ab by (subst rs_split_loop.simps) simp
        with less.prems less.hyps [of "Suc j" i c res p1] no show ?thesis by (simp add: add.commute)
      qed
    next
      case ab: False
      let ?gap = "take (a - i) (drop i str)" and ?d = "take (b - a) (drop a str)"
      have d: "?d \<noteq> []" using ab f by simp
      have tx: "drop i str = ?gap @ ?d @ drop b str"
      proof -
        have "drop i str = ?gap @ drop (a - i) (drop i str)" by (rule append_take_drop_id [symmetric])
        moreover have "drop (a - i) (drop i str) = drop a str" using f(2) less.prems(1) by simp
        moreover have "drop a str = ?d @ drop b str" using f(3) by (metis append_take_drop_id drop_drop le_add_diff_inverse2)
        ultimately show ?thesis by simp
      qed
      show ?thesis
      proof (cases "m \<noteq> 0 \<and> c + 1 \<ge> m")
        case True
        then have "rs_split_loop ops str m retain (int i) (int j) c res p =
            Some (Inr (res @ ?gap # (if retain then [?d] else []) @ [drop b str]), p1)" for retain res
          using s False f(1) ab by (subst rs_split_loop.simps) (simp add: Let_def pslice_nat)
        with less.prems(3) d tx True show ?thesis by (intro exI [of _ "[?gap, ?d, drop b str]"]) auto
      next
        case go: False
        then have step: "rs_split_loop ops str m retain (int i) (int j) c res p =
            rs_split_loop ops str m retain (int b) (int b) (c + 1) (res @ ?gap # (if retain then [?d] else [])) p1" for retain res
          using s False f(1) ab by (subst rs_split_loop.simps) (auto simp: Let_def pslice_nat)
        have "length str - b < length str - j" using f ab by auto
        then obtain ws where ws: "out = (res @ [?gap, ?d]) @ ws" "concat ws = drop b str" "odd (length ws)"
            "[] \<notin> set (delim_texts ws)"
            "\<And>res. rs_split_loop ops str m False (int b) (int b) (c + 1) res p1 = Some (Inr (res @ field_texts ws), q)"
            "0 \<le> c + 1 \<and> c + 1 < m \<longrightarrow> c + 1 + int (length (delim_texts ws)) \<le> m"
          using less.hyps [of b b "c + 1" "res @ [?gap, ?d]" p1] f(4) less.prems(3) step [of True res] by auto
        with d tx step [of False] go show ?thesis by (intro exI [of _ "?gap # ?d # ws"]) auto
      qed
    qed
  qed
qed

theorem splitx_parts:
  assumes "rs_splitx ops str m p = Some (Inr ws, q)"
  shows "concat ws = str" "odd (length ws)" "[] \<notin> set (delim_texts ws)"
    "rs_split ops str m p = Some (Inr (field_texts ws), q)" "0 < m \<Longrightarrow> int (length (delim_texts ws)) \<le> m"
  using rs_split_loop_parts [of 0 0 str m 0 "[]" p ws q] assms
  by (auto simp: rs_splitx_def rs_split_def intsplit_def)

end

subsection \<open>The objects of the module \<^verbatim>\<open>regex\<close>\<close>

interpretation rx: regex_object regex_ops
proof unfold_locales
  fix i k :: int and s p p'
  assume "0 \<le> i" "i \<le> int (length s)" "po_search regex_ops s i p = Some (Inr k, p')" "0 \<le> k"
  then show "\<exists>b rest. po_regs regex_ops p' = Some ((k, b) # rest) \<and> i \<le> k \<and> k \<le> b \<and> b \<le> int (length s)"
    using reg_search_bounds [of i s p k p'] by (simp add: regex_ops_def)
qed

end
