(* ===== verification/Regsub_Words.thy ===== *)
theory Regsub_Words
  imports Regsub
begin

section \<open>Capitalising the words of a text (capwords of regsub.py)\<close>

text \<open>
  \<open>capwords\<close> with its default pattern \<^verbatim>\<open>[^a-zA-Z0-9_]+\<close>, from the source of the pattern to the
  result: the compiler's program for a set under \<^verbatim>\<open>+\<close>, its runs (the loop is always sealed, so
  no text is too long for the failure stack), the search with the fast map, and the splitting.
\<close>

subsection \<open>A set under \<open>+\<close>\<close>

definition plus_code :: "(char \<Rightarrow> bool) \<Rightarrow> instr \<Rightarrow> instr list" where
  "plus_code S j = [Cdummy_failure_jump 1, Cfailure_jump 2, Cset S, j, Cend]"

lemma compile_set_plus:
  assumes "open_set 0 id cs = Inr (S, ''+'')"
  shows "re_compile_pattern 0 id (CHR ''['' # cs) = Inr (plus_code S (Cstar_jump (- 3)), False)"
proof -
  obtain st where st: "compiled [One (Cset S)] st"
      "compile_loop 0 id (CHR ''['' # cs) compile_init = compile_loop 0 id ''+'' st"
    using compile_set [OF compiled_init assms] by auto
  have e: "enter_level 4 st = st" using st(1) by (simp add: compiled_def enter_level_def)
  have s: "level_start st = 0" using st(1) by (simp add: compiled_def level_start_def)
  have p: "read_op 0 id CHR ''+'' [] = Inr (Rplus, CHR ''+'', [])" by (simp add: read_op_def plain_op_def)
  have "compile_loop 0 id ''+'' st = Inr (enter_level 0 (compile_star True st\<lparr>rc_beginning := False\<rparr>))"
    using st(1) by (simp add: p e s compiled_def)
  moreover have "rc_code (enter_level 0 (compile_star True st\<lparr>rc_beginning := False\<rparr>)) =
      butlast (plus_code S (Cstar_jump (- 3)))"
    "rc_base (enter_level 0 (compile_star True st\<lparr>rc_beginning := False\<rparr>)) = 0"
    "\<not> rc_uses (enter_level 0 (compile_star True st\<lparr>rc_beginning := False\<rparr>))"
    using st(1) s by (simp_all add: compiled_def enter_level_def Let_def compile_star_def insert_jump_def plus_code_def)
  ultimately show ?thesis
    using st(2) by (simp add: re_compile_pattern_def store_instr_def plus_code_def)
qed

lemma target_plus [simp]:
  "target 0 1 = 2" "target 1 2 = 4" "target (Suc 0) 2 = 4" "target 3 (- 2) = 2" "target 3 (- 3) = 1"
  by (simp_all add: target_def)

lemma plus_code_nth:
  "plus_code S j ! 0 = Cdummy_failure_jump 1" "plus_code S j ! Suc 0 = Cfailure_jump 2" "plus_code S j ! 2 = Cset S"
  "plus_code S j ! 3 = j" "plus_code S j ! 4 = Cend" "length (plus_code S j) = 5" "(plus_code S j)[3 := j'] = plus_code S j'"
  by (simp_all add: plus_code_def numeral_2_eq_2 numeral_3_eq_3 eval_nat_numeral)

lemma star_jump_plus: "star_jump (plus_code S j) 3 (- 3) = Cupdate_failure_jump (- 2)"
proof -
  have "fm_map (do_compile_fastmap (plus_code S j) 4) = (\<lambda>_. False)"
    unfolding do_compile_fastmap_def by (subst fm_run.simps) (simp add: plus_code_nth)
  moreover have "take (3 - (target 3 (- 3) + 1)) (drop (target 3 (- 3) + 1) (plus_code S j)) = [Cset S]"
    by (simp add: plus_code_def)
  ultimately show ?thesis unfolding star_jump_def Let_def by (simp add: star_straight_def list_ex_iff)
qed

lemma fastmap_plus: "do_compile_fastmap (plus_code S j) 0 = \<lparr>fm_map = S, fm_null = 0\<rparr>"
  unfolding do_compile_fastmap_def
  by (subst fm_run.simps, simp add: plus_code_nth fm_seen_def numeral_2_eq_2, subst fm_run.simps)
    (simp add: plus_code_nth fm_add_def flip: numeral_2_eq_2)

definition run_end_of :: "(char \<Rightarrow> bool) \<Rightarrow> string \<Rightarrow> nat \<Rightarrow> nat" where
  "run_end_of S s t = t + length (takeWhile S (drop t s))"

lemma run_end_of_step: "t < length s \<Longrightarrow> S (s ! t) \<Longrightarrow> run_end_of S s t = run_end_of S s (Suc t)"
  by (simp add: run_end_of_def Cons_nth_drop_Suc [symmetric])

lemma run_end_of_stop: "\<not> (t < length s \<and> S (s ! t)) \<Longrightarrow> run_end_of S s t = t"
  by (cases "t < length s") (simp_all add: run_end_of_def Cons_nth_drop_Suc [symmetric])

lemma run_plus_loop:
  "run_at s (plus_code S (Cupdate_failure_jump (- 2))) 2 t [(4, Some t)] =
    Some (Matched (run_end_of S s t), plus_code S (Cupdate_failure_jump (- 2)))"
proof (induction "length s - t" arbitrary: t rule: less_induct)
  case less
  let ?code = "plus_code S (Cupdate_failure_jump (- 2))"
  note nth = plus_code_nth [of S "Cupdate_failure_jump (- 2)"]
  show ?case
  proof (cases "t < length s \<and> S (s ! t)")
    case True
    have "run_at s ?code 2 t [(4, Some t)] = run_at s ?code 3 (Suc t) [(4, Some t)]"
      using run_single [of 2 ?code s t] nth True by (simp add: numeral_3_eq_3)
    also have "\<dots> = run_at s ?code 2 (Suc t) [(4, Some (Suc t))]"
      using run_update [of 3 ?code "- 2" s "Suc t" 4 "Some t" "[]"] nth by simp
    also have "\<dots> = Some (Matched (run_end_of S s (Suc t)), ?code)" using True by (intro less.hyps) auto
    finally show ?thesis using True by (simp add: run_end_of_step)
  next
    case False
    have "run_at s ?code 2 t [(4, Some t)] = fail_at s ?code [(4, Some t)]"
      using run_single [of 2 ?code s t "[(4, Some t)]"] nth False by auto
    then show ?thesis using False nth by (simp add: run_end run_end_of_stop)
  qed
qed

lemma run_plus:
  assumes "j = Cstar_jump (- 3) \<or> j = Cupdate_failure_jump (- 2)"
  shows "run_at s (plus_code S j) 0 t [] =
    (if t < length s \<and> S (s ! t) then Some (Matched (run_end_of S s t), plus_code S (Cupdate_failure_jump (- 2)))
     else Some (Mismatch, plus_code S j))"
proof -
  note nth = plus_code_nth [of S j]
  have "run_at s (plus_code S j) 0 t [] = run_at s (plus_code S j) 2 t [(4, None)]"
    using nth run_dummy_failure_jump [of 0 "plus_code S j" 1 2 "[]" s t] by (simp add: MAX_FAILURES_def)
  also have "\<dots> = (if t < length s \<and> S (s ! t) then run_at s (plus_code S j) 3 (Suc t) [(4, None)]
      else Some (Mismatch, plus_code S j))"
    using run_single [of 2 "plus_code S j" s t "[(4, None)]"] nth by (simp add: numeral_3_eq_3)
  also have "run_at s (plus_code S j) 3 (Suc t) [(4, None)] =
      run_at s (plus_code S (Cupdate_failure_jump (- 2))) 3 (Suc t) [(4, None)]"
    using assms run_star_jump [of 3 "plus_code S j" "- 3" s "Suc t" "(4, None)" "[]"] nth
    by (auto simp: star_jump_plus)
  also have "\<dots> = run_at s (plus_code S (Cupdate_failure_jump (- 2))) 2 (Suc t) [(4, Some (Suc t))]"
    using run_update [of 3 "plus_code S (Cupdate_failure_jump (- 2))" "- 2" s "Suc t" 4 None "[]"] plus_code_nth by simp
  finally show ?thesis by (auto simp: run_plus_loop run_end_of_step)
qed

lemma anchor_plus [simp]: "(case plus_code S j of Cbol # _ \<Rightarrow> 1 | Cbegbuf # _ \<Rightarrow> 2 | _ \<Rightarrow> 0) = (0 :: nat)"
  by (simp add: plus_code_def)

subsection \<open>Searching\<close>

definition plus_regex :: "(char \<Rightarrow> bool) \<Rightarrow> regex \<Rightarrow> bool" where
  "plus_regex S r \<longleftrightarrow> (r_code r = plus_code S (Cstar_jump (- 3)) \<or> r_code r = plus_code S (Cupdate_failure_jump (- 2))) \<and>
     r_tr r = id \<and> (r_accurate r \<longrightarrow> r_fastmap r = S \<and> r_null r = 0 \<and> r_anchor r = 0)"

lemma re_match_plus:
  assumes "plus_regex S r" "t < length s" "S (s ! t)"
  shows "\<exists>r' rest. re_match s t r = Some (int (run_end_of S s t) - int t, r') \<and> plus_regex S r' \<and>
    reg_regs r' = Some ((int t, int (run_end_of S s t)) # rest)"
proof -
  from assms(1) obtain j where j: "r_code r = plus_code S j" "j = Cstar_jump (- 3) \<or> j = Cupdate_failure_jump (- 2)"
    by (auto simp: plus_regex_def)
  from run_plus [OF j(2), of s S t] assms(2,3) obtain m where
    "match_run s id (match_start (plus_code S j) t) = Some (Matched (run_end_of S s t), m)"
    "m_code m = plus_code S (Cupdate_failure_jump (- 2))"
    by (auto simp: run_at_def match_start_config)
  with assms(1) j(1) show ?thesis
    by (auto simp: re_match_def plus_regex_def reg_regs_def match_regs_def)
qed

text \<open>Where the next run of the set begins.\<close>

definition next_run :: "(char \<Rightarrow> bool) \<Rightarrow> string \<Rightarrow> nat \<Rightarrow> nat" where
  "next_run S s i = i + length (takeWhile (\<lambda>c. \<not> S c) (drop i s))"

lemma next_run_le: "i \<le> length s \<Longrightarrow> next_run S s i \<le> length s"
  using length_takeWhile_le [of "\<lambda>c. \<not> S c" "drop i s"] by (simp add: next_run_def)

lemma next_run_in: "next_run S s i < length s \<Longrightarrow> S (s ! next_run S s i)"
  using nth_length_takeWhile [of "\<lambda>c. \<not> S c" "drop i s"] by (simp add: next_run_def)

lemma reg_search_plus:
  assumes "plus_regex S r" "i \<le> length s"
  shows "\<exists>r'. plus_regex S r' \<and>
    (if next_run S s i = length s then reg_search s (int i) r = Some (Inr (- 1), r')
     else reg_search s (int i) r = Some (Inr (int (next_run S s i)), r') \<and>
       (\<exists>rest. reg_regs r' = Some ((int (next_run S s i), int (run_end_of S s (next_run S s i))) # rest)))"
proof -
  define r1 where "r1 = re_compile_fastmap (r\<lparr>r_lastok := None\<rparr>)"
  have r1: "plus_regex S r1" "r_fastmap r1 = S" "r_null r1 = 0" "r_anchor r1 = 0" "r_tr r1 = id"
    using assms(1) unfolding r1_def plus_regex_def
    by (auto simp: re_compile_fastmap_def fastmap_plus Let_def)
  have p: "skip_to True s i (length s - i) r1 = next_run S s i"
    using assms(2) r1 by (simp add: skip_to_def next_run_def scan_up_length)
  have search: "reg_search s (int i) r =
      (case search_loop True s i (length s - i) r1 of
         None \<Rightarrow> None | Some (k, r') \<Rightarrow> if k < - 1 then Some (Inl (regex_error ''match failure''), r') else Some (Inr k, r'))"
    using assms(2) r1 unfolding reg_search_def reg_call_def re_search_def Let_def r1_def [symmetric] by simp
  show ?thesis
  proof (cases "next_run S s i = length s")
    case True
    with p r1 have "search_loop True s i (length s - i) r1 = Some (- 1, r1)" by (simp add: search_loop.simps Let_def)
    with True search r1(1) show ?thesis by (intro exI [of _ r1]) simp
  next
    case False
    with next_run_le [OF assms(2)] have lt: "next_run S s i < length s" by (simp add: le_neq_implies_less)
    from re_match_plus [OF r1(1) lt next_run_in [OF lt]] obtain r' rest where
      m: "re_match s (next_run S s i) r1 = Some (int (run_end_of S s (next_run S s i)) - int (next_run S s i), r')"
        "plus_regex S r'" "reg_regs r' = Some ((int (next_run S s i), int (run_end_of S s (next_run S s i))) # rest)" by blast
    have "search_loop True s i (length s - i) r1 = Some (int (next_run S s i), r')"
      using p r1 m False by (simp add: search_loop.simps [of True s i] Let_def run_end_of_def)
    with False search m(2,3) show ?thesis by (intro exI [of _ r']) simp
  qed
qed

subsection \<open>Splitting at the runs\<close>

function runs :: "(char \<Rightarrow> bool) \<Rightarrow> string \<Rightarrow> string list" where
  "runs S s =
     (let r = dropWhile (\<lambda>c. \<not> S c) s
      in takeWhile (\<lambda>c. \<not> S c) s # (if r = [] then [] else takeWhile S r # runs S (dropWhile S r)))"
  by pat_completeness auto
termination
proof (relation "measure (\<lambda>(S, s). length s)", goal_cases)
  case (2 S s r)
  then have "r \<noteq> []" by simp
  then obtain c cs where r: "r = c # cs" by (meson neq_Nil_conv)
  have "S (hd r)" using 2 hd_dropWhile [of "\<lambda>c. \<not> S c" s] by simp
  with r have c: "S c" by simp
  have "length (dropWhile S r) < length r" using r c length_dropWhile_le [of S cs] by simp
  also have "\<dots> \<le> length s" using 2 by (simp add: length_dropWhile_le)
  finally show ?case by simp
qed simp

declare runs.simps [simp del]

lemma split_loop_runs:
  assumes "plus_regex S r" "i \<le> length s"
  shows "\<exists>r'. plus_regex S r' \<and>
    rs_split_loop regex_ops s 0 True (int i) (int i) c res r = Some (Inr (res @ runs S (drop i s)), r')"
  using assms
proof (induction "length s - i" arbitrary: i c res r rule: less_induct)
  case less
  let ?p = "next_run S s i"
  obtain r1 where r1: "plus_regex S r1"
      "if ?p = length s then reg_search s (int i) r = Some (Inr (- 1), r1)
       else reg_search s (int i) r = Some (Inr (int ?p), r1) \<and>
         (\<exists>rest. reg_regs r1 = Some ((int ?p, int (run_end_of S s ?p)) # rest))"
    using reg_search_plus [OF less.prems] by blast
  have head: "takeWhile (\<lambda>c. \<not> S c) (drop i s) = take (?p - i) (drop i s)" "dropWhile (\<lambda>c. \<not> S c) (drop i s) = drop ?p s"
    using drop_length_takeWhile [of "\<lambda>c. \<not> S c" "drop i s"]
    by (simp_all add: next_run_def take_length_takeWhile add.commute)
  show ?case
  proof (cases "?p = length s")
    case True
    then have "runs S (drop i s) = [drop i s]"
      unfolding runs.simps [of S "drop i s"] head True by simp
    with True r1 show ?thesis
      by (intro exI [of _ r1]) (subst rs_split_loop.simps, simp add: regex_ops_def)
  next
    case False
    with next_run_le [OF less.prems(2)] have lt: "?p < length s" by (simp add: le_neq_implies_less)
    let ?e = "run_end_of S s ?p"
    have e: "?p < ?e" "?e \<le> length s" "takeWhile S (drop ?p s) = take (?e - ?p) (drop ?p s)" "dropWhile S (drop ?p s) = drop ?e s"
    proof -
      show "?p < ?e"
        using next_run_in [OF lt] lt by (simp add: run_end_of_def Cons_nth_drop_Suc [symmetric])
      show "?e \<le> length s"
        using length_takeWhile_le [of S "drop ?p s"] lt by (simp add: run_end_of_def)
    qed (use drop_length_takeWhile [of S "drop ?p s"] in \<open>simp_all add: run_end_of_def take_length_takeWhile add.commute\<close>)
    have i: "i \<le> ?p" by (simp add: next_run_def)
    from r1 False obtain rest where s: "reg_search s (int i) r = Some (Inr (int ?p), r1)"
        "reg_regs r1 = Some ((int ?p, int ?e) # rest)" by auto
    have "rs_split_loop regex_ops s 0 True (int i) (int i) c res r =
        rs_split_loop regex_ops s 0 True (int ?e) (int ?e) (c + 1)
          (res @ [take (?p - i) (drop i s), take (?e - ?p) (drop ?p s)]) r1"
      using s e(1) by (subst rs_split_loop.simps) (simp add: regex_ops_def get_regs_def pindex_def pslice_nat Let_def)
    moreover have "runs S (drop i s) = take (?p - i) (drop i s) # take (?e - ?p) (drop ?p s) # runs S (drop ?e s)"
      unfolding runs.simps [of S "drop i s"] head Let_def e(3,4) using lt by simp
    moreover have "length s - ?e < length s - i" using e(1,2) i by simp
    note less.hyps [OF this r1(1) e(2), of "c + 1" "res @ [take (?p - i) (drop i s), take (?e - ?p) (drop ?p s)]"]
    ultimately show ?thesis by simp
  qed
qed

theorem splitx_runs:
  "plus_regex S r \<Longrightarrow> \<exists>r'. plus_regex S r' \<and> rs_splitx regex_ops s 0 r = Some (Inr (runs S s), r')"
  using split_loop_runs [of S r 0 s 0 "[]"] by (simp add: rs_splitx_def intsplit_def)

subsection \<open>capwords\<close>

definition capwords_pattern :: string where
  "capwords_pattern = ''[^a-zA-Z0-9_]+''"

definition word_char :: "char \<Rightarrow> bool" where
  "word_char c \<longleftrightarrow> (CHR ''a'' \<le> c \<and> c \<le> CHR ''z'') \<or> (CHR ''A'' \<le> c \<and> c \<le> CHR ''Z'')
     \<or> (CHR ''0'' \<le> c \<and> c \<le> CHR ''9'') \<or> c = CHR ''_''"

lemma in_seq_word: "in_seq ''a-zA-Z0-9_'' = word_char"
  by (auto simp: word_char_def fun_eq_iff)

lemma compile_capwords: "\<exists>r. regex_compile 0 id capwords_pattern = Inr r \<and> plus_regex (\<lambda>c. \<not> word_char c) r"
proof -
  have "open_set 0 id (CHR ''^'' # CHR ''a'' # ''-zA-Z0-9_'' @ CHR '']'' # ''+'') = Inr (\<lambda>c. \<not> word_char c, ''+'')"
    by (subst open_set_complement) (simp_all only: in_seq_word, simp)
  then have "re_compile_pattern 0 id capwords_pattern = Inr (plus_code (\<lambda>c. \<not> word_char c) (Cstar_jump (- 3)), False)"
    using compile_set_plus by (simp add: capwords_pattern_def)
  then show ?thesis by (simp add: regex_compile_def plus_regex_def)
qed

text \<open>The reference: every run of word characters capitalised, the rest as it is.\<close>

function cap_words :: "string \<Rightarrow> string" where
  "cap_words s =
     (let r = dropWhile word_char s
      in capitalize (takeWhile word_char s) @
         (if r = [] then [] else takeWhile (\<lambda>c. \<not> word_char c) r @ cap_words (dropWhile (\<lambda>c. \<not> word_char c) r)))"
  by pat_completeness auto
termination
proof (relation "measure length", goal_cases)
  case (2 s r)
  then have "r \<noteq> []" by simp
  then obtain c cs where r: "r = c # cs" by (meson neq_Nil_conv)
  have "\<not> word_char (hd r)" using 2 hd_dropWhile [of word_char s] by simp
  with r have c: "\<not> word_char c" by simp
  have "length (dropWhile (\<lambda>c. \<not> word_char c) r) < length r"
    using r c length_dropWhile_le [of "\<lambda>c. \<not> word_char c" cs] by simp
  also have "\<dots> \<le> length s" using 2 by (simp add: length_dropWhile_le)
  finally show ?case by simp
qed simp

declare cap_words.simps [simp del]

lemma capitalize_runs: "concat (capitalize_even (runs (\<lambda>c. \<not> word_char c) s)) = cap_words s"
proof (induction "length s" arbitrary: s rule: less_induct)
  case less
  let ?r = "dropWhile word_char s"
  show ?case
  proof (cases "?r = []")
    case True
    then show ?thesis by (subst runs.simps, subst cap_words.simps) simp
  next
    case False
    let ?t = "dropWhile (\<lambda>c. \<not> word_char c) ?r"
    obtain c cs where r: "?r = c # cs" using False by (meson neq_Nil_conv)
    then have c: "\<not> word_char c" using hd_dropWhile [of word_char s] by simp
    have "length ?t < length ?r" unfolding r using c length_dropWhile_le [of "\<lambda>c. \<not> word_char c" cs] by simp
    also have "\<dots> \<le> length s" by (rule length_dropWhile_le)
    finally have "concat (capitalize_even (runs (\<lambda>c. \<not> word_char c) ?t)) = cap_words ?t" by (rule less)
    with False show ?thesis
      by (subst runs.simps, subst cap_words.simps) (simp add: Let_def del: dropWhile_eq_Nil_conv)
  qed
qed

definition caps_cache :: "regex rs_cache \<Rightarrow> bool" where
  "caps_cache cache \<longleftrightarrow> (\<forall>r. cache capwords_pattern = Some r \<longrightarrow> plus_regex (\<lambda>c. \<not> word_char c) r)"

theorem capwords_words:
  assumes "caps_cache cache"
  shows "\<exists>cache'. with_pattern (regex_compile 0 id) capwords_pattern (rs_capwords regex_ops s) cache = Some (Inr (cap_words s), cache') \<and>
    caps_cache cache'"
proof -
  obtain r cache1 where r: "rs_compile (regex_compile 0 id) capwords_pattern cache = (Inr r, cache1)"
      "plus_regex (\<lambda>c. \<not> word_char c) r"
    using assms compile_capwords by (cases "cache capwords_pattern") (auto simp: rs_compile_def caps_cache_def)
  from splitx_runs [OF r(2), of s] obtain r' where "plus_regex (\<lambda>c. \<not> word_char c) r'"
      "rs_splitx regex_ops s 0 r = Some (Inr (runs (\<lambda>c. \<not> word_char c) s), r')" by blast
  with r(1) show ?thesis
    by (auto simp: with_pattern_def rs_capwords_def joinfields_empty_sep capitalize_runs caps_cache_def)
qed

end
