(* ===== verification/Sched.thy ===== *)
theory Sched
  imports Py_Prelude "HOL-Library.Multiset"
begin

section \<open>\<open>Lib/bisect.py\<close>, \<open>Lib/sched.py\<close>, \<open>Lib/mutex.py\<close>: events in order\<close>

text \<open>
  Bisection on a sorted list, the event scheduler that keeps its queue sorted with it, and the
  mutex of functions waiting for a lock.  The functions the scheduler is given (the clock, the
  delay, the actions) and those a mutex calls are parameters: actions on the whole state, so they
  may change the queue or raise.
\<close>

subsection \<open>Bisection\<close>

function bisect_loop :: "'a::linorder list \<Rightarrow> 'a \<Rightarrow> nat \<Rightarrow> nat \<Rightarrow> nat" where
  "bisect_loop a x lo hi =
     (if lo < hi then
        let mid = (lo + hi) div 2
        in if x < a ! mid then bisect_loop a x lo mid else bisect_loop a x (mid + 1) hi
      else lo)"
  by pat_completeness auto
termination
  by (relation "measure (\<lambda>(a, x, lo, hi). hi - lo)") auto

declare bisect_loop.simps [simp del]

definition bisect :: "'a::linorder list \<Rightarrow> 'a \<Rightarrow> nat" where
  "bisect a x = bisect_loop a x 0 (length a)"

definition list_insert :: "nat \<Rightarrow> 'a \<Rightarrow> 'a list \<Rightarrow> 'a list" where
  \<comment> \<open>\<open>a.insert(i, x)\<close>\<close>
  "list_insert i x a = take i a @ x # drop i a"

definition insort_py :: "'a::linorder list \<Rightarrow> 'a \<Rightarrow> 'a list" where
  "insort_py a x = list_insert (bisect_loop a x 0 (length a)) x a"

text \<open>The loop finds the first position whose element is greater than \<open>x\<close>.\<close>

lemma bisect_loop_step:
  assumes "lo < hi"
  shows "bisect_loop a x lo hi =
    (if x < a ! ((lo + hi) div 2) then bisect_loop a x lo ((lo + hi) div 2)
     else bisect_loop a x ((lo + hi) div 2 + 1) hi)"
  using assms by (subst bisect_loop.simps) (simp add: Let_def)

lemma bisect_loop_end: "\<not> lo < hi \<Longrightarrow> bisect_loop a x lo hi = lo"
  by (subst bisect_loop.simps) simp

lemma bisect_loop_bounds:
  "lo \<le> hi \<Longrightarrow> lo \<le> bisect_loop a x lo hi \<and> bisect_loop a x lo hi \<le> hi"
proof (induction a x lo hi rule: bisect_loop.induct)
  case (1 a x lo hi)
  show ?case
  proof (cases "lo < hi")
    case True
    then have m: "lo \<le> (lo + hi) div 2" "(lo + hi) div 2 < hi" by auto
    from 1(1) [OF True refl] 1(2) [OF True refl] m show ?thesis
      unfolding bisect_loop_step [OF True] by (auto split: if_splits)
  next
    case False
    with 1(3) show ?thesis by (simp add: bisect_loop_end)
  qed
qed

definition splits_at :: "'a::linorder list \<Rightarrow> 'a \<Rightarrow> nat \<Rightarrow> nat \<Rightarrow> bool" where
  \<comment> \<open>nothing greater before \<open>lo\<close>, only greater elements from \<open>hi\<close> on\<close>
  "splits_at a x lo hi \<longleftrightarrow> (\<forall>i < lo. a ! i \<le> x) \<and> (\<forall>i. hi \<le> i \<longrightarrow> i < length a \<longrightarrow> x < a ! i)"

lemma bisect_loop_spec:
  "sorted a \<Longrightarrow> lo \<le> hi \<Longrightarrow> hi \<le> length a \<Longrightarrow> splits_at a x lo hi \<Longrightarrow>
    splits_at a x (bisect_loop a x lo hi) (bisect_loop a x lo hi)"
proof (induction a x lo hi rule: bisect_loop.induct)
  case (1 a x lo hi)
  show ?case
  proof (cases "lo < hi")
    case True
    let ?mid = "(lo + hi) div 2"
    from True have m: "lo \<le> ?mid" "?mid < hi" by auto
    show ?thesis
    proof (cases "x < a ! ?mid")
      case less: True
      have "x < a ! i" if "?mid \<le> i" "i < length a" for i
        using less sorted_nth_mono [OF 1(3) that] by simp
      with 1(6) have "splits_at a x lo ?mid" by (simp add: splits_at_def)
      with 1(1) [OF True refl less 1(3) m(1)] m 1(5) less show ?thesis
        unfolding bisect_loop_step [OF True] by simp
    next
      case ge: False
      have "a ! i \<le> x" if "i < ?mid + 1" for i
        using ge sorted_nth_mono [OF 1(3), of i ?mid] that m 1(5) by simp
      with 1(6) have "splits_at a x (?mid + 1) hi" by (simp add: splits_at_def)
      with 1(2) [OF True refl ge 1(3)] m 1(5) ge show ?thesis
        unfolding bisect_loop_step [OF True] by simp
    qed
  next
    case False
    with 1(4,6) show ?thesis by (simp add: bisect_loop_end)
  qed
qed

lemma bisect_spec:
  assumes "sorted a"
  shows "bisect a x \<le> length a" "i < bisect a x \<Longrightarrow> a ! i \<le> x"
    "bisect a x \<le> i \<Longrightarrow> i < length a \<Longrightarrow> x < a ! i"
  using bisect_loop_spec [OF assms, of 0 "length a" x] bisect_loop_bounds [of 0 "length a" a x]
  by (auto simp: bisect_def splits_at_def)

text \<open>Equal elements stay in front of the new one: the sort is stable.\<close>

lemma insort_py_stable:
  assumes "sorted a"
  shows "insort_py a x = filter (\<lambda>y. y \<le> x) a @ x # filter (\<lambda>y. x < y) a"
proof -
  let ?k = "bisect a x"
  note s = bisect_spec [OF assms]
  have "list_all (\<lambda>y. y \<le> x) (take ?k a)" "list_all (\<lambda>y. x < y) (drop ?k a)"
    using s by (auto simp: list_all_length)
  then have "filter (\<lambda>y. y \<le> x) (take ?k a) = take ?k a" "filter (\<lambda>y. y \<le> x) (drop ?k a) = []"
    "filter (\<lambda>y. x < y) (take ?k a) = []" "filter (\<lambda>y. x < y) (drop ?k a) = drop ?k a"
    by (auto simp: list_all_iff filter_id_conv filter_empty_conv)
  moreover have "filter P a = filter P (take ?k a) @ filter P (drop ?k a)" for P
    by (simp flip: filter_append)
  ultimately have "filter (\<lambda>y. y \<le> x) a = take ?k a" "filter (\<lambda>y. x < y) a = drop ?k a"
    by simp_all
  then show ?thesis
    by (simp add: insort_py_def bisect_def list_insert_def)
qed

lemma insort_py_sorted:
  assumes "sorted a"
  shows "sorted (insort_py a x)" "mset (insort_py a x) = add_mset x (mset a)"
proof -
  show "sorted (insort_py a x)"
    using assms unfolding insort_py_stable [OF assms]
    by (auto simp: sorted_append sorted_wrt_filter intro: order_trans less_imp_le)
  show "mset (insort_py a x) = add_mset x (mset a)"
    unfolding insort_py_def list_insert_def mset_append mset.simps
    by (metis append_take_drop_id mset_append union_mset_add_mset_right)
qed

subsection \<open>Events\<close>

text \<open>
  An event is a tuple compared component by component: time, priority, action, argument.
\<close>

datatype ('t, 'a, 'g) event =
  Event (ev_time: 't) (ev_priority: int) (ev_action: 'a) (ev_argument: 'g)

instantiation event :: (linorder, linorder, linorder) linorder
begin

definition less_event :: "('a, 'b, 'c) event \<Rightarrow> ('a, 'b, 'c) event \<Rightarrow> bool" where
  "less_event e f \<longleftrightarrow>
     ev_time e < ev_time f \<or> ev_time e = ev_time f \<and>
     (ev_priority e < ev_priority f \<or> ev_priority e = ev_priority f \<and>
      (ev_action e < ev_action f \<or> ev_action e = ev_action f \<and> ev_argument e < ev_argument f))"

definition less_eq_event :: "('a, 'b, 'c) event \<Rightarrow> ('a, 'b, 'c) event \<Rightarrow> bool" where
  "less_eq_event e f \<longleftrightarrow> e < f \<or> e = f"

instance
proof
  fix x y z :: "('a, 'b, 'c) event"
  show "x < y \<longleftrightarrow> x \<le> y \<and> \<not> y \<le> x"
    by (auto simp: less_event_def less_eq_event_def)
  show "x \<le> y \<Longrightarrow> y \<le> z \<Longrightarrow> x \<le> z"
    by (auto simp: less_event_def less_eq_event_def)
  show "x \<le> y \<Longrightarrow> y \<le> x \<Longrightarrow> x = y"
    by (auto simp: less_event_def less_eq_event_def)
  show "x \<le> y \<or> y \<le> x"
    by (cases x; cases y) (auto simp: less_event_def less_eq_event_def)
qed (simp add: less_eq_event_def)

end

lemma event_le_time: "e \<le> (f :: ('t::linorder, 'a::linorder, 'g::linorder) event) \<Longrightarrow> ev_time e \<le> ev_time f"
  by (auto simp: less_eq_event_def less_event_def)

subsection \<open>The scheduler\<close>

record ('t, 'a, 'g, 'w) sched_state =
  sc_queue :: "('t, 'a, 'g) event list"
  sc_world :: 'w

record ('t, 'a, 'g, 'w) sched_funs =
  timefunc :: "(('t, 'a, 'g, 'w) sched_state, 't) act"
  delayfunc :: "'t \<Rightarrow> (('t, 'a, 'g, 'w) sched_state, unit) act"
  apply_action :: "'a \<Rightarrow> 'g \<Rightarrow> (('t, 'a, 'g, 'w) sched_state, unit) act"

definition enterabs ::
  "'t \<Rightarrow> int \<Rightarrow> 'a \<Rightarrow> 'g \<Rightarrow>
     (('t::linorder, 'a::linorder, 'g::linorder, 'w) sched_state, ('t, 'a, 'g) event) act" where
  "enterabs t priority action argument =
     (let event = Event t priority action argument in
      thenA (updA (\<lambda>s. s\<lparr>sc_queue := insort_py (sc_queue s) event\<rparr>)) (retA event))"

definition enter ::
  "('t, 'a, 'g, 'w) sched_funs \<Rightarrow> 't \<Rightarrow> int \<Rightarrow> 'a \<Rightarrow> 'g \<Rightarrow>
     (('t::{linorder, plus}, 'a::linorder, 'g::linorder, 'w) sched_state, ('t, 'a, 'g) event) act" where
  "enter fs delay priority action argument =
     bindA (timefunc fs) (\<lambda>now. enterabs (now + delay) priority action argument)"

definition cancel :: "('t, 'a, 'g) event \<Rightarrow> (('t, 'a, 'g, 'w) sched_state, unit) act" where
  \<comment> \<open>\<open>list.remove\<close> raises \<open>ValueError\<close> on an absent element\<close>
  "cancel event =
     thenA (guardA (\<lambda>s. event \<in> set (sc_queue s)) (ValueError ''list.remove(x): x not in list''))
       (updA (\<lambda>s. s\<lparr>sc_queue := remove1 event (sc_queue s)\<rparr>))"

definition sched_empty :: "(('t, 'a, 'g, 'w) sched_state, bool) act" where
  "sched_empty = getA (\<lambda>s. sc_queue s = [])"

definition del_first :: "(('t, 'a, 'g, 'w) sched_state, unit) act" where
  \<comment> \<open>\<open>del q[0]\<close>\<close>
  "del_first =
     thenA (guardA (\<lambda>s. sc_queue s \<noteq> []) IndexError) (updA (\<lambda>s. s\<lparr>sc_queue := tl (sc_queue s)\<rparr>))"

text \<open>
  \<open>run\<close> loops until the queue is empty, which the actions and the delay function may prevent;
  \<open>None\<close> is running out of fuel.
\<close>

primrec sched_run ::
  "nat \<Rightarrow> ('t, 'a, 'g, 'w) sched_funs \<Rightarrow> ('t::{linorder, minus, zero}, 'a, 'g, 'w) sched_state \<Rightarrow>
     (unit res \<times> ('t, 'a, 'g, 'w) sched_state) option" where
  "sched_run 0 fs s = None"
| "sched_run (Suc fuel) fs s =
     (case sc_queue s of
        [] \<Rightarrow> Some (Inr (), s)
      | event # _ \<Rightarrow>
          (case bindA (timefunc fs) (\<lambda>now.
               if now < ev_time event then delayfunc fs (ev_time event - now)
               else
                 thenA del_first
                   (thenA (apply_action fs (ev_action event) (ev_argument event)) (delayfunc fs 0))) s of
             (Inl e, s) \<Rightarrow> Some (Inl e, s)
           | (Inr _, s) \<Rightarrow> sched_run fuel fs s))"

definition sched_ok :: "('t::linorder, 'a::linorder, 'g::linorder, 'w) sched_state \<Rightarrow> bool" where
  "sched_ok s \<longleftrightarrow> sorted (sc_queue s)"

lemma bindA_state:
  assumes "\<And>s. P s \<Longrightarrow> P (snd (m s))" "\<And>x s. P s \<Longrightarrow> P (snd (f x s))" "P s"
  shows "P (snd (bindA m f s))"
proof -
  obtain r t where m: "m s = (r, t)" by fastforce
  then have "P t" using assms(1) [OF assms(3)] by simp
  then show ?thesis using assms(2) by (cases r) (simp_all add: bindA_def m)
qed

lemma thenA_state:
  assumes "\<And>s. P s \<Longrightarrow> P (snd (m s))" "\<And>s. P s \<Longrightarrow> P (snd (k s))" "P s"
  shows "P (snd (thenA m k s))"
  unfolding thenA_def using assms(1,2,3) by (rule bindA_state [where P = P])

lemma enterabs_ok:
  assumes "sched_ok s"
  shows "fst (enterabs t p a g s) = Inr (Event t p a g) \<and> sched_ok (snd (enterabs t p a g s)) \<and>
    mset (sc_queue (snd (enterabs t p a g s))) = add_mset (Event t p a g) (mset (sc_queue s))"
  using insort_py_sorted [of "sc_queue s" "Event t p a g"] assms
  by (simp add: enterabs_def sched_ok_def Let_def)

lemma cancel_ok: "sched_ok s \<Longrightarrow> sched_ok (snd (cancel e s))"
  by (auto simp: cancel_def sched_ok_def sorted_remove1 thenA_def bindA_def)

lemma cancel_enterabs:
  assumes "sched_ok s" "Event t p a g \<notin> set (sc_queue s)"
  shows "bindA (enterabs t p a g) cancel s = (Inr (), s)"
proof -
  let ?e = "Event t p a g" and ?q = "sc_queue s"
  have s: "sorted ?q" using assms(1) by (simp add: sched_ok_def)
  have "sorted (remove1 ?e (insort_py ?q ?e))" "mset (remove1 ?e (insort_py ?q ?e)) = mset ?q"
    using insort_py_sorted [OF s, of ?e] by (simp_all add: sorted_remove1)
  then have "remove1 ?e (insort_py ?q ?e) = ?q"
    using s by (metis properties_for_sort)
  moreover have "?e \<in> set (insort_py ?q ?e)"
    using insort_py_sorted(2) [OF s, of ?e] by (metis set_mset_mset union_single_eq_member)
  ultimately show ?thesis
    by (simp add: enterabs_def cancel_def Let_def)
qed

text \<open>The queue stays sorted as long as the functions the scheduler calls keep it so.\<close>

lemma sched_run_ok:
  assumes "\<And>s. sched_ok s \<Longrightarrow> sched_ok (snd (timefunc fs s))"
    and "\<And>d s. sched_ok s \<Longrightarrow> sched_ok (snd (delayfunc fs d s))"
    and "\<And>a g s. sched_ok s \<Longrightarrow> sched_ok (snd (apply_action fs a g s))"
  shows "sched_run fuel fs s = Some (r, s') \<Longrightarrow> sched_ok s \<Longrightarrow> sched_ok s'"
proof (induction fuel arbitrary: s)
  case 0
  then show ?case by simp
next
  case (Suc fuel)
  show ?case
  proof (cases "sc_queue s")
    case Nil
    with Suc.prems show ?thesis by auto
  next
    case (Cons event rest)
    let ?late = "thenA del_first (thenA (apply_action fs (ev_action event) (ev_argument event)) (delayfunc fs 0))"
    have del: "sched_ok (snd (del_first u))" if "sched_ok u" for u :: "('a, 'b, 'c, 'd) sched_state"
      using that by (cases "sc_queue u") (auto simp: sched_ok_def del_first_def thenA_def bindA_def)
    have late: "sched_ok (snd (?late u))" if "sched_ok u" for u
      using that by (intro bindA_state [where P = sched_ok] thenA_state [where P = sched_ok] del assms)
    have ok: "sched_ok (snd (bindA (timefunc fs) (\<lambda>now.
        if now < ev_time event then delayfunc fs (ev_time event - now) else ?late) s))"
      using late assms(2) Suc.prems(2) by (intro bindA_state [where P = sched_ok] assms(1)) auto
    show ?thesis
      using Suc.prems(1) Suc.IH ok Cons
      by (auto split: prod.splits sum.splits)
  qed
qed

text \<open>
  With a clock that the delay function alone moves, and exactly by the delay, and actions that
  leave the clock and the queue alone: every event runs, in the order of the queue, none before its
  time, and the scheduler stops at the latest of them.  Each event takes at most two rounds.
\<close>

lemma sched_run_simulated:
  fixes fs :: "('t::linordered_ab_group_add, 'a, 'g, 'w) sched_funs"
    and clock :: "'w \<Rightarrow> 't" and tick :: "'t \<Rightarrow> 'w \<Rightarrow> 'w" and act :: "'a \<Rightarrow> 'g \<Rightarrow> 'w \<Rightarrow> 'w"
  assumes time: "\<And>s. timefunc fs s = (Inr (clock (sc_world s)), s)"
    and delay: "\<And>d s. delayfunc fs d s = (Inr (), s\<lparr>sc_world := tick d (sc_world s)\<rparr>)"
    and action: "\<And>a g s. apply_action fs a g s = (Inr (), s\<lparr>sc_world := act a g (sc_world s)\<rparr>)"
    and tick: "\<And>d w. clock (tick d w) = clock w + d" "\<And>w. tick 0 w = w"
    and act: "\<And>a g w. clock (act a g w) = clock w"
  shows "2 * length q < fuel \<Longrightarrow>
    sched_run fuel fs \<lparr>sc_queue = q, sc_world = w\<rparr> =
      Some (Inr (), \<lparr>sc_queue = [],
        sc_world = foldl (\<lambda>w e. act (ev_action e) (ev_argument e)
          (if clock w < ev_time e then tick (ev_time e - clock w) w else w)) w q\<rparr>)"
proof (induction q arbitrary: w fuel)
  case Nil
  then show ?case by (cases fuel) auto
next
  case (Cons e q)
  then obtain k where k: "fuel = Suc (Suc k)" "2 * length q < k"
    by (cases fuel; cases "fuel - 1") auto
  have due: "sched_run (Suc n) fs \<lparr>sc_queue = e # q, sc_world = u\<rparr> =
      sched_run n fs \<lparr>sc_queue = q, sc_world = act (ev_action e) (ev_argument e) u\<rparr>"
    if "\<not> clock u < ev_time e" for n u
    using that by (simp add: time delay action tick del_first_def)
  show ?case
  proof (cases "clock w < ev_time e")
    case True
    let ?u = "tick (ev_time e - clock w) w"
    have "sched_run (Suc (Suc k)) fs \<lparr>sc_queue = e # q, sc_world = w\<rparr> =
        sched_run (Suc k) fs \<lparr>sc_queue = e # q, sc_world = ?u\<rparr>"
      using True by (subst sched_run.simps) (simp add: time delay)
    also have "\<dots> = sched_run k fs \<lparr>sc_queue = q, sc_world = act (ev_action e) (ev_argument e) ?u\<rparr>"
      by (rule due) (simp add: tick)
    finally show ?thesis using Cons.IH [OF k(2)] True k(1) by simp
  next
    case False
    then show ?thesis using due [OF False, of "Suc k"] Cons.IH [of "Suc k"] k by simp
  qed
qed

subsection \<open>The mutex\<close>

text \<open>
  The object's own two attributes, and the world its functions act on; a function is called with
  the whole state, so it may lock and unlock the mutex again.
\<close>

record ('f, 'x) mutex =
  locked :: bool
  waiting :: "('f \<times> 'x) list"

definition mutex_init :: "('f, 'x) mutex" where
  "mutex_init = \<lparr>locked = False, waiting = []\<rparr>"

definition mutex_test :: "(('f, 'x) mutex \<times> 'w, bool) act" where
  "mutex_test = getA (\<lambda>(m, w). locked m)"

definition testandset :: "(('f, 'x) mutex \<times> 'w, bool) act" where
  "testandset =
     bindA (getA (\<lambda>(m, w). locked m)) (\<lambda>b.
       if \<not> b then thenA (updA (\<lambda>(m, w). (m\<lparr>locked := True\<rparr>, w))) (retA True) else retA False)"

definition mutex_lock ::
  "('f \<Rightarrow> 'x \<Rightarrow> (('f, 'x) mutex \<times> 'w, unit) act) \<Rightarrow> 'f \<Rightarrow> 'x \<Rightarrow> (('f, 'x) mutex \<times> 'w, unit) act" where
  "mutex_lock call function argument =
     bindA testandset (\<lambda>b.
       if b then call function argument
       else updA (\<lambda>(m, w). (m\<lparr>waiting := waiting m @ [(function, argument)]\<rparr>, w)))"

definition mutex_unlock ::
  "('f \<Rightarrow> 'x \<Rightarrow> (('f, 'x) mutex \<times> 'w, unit) act) \<Rightarrow> (('f, 'x) mutex \<times> 'w, unit) act" where
  "mutex_unlock call =
     bindA (getA (\<lambda>(m, w). waiting m)) (\<lambda>q.
       case q of
         (function, argument) # rest \<Rightarrow>
           thenA (updA (\<lambda>(m, w). (m\<lparr>waiting := rest\<rparr>, w))) (call function argument)
       | [] \<Rightarrow> updA (\<lambda>(m, w). (m\<lparr>locked := False\<rparr>, w)))"

text \<open>``When the mutex is not locked, the queue is empty.''\<close>

definition mutex_ok :: "('f, 'x) mutex \<times> 'w \<Rightarrow> bool" where
  "mutex_ok s \<longleftrightarrow> locked (fst s) \<or> waiting (fst s) = []"

lemma testandset_eq:
  "testandset (m, w) = (if locked m then (Inr False, (m, w)) else (Inr True, (m\<lparr>locked := True\<rparr>, w)))"
  by (simp add: testandset_def bindA_def)

lemma mutex_lock_eq:
  "mutex_lock call f x (m, w) =
    (if locked m then (Inr (), (m\<lparr>waiting := waiting m @ [(f, x)]\<rparr>, w))
     else call f x (m\<lparr>locked := True\<rparr>, w))"
  by (simp add: mutex_lock_def testandset_eq bindA_def)

lemma mutex_lock_ok:
  assumes "\<And>f x s. mutex_ok s \<Longrightarrow> mutex_ok (snd (call f x s))" "mutex_ok s"
  shows "mutex_ok (snd (mutex_lock call f x s))"
proof (cases "locked (fst s)")
  case True
  with assms(2) show ?thesis
    by (cases s) (simp add: mutex_lock_eq mutex_ok_def)
next
  case False
  with assms(2) have "mutex_ok (fst s\<lparr>locked := True\<rparr>, snd s)" by (simp add: mutex_ok_def)
  from assms(1) [OF this] False show ?thesis
    by (cases s) (simp add: mutex_lock_eq)
qed

lemma mutex_unlock_ok:
  assumes "\<And>f x s. mutex_ok s \<Longrightarrow> mutex_ok (snd (call f x s))" "mutex_ok s"
  shows "mutex_ok (snd (mutex_unlock call s))"
proof (cases "waiting (fst s)")
  case Nil
  then show ?thesis by (cases s) (simp add: mutex_unlock_def mutex_ok_def)
next
  case (Cons p rest)
  obtain f x where p: "p = (f, x)" by (cases p)
  from Cons assms(2) have "mutex_ok (fst s\<lparr>waiting := rest\<rparr>, snd s)"
    by (auto simp: mutex_ok_def)
  from assms(1) [OF this] Cons p show ?thesis
    by (cases s) (simp add: mutex_unlock_def)
qed

text \<open>
  The functions get the lock in the order they asked for it.  A client that only records its calls:
  after any sequence of \<open>lock\<close> and \<open>unlock\<close>, the calls made, followed by the queue, are the
  requests; and an unlocked mutex has made every call.
\<close>

datatype ('f, 'x) mutex_op = Lock 'f 'x | Unlock

definition record_call :: "'f \<Rightarrow> 'x \<Rightarrow> (('f, 'x) mutex \<times> ('f \<times> 'x) list, unit) act" where
  "record_call f x = updA (\<lambda>(m, calls). (m, calls @ [(f, x)]))"

primrec mutex_do :: "('f, 'x) mutex_op \<Rightarrow> (('f, 'x) mutex \<times> ('f \<times> 'x) list, unit) act" where
  "mutex_do (Lock f x) = mutex_lock record_call f x"
| "mutex_do Unlock = mutex_unlock record_call"

primrec requests :: "('f, 'x) mutex_op list \<Rightarrow> ('f \<times> 'x) list" where
  "requests [] = []"
| "requests (p # ps) = (case p of Lock f x \<Rightarrow> [(f, x)] | Unlock \<Rightarrow> []) @ requests ps"

lemma mutex_do_order:
  assumes "mutex_ok s" "mutex_do p s = (r, t)"
  shows "r = Inr () \<and> mutex_ok t \<and>
    snd t @ waiting (fst t) = snd s @ waiting (fst s) @ requests [p]"
  using assms
  by (cases p; cases s; cases "locked (fst s)"; cases "waiting (fst s)")
    (auto simp: mutex_lock_eq mutex_unlock_def record_call_def mutex_ok_def)

lemma mutex_fifo_from:
  "mutex_ok s \<Longrightarrow> \<exists>t. forA mutex_do ps s = (Inr (), t) \<and> mutex_ok t \<and>
    snd t @ waiting (fst t) = snd s @ waiting (fst s) @ requests ps"
proof (induction ps arbitrary: s)
  case Nil
  then show ?case by simp
next
  case (Cons p ps)
  obtain r u where u: "mutex_do p s = (r, u)" by (cases "mutex_do p s")
  from mutex_do_order [OF Cons.prems u] have "r = Inr ()" "mutex_ok u"
    "snd u @ waiting (fst u) = snd s @ waiting (fst s) @ requests [p]" by auto
  with Cons.IH [of u] u show ?case
    by (auto split: mutex_op.splits)
qed

lemma mutex_fifo:
  obtains m calls where "forA mutex_do ps (mutex_init, []) = (Inr (), (m, calls))"
    "calls @ waiting m = requests ps" "locked m \<or> calls = requests ps"
  using mutex_fifo_from [of "(mutex_init, [])" ps]
  by (auto simp: mutex_ok_def mutex_init_def)

end
