(* ===== verification/Pickle_Laws.thy ===== *)
theory Pickle_Laws
  imports Pickle
begin

section \<open>What is pickled is unpickled\<close>

text \<open>
  The text that \<open>save\<close> writes for an object is code for the stack machine of the unpickler: run
  with any stack, it pushes an object that is the same as the saved one, in the sense of a
  relation between the addresses of the two heaps that grows with every object and relates
  components to components.  The relation keeps identity: a string, a tuple, a list or a
  dictionary has one counterpart, and no two objects have the same.
\<close>

subsection \<open>Heaps that can be pickled\<close>

definition shared :: "('x, 'r) pyobj \<Rightarrow> bool" where
  \<comment> \<open>what the memo remembers\<close>
  "shared ob = (case ob of PStr s \<Rightarrow> True | PTuple xs \<Rightarrow> True | PList xs \<Rightarrow> True | PDict items \<Rightarrow> True | _ \<Rightarrow> False)"

fun item_groups :: "('x, 'r) pyobj \<Rightarrow> 'r list list" where
  "item_groups (PTuple xs) = map (\<lambda>x. [x]) xs"
| "item_groups (PList xs) = map (\<lambda>x. [x]) xs"
| "item_groups (PDict items) = map (\<lambda>(k, v). [k, v]) items"
| "item_groups _ = []"

text \<open>
  \<open>r\<close> is a rank that never grows from an object to its components and gets smaller unless the two
  are containers: cycles run through lists and dictionaries only.  Plain integers fit into a C \<open>long\<close>, the keys of a dictionary hash
  within the depth \<open>n\<close> and differ; the floats survive their text.
\<close>

definition node_ok :: "nat \<Rightarrow> 'x pickle_env \<Rightarrow> 'x heap \<Rightarrow> (nat \<Rightarrow> nat) \<Rightarrow> nat \<Rightarrow> bool" where
  "node_ok n E h r a \<longleftrightarrow>
     pe_persistent_id E a \<in> {None, Some []} \<and>
     list_all (\<lambda>c. c < length h \<and> r c \<le> r a \<and> (if container (h ! a) \<and> container (h ! c) then True else r c < r a))
       (concat (item_groups (h ! a))) \<and>
     (case h ! a of
        PInt i \<Rightarrow> - lit_maxint (pe_lits E) - 1 \<le> i \<and> i \<le> lit_maxint (pe_lits E)
      | PFloat x \<Rightarrow> lit_atof (pe_lits E) (lit_float_repr (pe_lits E) x) = Inr x \<and>
          NL \<notin> set (lit_float_repr (pe_lits E) x)
      | PDict items \<Rightarrow> distinct (map (\<lambda>(k, v). key_of n (pe_lits E) h k) items) \<and>
          list_all (\<lambda>(k, v). \<not> isl (key_of n (pe_lits E) h k)) items
      | PInst cls attrs \<Rightarrow> False
      | PClass name \<Rightarrow> False
      | POther tname \<Rightarrow> False
      | _ \<Rightarrow> True)"

definition picklable :: "nat \<Rightarrow> 'x pickle_env \<Rightarrow> 'x heap \<Rightarrow> (nat \<Rightarrow> nat) \<Rightarrow> bool" where
  "picklable n E h r \<longleftrightarrow> list_all (node_ok n E h r) [0..<length h]"

lemma picklable_node: "picklable n E h r \<Longrightarrow> a < length h \<Longrightarrow> node_ok n E h r a"
  by (simp add: picklable_def list_all_iff)

subsection \<open>Running the unpickler\<close>

inductive up_runs :: "nat \<Rightarrow> 'x unpickle_env \<Rightarrow> 'x unpickler \<Rightarrow> 'x unpickler \<Rightarrow> bool" for n U where
  up_refl: "up_runs n U u u"
| up_step: "load_step n U u = (Inr None, v) \<Longrightarrow> up_runs n U v w \<Longrightarrow> up_runs n U u w"

lemma up_trans: "up_runs n U u v \<Longrightarrow> up_runs n U v w \<Longrightarrow> up_runs n U u w"
proof (induction rule: up_runs.induct)
  case (up_step u v w')
  then show ?case by (blast intro: up_runs.up_step)
qed

lemma up_one: "load_step n U u = (Inr None, v) \<Longrightarrow> up_runs n U u v"
  by (blast intro: up_runs.intros)

abbreviation conf :: "nat \<Rightarrow> nat list \<Rightarrow> (string \<Rightarrow> nat option) \<Rightarrow> 'x heap \<Rightarrow> string \<Rightarrow> 'x unpickler" where
  "conf mk st m h inp \<equiv> \<lparr>up_stack = st, up_mark = mk, up_memo = m, up_heap = h, up_in = inp\<rparr>"

lemmas up_defs = load_step_def dispatch_def up_read1_def go_on_def bindA_def thenA_def up_push_def
  up_new_def up_line_def up_top_def up_drop_def up_pop_def Let_def

lemma up_line_read:
  "NL \<notin> set l \<Longrightarrow> up_line (conf mk st m h (l @ NL # t)) = (Inr l, conf mk st m h t)"
  by (simp add: up_line_def first_line_append)

lemma run_none: "up_runs n U (conf mk st m h (''N'' @ t)) (conf mk (st @ [length h]) m (h @ [PNone]) t)"
  by (rule up_one) (simp add: up_defs load_none_def)

lemma run_mark: "up_runs n U (conf mk st m h (''('' @ t)) (conf mk (st @ [mk]) m h t)"
  by (rule up_one) (simp add: up_defs)

lemma run_int:
  assumes "literal_laws (ue_lits U)" "- lit_maxint (ue_lits U) - 1 \<le> i" "i \<le> lit_maxint (ue_lits U)"
  shows "up_runs n U (conf mk st m h (''I'' @ int_repr i @ [NL] @ t)) (conf mk (st @ [length h]) m (h @ [PInt i]) t)"
  using literal_laws.atoi_repr [OF assms]
  by (intro up_one) (simp add: load_step_def dispatch_def up_read1_def go_on_def load_int_def up_new_def up_push_def
    bindA_def thenA_def up_line_read int_repr_line)

lemma run_long:
  assumes "literal_laws (ue_lits U)"
  shows "up_runs n U (conf mk st m h (''L'' @ (int_repr i @ ''L'') @ [NL] @ t)) (conf mk (st @ [length h]) m (h @ [PLong i]) t)"
proof -
  have "NL \<notin> set (int_repr i @ ''L'')" using int_repr_line by auto
  from up_line_read [OF this, where mk = mk and st = st and m = m and h = h and t = t] show ?thesis
    using literal_laws.atol_repr [OF assms, of i]
    by (intro up_one) (simp add: load_step_def dispatch_def up_read1_def go_on_def load_long_def up_new_def up_push_def
      bindA_def thenA_def)
qed

lemma run_float:
  assumes "lit_atof (ue_lits U) l = Inr x" "NL \<notin> set l"
  shows "up_runs n U (conf mk st m h (''F'' @ l @ [NL] @ t)) (conf mk (st @ [length h]) m (h @ [PFloat x]) t)"
  using assms
  by (intro up_one) (simp add: load_step_def dispatch_def up_read1_def go_on_def load_float_def up_new_def up_push_def
    bindA_def thenA_def up_line_read)

lemma run_string:
  assumes "literal_laws (ue_lits U)"
  shows "up_runs n U (conf mk st m h (''S'' @ string_repr s @ [NL] @ t)) (conf mk (st @ [length h]) m (h @ [PStr s]) t)"
  using literal_laws.eval_repr [OF assms, of s]
  by (intro up_one) (simp add: load_step_def dispatch_def up_read1_def go_on_def load_string_def up_new_def up_push_def
    bindA_def thenA_def up_line_read string_repr_line)

abbreviation idt :: "nat \<Rightarrow> string" where
  "idt a \<equiv> int_repr (int a)"

lemma run_put:
  "up_runs n U (conf mk (st @ [b]) m h (PUT_code a @ t)) (conf mk (st @ [b]) (m(idt a \<mapsto> b)) h t)"
  by (rule up_one) (simp add: load_step_def dispatch_def up_read1_def go_on_def load_put_def up_top_def PUT_code_def
    bindA_def thenA_def up_line_read int_repr_line)

lemma run_get:
  "m (idt a) = Some b \<Longrightarrow> up_runs n U (conf mk st m h (GET_code a @ t)) (conf mk (st @ [b]) m h t)"
  by (rule up_one) (simp add: load_step_def dispatch_def up_read1_def go_on_def load_get_def up_push_def GET_code_def
    bindA_def thenA_def up_line_read int_repr_line)

lemma above_mark:
  assumes "mk \<notin> set bs"
  shows "up_above_mark (conf mk (st @ mk # bs) m h t) = (Inr bs, conf mk st m h t)"
proof -
  have "takeWhile (\<lambda>a. a \<noteq> mk) (rev (st @ mk # bs)) = rev bs"
    using assms by (simp, subst takeWhile_append2) auto
  then show ?thesis by (simp add: up_above_mark_def up_marker_def bindA_def)
qed

lemma run_tuple:
  "mk \<notin> set bs \<Longrightarrow>
    up_runs n U (conf mk (st @ mk # bs) m h (''t'' @ t)) (conf mk (st @ [length h]) m (h @ [PTuple bs]) t)"
  by (rule up_one) (simp add: load_step_def dispatch_def up_read1_def go_on_def load_tuple_def up_new_def up_push_def
    bindA_def thenA_def above_mark)

lemma run_list:
  "mk \<notin> set bs \<Longrightarrow>
    up_runs n U (conf mk (st @ mk # bs) m h (''l'' @ t)) (conf mk (st @ [length h]) m (h @ [PList bs]) t)"
  by (rule up_one) (simp add: load_step_def dispatch_def up_read1_def go_on_def load_list_def up_new_def up_push_def
    bindA_def thenA_def above_mark)

lemma run_dict:
  "mk \<notin> set bs \<Longrightarrow> dict_of_items n (ue_lits U) h [] bs = Inr d \<Longrightarrow>
    up_runs n U (conf mk (st @ mk # bs) m h (''d'' @ t)) (conf mk (st @ [length h]) m (h @ [PDict d]) t)"
  by (rule up_one) (simp add: load_step_def dispatch_def up_read1_def go_on_def load_dict_def up_new_def up_push_def
    bindA_def thenA_def above_mark)

lemma run_append:
  "h ! b = PList xs \<Longrightarrow>
    up_runs n U (conf mk (st @ [b] @ [c]) m h (''a'' @ t)) (conf mk (st @ [b]) m (h[b := PList (xs @ [c])]) t)"
  by (rule up_one) (simp add: up_defs load_append_def up_set_def butlast_append)

lemma run_setitem:
  "h ! b = PDict d \<Longrightarrow> dict_update n (ue_lits U) h d k v = Inr d' \<Longrightarrow>
    up_runs n U (conf mk (st @ [b] @ [k, v]) m h (''s'' @ t)) (conf mk (st @ [b]) m (h[b := PDict d']) t)"
  by (rule up_one) (simp add: up_defs load_setitem_def set_item_def up_heap_act_def heap_setitem_def butlast_append)

subsection \<open>Related heaps\<close>

text \<open>
  \<open>R\<close> relates addresses of the saved heap \<open>hs\<close> to addresses of the loaded heap \<open>ht\<close>; \<open>M\<close> is what
  the two memos know.  The containers in \<open>P\<close> are still being filled.
\<close>

definition graph_inv ::
  "nat \<Rightarrow> 'x heap \<Rightarrow> (nat \<Rightarrow> nat \<Rightarrow> bool) \<Rightarrow> nat set \<Rightarrow> nat set \<Rightarrow> (string \<Rightarrow> nat option) \<Rightarrow> 'x heap \<Rightarrow> bool" where
  "graph_inv mk hs R P M m ht \<longleftrightarrow>
     mk < length ht \<and> P \<subseteq> M \<and> (\<forall>a \<in> P. container (hs ! a)) \<and>
     (\<forall>a \<in> M. shared (hs ! a) \<and> (\<exists>b. R a b \<and> m (idt a) = Some b)) \<and>
     (\<forall>a b. R a b \<longrightarrow> a < length hs \<and> b < length ht \<and> b \<noteq> mk \<and>
        (shared (hs ! a) \<longrightarrow> a \<in> M \<and> m (idt a) = Some b) \<and> (a \<notin> P \<longrightarrow> rel_pyobj (=) R (hs ! a) (ht ! b))) \<and>
     (\<forall>a a' b. R a b \<longrightarrow> R a' b \<longrightarrow> a = a')"

definition link :: "(nat \<Rightarrow> nat \<Rightarrow> bool) \<Rightarrow> nat \<Rightarrow> nat \<Rightarrow> nat \<Rightarrow> nat \<Rightarrow> bool" where
  "link R x y = (\<lambda>a b. R a b \<or> (a = x \<and> b = y))"

lemma link_le: "R \<le> link R x y" and link_new: "link R x y x y"
  by (auto simp: link_def)

lemma rel_more: "rel_pyobj (=) R u v \<Longrightarrow> R \<le> R' \<Longrightarrow> rel_pyobj (=) R' u v"
  using pyobj.rel_mono [of "(=)" "(=)" R R'] by blast

lemma list_more: "list_all2 R xs ys \<Longrightarrow> R \<le> R' \<Longrightarrow> list_all2 R' xs ys"
  by (erule list_all2_mono) auto

lemma rel_link: "rel_pyobj (=) R u v \<Longrightarrow> rel_pyobj (=) (link R x y) u v"
  by (rule rel_more [OF _ link_le])

lemma container_shared: "container ob \<Longrightarrow> shared ob"
  by (cases ob) (simp_all add: container_def shared_def)

lemma inv_bounds:
  assumes "graph_inv mk hs R P M m ht" "R a b"
  shows "a < length hs" "b < length ht" "b \<noteq> mk"
  using assms by (auto simp: graph_inv_def)

lemma inv_shared:
  assumes "graph_inv mk hs R P M m ht" "R a b" "shared (hs ! a)"
  shows "a \<in> M" "m (idt a) = Some b"
  using assms by (auto simp: graph_inv_def)

lemma inv_node: "graph_inv mk hs R P M m ht \<Longrightarrow> R a b \<Longrightarrow> a \<notin> P \<Longrightarrow> rel_pyobj (=) R (hs ! a) (ht ! b)"
  by (auto simp: graph_inv_def)

lemma inv_inj: "graph_inv mk hs R P M m ht \<Longrightarrow> R a b \<Longrightarrow> R a' b \<Longrightarrow> a = a'"
  by (auto simp: graph_inv_def)

lemma inv_memo: "graph_inv mk hs R P M m ht \<Longrightarrow> a \<in> M \<Longrightarrow> \<exists>b. R a b \<and> m (idt a) = Some b"
  by (auto simp: graph_inv_def)

lemma idt_inject: "idt a = idt b \<longleftrightarrow> a = b"
  by (metis atoi_int_repr nat_int sum.inject(2))

lemma inv_new:
  assumes inv: "graph_inv mk hs R P M m ht" and x: "x < length hs" "\<not> shared (hs ! x)"
    and rel: "rel_pyobj (=) R (hs ! x) ob"
  shows "graph_inv mk hs (link R x (length ht)) P M m (ht @ [ob])"
proof -
  let ?R = "link R x (length ht)"
  have fresh: "\<not> R a (length ht)" for a using inv_bounds(2) [OF inv, of a "length ht"] by auto
  have "a < length hs \<and> b < length (ht @ [ob]) \<and> b \<noteq> mk \<and> (shared (hs ! a) \<longrightarrow> a \<in> M \<and> m (idt a) = Some b) \<and>
      (a \<notin> P \<longrightarrow> rel_pyobj (=) ?R (hs ! a) ((ht @ [ob]) ! b))" if "?R a b" for a b
  proof (cases "R a b")
    case True
    with inv_bounds [OF inv True] inv_shared [OF inv True] inv_node [OF inv True] show ?thesis
      by (auto simp: nth_append intro: rel_link)
  next
    case False
    with that have "a = x" "b = length ht" by (simp_all add: link_def)
    with x rel inv show ?thesis by (auto simp: graph_inv_def intro: rel_link)
  qed
  moreover have "a = a'" if "?R a b" "?R a' b" for a a' b
    using that inv_inj [OF inv] fresh by (auto simp: link_def)
  moreover have "\<forall>a \<in> M. shared (hs ! a) \<and> (\<exists>b. ?R a b \<and> m (idt a) = Some b)"
    using inv by (auto simp: graph_inv_def link_def)
  moreover have "mk < length (ht @ [ob])" "P \<subseteq> M" "\<forall>a \<in> P. container (hs ! a)"
    using inv by (auto simp: graph_inv_def)
  ultimately show ?thesis unfolding graph_inv_def by blast
qed

lemma inv_new_shared:
  assumes inv: "graph_inv mk hs R P M m ht" and x: "x < length hs" "shared (hs ! x)" "x \<notin> M"
    and rel: "rel_pyobj (=) R (hs ! x) ob \<and> Q = P \<or> container (hs ! x) \<and> Q = insert x P"
  shows "graph_inv mk hs (link R x (length ht)) Q (insert x M) (m(idt x \<mapsto> length ht)) (ht @ [ob])"
proof -
  let ?R = "link R x (length ht)"
  have fresh: "\<not> R a (length ht)" for a using inv_bounds(2) [OF inv, of a "length ht"] by auto
  have nx: "a \<noteq> x" if "R a b" "shared (hs ! a)" for a b using inv_shared(1) [OF inv that] x(3) by auto
  have nx': "\<not> R x b" for b using nx [of x b] x(2) by auto
  have xP: "x \<notin> P" using inv x(3) by (auto simp: graph_inv_def)
  have "a < length hs \<and> b < length (ht @ [ob]) \<and> b \<noteq> mk \<and>
      (shared (hs ! a) \<longrightarrow> a \<in> insert x M \<and> (m(idt x \<mapsto> length ht)) (idt a) = Some b) \<and>
      (a \<notin> Q \<longrightarrow> rel_pyobj (=) ?R (hs ! a) ((ht @ [ob]) ! b))" if "?R a b" for a b
  proof (cases "R a b")
    case True
    then have "a \<noteq> x" using nx' by metis
    with True inv_bounds [OF inv True] inv_shared [OF inv True] inv_node [OF inv True] rel
    show ?thesis by (auto simp: nth_append idt_inject intro: rel_link)
  next
    case False
    with that have "a = x" "b = length ht" by (simp_all add: link_def)
    with x rel inv show ?thesis by (auto simp: graph_inv_def intro: rel_link)
  qed
  moreover have "a = a'" if "?R a b" "?R a' b" for a a' b
    using that inv_inj [OF inv] fresh by (auto simp: link_def)
  moreover have "\<forall>a \<in> insert x M. shared (hs ! a) \<and> (\<exists>b. ?R a b \<and> (m(idt x \<mapsto> length ht)) (idt a) = Some b)"
  proof
    fix a assume "a \<in> insert x M"
    with inv x show "shared (hs ! a) \<and> (\<exists>b. ?R a b \<and> (m(idt x \<mapsto> length ht)) (idt a) = Some b)"
      by (cases "a = x") (auto simp: link_def idt_inject graph_inv_def)
  qed
  moreover have "mk < length (ht @ [ob])" "Q \<subseteq> insert x M" "\<forall>a \<in> Q. container (hs ! a)"
    using inv rel by (auto simp: graph_inv_def)
  ultimately show ?thesis unfolding graph_inv_def by blast
qed

lemma inv_update:
  assumes inv: "graph_inv mk hs R P M m ht" and a: "a \<in> P" "R a b"
  shows "graph_inv mk hs R P M m (ht[b := ob])"
proof -
  have "b' \<noteq> b" if "R a' b'" "a' \<notin> P" for a' b' using inv_inj [OF inv that(1)] a that(2) by metis
  then have "a' \<notin> P \<longrightarrow> rel_pyobj (=) R (hs ! a') (ht[b := ob] ! b')" if "R a' b'" for a' b'
    using inv_node [OF inv that] that by (metis nth_list_update_neq)
  then show ?thesis using inv unfolding graph_inv_def by simp
qed

lemma inv_finish:
  assumes inv: "graph_inv mk hs R (insert x P) M m ht" and x: "R x b" "rel_pyobj (=) R (hs ! x) (ht ! b)"
  shows "graph_inv mk hs R P M m ht"
proof -
  have c: "container (hs ! x)" using inv by (simp add: graph_inv_def)
  have "b' = b" if "R x b'" for b'
    using inv_shared(2) [OF inv that container_shared [OF c]] inv_shared(2) [OF inv x(1) container_shared [OF c]] by simp
  then have "a \<notin> P \<longrightarrow> rel_pyobj (=) R (hs ! a) (ht ! b')" if "R a b'" for a b'
    using inv_node [OF inv that] x(2) that by (cases "a = x") auto
  then show ?thesis using inv unfolding graph_inv_def by auto
qed

subsection \<open>Code that pushes the counterparts of objects\<close>

definition sim ::
  "nat \<Rightarrow> 'x unpickle_env \<Rightarrow> 'x heap \<Rightarrow> nat list \<Rightarrow> nat set \<Rightarrow> string \<Rightarrow> nat set \<Rightarrow> bool" where
  "sim n U hs xs M w M' \<longleftrightarrow> (\<forall>mk R P st m ht t. graph_inv mk hs R P M m ht \<longrightarrow>
     (\<exists>R' m' e bs. up_runs n U (conf mk st m ht (w @ t)) (conf mk (st @ bs) m' (ht @ e) t) \<and>
        R \<le> R' \<and> list_all2 R' xs bs \<and> graph_inv mk hs R' P M' m' (ht @ e)))"

lemma simI:
  assumes "\<And>mk R P st m ht t. graph_inv mk hs R P M m ht \<Longrightarrow>
     \<exists>R' m' e bs. up_runs n U (conf mk st m ht (w @ t)) (conf mk (st @ bs) m' (ht @ e) t) \<and>
        R \<le> R' \<and> list_all2 R' xs bs \<and> graph_inv mk hs R' P M' m' (ht @ e)"
  shows "sim n U hs xs M w M'"
  using assms unfolding sim_def by blast

lemma simE:
  assumes "sim n U hs xs M w M'" "graph_inv mk hs R P M m ht"
  obtains R' m' e bs where "up_runs n U (conf mk st m ht (w @ t)) (conf mk (st @ bs) m' (ht @ e) t)"
    "R \<le> R'" "list_all2 R' xs bs" "graph_inv mk hs R' P M' m' (ht @ e)"
  using assms unfolding sim_def by blast

lemma sim_Nil: "sim n U hs [] M [] M"
proof (rule simI)
  fix mk R P st m ht t
  assume "graph_inv mk hs R P M m ht"
  then show "\<exists>R' m' e bs. up_runs n U (conf mk st m ht ([] @ t)) (conf mk (st @ bs) m' (ht @ e) t) \<and>
      R \<le> R' \<and> list_all2 R' [] bs \<and> graph_inv mk hs R' P M m' (ht @ e)"
    by (intro exI [of _ R] exI [of _ m] exI [of _ "[]"]) (simp add: up_refl)
qed

lemma sim_append:
  assumes "sim n U hs xs M w M'" "sim n U hs ys M' w' M''"
  shows "sim n U hs (xs @ ys) M (w @ w') M''"
proof (rule simI)
  fix mk R P st m ht t
  assume "graph_inv mk hs R P M m ht"
  from simE [OF assms(1) this, of st "w' @ t"] obtain R1 m1 e1 bs1 where
    1: "up_runs n U (conf mk st m ht (w @ w' @ t)) (conf mk (st @ bs1) m1 (ht @ e1) (w' @ t))"
      "R \<le> R1" "list_all2 R1 xs bs1" "graph_inv mk hs R1 P M' m1 (ht @ e1)" .
  from simE [OF assms(2) 1(4), of "st @ bs1" t] obtain R2 m2 e2 bs2 where
    2: "up_runs n U (conf mk (st @ bs1) m1 (ht @ e1) (w' @ t)) (conf mk ((st @ bs1) @ bs2) m2 ((ht @ e1) @ e2) t)"
      "R1 \<le> R2" "list_all2 R2 ys bs2" "graph_inv mk hs R2 P M'' m2 ((ht @ e1) @ e2)" .
  have "list_all2 R2 (xs @ ys) (bs1 @ bs2)" using list_more [OF 1(3) 2(2)] 2(3) by (rule list_all2_appendI)
  with up_trans [OF 1(1) 2(1)] 2(4) order_trans [OF 1(2) 2(2)]
  show "\<exists>R' m' e bs. up_runs n U (conf mk st m ht ((w @ w') @ t)) (conf mk (st @ bs) m' (ht @ e) t) \<and>
      R \<le> R' \<and> list_all2 R' (xs @ ys) bs \<and> graph_inv mk hs R' P M'' m' (ht @ e)"
    by (intro exI [of _ R2] exI [of _ m2] exI [of _ "e1 @ e2"] exI [of _ "bs1 @ bs2"]) simp
qed

text \<open>The common shape: a new object is made on top of what the code before has pushed.\<close>

lemma sim_new:
  assumes "x < length hs" "\<not> shared (hs ! x)" "\<And>R. rel_pyobj (=) R (hs ! x) ob"
    and "\<And>mk st m h t. up_runs n U (conf mk st m h (w @ t)) (conf mk (st @ [length h]) m (h @ [ob]) t)"
  shows "sim n U hs [x] M w M"
proof (rule simI)
  fix mk R P st m ht t
  assume inv: "graph_inv mk hs R P M m ht"
  show "\<exists>R' m' e bs. up_runs n U (conf mk st m ht (w @ t)) (conf mk (st @ bs) m' (ht @ e) t) \<and>
      R \<le> R' \<and> list_all2 R' [x] bs \<and> graph_inv mk hs R' P M m' (ht @ e)"
    using assms(4) inv_new [OF inv assms(1-3)] link_le link_new
    by (intro exI [of _ "link R x (length ht)"] exI [of _ m] exI [of _ "[ob]"] exI [of _ "[length ht]"]) simp
qed

lemma sim_get:
  assumes "x \<in> M"
  shows "sim n U hs [x] M (GET_code x) M"
proof (rule simI)
  fix mk R P st m ht t
  assume inv: "graph_inv mk hs R P M m ht"
  from inv_memo [OF inv assms] obtain b where "R x b" "m (idt x) = Some b" by blast
  with run_get [where m = m and a = x and b = b and n = n and U = U and mk = mk and st = st and h = ht and t = t] inv
  show "\<exists>R' m' e bs. up_runs n U (conf mk st m ht (GET_code x @ t)) (conf mk (st @ bs) m' (ht @ e) t) \<and>
      R \<le> R' \<and> list_all2 R' [x] bs \<and> graph_inv mk hs R' P M m' (ht @ e)"
    by (intro exI [of _ R] exI [of _ m] exI [of _ "[]"] exI [of _ "[b]"]) simp
qed

text \<open>Making a remembered object: code for its components after a mark or nothing, then the object, then \<open>PUT\<close>.\<close>

lemma sim_put:
  assumes x: "x < length hs" "shared (hs ! x)" "x \<notin> M'"
    and pre: "sim n U hs xs M w M'"
    and make: "\<And>mk st m h t R P bs. graph_inv mk hs R P M' m h \<Longrightarrow> list_all2 R xs bs \<Longrightarrow> mk \<notin> set bs \<Longrightarrow>
      \<exists>ob. up_runs n U (conf mk (st @ start mk @ bs) m h (code @ t)) (conf mk (st @ [length h]) m (h @ [ob]) t) \<and>
        rel_pyobj (=) R (hs ! x) ob"
    and start: "\<And>mk st m h t. up_runs n U (conf mk st m h (open @ t)) (conf mk (st @ start mk) m h t)"
  shows "sim n U hs [x] M (open @ w @ code @ PUT_code x) (insert x M')"
proof (rule simI)
  fix mk R P st m ht t
  assume inv: "graph_inv mk hs R P M m ht"
  from simE [OF pre inv, of "st @ start mk" "code @ PUT_code x @ t"] obtain R1 m1 e1 bs where
    1: "up_runs n U (conf mk (st @ start mk) m ht (w @ code @ PUT_code x @ t))
        (conf mk ((st @ start mk) @ bs) m1 (ht @ e1) (code @ PUT_code x @ t))"
      "R \<le> R1" "list_all2 R1 xs bs" "graph_inv mk hs R1 P M' m1 (ht @ e1)" .
  have "mk \<notin> set bs"
  proof
    assume "mk \<in> set bs"
    with 1(3) obtain a where "R1 a mk" by (metis in_set_conv_nth list_all2_conv_all_nth)
    with inv_bounds(3) [OF 1(4)] show False by blast
  qed
  from make [OF 1(4,3) this] obtain ob where
    2: "up_runs n U (conf mk (st @ start mk @ bs) m1 (ht @ e1) (code @ PUT_code x @ t))
        (conf mk (st @ [length (ht @ e1)]) m1 ((ht @ e1) @ [ob]) (PUT_code x @ t))"
      "rel_pyobj (=) R1 (hs ! x) ob" by blast
  let ?y = "length (ht @ e1)"
  have "up_runs n U (conf mk st m ht ((open @ w @ code @ PUT_code x) @ t))
      (conf mk (st @ [?y]) (m1(idt x \<mapsto> ?y)) ((ht @ e1) @ [ob]) t)"
    using up_trans [OF start up_trans [OF 1(1) up_trans [OF _ run_put]]] 2(1) by simp
  moreover have "graph_inv mk hs (link R1 x ?y) P (insert x M') (m1(idt x \<mapsto> ?y)) ((ht @ e1) @ [ob])"
    using inv_new_shared [OF 1(4) x] 2(2) by blast
  moreover have "R \<le> link R1 x ?y" using order_trans [OF 1(2) link_le] .
  ultimately show "\<exists>R' m' e bs. up_runs n U (conf mk st m ht ((open @ w @ code @ PUT_code x) @ t)) (conf mk (st @ bs) m' (ht @ e) t) \<and>
      R \<le> R' \<and> list_all2 R' [x] bs \<and> graph_inv mk hs R' P (insert x M') m' (ht @ e)"
    using link_new [of R1 x ?y]
    by (intro exI [of _ "link R1 x ?y"] exI [of _ "m1(idt x \<mapsto> ?y)"] exI [of _ "e1 @ [ob]"] exI [of _ "[?y]"]) simp
qed

lemma sim_string:
  assumes "literal_laws (ue_lits U)" "x < length hs" "hs ! x = PStr s" "x \<notin> M"
  shows "sim n U hs [x] M (''S'' @ string_repr s @ [NL] @ PUT_code x) (insert x M)"
proof -
  have "sim n U hs [x] M ([] @ [] @ (''S'' @ string_repr s @ [NL]) @ PUT_code x) (insert x M)"
  proof (rule sim_put [where start = "\<lambda>_. []", OF assms(2) _ assms(4) sim_Nil])
    show "\<exists>ob. up_runs n U (conf mk (st @ [] @ bs) m h ((''S'' @ string_repr s @ [NL]) @ t))
        (conf mk (st @ [length h]) m (h @ [ob]) t) \<and> rel_pyobj (=) R (hs ! x) ob"
      if "list_all2 R [] bs" for mk st m h t R bs
      using run_string [OF assms(1), where n = n and mk = mk and st = st and m = m and h = h and s = s and t = t] assms(3) that
      by auto
  qed (simp_all add: assms(3) shared_def up_refl)
  then show ?thesis by simp
qed

lemma sim_tuple:
  assumes "sim n U hs xs M w M'" "x < length hs" "hs ! x = PTuple xs" "x \<notin> M'"
  shows "sim n U hs [x] M (''('' @ w @ ''t'' @ PUT_code x) (insert x M')"
proof (rule sim_put [where start = "\<lambda>mk. [mk]", OF assms(2) _ assms(4,1)])
  show "\<exists>ob. up_runs n U (conf mk (st @ [mk] @ bs) m h (''t'' @ t))
      (conf mk (st @ [length h]) m (h @ [ob]) t) \<and> rel_pyobj (=) R (hs ! x) ob"
    if "list_all2 R xs bs" "mk \<notin> set bs" for mk st m h t R bs
    using run_tuple [OF that(2), where n = n and U = U and st = st and m = m and h = h and t = t] assms(3) that(1) by (intro exI [of _ "PTuple bs"]) simp
  show "up_runs n U (conf mk st m h (''('' @ t)) (conf mk (st @ [mk]) m h t)" for mk st m h t
    by (rule run_mark)
qed (simp add: assms(3) shared_def)

subsection \<open>Containers\<close>

text \<open>
  \<open>H R ob gs\<close> says that the container \<open>ob\<close> holds the counterparts of the groups \<open>gs\<close> (single items
  of a list, pairs of a dictionary).  A container is made from the groups before the first unsafe
  one and filled with the others while it is remembered already.
\<close>

type_synonym 'x holding = "(nat \<Rightarrow> nat \<Rightarrow> bool) \<Rightarrow> ('x, nat) pyobj \<Rightarrow> nat list list \<Rightarrow> bool"

definition grows :: "'x holding \<Rightarrow> bool" where
  "grows H \<longleftrightarrow> (\<forall>R R' ob gs. H R ob gs \<longrightarrow> R \<le> R' \<longrightarrow> H R' ob gs)"

definition adds ::
  "nat \<Rightarrow> 'x unpickle_env \<Rightarrow> 'x heap \<Rightarrow> nat \<Rightarrow> 'x holding \<Rightarrow> string \<Rightarrow> nat list list \<Rightarrow> nat list \<Rightarrow> bool" where
  "adds n U hs x H add gs g \<longleftrightarrow> (\<forall>mk R P M st m ht t b bs.
     graph_inv mk hs R P M m ht \<longrightarrow> x \<in> P \<longrightarrow> R x b \<longrightarrow> H R (ht ! b) gs \<longrightarrow> list_all2 R g bs \<longrightarrow>
     (\<exists>ob. up_runs n U (conf mk (st @ [b] @ bs) m ht (add @ t)) (conf mk (st @ [b]) m (ht[b := ob]) t) \<and>
       H R ob (gs @ [g])))"

definition fills ::
  "nat \<Rightarrow> 'x unpickle_env \<Rightarrow> 'x heap \<Rightarrow> nat \<Rightarrow> 'x holding \<Rightarrow> nat list list \<Rightarrow> nat list list \<Rightarrow> nat set \<Rightarrow> string \<Rightarrow> nat set \<Rightarrow> bool"
where
  "fills n U hs x H gs gs' M w M' \<longleftrightarrow> (\<forall>mk R P st m ht t b.
     graph_inv mk hs R P M m ht \<longrightarrow> x \<in> P \<longrightarrow> R x b \<longrightarrow> H R (ht ! b) gs \<longrightarrow>
     (\<exists>R' m' ht'. up_runs n U (conf mk (st @ [b]) m ht (w @ t)) (conf mk (st @ [b]) m' ht' t) \<and> R \<le> R' \<and>
        graph_inv mk hs R' P M' m' ht' \<and> H R' (ht' ! b) (gs @ gs') \<and>
        length ht \<le> length ht' \<and> (\<forall>i < length ht. i \<noteq> b \<longrightarrow> ht' ! i = ht ! i)))"

lemma fills_Nil: "fills n U hs x H gs [] M [] M"
  unfolding fills_def by (metis append_Nil append_Nil2 order_refl up_refl)

lemma fills_Cons:
  assumes g: "sim n U hs g M w M1" and add: "adds n U hs x H add gs g"
    and rest: "fills n U hs x H (gs @ [g]) gs' M1 w' M'" and H: "grows H"
  shows "fills n U hs x H gs (g # gs') M (w @ add @ w') M'"
  unfolding fills_def
proof (intro allI impI)
  fix mk R P st m ht t b
  assume inv: "graph_inv mk hs R P M m ht" and x: "x \<in> P" "R x b" and h: "H R (ht ! b) gs"
  from simE [OF g inv, of "st @ [b]" "add @ w' @ t"] obtain R1 m1 e1 bs where
    1: "up_runs n U (conf mk (st @ [b]) m ht (w @ add @ w' @ t)) (conf mk ((st @ [b]) @ bs) m1 (ht @ e1) (add @ w' @ t))"
      "R \<le> R1" "list_all2 R1 g bs" "graph_inv mk hs R1 P M1 m1 (ht @ e1)" .
  have b: "b < length ht" using inv_bounds(2) [OF inv x(2)] .
  have x1: "R1 x b" using x(2) 1(2) by blast
  have "H R1 ((ht @ e1) ! b) gs" using h H 1(2) b by (auto simp: grows_def nth_append)
  with add 1(3,4) x(1) x1 obtain ob where
    2: "up_runs n U (conf mk (st @ [b] @ bs) m1 (ht @ e1) (add @ w' @ t)) (conf mk (st @ [b]) m1 ((ht @ e1)[b := ob]) (w' @ t))"
      "H R1 ob (gs @ [g])"
    unfolding adds_def by blast
  have i2: "graph_inv mk hs R1 P M1 m1 ((ht @ e1)[b := ob])" by (rule inv_update [OF 1(4) x(1) x1])
  have "H R1 ((ht @ e1)[b := ob] ! b) (gs @ [g])" using 2(2) b by simp
  with rest i2 x(1) x1 obtain R2 m2 h2 where
    3: "up_runs n U (conf mk (st @ [b]) m1 ((ht @ e1)[b := ob]) (w' @ t)) (conf mk (st @ [b]) m2 h2 t)" "R1 \<le> R2"
      "graph_inv mk hs R2 P M' m2 h2" "H R2 (h2 ! b) ((gs @ [g]) @ gs')" "length ((ht @ e1)[b := ob]) \<le> length h2"
      "\<forall>i < length ((ht @ e1)[b := ob]). i \<noteq> b \<longrightarrow> h2 ! i = (ht @ e1)[b := ob] ! i"
    unfolding fills_def by blast
  have "up_runs n U (conf mk (st @ [b]) m ht ((w @ add @ w') @ t)) (conf mk (st @ [b]) m2 h2 t)"
    using up_trans [OF 1(1)] up_trans [OF _ 3(1)] 2(1) by simp
  moreover have "\<forall>i < length ht. i \<noteq> b \<longrightarrow> h2 ! i = ht ! i" using 3(6) by (simp add: nth_append)
  moreover have "length ht \<le> length h2" using 3(5) by simp
  ultimately show "\<exists>R' m' ht'. up_runs n U (conf mk (st @ [b]) m ht ((w @ add @ w') @ t)) (conf mk (st @ [b]) m' ht' t) \<and>
      R \<le> R' \<and> graph_inv mk hs R' P M' m' ht' \<and> H R' (ht' ! b) (gs @ g # gs') \<and>
      length ht \<le> length ht' \<and> (\<forall>i < length ht. i \<noteq> b \<longrightarrow> ht' ! i = ht ! i)"
    using 3(3,4) order_trans [OF 1(2) 3(2)] by (intro exI [of _ R2] exI [of _ m2] exI [of _ h2]) simp
qed

lemma sim_container:
  assumes x: "x < length hs" "container (hs ! x)" "x \<notin> M1"
    and pre: "sim n U hs (concat gs1) M w1 M1"
    and make: "\<And>mk st m h t R P bs. graph_inv mk hs R P M1 m h \<Longrightarrow> list_all2 R (concat gs1) bs \<Longrightarrow> mk \<notin> set bs \<Longrightarrow>
      \<exists>ob. up_runs n U (conf mk (st @ mk # bs) m h (code @ t)) (conf mk (st @ [length h]) m (h @ [ob]) t) \<and> H R ob gs1"
    and fill: "fills n U hs x H gs1 gs2 (insert x M1) w2 M2" and H: "grows H"
    and final: "\<And>R ob. H R ob (gs1 @ gs2) \<Longrightarrow> rel_pyobj (=) R (hs ! x) ob"
  shows "sim n U hs [x] M (''('' @ w1 @ code @ PUT_code x @ w2) M2"
proof (rule simI)
  fix mk R P st m ht t
  assume inv: "graph_inv mk hs R P M m ht"
  from simE [OF pre inv, of "st @ [mk]" "code @ PUT_code x @ w2 @ t"] obtain R1 m1 e1 bs where
    1: "up_runs n U (conf mk (st @ [mk]) m ht (w1 @ code @ PUT_code x @ w2 @ t))
        (conf mk ((st @ [mk]) @ bs) m1 (ht @ e1) (code @ PUT_code x @ w2 @ t))"
      "R \<le> R1" "list_all2 R1 (concat gs1) bs" "graph_inv mk hs R1 P M1 m1 (ht @ e1)" .
  have "mk \<notin> set bs"
  proof
    assume "mk \<in> set bs"
    with 1(3) obtain a where "R1 a mk" by (metis in_set_conv_nth list_all2_conv_all_nth)
    with inv_bounds(3) [OF 1(4)] show False by blast
  qed
  from make [OF 1(4,3) this] obtain ob where
    2: "up_runs n U (conf mk (st @ mk # bs) m1 (ht @ e1) (code @ PUT_code x @ w2 @ t))
        (conf mk (st @ [length (ht @ e1)]) m1 ((ht @ e1) @ [ob]) (PUT_code x @ w2 @ t))" "H R1 ob gs1" by blast
  let ?y = "length (ht @ e1)" and ?R = "link R1 x (length (ht @ e1))"
  have i3: "graph_inv mk hs ?R (insert x P) (insert x M1) (m1(idt x \<mapsto> ?y)) ((ht @ e1) @ [ob])"
    using inv_new_shared [OF 1(4) x(1) container_shared [OF x(2)] x(3)] x(2) by blast
  have "H ?R (((ht @ e1) @ [ob]) ! ?y) gs1"
    using 2(2) H link_le unfolding grows_def nth_append_length by blast
  with fill i3 link_new [of R1 x ?y] obtain R2 m2 h2 where
    3: "up_runs n U (conf mk (st @ [?y]) (m1(idt x \<mapsto> ?y)) ((ht @ e1) @ [ob]) (w2 @ t)) (conf mk (st @ [?y]) m2 h2 t)"
      "?R \<le> R2" "graph_inv mk hs R2 (insert x P) M2 m2 h2" "H R2 (h2 ! ?y) (gs1 @ gs2)" "length ((ht @ e1) @ [ob]) \<le> length h2"
      "\<forall>i < length ((ht @ e1) @ [ob]). i \<noteq> ?y \<longrightarrow> h2 ! i = ((ht @ e1) @ [ob]) ! i"
    unfolding fills_def by blast
  have Rx: "R2 x ?y" using 3(2) link_new by blast
  have i4: "graph_inv mk hs R2 P M2 m2 h2" by (rule inv_finish [OF 3(3) Rx final [OF 3(4)]])
  have "up_runs n U (conf mk st m ht ((''('' @ w1 @ code @ PUT_code x @ w2) @ t)) (conf mk (st @ [?y]) m2 h2 t)"
    using up_trans [OF run_mark up_trans [OF 1(1) up_trans [OF _ up_trans [OF run_put 3(1)]]]] 2(1) by simp
  moreover have "take (length ht) h2 = ht"
    using 3(5,6) by (intro nth_equalityI) (auto simp: nth_append)
  then have "h2 = ht @ drop (length ht) h2" by (metis append_take_drop_id)
  moreover have "R \<le> R2" using order_trans [OF 1(2) order_trans [OF link_le 3(2)]] .
  ultimately show "\<exists>R' m' e bs. up_runs n U (conf mk st m ht ((''('' @ w1 @ code @ PUT_code x @ w2) @ t)) (conf mk (st @ bs) m' (ht @ e) t) \<and>
      R \<le> R' \<and> list_all2 R' [x] bs \<and> graph_inv mk hs R' P M2 m' (ht @ e)"
    using i4 Rx by (intro exI [of _ R2] exI [of _ m2] exI [of _ "drop (length ht) h2"] exI [of _ "[?y]"]) simp
qed

subsection \<open>Lists\<close>

definition holds_list :: "'x holding" where
  "holds_list R ob gs = (case ob of PList ys \<Rightarrow> list_all2 R (concat gs) ys | _ \<Rightarrow> False)"

lemma holds_list_grows: "grows holds_list"
  unfolding grows_def holds_list_def by (auto split: pyobj.splits intro: list_more)

lemma list_adds:
  fixes U :: "'x unpickle_env"
  shows "adds n U hs x holds_list ''a'' gs [c]"
  unfolding adds_def
proof (intro allI impI)
  fix mk R P M st m t b and ht :: "'x heap" and bs :: "nat list"
  assume h: "holds_list R (ht ! b) gs" and g: "list_all2 R [c] bs"
  from h obtain ys where ys: "ht ! b = PList ys" "list_all2 R (concat gs) ys"
    by (auto simp: holds_list_def split: pyobj.splits)
  from g obtain d where d: "bs = [d]" "R c d" by (auto simp: list_all2_Cons1)
  have "holds_list R (PList (ys @ [d])) (gs @ [[c]])"
    using ys(2) d(2) by (simp add: holds_list_def list_all2_appendI)
  with run_append [where h = ht and b = b and xs = ys and c = d and n = n and U = U and mk = mk and st = st and m = m and t = t]
    ys(1) d(1)
  show "\<exists>ob. up_runs n U (conf mk (st @ [b] @ bs) m ht (''a'' @ t)) (conf mk (st @ [b]) m (ht[b := ob]) t) \<and>
      holds_list R ob (gs @ [[c]])"
    by (intro exI [of _ "PList (ys @ [d])"]) simp
qed

lemma list_make:
  fixes U :: "'x unpickle_env" and h :: "'x heap"
  assumes "list_all2 R (concat gs) bs" "mk \<notin> set bs"
  shows "\<exists>ob. up_runs n U (conf mk (st @ mk # bs) m h (''l'' @ t)) (conf mk (st @ [length h]) m (h @ [ob]) t) \<and>
    holds_list R ob gs"
  using run_list [OF assms(2), where n = n and U = U and st = st and m = m and h = h and t = t] assms(1)
  by (intro exI [of _ "PList bs"]) (simp add: holds_list_def)

lemma list_final: "holds_list R ob (map (\<lambda>x. [x]) xs) \<Longrightarrow> rel_pyobj (=) R (PList xs) ob"
  by (auto simp: holds_list_def split: pyobj.splits)

subsection \<open>Dictionaries\<close>

abbreviation pair_groups :: "(nat \<times> nat) list \<Rightarrow> nat list list" where
  "pair_groups items \<equiv> map (\<lambda>(k, v). [k, v]) items"

lemma dict_of_groups:
  "distinct_keys n L h (d @ items) \<Longrightarrow> dict_of_items n L h d (concat (pair_groups items)) = Inr (d @ items)"
proof (induction items arbitrary: d)
  case (Cons kv items)
  obtain k v where kv: "kv = (k, v)" by fastforce
  have "distinct_keys n L h (d @ [(k, v)])" using Cons.prems distinct_keys_append [of n L h "d @ [(k, v)]" items] kv by simp
  from distinct_keys_snoc [OF this] Cons.IH [of "d @ [(k, v)]"] Cons.prems kv show ?case by simp
qed simp

lemma pairs_of_groups: "list_all2 R (concat (pair_groups items)) bs \<Longrightarrow>
  \<exists>ps. bs = concat (pair_groups ps) \<and> list_all2 (rel_prod R R) items ps"
proof (induction items arbitrary: bs)
  case (Cons kv items)
  obtain k v where kv: "kv = (k, v)" by fastforce
  with Cons.prems obtain k' v' cs where bs: "bs = k' # v' # cs" "R k k'" "R v v'" "list_all2 R (concat (pair_groups items)) cs"
    by (auto simp: list_all2_Cons1)
  from Cons.IH [OF bs(4)] obtain ps where "cs = concat (pair_groups ps)" "list_all2 (rel_prod R R) items ps" by blast
  with bs kv show ?case by (intro exI [of _ "(k', v') # ps"]) simp
qed simp

lemma keys_transfer:
  assumes inv: "graph_inv mk hs R P M m ht" and d: "data_only hs" and rel: "list_all2 (rel_prod R R) items ps"
    and keys: "distinct_keys n L hs items"
  shows "distinct_keys n L ht ps"
proof (rule keys_related [OF _ d rel keys])
  fix a b assume "R a b" "\<not> container (hs ! a)"
  with inv show "a < length hs \<and> rel_pyobj (=) R (hs ! a) (ht ! b)" by (auto simp: graph_inv_def)
qed

text \<open>The pairs held are a prefix of the items of the saved dictionary.\<close>

definition holds_dict :: "(nat \<times> nat) list \<Rightarrow> 'x holding" where
  "holds_dict items R ob gs = (case ob of
     PDict ps \<Rightarrow> gs = pair_groups (take (length ps) items) \<and> length ps \<le> length items \<and>
       list_all2 (rel_prod R R) (take (length ps) items) ps
   | _ \<Rightarrow> False)"

lemma holds_dict_grows: "grows (holds_dict items)"
proof -
  have "list_all2 (rel_prod R' R') xs ys" if "list_all2 (rel_prod R R) xs ys" "R \<le> R'" for R R' :: "nat \<Rightarrow> nat \<Rightarrow> bool" and xs ys
    using prod.rel_mono [OF that(2) that(2)] that(1) by (rule list_more [rotated])
  then show ?thesis unfolding grows_def holds_dict_def by (auto split: pyobj.splits)
qed

lemma dict_adds:
  fixes U :: "'x unpickle_env"
  assumes keys: "distinct_keys n (ue_lits U) hs items" and d: "data_only hs"
    and j: "j < length items" "items ! j = (k, v)"
  shows "adds n U hs x (holds_dict items) ''s'' (pair_groups (take j items)) [k, v]"
  unfolding adds_def
proof (intro allI impI)
  fix mk R P M st m t b and ht :: "'x heap" and bs :: "nat list"
  assume inv: "graph_inv mk hs R P M m ht" and h: "holds_dict items R (ht ! b) (pair_groups (take j items))"
    and g: "list_all2 R [k, v] bs"
  from h obtain ps where ps: "ht ! b = PDict ps" "pair_groups (take j items) = pair_groups (take (length ps) items)"
      "length ps \<le> length items" "list_all2 (rel_prod R R) (take (length ps) items) ps"
    by (auto simp: holds_dict_def split: pyobj.splits)
  from arg_cong [OF ps(2), of length] ps(3) j(1) have l: "length ps = j" by simp
  from g obtain p q where bs: "bs = [p, q]" "R k p" "R v q" by (auto simp: list_all2_Cons1)
  have tk: "take (Suc j) items = take j items @ [(k, v)]" using j by (simp add: take_Suc_conv_app_nth)
  have rel: "list_all2 (rel_prod R R) (take (Suc j) items) (ps @ [(p, q)])"
    unfolding tk using ps(4) bs(2,3) l by (simp add: list_all2_appendI)
  have "distinct_keys n (ue_lits U) hs (take (Suc j) items)"
    using keys by (metis append_take_drop_id distinct_keys_append)
  from distinct_keys_snoc [OF keys_transfer [OF inv d rel this]]
  have "dict_update n (ue_lits U) ht ps p q = Inr (ps @ [(p, q)])" .
  from run_setitem [OF ps(1) this] have
    "up_runs n U (conf mk (st @ [b] @ bs) m ht (''s'' @ t)) (conf mk (st @ [b]) m (ht[b := PDict (ps @ [(p, q)])]) t)"
    unfolding bs(1) .
  moreover have "holds_dict items R (PDict (ps @ [(p, q)])) (pair_groups (take j items) @ [[k, v]])"
    using rel l j(1) tk by (simp add: holds_dict_def)
  ultimately show "\<exists>ob. up_runs n U (conf mk (st @ [b] @ bs) m ht (''s'' @ t)) (conf mk (st @ [b]) m (ht[b := ob]) t) \<and>
      holds_dict items R ob (pair_groups (take j items) @ [[k, v]])" by blast
qed

lemma dict_make:
  fixes U :: "'x unpickle_env" and h :: "'x heap"
  assumes keys: "distinct_keys n (ue_lits U) hs items" and d: "data_only hs" and j: "j \<le> length items"
    and inv: "graph_inv mk hs R P M m h" and bs: "list_all2 R (concat (pair_groups (take j items))) bs" "mk \<notin> set bs"
  shows "\<exists>ob. up_runs n U (conf mk (st @ mk # bs) m h (''d'' @ t)) (conf mk (st @ [length h]) m (h @ [ob]) t) \<and>
    holds_dict items R ob (pair_groups (take j items))"
proof -
  from pairs_of_groups [OF bs(1)] obtain ps where ps: "bs = concat (pair_groups ps)"
    "list_all2 (rel_prod R R) (take j items) ps" by blast
  have "distinct_keys n (ue_lits U) hs (take j items)" using keys by (metis append_take_drop_id distinct_keys_append)
  from keys_transfer [OF inv d ps(2) this] dict_of_groups [of n "ue_lits U" h "[]" ps]
  have "dict_of_items n (ue_lits U) h [] bs = Inr ps" by (simp add: ps(1))
  from run_dict [OF bs(2) this] have
    "up_runs n U (conf mk (st @ mk # bs) m h (''d'' @ t)) (conf mk (st @ [length h]) m (h @ [PDict ps]) t)" .
  moreover have "length ps = j" using list_all2_lengthD [OF ps(2)] j by simp
  then have "holds_dict items R (PDict ps) (pair_groups (take j items))"
    using ps(2) j by (simp add: holds_dict_def)
  ultimately show ?thesis by blast
qed

lemma dict_final: "holds_dict items R ob (pair_groups items) \<Longrightarrow> rel_pyobj (=) R (PDict items) ob"
proof -
  assume h: "holds_dict items R ob (pair_groups items)"
  then obtain ps where ps: "ob = PDict ps" "pair_groups items = pair_groups (take (length ps) items)"
      "length ps \<le> length items" "list_all2 (rel_prod R R) (take (length ps) items) ps"
    by (auto simp: holds_dict_def split: pyobj.splits)
  from arg_cong [OF ps(2), of length] ps(3) have "length ps = length items" by simp
  with ps(1,4) show ?thesis by simp
qed

subsection \<open>The code of \<open>save\<close>\<close>

text \<open>
  \<open>codes act xs K ml w ml'\<close>: with the memo \<open>ml\<close> the action writes \<open>w\<close>, which pushes the
  counterparts of \<open>xs\<close>, and leaves the memo \<open>ml'\<close>; what it adds has a rank below \<open>K\<close>.
\<close>

definition writes :: "unit pickling \<Rightarrow> nat list \<Rightarrow> string \<Rightarrow> nat list \<Rightarrow> bool" where
  "writes act ml w ml' \<longleftrightarrow> (\<forall>out cm. act \<lparr>pk_out = out, pk_memo = ml, pk_classmap = cm\<rparr> =
     (Inr (), \<lparr>pk_out = out @ w, pk_memo = ml', pk_classmap = cm\<rparr>))"

definition memo_step :: "'x heap \<Rightarrow> (nat \<Rightarrow> nat) \<Rightarrow> nat \<Rightarrow> nat list \<Rightarrow> nat list \<Rightarrow> bool" where
  "memo_step hs r K ml ml' \<longleftrightarrow> set ml \<subseteq> set ml' \<and> set ml' \<subseteq> {..<length hs} \<and> (\<forall>a \<in> set ml' - set ml. r a < K)"

definition codes ::
  "nat \<Rightarrow> 'x unpickle_env \<Rightarrow> 'x heap \<Rightarrow> (nat \<Rightarrow> nat) \<Rightarrow> unit pickling \<Rightarrow> nat list \<Rightarrow> nat \<Rightarrow> nat list \<Rightarrow> string \<Rightarrow> nat list \<Rightarrow> bool"
where
  "codes n U hs r act xs K ml w ml' \<longleftrightarrow>
     writes act ml w ml' \<and> memo_step hs r K ml ml' \<and> sim n U hs xs (set ml) w (set ml')"

lemma writes_then: "writes act ml w ml' \<Longrightarrow> writes act' ml' w' ml'' \<Longrightarrow> writes (thenA act act') ml (w @ w') ml''"
  by (simp add: writes_def)

lemma writes_write: "writes (pk_write s) ml s ml"
  by (simp add: writes_def pk_write_def)

lemma writes_remember: "writes (pk_remember d) ml [] (d # ml)"
  by (simp add: writes_def pk_remember_def)

lemma memo_step_trans: "memo_step hs r K ml ml' \<Longrightarrow> memo_step hs r K ml' ml'' \<Longrightarrow> memo_step hs r K ml ml''"
  by (auto simp: memo_step_def)

lemma memo_step_mono: "memo_step hs r K ml ml' \<Longrightarrow> K \<le> K' \<Longrightarrow> memo_step hs r K' ml ml'"
  by (force simp: memo_step_def)

lemma codes_nil: "set ml \<subseteq> {..<length hs} \<Longrightarrow> codes n U hs r (retA ()) [] K ml [] ml"
  by (simp add: codes_def writes_def memo_step_def sim_Nil)

lemma codes_none: "set ml \<subseteq> {..<length hs} \<Longrightarrow> codes n U hs r (forA sv (concat (take 0 gs))) (concat (take 0 gs)) K ml [] ml"
  using codes_nil by (simp only: take_0 concat.simps forA.simps)

lemma codes_then:
  "codes n U hs r act xs K ml w ml' \<Longrightarrow> codes n U hs r act' ys K ml' w' ml'' \<Longrightarrow>
    codes n U hs r (thenA act act') (xs @ ys) K ml (w @ w') ml''"
  unfolding codes_def by (auto intro: writes_then memo_step_trans sim_append)

text \<open>What is known of \<open>save\<close> on a component, whatever has been remembered meanwhile.\<close>

definition codable ::
  "nat \<Rightarrow> 'x unpickle_env \<Rightarrow> 'x heap \<Rightarrow> (nat \<Rightarrow> nat) \<Rightarrow> (nat \<Rightarrow> unit pickling) \<Rightarrow> nat \<Rightarrow> nat list \<Rightarrow> nat \<Rightarrow> bool" where
  "codable n U hs r sv K ml x \<longleftrightarrow> (\<forall>ml1. memo_step hs r K ml ml1 \<longrightarrow> (\<exists>w ml2. codes n U hs r (sv x) [x] K ml1 w ml2))"

lemma codable_step: "codable n U hs r sv K ml x \<Longrightarrow> memo_step hs r K ml ml1 \<Longrightarrow> codable n U hs r sv K ml1 x"
  unfolding codable_def by (blast intro: memo_step_trans)

lemma codes_forA:
  "set ml \<subseteq> {..<length hs} \<Longrightarrow> list_all (codable n U hs r sv K ml) xs \<Longrightarrow>
    \<exists>w ml'. codes n U hs r (forA sv xs) xs K ml w ml'"
proof (induction xs arbitrary: ml)
  case Nil
  then show ?case using codes_nil by (metis forA.simps(1))
next
  case (Cons x xs)
  have "memo_step hs r K ml ml" using Cons.prems(1) by (simp add: memo_step_def)
  with Cons.prems(2) obtain w ml1 where 1: "codes n U hs r (sv x) [x] K ml w ml1"
    unfolding codable_def by auto
  then have s: "memo_step hs r K ml ml1" by (simp add: codes_def)
  have "list_all (codable n U hs r sv K ml1) xs"
    using Cons.prems(2) codable_step [OF _ s] by (auto simp: list_all_iff)
  with Cons.IH [of ml1] s obtain w' ml2 where "codes n U hs r (forA sv xs) xs K ml1 w' ml2"
    by (auto simp: memo_step_def)
  from codes_then [OF 1 this] show ?case by (auto intro: exI)
qed

lemma tuple_items:
  "set ml \<subseteq> {..<length hs} \<Longrightarrow> list_all (codable n U hs r sv K ml) xs \<Longrightarrow> x \<notin> set ml \<Longrightarrow> K \<le> r x \<Longrightarrow>
    \<exists>w ml'. codes n U hs r (forA sv xs) xs K ml w ml' \<and> x \<notin> set ml' \<and>
      (\<forall>k. writes (save_tuple_items sv x k xs) ml (w @ ''t'' @ PUT_code x) (x # ml'))"
proof (induction xs arbitrary: ml)
  case Nil
  have "writes (save_tuple_items sv x k []) ml ([] @ ''t'' @ PUT_code x) (x # ml)" for k
    using writes_then [OF writes_write writes_remember] by simp
  with Nil codes_nil show ?case by (metis forA.simps(1))
next
  case (Cons y ys)
  have "memo_step hs r K ml ml" using Cons.prems(1) by (simp add: memo_step_def)
  with Cons.prems(2) obtain w ml1 where 1: "codes n U hs r (sv y) [y] K ml w ml1"
    unfolding codable_def by auto
  then have s: "memo_step hs r K ml ml1" by (simp add: codes_def)
  have x1: "x \<notin> set ml1" using s Cons.prems(3,4) unfolding memo_step_def by (meson DiffI not_le)
  have "list_all (codable n U hs r sv K ml1) ys"
    using Cons.prems(2) codable_step [OF _ s] by (auto simp: list_all_iff)
  with Cons.IH [of ml1] s x1 Cons.prems(4) obtain w' ml2 where 2: "codes n U hs r (forA sv ys) ys K ml1 w' ml2" "x \<notin> set ml2"
    "\<And>k. writes (save_tuple_items sv x k ys) ml1 (w' @ ''t'' @ PUT_code x) (x # ml2)"
    by (auto simp: memo_step_def)
  have "writes (save_tuple_items sv x k (y # ys)) ml ((w @ w') @ ''t'' @ PUT_code x) (x # ml2)" for k
    using 1 2(3) [of "Suc k"] x1 by (simp add: codes_def writes_def bindA_def)
  with codes_then [OF 1 2(1)] 2(2) show ?case by (metis append_Cons append_Nil forA.simps(2))
qed

lemma codes_tuple:
  assumes ml: "set ml \<subseteq> {..<length hs}" and items: "list_all (codable n U hs r sv K ml) xs"
    and x: "x < length hs" "hs ! x = PTuple xs" "x \<notin> set ml" "K \<le> r x"
  shows "\<exists>w ml'. codes n U hs r (save_tuple sv x xs) [x] (Suc (r x)) ml w ml'"
proof -
  from tuple_items [where r = r, OF ml items x(3,4)] obtain w ml1 where
    1: "codes n U hs r (forA sv xs) xs K ml w ml1" "x \<notin> set ml1"
      "writes (save_tuple_items sv x 0 xs) ml (w @ ''t'' @ PUT_code x) (x # ml1)" by blast
  have "writes (save_tuple sv x xs) ml (''('' @ w @ ''t'' @ PUT_code x) (x # ml1)"
    unfolding save_tuple_def by (rule writes_then [OF writes_write 1(3)])
  moreover have "memo_step hs r (Suc (r x)) ml (x # ml1)"
    using 1(1) x(1,4) by (force simp: codes_def memo_step_def)
  moreover have "sim n U hs [x] (set ml) (''('' @ w @ ''t'' @ PUT_code x) (set (x # ml1))"
    using sim_tuple [OF _ x(1,2) 1(2)] 1(1) by (simp add: codes_def)
  ultimately show ?thesis unfolding codes_def by blast
qed

lemma all_res_all:
  "list_all (\<lambda>c. \<exists>b. f c = Inr b \<and> (b \<longrightarrow> Q c)) xs \<Longrightarrow> \<exists>b. all_res f xs = Inr b \<and> (b \<longrightarrow> list_all Q xs)"
  by (induction xs) auto

lemma codes_append:
  assumes "codes n U hs r (forA sv xs) xs K ml w ml'" "codes n U hs r (forA sv ys) ys K ml' w' ml''"
  shows "codes n U hs r (forA sv (xs @ ys)) (xs @ ys) K ml (w @ w') ml''"
proof -
  have "forA sv (xs @ ys) = thenA (forA sv xs) (forA sv ys)" by (rule ext) (rule forA_append)
  with codes_then [OF assms] show ?thesis by simp
qed

lemma safe_items:
  "set ml \<subseteq> {..<length hs} \<Longrightarrow> list_all (\<lambda>c. \<exists>b. sf c = Inr b \<and> (b \<longrightarrow> codable n U hs r sv K ml c)) (concat gs) \<Longrightarrow>
    \<exists>i w ml'. codes n U hs r (forA sv (concat (take i gs))) (concat (take i gs)) K ml w ml' \<and> i \<le> length gs \<and>
      (\<forall>out cm. save_safe_items sf sv gs \<lparr>pk_out = out, pk_memo = ml, pk_classmap = cm\<rparr> =
        (Inr (drop i gs), \<lparr>pk_out = out @ w, pk_memo = ml', pk_classmap = cm\<rparr>))"
proof (induction gs arbitrary: ml)
  case Nil
  then show ?case
    by (intro exI [of _ "0 :: nat"] exI [of _ "[] :: string"] exI [of _ ml] conjI codes_none) simp_all
next
  case (Cons g gs)
  from Cons.prems(2) all_res_all [of sf "codable n U hs r sv K ml" g] obtain b where
    b: "all_res sf g = Inr b" "b \<longrightarrow> list_all (codable n U hs r sv K ml) g" by auto
  show ?case
  proof (cases b)
    case False
    with b(1) Cons.prems(1) show ?thesis
      by (intro exI [of _ "0 :: nat"] exI [of _ "[] :: string"] exI [of _ ml] conjI codes_none) (simp_all add: bindA_def)
  next
    case True
    with b(2) codes_forA [OF Cons.prems(1)] obtain w ml1 where 1: "codes n U hs r (forA sv g) g K ml w ml1" by blast
    then have s: "memo_step hs r K ml ml1" by (simp add: codes_def)
    have "list_all (\<lambda>c. \<exists>b. sf c = Inr b \<and> (b \<longrightarrow> codable n U hs r sv K ml1 c)) (concat gs)"
      using Cons.prems(2) codable_step [OF _ s] by (fastforce simp: list_all_iff)
    with Cons.IH [of ml1] s obtain i w' ml2 where
      2: "codes n U hs r (forA sv (concat (take i gs))) (concat (take i gs)) K ml1 w' ml2" "i \<le> length gs"
        "\<And>out cm. save_safe_items sf sv gs \<lparr>pk_out = out, pk_memo = ml1, pk_classmap = cm\<rparr> =
          (Inr (drop i gs), \<lparr>pk_out = out @ w', pk_memo = ml2, pk_classmap = cm\<rparr>)"
      by (auto simp: memo_step_def)
    have "writes (forA sv g) ml w ml1" using 1 by (simp add: codes_def)
    then have "save_safe_items sf sv (g # gs) \<lparr>pk_out = out, pk_memo = ml, pk_classmap = cm\<rparr> =
        (Inr (drop (Suc i) (g # gs)), \<lparr>pk_out = out @ (w @ w'), pk_memo = ml2, pk_classmap = cm\<rparr>)" for out cm
      using b(1) True 2(3) by (simp add: writes_def bindA_def thenA_def)
    moreover have "codes n U hs r (forA sv (concat (take (Suc i) (g # gs)))) (concat (take (Suc i) (g # gs))) K ml (w @ w') ml2"
      using codes_append [OF 1 2(1)] by simp
    ultimately show ?thesis using 2(2) by (intro exI [of _ "Suc i"] exI [of _ "w @ w'"] exI [of _ ml2]) simp
  qed
qed

lemma fill_groups:
  assumes H: "grows H"
  shows "set ml \<subseteq> {..<length hs} \<Longrightarrow> list_all (codable n U hs r sv K ml) (concat gs') \<Longrightarrow>
    (\<And>i. i < length gs' \<Longrightarrow> adds n U hs x H add (gs @ take i gs') (gs' ! i)) \<Longrightarrow>
    \<exists>w ml'. writes (forA (\<lambda>g. thenA (forA sv g) (pk_write add)) gs') ml w ml' \<and> memo_step hs r K ml ml' \<and>
      fills n U hs x H gs gs' (set ml) w (set ml')"
proof (induction gs' arbitrary: gs ml)
  case Nil
  have "writes (forA (\<lambda>g. thenA (forA sv g) (pk_write add)) []) ml [] ml" by (simp add: writes_def)
  with Nil(1) fills_Nil show ?case unfolding memo_step_def by blast
next
  case (Cons g gs')
  from Cons.prems(2) codes_forA [OF Cons.prems(1)] obtain w ml1 where
    1: "codes n U hs r (forA sv g) g K ml w ml1" by force
  then have s: "memo_step hs r K ml ml1" by (simp add: codes_def)
  have "list_all (codable n U hs r sv K ml1) (concat gs')"
    using Cons.prems(2) codable_step [OF _ s] by (fastforce simp: list_all_iff)
  moreover have "adds n U hs x H add ((gs @ [g]) @ take i gs') (gs' ! i)" if "i < length gs'" for i
    using Cons.prems(3) [of "Suc i"] that by simp
  ultimately obtain w' ml2 where 2: "writes (forA (\<lambda>g. thenA (forA sv g) (pk_write add)) gs') ml1 w' ml2"
      "memo_step hs r K ml1 ml2" "fills n U hs x H (gs @ [g]) gs' (set ml1) w' (set ml2)"
    using Cons.IH [of ml1 "gs @ [g]"] s by (auto simp: memo_step_def)
  have "writes (forA sv g) ml w ml1" using 1 by (simp add: codes_def)
  from writes_then [OF writes_then [OF this writes_write] 2(1)]
  have "writes (forA (\<lambda>g. thenA (forA sv g) (pk_write add)) (g # gs')) ml (w @ add @ w') ml2" by simp
  moreover have "fills n U hs x H gs (g # gs') (set ml) (w @ add @ w') (set ml2)"
    using fills_Cons [OF _ _ 2(3) H] Cons.prems(3) [of 0] 1 by (simp add: codes_def)
  ultimately show ?case using memo_step_trans [OF s 2(2)] by blast
qed

lemma writes_bind:
  assumes "\<And>out cm. act \<lparr>pk_out = out, pk_memo = ml, pk_classmap = cm\<rparr> =
      (Inr v, \<lparr>pk_out = out @ w, pk_memo = ml', pk_classmap = cm\<rparr>)" "writes (f v) ml' w' ml''"
  shows "writes (bindA act f) ml (w @ w') ml''"
  using assms by (simp add: writes_def bindA_def)

text \<open>
  While the container is not remembered, the safe items have a lower rank and do not reach it;
  the others may reach it, and find it in the memo.
\<close>

lemma codes_container:
  assumes ml: "set ml \<subseteq> {..<length hs}" and x: "x < length hs" "container (hs ! x)" "x \<notin> set ml"
    and sf: "list_all (\<lambda>c. \<exists>b. sf c = Inr b \<and> (b \<longrightarrow> codable n U hs r sv (r x) ml c)) (concat gs)"
    and unsafe: "list_all (codable n U hs r sv (Suc (r x)) (x # ml)) (concat gs)"
    and make: "\<And>mk st m h t R P M bs i. graph_inv mk hs R P M m h \<Longrightarrow> i \<le> length gs \<Longrightarrow>
      list_all2 R (concat (take i gs)) bs \<Longrightarrow> mk \<notin> set bs \<Longrightarrow>
      \<exists>ob. up_runs n U (conf mk (st @ mk # bs) m h (code @ t)) (conf mk (st @ [length h]) m (h @ [ob]) t) \<and> H R ob (take i gs)"
    and add: "\<And>i. i < length gs \<Longrightarrow> adds n U hs x H add (take i gs) (gs ! i)"
    and H: "grows H" and final: "\<And>R ob. H R ob gs \<Longrightarrow> rel_pyobj (=) R (hs ! x) ob"
  shows "\<exists>w ml'. codes n U hs r (save_container sf sv x code add gs) [x] (Suc (r x)) ml w ml'"
proof -
  from safe_items [OF ml sf] obtain i w1 ml1 where
    1: "codes n U hs r (forA sv (concat (take i gs))) (concat (take i gs)) (r x) ml w1 ml1" "i \<le> length gs"
      "\<And>out cm. save_safe_items sf sv gs \<lparr>pk_out = out, pk_memo = ml, pk_classmap = cm\<rparr> =
        (Inr (drop i gs), \<lparr>pk_out = out @ w1, pk_memo = ml1, pk_classmap = cm\<rparr>)" by blast
  then have s1: "memo_step hs r (r x) ml ml1" by (simp add: codes_def)
  have x1: "x \<notin> set ml1" using s1 x(3) unfolding memo_step_def by (meson DiffI less_irrefl)
  have s1': "memo_step hs r (Suc (r x)) (x # ml) (x # ml1)" and ml1: "set (x # ml1) \<subseteq> {..<length hs}"
    and s1'': "memo_step hs r (Suc (r x)) ml (x # ml1)"
    using s1 x(1) by (auto simp: memo_step_def intro: less_SucI)
  have "concat gs = concat (take i gs) @ concat (drop i gs)" by (metis append_take_drop_id concat_append)
  then have rest: "list_all (codable n U hs r sv (Suc (r x)) (x # ml1)) (concat (drop i gs))"
    using unsafe codable_step [OF _ s1'] by (auto simp: list_all_iff)
  have "adds n U hs x H add (take i gs @ take j (drop i gs)) (drop i gs ! j)" if "j < length (drop i gs)" for j
    using add [of "i + j"] that by (simp add: take_add)
  from fill_groups [OF H ml1 rest this] obtain w2 ml2 where
    2: "writes (forA (\<lambda>g. thenA (forA sv g) (pk_write add)) (drop i gs)) (x # ml1) w2 ml2"
      "memo_step hs r (Suc (r x)) (x # ml1) ml2" "fills n U hs x H (take i gs) (drop i gs) (set (x # ml1)) w2 (set ml2)" by blast
  have "writes (thenA (pk_write (code @ PUT_code x)) (thenA (pk_remember x)
      (forA (\<lambda>g. thenA (forA sv g) (pk_write add)) (drop i gs)))) ml1 ((code @ PUT_code x) @ [] @ w2) ml2"
    by (rule writes_then [OF writes_write writes_then [OF writes_remember 2(1)]])
  then have "writes (bindA (save_safe_items sf sv gs) (\<lambda>rest. thenA (pk_write (code @ PUT_code x)) (thenA (pk_remember x)
      (forA (\<lambda>g. thenA (forA sv g) (pk_write add)) rest)))) ml (w1 @ (code @ PUT_code x) @ [] @ w2) ml2"
    using 1(3) by (intro writes_bind [where v = "drop i gs"])
  from writes_then [OF writes_write [of "''(''"] this]
  have "writes (save_container sf sv x code add gs) ml (''('' @ w1 @ code @ PUT_code x @ w2) ml2"
    by (simp add: save_container_def)
  moreover have "memo_step hs r (Suc (r x)) ml ml2" by (rule memo_step_trans [OF s1'' 2(2)])
  moreover have "sim n U hs [x] (set ml) (''('' @ w1 @ code @ PUT_code x @ w2) (set ml2)"
  proof (rule sim_container [where H = H and ?gs1.0 = "take i gs" and ?gs2.0 = "drop i gs", OF x(1,2) x1])
    show "sim n U hs (concat (take i gs)) (set ml) w1 (set ml1)" using 1(1) by (simp add: codes_def)
    show "fills n U hs x H (take i gs) (drop i gs) (insert x (set ml1)) w2 (set ml2)" using 2(3) by simp
  qed (use make 1(2) H final in auto)
  ultimately show ?thesis unfolding codes_def by blast
qed

lemma safe_tuple: "hs ! c = PTuple xs \<Longrightarrow> safe (Suc d) hs c = all_res (safe d hs) xs"
  by simp

lemma safe_atom: "\<not> container (hs ! c) \<Longrightarrow> (\<And>xs. hs ! c \<noteq> PTuple xs) \<Longrightarrow> \<exists>b. safe (Suc d) hs c = Inr b"
  by (cases "hs ! c") (auto simp: container_def)

lemma safe_container: "container (hs ! c) \<Longrightarrow> safe (Suc d) hs c = Inr False"
  by (cases "hs ! c") (simp_all add: container_def)

lemma tuple_parts:
  assumes "node_ok n E hs r c" "hs ! c = PTuple xs"
  shows "list_all (\<lambda>y. y < length hs \<and> r y < r c) xs"
  using assms by (auto simp: node_ok_def list_all_iff container_def)

lemma safe_value:
  assumes pk: "picklable n E hs r"
  shows "c < length hs \<Longrightarrow> r c < d \<Longrightarrow> \<exists>b. safe d hs c = Inr b \<and> (b \<longrightarrow> \<not> container (hs ! c))"
proof (induction d arbitrary: c)
  case (Suc d)
  note node = picklable_node [OF pk Suc.prems(1)]
  consider (tuple) xs where "hs ! c = PTuple xs" | (cont) "container (hs ! c)"
    | (atom) "\<not> container (hs ! c)" "\<And>xs. hs ! c \<noteq> PTuple xs" by blast
  then show ?case
  proof cases
    case tuple
    have "\<exists>b. safe d hs y = Inr b \<and> (b \<longrightarrow> True)" if y: "y \<in> set xs" for y
    proof -
      from tuple_parts [OF node tuple] y have "y < length hs" "r y < r c" by (simp_all add: list_all_iff)
      with Suc.prems(2) Suc.IH [of y] show ?thesis by auto
    qed
    then have "list_all (\<lambda>y. \<exists>b. safe d hs y = Inr b \<and> (b \<longrightarrow> True)) xs" by (simp add: list_all_iff)
    from all_res_all [OF this] tuple show ?thesis by (auto simp: container_def)
  next
    case cont
    with safe_container [OF cont, of d] show ?thesis by blast
  next
    case atom
    with safe_atom [OF atom, of d] show ?thesis by blast
  qed
qed simp

lemma data_only_picklable: "picklable n E h r \<Longrightarrow> data_only h"
  unfolding data_only_def by (auto dest!: picklable_node simp: node_ok_def split: pyobj.splits)

lemma save_memo:
  "pe_persistent_id E x \<in> {None, Some []} \<Longrightarrow> x \<in> set ml \<Longrightarrow> writes (save (Suc d) E hs x) ml (GET_code x) ml"
  by (auto simp: writes_def bindA_def pk_write_def)

lemma save_new:
  "pe_persistent_id E x \<in> {None, Some []} \<Longrightarrow> x \<notin> set (pk_memo p) \<Longrightarrow>
    save (Suc d) E hs x p =
      (case hs ! x of
         PNone \<Rightarrow> save_none
       | PInt i \<Rightarrow> save_int i
       | PLong i \<Rightarrow> save_long i
       | PFloat v \<Rightarrow> save_float E v
       | PStr s \<Rightarrow> save_string x s
       | PTuple xs \<Rightarrow> save_tuple (save d E hs) x xs
       | PList xs \<Rightarrow> save_list (safe d hs) (save d E hs) x xs
       | PDict items \<Rightarrow> save_dict (safe d hs) (save d E hs) x items
       | PInst cls attrs \<Rightarrow> save_inst E hs (save d E hs) x cls attrs
       | PClass name \<Rightarrow> save_class E x name
       | POther tname \<Rightarrow> raiseA (PicklingError (''can't pickle '' @ string_repr tname @ '' objects''))) p"
  by (auto simp: bindA_def split: pyobj.split)

lemma save_writes_new:
  assumes "pe_persistent_id E x \<in> {None, Some []}" "x \<notin> set ml" "codes n U hs r act xs K ml w ml'"
    and "\<And>p. x \<notin> set (pk_memo p) \<Longrightarrow> save (Suc d) E hs x p = act p"
  shows "codes n U hs r (save (Suc d) E hs x) xs K ml w ml'"
  using assms(2-4) by (simp add: codes_def writes_def del: save.simps)

lemma codes_atom:
  assumes "set ml \<subseteq> {..<length hs}" "x < length hs" "\<not> shared (hs ! x)" "\<And>R. rel_pyobj (=) R (hs ! x) ob"
    and "\<And>mk st m h t. up_runs n U (conf mk st m h (w @ t)) (conf mk (st @ [length h]) m (h @ [ob]) t)"
  shows "codes n U hs r (pk_write w) [x] K ml w ml"
  using sim_new [OF assms(2-5)] writes_write assms(1) unfolding codes_def memo_step_def by blast

lemma codes_string:
  assumes lits: "literal_laws (ue_lits U)" and ml: "set ml \<subseteq> {..<length hs}"
    and x: "x < length hs" "hs ! x = PStr s" "x \<notin> set ml" "r x < K"
  shows "codes n U hs r (save_string x s) [x] K ml (''S'' @ string_repr s @ [NL] @ PUT_code x) (x # ml)"
proof -
  have "writes (save_string x s) ml ((''S'' @ string_repr s @ [NL]) @ PUT_code x @ []) (x # ml)"
    unfolding save_string_def by (rule writes_then [OF writes_write writes_then [OF writes_write writes_remember]])
  moreover have "memo_step hs r K ml (x # ml)" using x ml by (auto simp: memo_step_def)
  ultimately show ?thesis using sim_string [OF lits x(1-3)] by (simp add: codes_def)
qed

lemma codes_list:
  assumes ml: "set ml \<subseteq> {..<length hs}" and x: "x < length hs" "hs ! x = PList xs" "x \<notin> set ml"
    and sf: "list_all (\<lambda>c. \<exists>b. sf c = Inr b \<and> (b \<longrightarrow> codable n U hs r sv (r x) ml c)) xs"
    and unsafe: "list_all (codable n U hs r sv (Suc (r x)) (x # ml)) xs"
  shows "\<exists>w ml'. codes n U hs r (save_list sf sv x xs) [x] (Suc (r x)) ml w ml'"
  unfolding save_list_def
proof (rule codes_container [where H = holds_list, OF ml x(1) _ x(3)])
  show "list_all (\<lambda>c. \<exists>b. sf c = Inr b \<and> (b \<longrightarrow> codable n U hs r sv (r x) ml c)) (concat (map (\<lambda>x. [x]) xs))"
    using sf by simp
  show "list_all (codable n U hs r sv (Suc (r x)) (x # ml)) (concat (map (\<lambda>x. [x]) xs))"
    using unsafe by simp
  show "\<exists>ob. up_runs n U (conf mk (st @ mk # bs) m h (''l'' @ t)) (conf mk (st @ [length h]) m (h @ [ob]) t) \<and>
      holds_list R ob (take i (map (\<lambda>x. [x]) xs))"
    if "list_all2 R (concat (take i (map (\<lambda>x. [x]) xs))) bs" "mk \<notin> set bs" for mk st m h t R bs i
    by (rule list_make [OF that])
  show "rel_pyobj (=) R (hs ! x) ob" if "holds_list R ob (map (\<lambda>x. [x]) xs)" for R ob
    using list_final [OF that] x(2) by simp
qed (simp_all add: x(2) container_def holds_list_grows list_adds)

lemma codes_dict:
  assumes ml: "set ml \<subseteq> {..<length hs}" and x: "x < length hs" "hs ! x = PDict items" "x \<notin> set ml"
    and keys: "distinct_keys n (ue_lits U) hs items" and d: "data_only hs"
    and sf: "list_all (\<lambda>c. \<exists>b. sf c = Inr b \<and> (b \<longrightarrow> codable n U hs r sv (r x) ml c)) (concat (pair_groups items))"
    and unsafe: "list_all (codable n U hs r sv (Suc (r x)) (x # ml)) (concat (pair_groups items))"
  shows "\<exists>w ml'. codes n U hs r (save_dict sf sv x items) [x] (Suc (r x)) ml w ml'"
  unfolding save_dict_def
proof (rule codes_container [where H = "holds_dict items", OF ml x(1) _ x(3) sf unsafe])
  show "\<exists>ob. up_runs n U (conf mk (st @ mk # bs) m h (''d'' @ t)) (conf mk (st @ [length h]) m (h @ [ob]) t) \<and>
      holds_dict items R ob (take i (pair_groups items))"
    if "graph_inv mk hs R P M m h" "i \<le> length (pair_groups items)"
      "list_all2 R (concat (take i (pair_groups items))) bs" "mk \<notin> set bs" for mk st m h t R P M bs i
    using dict_make [OF keys d _ that(1) _ that(4), of i] that(2,3) by (simp add: take_map)
  show "adds n U hs x (holds_dict items) ''s'' (take i (pair_groups items)) (pair_groups items ! i)"
    if "i < length (pair_groups items)" for i
    using dict_adds [OF keys d, of i "fst (items ! i)" "snd (items ! i)" x] that
    by (simp add: take_map split_beta)
  show "rel_pyobj (=) R (hs ! x) ob" if "holds_dict items R ob (pair_groups items)" for R ob
    using dict_final [OF that] x(2) by simp
qed (simp_all add: x(2) container_def holds_dict_grows)

lemma parts_ok:
  assumes "node_ok n E hs r x" "c \<in> set (concat (item_groups (hs ! x)))"
  shows "c < length hs" "r c \<le> r x" "\<not> (container (hs ! x) \<and> container (hs ! c)) \<Longrightarrow> r c < r x"
proof -
  have "c < length hs \<and> r c \<le> r x \<and> (if container (hs ! x) \<and> container (hs ! c) then True else r c < r x)"
    using assms unfolding node_ok_def list_all_iff by blast
  then show "c < length hs" "r c \<le> r x" "\<not> (container (hs ! x) \<and> container (hs ! c)) \<Longrightarrow> r c < r x"
    by simp_all
qed

text \<open>
  The depth of recursion: what is not remembered yet bounds the number of containers that
  can still be entered, the rank the way down between them.
\<close>

lemma codes_components:
  assumes IH: "\<And>c ml'. c < length hs \<Longrightarrow> set ml' \<subseteq> {..<length hs} \<Longrightarrow> r c + card ({..<length hs} - set ml') < d \<Longrightarrow>
      \<exists>w ml''. codes n U hs r (save d E hs c) [c] (Suc (r c)) ml' w ml''"
    and c: "c < length hs" "r c < K" "set ml \<subseteq> {..<length hs}" "r c + card ({..<length hs} - set ml) < d"
  shows "codable n U hs r (save d E hs) K ml c"
  unfolding codable_def
proof (intro allI impI)
  fix ml1 assume s: "memo_step hs r K ml ml1"
  then have "card ({..<length hs} - set ml1) \<le> card ({..<length hs} - set ml)"
    by (intro card_mono) (auto simp: memo_step_def)
  with c(4) have "r c + card ({..<length hs} - set ml1) < d" by simp
  with IH [OF c(1), of ml1] s obtain w ml2 where "codes n U hs r (save d E hs c) [c] (Suc (r c)) ml1 w ml2"
    by (auto simp: memo_step_def)
  moreover have "Suc (r c) \<le> K" using c(2) by simp
  ultimately have "codes n U hs r (save d E hs c) [c] K ml1 w ml2"
    unfolding codes_def by (blast intro: memo_step_mono)
  then show "\<exists>w ml2. codes n U hs r (save d E hs c) [c] K ml1 w ml2" by blast
qed

theorem save_codes:
  fixes U :: "'x unpickle_env"
  assumes pk: "picklable n E hs r" and lits: "literal_laws (ue_lits U)" "pe_lits E = ue_lits U"
  shows "x < length hs \<Longrightarrow> set ml \<subseteq> {..<length hs} \<Longrightarrow> r x + card ({..<length hs} - set ml) < d \<Longrightarrow>
    \<exists>w ml'. codes n U hs r (save d E hs x) [x] (Suc (r x)) ml w ml'"
proof (induction d arbitrary: x ml)
  case (Suc d)
  note node = picklable_node [OF pk Suc.prems(1)]
  have pid: "pe_persistent_id E x \<in> {None, Some []}" using node by (simp add: node_ok_def)
  show ?case
  proof (cases "x \<in> set ml")
    case True
    from save_memo [OF pid True] sim_get [OF True, of n U hs] Suc.prems(2)
    show ?thesis unfolding codes_def memo_step_def by blast
  next
    case new: False
    let ?free = "\<lambda>ml. {..<length hs} - set ml"
    have "card (?free (x # ml)) < card (?free ml)"
      using new Suc.prems(1) by (intro psubset_card_mono) auto
    then have depth: "r x + card (?free (x # ml)) < d" "r x + card (?free ml) \<le> d" using Suc.prems(3) by simp_all
    have low: "codable n U hs r (save d E hs) (r x) ml c" if "c \<in> set (concat (item_groups (hs ! x)))" "r c < r x" for c
      using codes_components [OF Suc.IH parts_ok(1) [OF node that(1)] that(2) Suc.prems(2)] that(2) depth(2) by simp
    have inner: "codable n U hs r (save d E hs) (Suc (r x)) (x # ml) c" if "c \<in> set (concat (item_groups (hs ! x)))" for c
      using codes_components [OF Suc.IH parts_ok(1) [OF node that], where K = "Suc (r x)" and ml = "x # ml"] Suc.prems(1,2)
        parts_ok(2) [OF node that] depth(1) by simp
    have safe_low: "\<exists>b. safe d hs c = Inr b \<and> (b \<longrightarrow> codable n U hs r (save d E hs) (r x) ml c)"
      if "c \<in> set (concat (item_groups (hs ! x)))" for c
    proof -
      have "r c < d" using parts_ok(2) [OF node that] depth(1) by simp
      from safe_value [OF pk parts_ok(1) [OF node that] this] parts_ok(3) [OF node that] low [OF that]
      show ?thesis by blast
    qed
    have goal: "\<exists>w ml'. codes n U hs r (save (Suc d) E hs x) [x] (Suc (r x)) ml w ml'"
      if "codes n U hs r act [x] (Suc (r x)) ml w ml'" "\<And>p. x \<notin> set (pk_memo p) \<Longrightarrow> save (Suc d) E hs x p = act p"
      for act w ml'
      using save_writes_new [OF pid new that] by blast
    note saved = save_new [OF pid, of _ d hs]
    note atom = codes_atom [OF Suc.prems(2,1)]
    show ?thesis
    proof (cases "hs ! x")
      case PNone
      have "codes n U hs r save_none [x] (Suc (r x)) ml ''N'' ml"
        unfolding save_none_def by (rule atom [where ob = PNone]) (use PNone run_none in \<open>simp_all add: shared_def\<close>)
      then show ?thesis by (rule goal) (simp add: saved PNone del: save.simps)
    next
      case (PInt i)
      have range: "- lit_maxint (ue_lits U) - 1 \<le> i" "i \<le> lit_maxint (ue_lits U)"
        using node PInt lits(2) by (simp_all add: node_ok_def)
      have "codes n U hs r (save_int i) [x] (Suc (r x)) ml (''I'' @ int_repr i @ [NL]) ml"
        unfolding save_int_def
        by (rule atom [where ob = "PInt i"]) (use PInt run_int [OF lits(1) range] in \<open>simp_all add: shared_def\<close>)
      then show ?thesis by (rule goal) (simp add: saved PInt del: save.simps)
    next
      case (PLong i)
      have "codes n U hs r (save_long i) [x] (Suc (r x)) ml (''L'' @ (int_repr i @ ''L'') @ [NL]) ml"
        unfolding save_long_def
        by (rule atom [where ob = "PLong i"]) (use PLong run_long [OF lits(1)] in \<open>simp_all add: shared_def\<close>)
      then show ?thesis by (rule goal) (simp add: saved PLong del: save.simps)
    next
      case (PFloat v)
      have fl: "lit_atof (ue_lits U) (lit_float_repr (pe_lits E) v) = Inr v" "NL \<notin> set (lit_float_repr (pe_lits E) v)"
        using node PFloat lits(2) by (simp_all add: node_ok_def)
      have "codes n U hs r (save_float E v) [x] (Suc (r x)) ml (''F'' @ lit_float_repr (pe_lits E) v @ [NL]) ml"
        unfolding save_float_def
        by (rule atom [where ob = "PFloat v"]) (use PFloat run_float [OF fl] in \<open>simp_all add: shared_def\<close>)
      then show ?thesis by (rule goal) (simp add: saved PFloat del: save.simps)
    next
      case (PStr s)
      show ?thesis
        by (rule goal [OF codes_string [OF lits(1) Suc.prems(2,1) PStr new lessI]]) (simp add: saved PStr del: save.simps)
    next
      case (PTuple xs)
      have parts: "set (concat (item_groups (hs ! x))) = set xs" using PTuple by simp
      have "list_all (codable n U hs r (save d E hs) (r x) ml) xs"
        using low tuple_parts [OF node PTuple] unfolding parts list_all_iff by blast
      from codes_tuple [OF Suc.prems(2) this Suc.prems(1) PTuple new order_refl] obtain w ml' where
        "codes n U hs r (save_tuple (save d E hs) x xs) [x] (Suc (r x)) ml w ml'" by blast
      then show ?thesis by (rule goal) (simp add: saved PTuple del: save.simps)
    next
      case (PList xs)
      have parts: "set (concat (item_groups (hs ! x))) = set xs" using PList by simp
      from codes_list [OF Suc.prems(2,1) PList new, of "safe d hs" n U r "save d E hs"] inner safe_low
      obtain w ml' where "codes n U hs r (save_list (safe d hs) (save d E hs) x xs) [x] (Suc (r x)) ml w ml'"
        unfolding parts list_all_iff by blast
      then show ?thesis by (rule goal) (simp add: saved PList del: save.simps)
    next
      case (PDict items)
      have parts: "concat (item_groups (hs ! x)) = concat (pair_groups items)" using PDict by simp
      have keys: "distinct_keys n (ue_lits U) hs items"
        using node PDict lits(2) by (simp add: node_ok_def distinct_keys_def)
      from codes_dict [OF Suc.prems(2,1) PDict new keys data_only_picklable [OF pk], of "safe d hs" r "save d E hs"] inner safe_low
      obtain w ml' where "codes n U hs r (save_dict (safe d hs) (save d E hs) x items) [x] (Suc (r x)) ml w ml'"
        unfolding parts list_all_iff by blast
      then show ?thesis by (rule goal) (simp add: saved PDict del: save.simps)
    qed (use node in \<open>simp_all add: node_ok_def\<close>)
  qed
qed simp

subsection \<open>Every load ends\<close>

text \<open>A round of the loop reads at least one byte, so as many rounds as there are bytes are enough.\<close>

definition reads :: "('x, 'a) loading \<Rightarrow> bool" where
  \<comment> \<open>never gives back what was read\<close>
  "reads act \<longleftrightarrow> (\<forall>u. length (up_in (snd (act u))) \<le> length (up_in u))"

named_theorems reading

lemma readsI: "(\<And>u. length (up_in (snd (act u))) \<le> length (up_in u)) \<Longrightarrow> reads act"
  by (simp add: reads_def)

lemma reads_bindA [reading]: "reads act \<Longrightarrow> (\<And>a. reads (f a)) \<Longrightarrow> reads (bindA act f)"
proof (rule readsI)
  fix u
  assume a: "reads act" "\<And>a. reads (f a)"
  obtain r v where v: "act u = (r, v)" by fastforce
  from a(1) v have "length (up_in v) \<le> length (up_in u)" by (metis reads_def snd_conv)
  moreover have "length (up_in (snd (f b v))) \<le> length (up_in v)" for b using a(2) by (simp add: reads_def)
  ultimately show "length (up_in (snd (bindA act f u))) \<le> length (up_in u)"
    using v by (cases r) (auto simp: bindA_def intro: order_trans)
qed

lemma reads_thenA [reading]: "reads act \<Longrightarrow> reads act' \<Longrightarrow> reads (thenA act act')"
proof -
  have "thenA act act' = bindA act (\<lambda>_. act')" by (rule ext) (simp add: thenA_def bindA_def)
  then show "reads act \<Longrightarrow> reads act' \<Longrightarrow> reads (thenA act act')" by (simp add: reads_bindA)
qed

lemma reads_basic [reading]:
  "reads (retA a)" "reads (raiseA e)" "reads (getA g)" "reads (liftA v)"
  "reads (up_push b)" "reads (up_new ob)" "reads (up_heap_act k)" "reads up_line" "reads up_top" "reads up_drop"
  "reads up_marker" "reads (up_set b ob)"
  by (auto simp: reads_def retA_def raiseA_def getA_def liftA_def updA_def up_push_def up_new_def up_heap_act_def
    up_line_def up_top_def up_drop_def up_marker_def up_set_def Let_def split: prod.split sum.split)

lemma reads_forA [reading]: "(\<And>x. reads (f x)) \<Longrightarrow> reads (forA f xs)"
  by (induction xs) (simp_all add: reading)

lemma reads_pop [reading]: "reads up_pop"
  unfolding up_pop_def by (intro reading)

lemma reads_above_mark [reading]: "reads up_above_mark"
  unfolding up_above_mark_def by (intro reading) (simp add: reads_def)

lemma reads_set_item [reading]: "reads (set_item n E a k v)"
  unfolding set_item_def by (intro reading)

lemma reads_put [reading]: "reads load_put"
  unfolding load_put_def by (intro reading) (simp add: reads_def updA_def)

lemma reads_find_class [reading]: "reads (find_class E module name)"
  by (auto simp: reads_def find_class_def split: prod.split option.split)

lemma reads_handlers [reading]:
  "reads load_none" "reads (load_int E)" "reads (load_long E)" "reads (load_float E)" "reads (load_string E)"
  "reads (load_persid E)" "reads load_tuple" "reads load_list" "reads (load_dict n E)" "reads (load_inst E)"
  "reads (load_class E)" "reads load_dup"
  unfolding load_none_def load_int_def load_long_def load_float_def load_string_def load_persid_def load_tuple_def
    load_list_def load_dict_def load_inst_def load_class_def load_dup_def
  by (intro reading)+

lemma reads_get [reading]: "reads load_get"
  unfolding load_get_def by (intro reading) (auto split: option.split intro: reading)

lemma reads_append [reading]: "reads load_append"
  unfolding load_append_def by (intro reading) (auto split: pyobj.split intro: reading)

lemma reads_set_attr [reading]: "reads (set_attr n E a kv)"
  unfolding set_attr_def by (cases kv) (simp add: reading)

lemma reads_build [reading]: "reads (load_build n E)"
  unfolding load_build_def by (intro reading) (auto split: option.split pyobj.split intro!: reading)

lemma reads_setitem [reading]: "reads (load_setitem n E)"
  unfolding load_setitem_def by (intro reading)

lemma reads_go_on [reading]: "reads m \<Longrightarrow> reads (go_on m)"
  unfolding go_on_def by (intro reading)

lemma reads_dispatch: "reads (dispatch n E key)"
  unfolding dispatch_def by (simp add: reading)

lemma load_step_reads:
  assumes "load_step n E u = (Inr None, v)"
  shows "length (up_in v) < length (up_in u)"
proof (cases "up_in u")
  case Nil
  with assms show ?thesis by (simp add: load_step_def bindA_def up_read1_def dispatch_def)
next
  case (Cons c cs)
  from reads_dispatch [of n E "[c]"] have
    "length (up_in (snd (dispatch n E [c] (u\<lparr>up_in := cs\<rparr>)))) \<le> length (up_in (u\<lparr>up_in := cs\<rparr>))"
    unfolding reads_def by blast
  with assms Cons show ?thesis by (simp add: load_step_def bindA_def up_read1_def)
qed

lemma load_loop_total: "length (up_in u) < fuel \<Longrightarrow> load_loop fuel n E u \<noteq> None"
proof (induction fuel arbitrary: u)
  case (Suc fuel)
  obtain r v where step: "load_step n E u = (r, v)" by fastforce
  show ?case
  proof (cases "r = Inr None")
    case True
    with load_step_reads [of n E u v] step Suc.prems have "length (up_in v) < fuel" by simp
    with Suc.IH step True show ?thesis by simp
  qed (use step in \<open>auto split: sum.split option.split\<close>)
qed simp

lemma load_loop_runs:
  assumes "up_runs n E u v" "load_step n E v = (Inr (Some a), w)" "load_loop fuel n E u \<noteq> None"
  shows "load_loop fuel n E u = Some (Inr a, w)"
  using assms
proof (induction arbitrary: fuel rule: up_runs.induct)
  case (up_refl u)
  then show ?case by (cases fuel) auto
next
  case (up_step u v w')
  then show ?case by (cases fuel) auto
qed

theorem loads_total: "loads n E s \<noteq> None"
  unfolding loads_def unpickler_load_def option.map_disc_iff by (rule load_loop_total) (simp add: unpickler_init_def)

subsection \<open>The round trip\<close>

definition same_graph :: "'x heap \<Rightarrow> (nat \<Rightarrow> nat \<Rightarrow> bool) \<Rightarrow> 'x heap \<Rightarrow> bool" where
  \<comment> \<open>related objects are equal up to the relation, which keeps shared objects shared and distinct ones distinct\<close>
  "same_graph hs R ht \<longleftrightarrow>
     (\<forall>a b. R a b \<longrightarrow> a < length hs \<and> b < length ht \<and> rel_pyobj (=) R (hs ! a) (ht ! b)) \<and>
     (\<forall>a a' b. R a b \<longrightarrow> R a' b \<longrightarrow> a = a') \<and>
     (\<forall>a b b'. R a b \<longrightarrow> R a b' \<longrightarrow> shared (hs ! a) \<longrightarrow> b = b')"

lemma graph_inv_same:
  assumes inv: "graph_inv mk hs R {} M m ht"
  shows "same_graph hs R ht"
  unfolding same_graph_def
proof (intro conjI allI impI)
  fix a b assume ab: "R a b"
  show "a < length hs" "b < length ht" using inv_bounds [OF inv ab] by simp_all
  show "rel_pyobj (=) R (hs ! a) (ht ! b)" using inv_node [OF inv ab] by simp
  show "a = a'" if "R a' b" for a' using inv_inj [OF inv ab that] .
  show "b = b'" if "R a b'" "shared (hs ! a)" for b'
    using inv_shared(2) [OF inv ab that(2)] inv_shared(2) [OF inv that] by simp
qed

lemma graph_inv_start: "graph_inv (length h + 1) hs (\<lambda>_ _. False) {} {} (\<lambda>_. None) (h @ [PStr ''spam'', PList [length h]])"
  by (simp add: graph_inv_def)

lemma step_stop: "load_step n U (conf mk [b] m h ''.'') = (Inr (Some b), conf mk [] m h [])"
  by (simp add: up_defs)

text \<open>The unpickler may run on any heap: it keeps the objects it finds.\<close>

theorem roundtrip_heap:
  fixes U :: "'x unpickle_env" and h :: "'x heap"
  assumes pk: "picklable n E hs r" and lits: "literal_laws (ue_lits U)" "pe_lits E = ue_lits U"
    and x: "x < length hs" "r x + length hs < depth"
  shows "\<exists>out u e b R. dumps depth E hs x = Inr out \<and> unpickler_load n U (unpickler_init h out) = Some (Inr b, u) \<and>
    up_heap u = h @ e \<and> R x b \<and> same_graph hs R (h @ e)"
proof -
  have "r x + card ({..<length hs} - set []) < depth" using x(2) by simp
  from save_codes [OF pk lits x(1) _ this] obtain w ml where
    c: "writes (save depth E hs x) [] w ml" "sim n U hs [x] {} w (set ml)"
    by (auto simp: codes_def)
  from writes_then [OF c(1) writes_write] have "writes (pickler_dump depth E hs x) [] (w @ ''.'') ml"
    unfolding pickler_dump_def by simp
  then have out: "dumps depth E hs x = Inr (w @ ''.'')"
    by (simp add: dumps_def writes_def pickler_init_def)
  let ?mk = "length h + 1" and ?h = "h @ [PStr ''spam'', PList [length h]]"
  from simE [OF c(2) graph_inv_start [of h], of "[]" "''.''"] obtain R m e bs where
    1: "up_runs n U (conf ?mk [] (\<lambda>_. None) ?h (w @ ''.'')) (conf ?mk ([] @ bs) m (?h @ e) ''.'')"
      "list_all2 R [x] bs" "graph_inv ?mk hs R {} (set ml) m (?h @ e)" .
  from 1(2) obtain b where b: "bs = [b]" "R x b" by (auto simp: list_all2_Cons1)
  from 1(1) b(1) have run: "up_runs n U (conf ?mk [] (\<lambda>_. None) ?h (w @ ''.'')) (conf ?mk [b] m (?h @ e) ''.'')" by simp
  from load_loop_runs [OF run step_stop load_loop_total [OF lessI]]
  have "unpickler_load n U (unpickler_init h (w @ ''.'')) = Some (Inr b, conf ?mk [] m (?h @ e) [])"
    by (simp add: unpickler_init_def unpickler_load_def)
  with out b(2) graph_inv_same [OF 1(3)] show ?thesis
    by (intro exI [of _ "w @ ''.''"] exI [of _ "conf ?mk [] m (?h @ e) []"] exI [of _ "[PStr ''spam'', PList [length h]] @ e"]
      exI [of _ b] exI [of _ R]) simp
qed

theorem roundtrip:
  fixes U :: "'x unpickle_env"
  assumes "picklable n E hs r" "literal_laws (ue_lits U)" "pe_lits E = ue_lits U" "x < length hs" "r x + length hs < depth"
  shows "\<exists>out ht b R. dumps depth E hs x = Inr out \<and> loads n U out = Some (Inr b, ht) \<and> R x b \<and> same_graph hs R ht"
proof -
  from roundtrip_heap [OF assms, of "[]"] obtain out u e b R where
    "dumps depth E hs x = Inr out" "unpickler_load n U (unpickler_init [] out) = Some (Inr b, u)"
    "up_heap u = e" "R x b" "same_graph hs R e" by auto
  then show ?thesis unfolding loads_def by (intro exI [of _ out] exI [of _ e] exI [of _ b] exI [of _ R]) simp
qed

subsection \<open>Where the round trip fails\<close>

text \<open>
  A tuple that is reached again from its own items is written by the inner call; the outer one
  takes the items off the stack but not the mark below them.  The tuple \<open>(1, t)\<close> with
  \<open>t = ([t],)\<close> comes back without its first item.
\<close>

definition recursive_tuple :: "unit heap" where
  "recursive_tuple = [PInt 1, PTuple [2], PList [1], PTuple [0, 1]]"

lemma recursive_tuple_text:
  "dumps 9 data_pickle_env recursive_tuple 3 =
    Inr (''(I1'' @ [NL] @ ''((lp2'' @ [NL] @ ''(g2'' @ [NL] @ ''tp1'' @ [NL] @ ''a0g1'' @ [NL] @ ''tp3'' @ [NL] @ ''.'')"
  by code_simp

lemma recursive_tuple_loses_item:
  "(case loads 9 data_unpickle_env
      (''(I1'' @ [NL] @ ''((lp2'' @ [NL] @ ''(g2'' @ [NL] @ ''tp1'' @ [NL] @ ''a0g1'' @ [NL] @ ''tp3'' @ [NL] @ ''.'') of
     Some (Inr b, h) \<Rightarrow> h ! b = PTuple [4] \<and> h ! 4 = PTuple [3] \<and> h ! 3 = PList [4] | _ \<Rightarrow> False)"
  by code_simp

lemma dup_raises: "load_step n U (conf mk st m h (''2'' @ t)) = (Inl (ModError ''NameError'' ''stack''), conf mk st m h t)"
  by (simp add: up_defs load_dup_def)

lemma safe_long: "safe (Suc n) [PLong i] 0 = Inr False"
  by simp

end
