(* ===== verification/Dict_Laws.thy ===== *)
theory Dict_Laws
  imports Py_Prelude
begin

section \<open>Dictionaries of strings\<close>

text \<open>
  The dictionary interface that database modules provide and \<open>shelve\<close> uses, and its contract: the
  object stands for a map from strings to strings.
\<close>

record 'd dict_ops =
  do_getitem :: "string \<Rightarrow> ('d, string) act"
  do_setitem :: "string \<Rightarrow> string \<Rightarrow> ('d, unit) act"
  do_delitem :: "string \<Rightarrow> ('d, unit) act"
  do_has_key :: "string \<Rightarrow> ('d, bool) act"
  do_keys :: "('d, string list) act"
  do_len :: "('d, int) act"
  do_close :: "('d, unit) act"

locale string_dict =
  fixes ops :: "'d dict_ops"
    and ok :: "'d \<Rightarrow> bool"
    and dmap :: "'d \<Rightarrow> string \<Rightarrow> string option"
  assumes getitem: "ok d \<Longrightarrow> do_getitem ops key d = (case dmap d key of None \<Rightarrow> Inl KeyError | Some v \<Rightarrow> Inr v, d)"
    and setitem: "ok d \<Longrightarrow> \<exists>d'. do_setitem ops key v d = (Inr (), d') \<and> ok d' \<and> dmap d' = (dmap d)(key \<mapsto> v)"
    and delitem: "ok d \<Longrightarrow> \<exists>d'. do_delitem ops key d = (if dmap d key = None then Inl KeyError else Inr (), d') \<and>
      ok d' \<and> dmap d' = (dmap d)(key := None)"
    and has_key: "ok d \<Longrightarrow> do_has_key ops key d = (Inr (dmap d key \<noteq> None), d)"
    and keys: "ok d \<Longrightarrow> \<exists>ks. do_keys ops d = (Inr ks, d) \<and> distinct ks \<and> set ks = dom (dmap d)"
    and size: "ok d \<Longrightarrow> do_len ops d = (Inr (int (card (dom (dmap d)))), d)"
begin

text \<open>A sequence of updates does to the object what it does to the map.\<close>

lemma set_then_get: "ok d \<Longrightarrow> bindA (do_setitem ops key v) (\<lambda>_. do_getitem ops key') d =
    (case ((dmap d)(key \<mapsto> v)) key' of None \<Rightarrow> Inl KeyError | Some w \<Rightarrow> Inr w, snd (do_setitem ops key v d))"
  using setitem [of d key v] getitem by (auto simp: bindA_def)

end

text \<open>Calls that change a dictionary, and what they do to the map.\<close>

datatype dict_call = SetItem string string | DelItem string

primrec run_call :: "'d dict_ops \<Rightarrow> dict_call \<Rightarrow> ('d, unit) act" where
  "run_call ops (SetItem k v) = do_setitem ops k v"
| "run_call ops (DelItem k) = do_delitem ops k"

primrec map_call :: "dict_call \<Rightarrow> (string \<Rightarrow> string option) \<Rightarrow> string \<Rightarrow> string option" where
  "map_call (SetItem k v) m = m(k \<mapsto> v)"
| "map_call (DelItem k) m = m(k := None)"

primrec map_calls :: "dict_call list \<Rightarrow> (string \<Rightarrow> string option) \<Rightarrow> string \<Rightarrow> string option" where
  "map_calls [] m = m"
| "map_calls (c # cs) m = map_calls cs (map_call c m)"

primrec dict_calls :: "'d dict_ops \<Rightarrow> dict_call list \<Rightarrow> 'd \<Rightarrow> 'd" where
  \<comment> \<open>a caller that goes on after a \<open>KeyError\<close>\<close>
  "dict_calls ops [] d = d"
| "dict_calls ops (c # cs) d = dict_calls ops cs (snd (run_call ops c d))"

context string_dict
begin

lemma calls_refine: "ok d \<Longrightarrow> ok (dict_calls ops cs d) \<and> dmap (dict_calls ops cs d) = map_calls cs (dmap d)"
proof (induction cs arbitrary: d)
  case (Cons c cs)
  have "ok (snd (run_call ops c d)) \<and> dmap (snd (run_call ops c d)) = map_call c (dmap d)"
  proof (cases c)
    case (SetItem k v)
    with setitem [OF Cons.prems, of k v] show ?thesis by auto
  next
    case (DelItem k)
    with delitem [OF Cons.prems, of k] show ?thesis by auto
  qed
  with Cons.IH show ?case by simp
qed simp

end

end
