(* ===== verification/Dumbdbm.thy ===== *)
theory Dumbdbm
  imports Literals Files Dict_Laws "HOL-Library.AList"
begin

section \<open>\<open>Lib/dumbdbm.py\<close>: a dictionary of strings kept in files\<close>

text \<open>
  The object holds its index in memory, the files a directory (lines of text, the last line of a
  key counts) and the data in blocks.  The file system is a map from names to contents, part of the
  state; built-in files are those of \<open>Files\<close>.  A dictionary is an association list, so
  \<open>items()\<close> has an order.
\<close>

subsection \<open>Lines of the directory\<close>

fun scan_quoted :: "char \<Rightarrow> string \<Rightarrow> (string \<times> string) option" where
  \<comment> \<open>the text up to the closing quote, and what follows it\<close>
  "scan_quoted q [] = None"
| "scan_quoted q (c # s) =
     (if c = q then Some ([], s)
      else if c = BSLASH then
        (case s of [] \<Rightarrow> None | d # t \<Rightarrow> map_option (\<lambda>(u, r). (c # d # u, r)) (scan_quoted q t))
      else map_option (\<lambda>(u, r). (c # u, r)) (scan_quoted q s))"

definition scan_nat :: "string \<Rightarrow> (nat \<times> string) option" where
  "scan_nat s =
     (let ds = takeWhile (\<lambda>c. c \<in> set digits) s
      in if ds = [] \<or> (take 1 ds = ''0'' \<and> ds \<noteq> ''0'') then None
         else Some (nat (dec_val ds), drop (length ds) s))"

definition scan_text :: "string \<Rightarrow> string \<Rightarrow> string option" where
  "scan_text t s = (if take (length t) s = t then Some (drop (length t) s) else None)"

definition eval_entry :: "string \<Rightarrow> (string \<times> nat \<times> nat) res" where
  \<comment> \<open>\<open>eval(line)\<close> of the lines the module writes; other expressions are not read\<close>
  "eval_entry line =
     (case (case line of
          [] \<Rightarrow> None
        | q # s \<Rightarrow> if q \<notin> {SQUOTE, DQUOTE} then None
            else Option.bind (scan_quoted q s) (\<lambda>(body, s).
              Option.bind (scan_text '', ('' s) (\<lambda>s.
              Option.bind (scan_nat s) (\<lambda>(pos, s).
              Option.bind (scan_text '', '' s) (\<lambda>s.
              Option.bind (scan_nat s) (\<lambda>(siz, s).
                if s \<in> {'')'', '')'' @ [NL]} then Some (unescape body, pos, siz) else None)))))) of
        None \<Rightarrow> Inl SyntaxError | Some e \<Rightarrow> Inr e)"

definition entry_line :: "string \<times> nat \<times> nat \<Rightarrow> string" where
  "entry_line = (\<lambda>(key, pos, siz).
     string_repr key @ '', ('' @ int_repr (int pos) @ '', '' @ int_repr (int siz) @ '')'' @ [NL])"

subsection \<open>The object and its files\<close>

type_synonym file_system = "string \<Rightarrow> string option"

record dumbdb =
  d_dirfile :: "string option"
  d_datfile :: "string option"
  d_bakfile :: "string option"
  d_index :: "(string \<times> nat \<times> nat) list option" \<comment> \<open>\<open>None\<close> after \<open>close\<close>\<close>
  d_files :: file_system

type_synonym 'a dumb_act = "(dumbdb, 'a) act"

definition no_file :: pyexc where
  "no_file = IOError ''No such file or directory''"

definition with_file :: "string option \<Rightarrow> string \<Rightarrow> (pyfile, 'a) act \<Rightarrow> 'a dumb_act" where
  \<comment> \<open>\<open>f = open(name, mode)\<close>, the calls on \<open>f\<close>, \<open>f.close()\<close>\<close>
  "with_file fname mode body = (\<lambda>d.
     case fname of
       None \<Rightarrow> (Inl TypeError, d)
     | Some n \<Rightarrow>
         let start = (if mode = ''w'' then Some \<lparr>f_data = [], f_pos = 0\<rparr>
             else if mode = ''a'' then Some (file_end (case d_files d n of None \<Rightarrow> [] | Some s \<Rightarrow> s))
             else map_option (\<lambda>s. \<lparr>f_data = s, f_pos = 0\<rparr>) (d_files d n))
         in case start of
              None \<Rightarrow> (Inl no_file, d)
            | Some f \<Rightarrow> let (r, f) = body f in (r, d\<lparr>d_files := (d_files d)(n \<mapsto> f_data f)\<rparr>))"

definition the_index :: "pyexc \<Rightarrow> ((string \<times> nat \<times> nat) list) dumb_act" where
  \<comment> \<open>what an operation on \<open>None\<close> raises differs\<close>
  "the_index e = (\<lambda>d. (case d_index d of None \<Rightarrow> Inl e | Some ix \<Rightarrow> Inr ix, d))"

definition index_set :: "string \<Rightarrow> nat \<times> nat \<Rightarrow> unit dumb_act" where
  \<comment> \<open>\<open>self._index[key] = (pos, siz)\<close>\<close>
  "index_set key v = bindA (the_index TypeError) (\<lambda>ix. updA (\<lambda>d. d\<lparr>d_index := Some (AList.update key v ix)\<rparr>))"

definition dumb_read_line :: "string \<Rightarrow> unit dumb_act" where
  "dumb_read_line line = bindA (liftA (eval_entry line)) (\<lambda>(key, v). index_set key v)"

definition dumb_update :: "unit dumb_act" where
  "dumb_update = thenA (updA (\<lambda>d. d\<lparr>d_index := Some []\<rparr>))
     (\<lambda>d. case d_dirfile d of
        None \<Rightarrow> (Inl TypeError, d)
      | Some n \<Rightarrow> (case d_files d n of
            None \<Rightarrow> (Inr (), d)
          | Some s \<Rightarrow> forA dumb_read_line (text_lines s) d))"

definition dumb_open :: "string \<Rightarrow> file_system \<Rightarrow> unit res \<times> dumbdb" where
  "dumb_open base fs =
     (let dat = base @ ''.dat'';
        fs = (if fs dat = None then fs(dat \<mapsto> []) else fs)
      in dumb_update \<lparr>d_dirfile = Some (base @ ''.dir''), d_datfile = Some dat, d_bakfile = Some (base @ ''.bak''),
           d_index = None, d_files = fs\<rparr>)"

definition dumb_commit :: "unit dumb_act" where
  "dumb_commit = (\<lambda>d.
     case (d_dirfile d, d_bakfile d) of
       (Some dir, Some bak) \<Rightarrow>
         let fs = (d_files d)(bak := None);
           fs = (case fs dir of None \<Rightarrow> fs | Some s \<Rightarrow> fs(bak \<mapsto> s, dir := None))
         in bindA (the_index AttributeError)
              (\<lambda>ix. with_file (Some dir) ''w'' (forA (\<lambda>e. pf_write (entry_line e)) ix)) (d\<lparr>d_files := fs\<rparr>)
     | _ \<Rightarrow> (Inl TypeError, d))"

definition dumb_getitem :: "string \<Rightarrow> string dumb_act" where
  "dumb_getitem key =
     bindA (the_index TypeError) (\<lambda>ix.
       case map_of ix key of
         None \<Rightarrow> raiseA KeyError
       | Some (pos, siz) \<Rightarrow> (\<lambda>d. with_file (d_datfile d) ''rb'' (thenA (pf_seek (int pos) 0) (pf_read (int siz))) d))"

definition BLOCKSIZE :: nat where
  "BLOCKSIZE = 512"

definition blocks :: "nat \<Rightarrow> nat" where
  "blocks n = (n + BLOCKSIZE - 1) div BLOCKSIZE"

definition dumb_addval :: "string \<Rightarrow> (nat \<times> nat) dumb_act" where
  "dumb_addval val = (\<lambda>d. with_file (d_datfile d) ''rb+''
     (thenA (pf_seek 0 2)
       (bindA pf_tell (\<lambda>p.
          let pos = nat p; npos = blocks pos * BLOCKSIZE
          in thenA (pf_write (replicate (npos - pos) NUL))
            (thenA (pf_write val) (retA (npos, length val)))))) d)"

definition dumb_setval :: "nat \<Rightarrow> string \<Rightarrow> (nat \<times> nat) dumb_act" where
  "dumb_setval pos val = (\<lambda>d. with_file (d_datfile d) ''rb+''
     (thenA (pf_seek (int pos) 0) (thenA (pf_write val) (retA (pos, length val)))) d)"

definition dumb_addkey :: "string \<Rightarrow> nat \<times> nat \<Rightarrow> unit dumb_act" where
  "dumb_addkey key v = thenA (index_set key v)
     (\<lambda>d. with_file (d_dirfile d) ''a'' (pf_write (entry_line (key, v))) d)"

definition dumb_has_key :: "string \<Rightarrow> bool dumb_act" where
  "dumb_has_key key = bindA (the_index AttributeError) (\<lambda>ix. retA (map_of ix key \<noteq> None))"

definition dumb_setitem :: "string \<Rightarrow> string \<Rightarrow> unit dumb_act" where
  \<comment> \<open>keys and values are strings\<close>
  "dumb_setitem key val =
     bindA (the_index AttributeError) (\<lambda>ix.
       case map_of ix key of
         None \<Rightarrow> bindA (dumb_addval val) (\<lambda>v. dumb_addkey key v)
       | Some (pos, siz) \<Rightarrow>
           bindA (if blocks (length val) \<le> blocks siz then dumb_setval pos val else dumb_addval val)
             (\<lambda>v. thenA (index_set key v) (dumb_addkey key v)))"

definition dumb_delitem :: "string \<Rightarrow> unit dumb_act" where
  "dumb_delitem key =
     bindA (the_index TypeError) (\<lambda>ix.
       if map_of ix key = None then raiseA KeyError
       else thenA (updA (\<lambda>d. d\<lparr>d_index := Some (AList.delete key ix)\<rparr>)) dumb_commit)"

definition dumb_keys :: "(string list) dumb_act" where
  "dumb_keys = bindA (the_index AttributeError) (\<lambda>ix. retA (map fst ix))"

definition dumb_len :: "int dumb_act" where
  "dumb_len = bindA (the_index TypeError) (\<lambda>ix. retA (int (length ix)))"

definition dumb_close :: "unit dumb_act" where
  "dumb_close = updA (\<lambda>d. d\<lparr>d_index := None, d_datfile := None, d_dirfile := None, d_bakfile := None\<rparr>)"

subsection \<open>Lines are read back\<close>

lemma scan_quoted_repr:
  assumes "quote \<in> {SQUOTE, DQUOTE}"
  shows "scan_quoted quote (concat (map (repr_char quote) s) @ quote # t) = Some (concat (map (repr_char quote) s), t)"
proof (induction s)
  case (Cons c s)
  have bs: "BSLASH \<noteq> quote" using assms by auto
  consider "c = quote \<or> c = BSLASH" | "c \<noteq> quote" "c \<noteq> BSLASH" "ord c < 32 \<or> ord c \<ge> 127"
    | "c \<noteq> quote" "c \<noteq> BSLASH" "\<not> (ord c < 32 \<or> ord c \<ge> 127)" by blast
  then show ?case
  proof cases
    case 2
    define a b e where abe: "a = ord c div 64" "b = ord c div 8 mod 8" "e = ord c mod 8"
    have "n div 64 < 8" if "n < 256" for n :: nat using that by simp
    from this [OF ord_less_256] have "ord c div 64 < 8" .
    then have l: "a < 8" "b < 8" "e < 8" unfolding abe by simp_all
    have q: "chr (48 + n) \<noteq> quote \<and> chr (48 + n) \<noteq> BSLASH" if "n < 8" for n
    proof -
      have "ord (chr (48 + n)) \<notin> {34, 39, 92}" using octal_digits(2) [OF that] that by simp
      moreover have "ord quote \<in> {34, 39}" "ord BSLASH = 92" using assms by auto
      ultimately show ?thesis by (metis insert_iff empty_iff)
    qed
    show ?thesis using 2 Cons bs q [OF l(2)] q [OF l(3)]
      by (simp add: repr_char_def octal_escape_def abe)
  qed (use Cons bs in \<open>auto simp: repr_char_def\<close>)
qed simp

lemma scan_nat_line:
  assumes "c \<notin> set digits"
  shows "scan_nat (nat_repr n @ c # t) = Some (n, c # t)"
proof -
  have "takeWhile (\<lambda>c. c \<in> set digits) (nat_repr n @ c # t) = nat_repr n"
    using assms nat_repr_digits by (subst takeWhile_append2) auto
  then show ?thesis using nat_repr_zero [of n] by (auto simp: scan_nat_def dec_val_nat_repr Let_def)
qed

lemma eval_entry_line: "eval_entry (entry_line (key, pos, siz)) = Inr (key, pos, siz)"
proof -
  define q where "q = (if SQUOTE \<in> set (takeWhile (\<lambda>c. c \<noteq> NUL) key) \<and> DQUOTE \<notin> set (takeWhile (\<lambda>c. c \<noteq> NUL) key)
    then DQUOTE else SQUOTE)"
  have q: "q \<in> {SQUOTE, DQUOTE}" by (simp add: q_def)
  have r: "string_repr key = q # concat (map (repr_char q) key) @ [q]" by (simp add: string_repr_def q_def Let_def)
  have d: "CHR '','' \<notin> set digits" "CHR '')'' \<notin> set digits" by (simp_all add: digits_def)
  show ?thesis
    using q scan_quoted_repr [OF q, of key] scan_nat_line [OF d(1)] scan_nat_line [OF d(2)] unescape_repr [OF q]
    by (simp add: eval_entry_def entry_line_def r scan_text_def int_repr_def)
qed

subsection \<open>The directory\<close>

definition dir_map :: "(string \<times> nat \<times> nat) list \<Rightarrow> string \<Rightarrow> (nat \<times> nat) option" where
  \<comment> \<open>the last line of a key counts\<close>
  "dir_map es = foldl (\<lambda>m (k, v). m(k \<mapsto> v)) Map.empty es"

lemma dir_map_snoc [simp]: "dir_map (es @ [(k, v)]) = (dir_map es)(k \<mapsto> v)"
  by (simp add: dir_map_def)

lemma dir_map_distinct: "distinct (map fst ix) \<Longrightarrow> dir_map ix = map_of ix"
proof (induction ix rule: rev_induct)
  case (snoc e ix)
  obtain k v where e: "e = (k, v)" by (cases e)
  with snoc.prems have "k \<notin> fst ` set ix" by simp
  then have "map_of ix k = None" by (simp add: map_of_eq_None_iff)
  then have "map_of (ix @ [(k, v)]) = (map_of ix)(k \<mapsto> v)" by (auto simp: map_of_append map_add_def fun_eq_iff split: option.split)
  with snoc e show ?case by simp
qed (simp add: dir_map_def)

lemma entry_line_no_NL: "\<exists>l. entry_line e = l @ [NL] \<and> NL \<notin> set l"
proof -
  obtain key pos siz where e: "e = (key, pos, siz)" by (metis prod_cases3)
  have "entry_line e = (string_repr key @ '', ('' @ int_repr (int pos) @ '', '' @ int_repr (int siz) @ '')'') @ [NL]"
    by (simp add: e entry_line_def)
  moreover have "NL \<notin> set (string_repr key @ '', ('' @ int_repr (int pos) @ '', '' @ int_repr (int siz) @ '')'')"
    using string_repr_line int_repr_line by simp
  ultimately show ?thesis by blast
qed

lemma directory_lines: "text_lines (concat (map entry_line es)) = map entry_line es"
proof (induction es)
  case (Cons e es)
  from entry_line_no_NL [of e] obtain l where "entry_line e = l @ [NL]" "NL \<notin> set l" by blast
  with Cons text_lines_line [of l] show ?case by simp
qed simp

lemma read_directory:
  assumes "d_index d = Some ix" "distinct (map fst ix)"
  shows "\<exists>ix'. forA dumb_read_line (map entry_line es) d = (Inr (), d\<lparr>d_index := Some ix'\<rparr>) \<and>
    map_of ix' = foldl (\<lambda>m (k, v). m(k \<mapsto> v)) (map_of ix) es \<and> distinct (map fst ix')"
  using assms
proof (induction es arbitrary: d ix)
  case Nil
  then show ?case by (intro exI [of _ ix]) simp
next
  case (Cons e es)
  obtain key pos siz where e: "e = (key, pos, siz)" by (metis prod_cases3)
  let ?ix = "AList.update key (pos, siz) ix" and ?d = "d\<lparr>d_index := Some (AList.update key (pos, siz) ix)\<rparr>"
  have step: "dumb_read_line (entry_line e) d = (Inr (), ?d)"
    using Cons.prems by (simp add: dumb_read_line_def index_set_def the_index_def bindA_def e eval_entry_line)
  have "d_index ?d = Some ?ix" "distinct (map fst ?ix)" using Cons.prems(2) by (simp_all add: distinct_update)
  from Cons.IH [OF this] obtain ix' where
    "forA dumb_read_line (map entry_line es) ?d = (Inr (), ?d\<lparr>d_index := Some ix'\<rparr>)"
    "map_of ix' = foldl (\<lambda>m (k, v). m(k \<mapsto> v)) (map_of ?ix) es" "distinct (map fst ix')" by blast
  with step show ?case by (intro exI [of _ ix']) (simp add: e update_conv' fun_upd_def)
qed

subsection \<open>The invariant\<close>

text \<open>Every entry lies in the data file, starts at a block, and no two entries share a block.\<close>

definition apart :: "nat \<times> nat \<Rightarrow> nat \<times> nat \<Rightarrow> bool" where
  "apart = (\<lambda>(p, s) (q, t). p + blocks s * BLOCKSIZE \<le> q \<or> q + blocks t * BLOCKSIZE \<le> p)"

definition extents_ok :: "(string \<Rightarrow> (nat \<times> nat) option) \<Rightarrow> string \<Rightarrow> bool" where
  "extents_ok m dat \<longleftrightarrow>
     (\<forall>k p s. m k = Some (p, s) \<longrightarrow> p mod BLOCKSIZE = 0 \<and> p + s \<le> length dat) \<and>
     (\<forall>k l u v. m k = Some u \<longrightarrow> m l = Some v \<longrightarrow> k \<noteq> l \<longrightarrow> apart u v)"

definition stored :: "(string \<Rightarrow> (nat \<times> nat) option) \<Rightarrow> string \<Rightarrow> string \<Rightarrow> string option" where
  "stored m dat k = map_option (\<lambda>(p, s). take s (drop p dat)) (m k)"

lemma blocks_bound: "n \<le> blocks n * BLOCKSIZE" "blocks n * BLOCKSIZE < n + BLOCKSIZE"
proof -
  have "(n + BLOCKSIZE - 1) div BLOCKSIZE * BLOCKSIZE + (n + BLOCKSIZE - 1) mod BLOCKSIZE = n + BLOCKSIZE - 1" by simp
  moreover have "(n + BLOCKSIZE - 1) mod BLOCKSIZE < BLOCKSIZE" by (simp add: BLOCKSIZE_def)
  ultimately show "n \<le> blocks n * BLOCKSIZE" "blocks n * BLOCKSIZE < n + BLOCKSIZE"
    by (simp_all add: blocks_def BLOCKSIZE_def)
qed

lemma block_multiple: "a mod BLOCKSIZE = 0 \<Longrightarrow> n \<le> a \<Longrightarrow> blocks n * BLOCKSIZE \<le> a"
proof -
  assume "a mod BLOCKSIZE = 0" "n \<le> a"
  then obtain c where a: "a = c * BLOCKSIZE" by (metis dvd_div_mult_self dvd_eq_mod_eq_0)
  have "blocks n * BLOCKSIZE < (c + 1) * BLOCKSIZE" using blocks_bound(2) [of n] \<open>n \<le> a\<close> a by simp
  then have "blocks n < c + 1" by (simp only: mult_less_cancel2)
  then show ?thesis using a by simp
qed

lemma blocks_zero: "blocks 0 = 0"
  by (simp add: blocks_def BLOCKSIZE_def)

lemma stored_upd: "stored (m(k \<mapsto> (p, s))) dat = (stored m dat)(k \<mapsto> take s (drop p dat))"
  by (auto simp: stored_def)

lemma add_extent:
  assumes ok: "extents_ok m dat" and npos: "npos = blocks (length dat) * BLOCKSIZE"
    and dat': "dat' = dat @ replicate (npos - length dat) NUL @ val"
  shows "extents_ok (m(k \<mapsto> (npos, length val))) dat'" "stored (m(k \<mapsto> (npos, length val))) dat' = (stored m dat)(k \<mapsto> val)"
proof -
  have le: "length dat \<le> npos" unfolding npos by (rule blocks_bound(1))
  have len: "length dat' = npos + length val" using le by (simp add: dat')
  have old: "p + s \<le> length dat \<Longrightarrow> take s (drop p dat') = take s (drop p dat)" for p s by (simp add: dat')
  have far: "p + blocks s * BLOCKSIZE \<le> npos" if "m l = Some (p, s)" for l p s
  proof -
    from ok that have p: "p mod BLOCKSIZE = 0" "p + s \<le> length dat" by (auto simp: extents_ok_def)
    have "BLOCKSIZE dvd npos - p" using p(1) by (intro dvd_diff_nat) (simp_all add: npos dvd_eq_mod_eq_0)
    then have "(npos - p) mod BLOCKSIZE = 0" by (simp add: dvd_eq_mod_eq_0)
    moreover have "s \<le> npos - p" using p(2) le by simp
    ultimately have "blocks s * BLOCKSIZE \<le> npos - p" by (rule block_multiple)
    then show ?thesis using p(2) le by simp
  qed
  have "drop npos dat' = val" using le by (simp add: dat')
  then have "take (length val) (drop npos dat') = val" by simp
  moreover have "stored m dat' = stored m dat"
    using ok old by (force simp: stored_def extents_ok_def fun_eq_iff split: option.split intro!: option.map_cong)
  ultimately show "stored (m(k \<mapsto> (npos, length val))) dat' = (stored m dat)(k \<mapsto> val)"
    by (simp add: stored_upd)
  show "extents_ok (m(k \<mapsto> (npos, length val))) dat'"
    unfolding extents_ok_def
  proof (intro conjI allI impI)
    fix l p s assume "(m(k \<mapsto> (npos, length val))) l = Some (p, s)"
    then show "p mod BLOCKSIZE = 0" "p + s \<le> length dat'"
      using ok len le by (auto simp: extents_ok_def npos split: if_splits) fastforce+
  next
    fix a b u v
    assume "(m(k \<mapsto> (npos, length val))) a = Some u" "(m(k \<mapsto> (npos, length val))) b = Some v" "a \<noteq> b"
    then show "apart u v"
      using ok far by (cases u; cases v) (auto simp: extents_ok_def apart_def split: if_splits)
  qed
qed

lemma write_at_other:
  assumes "p \<le> length d" "p + length v \<le> q \<or> q + s \<le> p"
  shows "take s (drop q (write_at p v d)) = take s (drop q d)"
proof (cases "v = []")
  case False
  then have w: "write_at p v d = take p d @ v @ drop (p + length v) d" using assms(1) by (simp add: write_at_def)
  show ?thesis
  proof (cases "q + s \<le> p")
    case True
    have "take s (drop q (take p d)) = take s (drop q d)" using True by (simp add: drop_take min_def)
    with True assms(1) show ?thesis by (simp add: w)
  next
    case False
    with assms(2) have "p + length v \<le> q" by simp
    with assms(1) show ?thesis by (simp add: w)
  qed
qed (simp add: write_at_def)

lemma write_at_grows: "p \<le> length d \<Longrightarrow> length d \<le> length (write_at p v d) \<and> p + length v \<le> length (write_at p v d)"
  by (auto simp: write_at_length)

lemma change_extent:
  assumes ok: "extents_ok m dat" and k: "m k = Some (p, s)" and fits: "blocks (length val) \<le> blocks s"
  shows "extents_ok (m(k \<mapsto> (p, length val))) (write_at p val dat)"
    "stored (m(k \<mapsto> (p, length val))) (write_at p val dat) = (stored m dat)(k \<mapsto> val)"
proof -
  have p: "p mod BLOCKSIZE = 0" "p + s \<le> length dat" using ok k by (auto simp: extents_ok_def)
  then have pl: "p \<le> length dat" by simp
  have room: "blocks (length val) * BLOCKSIZE \<le> blocks s * BLOCKSIZE" using fits by (rule mult_le_mono1)
  have narrow: "p + blocks (length val) * BLOCKSIZE \<le> x" if "p + blocks s * BLOCKSIZE \<le> x" for x
    using room that by linarith
  have vb: "length val \<le> blocks s * BLOCKSIZE" by (rule order_trans [OF blocks_bound(1) room])
  have sep: "apart (p, s) (q, t) \<and> q + t \<le> length dat \<and> q mod BLOCKSIZE = 0" if "m l = Some (q, t)" "l \<noteq> k" for l q t
    using ok k that by (force simp: extents_ok_def)
  have old: "take t (drop q (write_at p val dat)) = take t (drop q dat)" if "m l = Some (q, t)" "l \<noteq> k" for l q t
    using sep [OF that] vb blocks_bound(1) [of t]
    by (intro write_at_other [OF pl]) (auto simp: apart_def)
  have new: "take (length val) (drop p (write_at p val dat)) = val"
    by (cases "val = []") (simp_all add: write_at_read)
  show "stored (m(k \<mapsto> (p, length val))) (write_at p val dat) = (stored m dat)(k \<mapsto> val)"
  proof
    fix l
    show "stored (m(k \<mapsto> (p, length val))) (write_at p val dat) l = ((stored m dat)(k \<mapsto> val)) l"
      using new old [of l] by (cases "m l") (auto simp: stored_def)
  qed
  show "extents_ok (m(k \<mapsto> (p, length val))) (write_at p val dat)"
    unfolding extents_ok_def
  proof (intro conjI allI impI)
    fix l q t assume "(m(k \<mapsto> (p, length val))) l = Some (q, t)"
    then show "q mod BLOCKSIZE = 0" "q + t \<le> length (write_at p val dat)"
      using sep [of l q t] p(1) write_at_grows [OF pl, of val] by (auto split: if_splits)
  next
    fix a b u v
    assume "(m(k \<mapsto> (p, length val))) a = Some u" "(m(k \<mapsto> (p, length val))) b = Some v" "a \<noteq> b"
    then show "apart u v"
      using ok sep [of a] sep [of b] by (cases u; cases v) (auto simp: extents_ok_def apart_def dest: narrow split: if_splits)
  qed
qed

lemma remove_extent: "extents_ok m dat \<Longrightarrow> extents_ok (m(k := None)) dat" "stored (m(k := None)) dat = (stored m dat)(k := None)"
  by (auto simp: extents_ok_def stored_def split: if_splits)

definition dumb_ok :: "string \<Rightarrow> dumbdb \<Rightarrow> bool" where
  "dumb_ok base d \<longleftrightarrow>
     d_dirfile d = Some (base @ ''.dir'') \<and> d_datfile d = Some (base @ ''.dat'') \<and> d_bakfile d = Some (base @ ''.bak'') \<and>
     (\<exists>ix dat es. d_index d = Some ix \<and> distinct (map fst ix) \<and> d_files d (base @ ''.dat'') = Some dat \<and>
        extents_ok (map_of ix) dat \<and> dir_map es = map_of ix \<and>
        (case d_files d (base @ ''.dir'') of None \<Rightarrow> es = [] | Some t \<Rightarrow> t = concat (map entry_line es)))"

definition dumb_map :: "dumbdb \<Rightarrow> string \<Rightarrow> string option" where
  \<comment> \<open>the dictionary that the object stands for\<close>
  "dumb_map d = (case (d_index d, d_datfile d) of
     (Some ix, Some n) \<Rightarrow> (case d_files d n of Some dat \<Rightarrow> stored (map_of ix) dat | None \<Rightarrow> Map.empty)
   | _ \<Rightarrow> Map.empty)"

lemma dumb_okE:
  assumes "dumb_ok base d"
  obtains ix dat es where
    "d = \<lparr>d_dirfile = Some (base @ ''.dir''), d_datfile = Some (base @ ''.dat''), d_bakfile = Some (base @ ''.bak''),
       d_index = Some ix, d_files = d_files d\<rparr>"
    "distinct (map fst ix)" "d_files d (base @ ''.dat'') = Some dat" "extents_ok (map_of ix) dat" "dir_map es = map_of ix"
    "case d_files d (base @ ''.dir'') of None \<Rightarrow> es = [] | Some t \<Rightarrow> t = concat (map entry_line es)"
    "dumb_map d = stored (map_of ix) dat"
  using assms by (cases d) (auto simp: dumb_ok_def dumb_map_def)

abbreviation ddb :: "string \<Rightarrow> (string \<times> nat \<times> nat) list \<Rightarrow> file_system \<Rightarrow> dumbdb" where
  "ddb base ix fs \<equiv> \<lparr>d_dirfile = Some (base @ ''.dir''), d_datfile = Some (base @ ''.dat''), d_bakfile = Some (base @ ''.bak''),
     d_index = Some ix, d_files = fs\<rparr>"

lemma file_names [simp]:
  "base @ ''.dir'' \<noteq> base @ ''.dat''" "base @ ''.dat'' \<noteq> base @ ''.dir''" "base @ ''.dir'' \<noteq> base @ ''.bak''"
  "base @ ''.bak'' \<noteq> base @ ''.dir''" "base @ ''.dat'' \<noteq> base @ ''.bak''" "base @ ''.bak'' \<noteq> base @ ''.dat''"
  by simp_all

lemma dumb_okI:
  assumes "distinct (map fst ix)" "fs (base @ ''.dat'') = Some dat" "extents_ok (map_of ix) dat" "dir_map es = map_of ix"
    "case fs (base @ ''.dir'') of None \<Rightarrow> es = [] | Some t \<Rightarrow> t = concat (map entry_line es)"
  shows "dumb_ok base (ddb base ix fs)" "dumb_map (ddb base ix fs) = stored (map_of ix) dat"
  using assms by (auto simp: dumb_ok_def dumb_map_def)

lemma fs_same: "fs n = Some t \<Longrightarrow> fs(n \<mapsto> t) = fs"
  by auto

theorem dumb_getitem_ok:
  assumes "dumb_ok base d"
  shows "dumb_getitem key d = (case dumb_map d key of None \<Rightarrow> Inl KeyError | Some v \<Rightarrow> Inr v, d)"
proof -
  from dumb_okE [OF assms] obtain ix dat es where
    d: "d = ddb base ix (d_files d)" and f: "d_files d (base @ ''.dat'') = Some dat"
    and m: "dumb_map d = stored (map_of ix) dat" by metis
  have ix: "d_index d = Some ix" "d_datfile d = Some (base @ ''.dat'')" by (subst d, simp)+
  show ?thesis
  proof (cases "map_of ix key")
    case None
    then show ?thesis by (simp add: dumb_getitem_def the_index_def bindA_def stored_def m ix)
  next
    case (Some e)
    obtain p s where e: "e = (p, s)" by (cases e)
    have "with_file (Some (base @ ''.dat'')) ''rb'' (thenA (pf_seek (int p) 0) (pf_read (int s))) d = (Inr (take s (drop p dat)), d)"
      using f by (simp add: with_file_def pf_seek_def pf_read_def Let_def fs_same)
    with Some e show ?thesis by (simp add: dumb_getitem_def the_index_def bindA_def stored_def m ix)
  qed
qed

lemma dumb_addval_run:
  assumes "d_datfile d = Some n" "d_files d n = Some dat" "npos = blocks (length dat) * BLOCKSIZE"
  shows "dumb_addval val d =
    (Inr (npos, length val), d\<lparr>d_files := (d_files d)(n \<mapsto> dat @ replicate (npos - length dat) NUL @ val)\<rparr>)"
  using assms
  by (simp add: dumb_addval_def with_file_def Let_def pf_tell_def bindA_def pf_seek_def pf_write_def write_at_def)

lemma dumb_setval_run:
  assumes "d_datfile d = Some n" "d_files d n = Some dat"
  shows "dumb_setval pos val d = (Inr (pos, length val), d\<lparr>d_files := (d_files d)(n \<mapsto> write_at pos val dat)\<rparr>)"
  using assms by (simp add: dumb_setval_def with_file_def pf_seek_def pf_write_def Let_def bindA_def)

lemma dumb_addkey_run:
  assumes "d_dirfile d = Some n" "d_index d = Some ix"
  shows "dumb_addkey key v d = (Inr (), d\<lparr>d_index := Some (AList.update key v ix),
    d_files := (d_files d)(n \<mapsto> (case d_files d n of None \<Rightarrow> [] | Some t \<Rightarrow> t) @ entry_line (key, v))\<rparr>)"
proof -
  have "pf_write t (file_end s) = (Inr (), file_end (s @ t))" for s t
    using write_file_end by (simp add: pf_ops_def)
  with assms show ?thesis
    by (simp add: dumb_addkey_def with_file_def index_set_def the_index_def bindA_def file_end_def)
qed

text \<open>Storing: the value in the data file, the entry in the index and at the end of the directory.\<close>

lemma dumb_store:
  assumes "distinct (map fst ix)" "dir_map es = map_of ix"
    and dir: "case fs (base @ ''.dir'') of None \<Rightarrow> es = [] | Some t \<Rightarrow> t = concat (map entry_line es)"
    and ext: "extents_ok ((map_of ix)(key \<mapsto> e)) dat'" "stored ((map_of ix)(key \<mapsto> e)) dat' = m'"
  shows "\<exists>d'. dumb_addkey key e (ddb base ix (fs(base @ ''.dat'' \<mapsto> dat'))) = (Inr (), d') \<and> dumb_ok base d' \<and> dumb_map d' = m'"
proof -
  define t where "t = (case fs (base @ ''.dir'') of None \<Rightarrow> [] | Some t \<Rightarrow> t) @ entry_line (key, e)"
  define fs' where "fs' = fs(base @ ''.dat'' \<mapsto> dat', base @ ''.dir'' \<mapsto> t)"
  have run: "dumb_addkey key e (ddb base ix (fs(base @ ''.dat'' \<mapsto> dat'))) = (Inr (), ddb base (AList.update key e ix) fs')"
    by (simp add: dumb_addkey_run [of _ "base @ ''.dir''" ix] fs'_def t_def)
  have m: "map_of (AList.update key e ix) = (map_of ix)(key \<mapsto> e)" by (simp add: update_conv')
  have "t = concat (map entry_line (es @ [(key, e)]))" using dir by (simp add: t_def split: option.splits)
  then have "case fs' (base @ ''.dir'') of None \<Rightarrow> es @ [(key, e)] = [] | Some t \<Rightarrow> t = concat (map entry_line (es @ [(key, e)]))"
    by (simp add: fs'_def)
  moreover have "fs' (base @ ''.dat'') = Some dat'" by (simp add: fs'_def)
  moreover have "distinct (map fst (AList.update key e ix))" using assms(1) by (rule distinct_update)
  moreover have "dir_map (es @ [(key, e)]) = map_of (AList.update key e ix)" using assms(2) m by simp
  ultimately have "dumb_ok base (ddb base (AList.update key e ix) fs')" "dumb_map (ddb base (AList.update key e ix) fs') = m'"
    using dumb_okI [of "AList.update key e ix" fs' base dat' "es @ [(key, e)]"] ext m by simp_all
  with run show ?thesis by blast
qed

theorem dumb_setitem_ok:
  assumes "dumb_ok base d"
  shows "\<exists>d'. dumb_setitem key val d = (Inr (), d') \<and> dumb_ok base d' \<and> dumb_map d' = (dumb_map d)(key \<mapsto> val)"
proof -
  from dumb_okE [OF assms] obtain ix dat es where
    d: "d = ddb base ix (d_files d)" and dist: "distinct (map fst ix)" and f: "d_files d (base @ ''.dat'') = Some dat"
    and ext: "extents_ok (map_of ix) dat" and dir: "dir_map es = map_of ix"
      "case d_files d (base @ ''.dir'') of None \<Rightarrow> es = [] | Some t \<Rightarrow> t = concat (map entry_line es)"
    and m: "dumb_map d = stored (map_of ix) dat" by metis
  have attrs: "d_index d = Some ix" "d_datfile d = Some (base @ ''.dat'')" "d_dirfile d = Some (base @ ''.dir'')"
    by (subst d, simp)+
  have files: "d\<lparr>d_files := fs\<rparr> = ddb base ix fs" for fs by (subst d) simp
  note store = dumb_store [where fs = "d_files d" and base = base, OF dist dir]
  define npos where "npos = blocks (length dat) * BLOCKSIZE"
  define dat1 where "dat1 = dat @ replicate (npos - length dat) NUL @ val"
  note add = dumb_addval_run [OF attrs(2) f npos_def, of val, folded dat1_def, unfolded files]
  note added = store [OF add_extent [OF ext npos_def dat1_def], of key]
  show ?thesis
  proof (cases "map_of ix key")
    case None
    with add added show ?thesis by (simp add: dumb_setitem_def the_index_def bindA_def attrs m)
  next
    case (Some e)
    obtain p s where e: "e = (p, s)" by (cases e)
    have again: "thenA (index_set key v) (dumb_addkey key v) (ddb base ix fs) = dumb_addkey key v (ddb base ix fs)" for v fs
      by (simp add: index_set_def the_index_def bindA_def dumb_addkey_run update_conv)
    show ?thesis
    proof (cases "blocks (length val) \<le> blocks s")
      case True
      from change_extent [OF ext _ True] Some e
      have "extents_ok ((map_of ix)(key \<mapsto> (p, length val))) (write_at p val dat)"
        "stored ((map_of ix)(key \<mapsto> (p, length val))) (write_at p val dat) = (stored (map_of ix) dat)(key \<mapsto> val)" by simp_all
      from store [OF this] dumb_setval_run [OF attrs(2) f, of p val, unfolded files] again Some e True
      show ?thesis by (simp add: dumb_setitem_def the_index_def bindA_def attrs m)
    next
      case False
      with add added again Some e show ?thesis by (simp add: dumb_setitem_def the_index_def bindA_def attrs m)
    qed
  qed
qed

lemma write_entries: "forA (\<lambda>e. pf_write (entry_line e)) es (file_end s) = (Inr (), file_end (s @ concat (map entry_line es)))"
proof (induction es arbitrary: s)
  case (Cons e es)
  have "pf_write t (file_end s) = (Inr (), file_end (s @ t))" for t
    using write_file_end by (simp add: pf_ops_def)
  with Cons show ?case by simp
qed simp

lemma dumb_commit_run:
  "\<exists>fs'. dumb_commit (ddb base ix fs) = (Inr (), ddb base ix fs') \<and>
    fs' (base @ ''.dir'') = Some (concat (map entry_line ix)) \<and> fs' (base @ ''.dat'') = fs (base @ ''.dat'')"
proof -
  have "forA (\<lambda>e. pf_write (entry_line e)) ix \<lparr>f_data = [], f_pos = 0\<rparr> = (Inr (), file_end (concat (map entry_line ix)))"
    using write_entries [of ix "[]"] by (simp add: file_end_def)
  then show ?thesis
    by (cases "fs (base @ ''.dir'')")
      (simp_all add: dumb_commit_def the_index_def bindA_def with_file_def Let_def file_end_def)
qed

theorem dumb_delitem_ok:
  assumes "dumb_ok base d"
  shows "\<exists>d'. dumb_delitem key d = (if dumb_map d key = None then Inl KeyError else Inr (), d') \<and>
    dumb_ok base d' \<and> dumb_map d' = (dumb_map d)(key := None)"
proof -
  from dumb_okE [OF assms] obtain ix dat es where
    d: "d = ddb base ix (d_files d)" and dist: "distinct (map fst ix)" and f: "d_files d (base @ ''.dat'') = Some dat"
    and ext: "extents_ok (map_of ix) dat" and m: "dumb_map d = stored (map_of ix) dat" by metis
  have ix: "d_index d = Some ix" by (subst d) simp
  have known: "dumb_map d key = None \<longleftrightarrow> map_of ix key = None" by (simp add: m stored_def)
  show ?thesis
  proof (cases "map_of ix key")
    case None
    with assms known show ?thesis by (simp add: dumb_delitem_def the_index_def bindA_def ix fun_upd_idem)
  next
    case (Some e)
    let ?ix = "AList.delete key ix"
    have "d\<lparr>d_index := Some ?ix\<rparr> = ddb base ?ix (d_files d)" by (subst d) simp
    with dumb_commit_run [of base ?ix "d_files d"] obtain fs' where
      c: "dumb_commit (d\<lparr>d_index := Some ?ix\<rparr>) = (Inr (), ddb base ?ix fs')"
        "fs' (base @ ''.dir'') = Some (concat (map entry_line ?ix))" "fs' (base @ ''.dat'') = Some dat"
      using f by auto
    have mo: "map_of ?ix = (map_of ix)(key := None)" by (simp add: AList.delete_conv')
    have dist': "distinct (map fst ?ix)" using dist by (rule distinct_delete)
    have ok: "dumb_ok base (ddb base ?ix fs')" "dumb_map (ddb base ?ix fs') = (dumb_map d)(key := None)"
      using dumb_okI [of ?ix fs' base dat ?ix] dist' c(3) remove_extent(1) [OF ext, of key] remove_extent(2) [of "map_of ix" key dat] dir_map_distinct [OF dist'] c(2) m mo by simp_all
    with c(1) Some known show ?thesis by (simp add: dumb_delitem_def the_index_def bindA_def ix)
  qed
qed

text \<open>Opening the files again gives the same dictionary.\<close>

theorem dumb_reopen:
  assumes "dumb_ok base d"
  shows "\<exists>d'. dumb_open base (d_files d) = (Inr (), d') \<and> dumb_ok base d' \<and> dumb_map d' = dumb_map d"
proof -
  from dumb_okE [OF assms] obtain ix dat es where
    d: "d = ddb base ix (d_files d)" and f: "d_files d (base @ ''.dat'') = Some dat"
    and ext: "extents_ok (map_of ix) dat" and dir: "dir_map es = map_of ix"
      "case d_files d (base @ ''.dir'') of None \<Rightarrow> es = [] | Some t \<Rightarrow> t = concat (map entry_line es)"
    and m: "dumb_map d = stored (map_of ix) dat" by metis
  let ?d0 = "ddb base [] (d_files d)"
  have "d_index ?d0 = Some []" "distinct (map fst ([] :: (string \<times> nat \<times> nat) list))" by simp_all
  from read_directory [OF this, of es] obtain ix' where
    r: "forA dumb_read_line (map entry_line es) ?d0 = (Inr (), ddb base ix' (d_files d))"
      "map_of ix' = dir_map es" "distinct (map fst ix')" by (auto simp: dir_map_def)
  have "dumb_open base (d_files d) = (Inr (), ddb base ix' (d_files d))"
  proof (cases "d_files d (base @ ''.dir'')")
    case None
    with dir(2) r(1) f show ?thesis by (simp add: dumb_open_def dumb_update_def)
  next
    case (Some t)
    with dir(2) have "text_lines t = map entry_line es" by (simp add: directory_lines)
    with Some r(1) f show ?thesis by (simp add: dumb_open_def dumb_update_def)
  qed
  moreover have "dumb_ok base (ddb base ix' (d_files d))" "dumb_map (ddb base ix' (d_files d)) = stored (map_of ix') dat"
    using dumb_okI [of ix' "d_files d" base dat es] r(3) f ext dir r(2) by simp_all
  ultimately show ?thesis using r(2) dir(1) m by simp
qed

theorem dumb_open_new:
  assumes "fs (base @ ''.dir'') = None"
  shows "\<exists>d. dumb_open base fs = (Inr (), d) \<and> dumb_ok base d \<and> dumb_map d = Map.empty"
proof -
  define dat where "dat = (case fs (base @ ''.dat'') of None \<Rightarrow> [] | Some t \<Rightarrow> t)"
  let ?fs = "fs(base @ ''.dat'' \<mapsto> dat)"
  have "dumb_open base fs = (Inr (), ddb base [] ?fs)"
    using assms by (cases "fs (base @ ''.dat'')") (simp_all add: dumb_open_def dumb_update_def dat_def fun_upd_idem Let_def)
  moreover have "dumb_ok base (ddb base [] ?fs)" "dumb_map (ddb base [] ?fs) = stored (map_of []) dat"
    using dumb_okI [of "[]" ?fs base dat "[]"] assms by (simp_all add: extents_ok_def dir_map_def)
  ultimately show ?thesis by (auto simp: stored_def)
qed

subsection \<open>The contract of a dictionary\<close>

definition dumb_ops :: "dumbdb dict_ops" where
  "dumb_ops = \<lparr>do_getitem = dumb_getitem, do_setitem = dumb_setitem, do_delitem = dumb_delitem,
     do_has_key = dumb_has_key, do_keys = dumb_keys, do_len = dumb_len, do_close = dumb_close\<rparr>"

lemma dumb_domain:
  assumes "dumb_ok base d"
  obtains ix where "d_index d = Some ix" "distinct (map fst ix)" "\<forall>key. (dumb_map d key = None) = (map_of ix key = None)"
    "dom (dumb_map d) = set (map fst ix)"
proof -
  from dumb_okE [OF assms] obtain ix dat where
    d: "d = ddb base ix (d_files d)" and dist: "distinct (map fst ix)" and m: "dumb_map d = stored (map_of ix) dat" by metis
  have i: "d_index d = Some ix" by (subst d) simp
  have n: "(dumb_map d key = None) = (map_of ix key = None)" for key by (simp add: m stored_def)
  then have "dom (dumb_map d) = dom (map_of ix)" by (auto simp: dom_def)
  then have "dom (dumb_map d) = set (map fst ix)" by (simp add: dom_map_of_conv_image_fst)
  with i dist n that show ?thesis by blast
qed

interpretation dumb: string_dict dumb_ops "dumb_ok base" dumb_map for base
proof unfold_locales
  fix d key v
  assume ok: "dumb_ok base d"
  from dumb_domain [OF ok] obtain ix where ix: "d_index d = Some ix" "distinct (map fst ix)"
    "\<forall>key. (dumb_map d key = None) = (map_of ix key = None)" "dom (dumb_map d) = set (map fst ix)" .
  show "do_getitem dumb_ops key d = (case dumb_map d key of None \<Rightarrow> Inl KeyError | Some v \<Rightarrow> Inr v, d)"
    by (simp add: dumb_ops_def dumb_getitem_ok [OF ok])
  show "\<exists>d'. do_setitem dumb_ops key v d = (Inr (), d') \<and> dumb_ok base d' \<and> dumb_map d' = (dumb_map d)(key \<mapsto> v)"
    by (simp add: dumb_ops_def dumb_setitem_ok [OF ok])
  show "\<exists>d'. do_delitem dumb_ops key d = (if dumb_map d key = None then Inl KeyError else Inr (), d') \<and>
      dumb_ok base d' \<and> dumb_map d' = (dumb_map d)(key := None)"
    using dumb_delitem_ok [OF ok, of key] by (simp add: dumb_ops_def)
  show "do_has_key dumb_ops key d = (Inr (dumb_map d key \<noteq> None), d)"
    by (simp add: dumb_ops_def dumb_has_key_def the_index_def bindA_def ix)
  show "\<exists>ks. do_keys dumb_ops d = (Inr ks, d) \<and> distinct ks \<and> set ks = dom (dumb_map d)"
    by (intro exI [of _ "map fst ix"]) (simp add: dumb_ops_def dumb_keys_def the_index_def bindA_def ix)
  have "card (set (map fst ix)) = length ix" using distinct_card [OF ix(2)] by simp
  then show "do_len dumb_ops d = (Inr (int (card (dom (dumb_map d)))), d)"
    by (simp add: dumb_ops_def dumb_len_def the_index_def bindA_def ix)
qed

text \<open>Any calls on a new database, then opening it again: what is read is what the map holds.\<close>

theorem dumb_persistent:
  assumes "fs (base @ ''.dir'') = None"
  shows "\<exists>d e. dumb_open base fs = (Inr (), d) \<and> dumb_open base (d_files (dict_calls dumb_ops cs d)) = (Inr (), e) \<and>
    dumb_getitem key (dict_calls dumb_ops cs d) =
      (case map_calls cs Map.empty key of None \<Rightarrow> Inl KeyError | Some v \<Rightarrow> Inr v, dict_calls dumb_ops cs d) \<and>
    dumb_getitem key e = (case map_calls cs Map.empty key of None \<Rightarrow> Inl KeyError | Some v \<Rightarrow> Inr v, e)"
proof -
  from dumb_open_new [of fs base, OF assms] obtain d where d: "dumb_open base fs = (Inr (), d)" "dumb_ok base d" "dumb_map d = Map.empty"
    by blast
  from dumb.calls_refine [OF d(2), of cs] d(3) have
    r: "dumb_ok base (dict_calls dumb_ops cs d)" "dumb_map (dict_calls dumb_ops cs d) = map_calls cs Map.empty" by simp_all
  from dumb_reopen [OF r(1)] obtain e where
    e: "dumb_open base (d_files (dict_calls dumb_ops cs d)) = (Inr (), e)" "dumb_ok base e" "dumb_map e = map_calls cs Map.empty"
    using r(2) by auto
  with d(1) dumb_getitem_ok [OF r(1)] dumb_getitem_ok [OF e(2)] r(2) show ?thesis by auto
qed

end
