(* ===== verification/Shelve.thy ===== *)
theory Shelve
  imports Pickle_Laws Dumbdbm
begin

section \<open>\<open>Lib/shelve.py\<close>: objects in a dictionary of strings\<close>

text \<open>
  A shelf holds a dictionary of strings (\<open>None\<close> after \<open>close\<close>) and stores pickled objects in it.
  The state pairs it with the heap of the program, which is read when an object is stored and
  extended when one is fetched.
\<close>

type_synonym ('d, 'x) shelf = "'d option \<times> 'x heap"

definition shelf_dict :: "pyexc \<Rightarrow> ('d, 'a) act \<Rightarrow> (('d, 'x) shelf, 'a) act" where
  \<comment> \<open>an operation on \<open>self.dict\<close>, with what it raises on \<open>None\<close>\<close>
  "shelf_dict e act = (\<lambda>(sd, h). case sd of
     None \<Rightarrow> (Inl e, (None, h)) | Some d \<Rightarrow> let (r, d) = act d in (r, (Some d, h)))"

definition shelf_init :: "'d \<Rightarrow> 'd option" where
  "shelf_init d = Some d"

definition shelf_keys :: "'d dict_ops \<Rightarrow> (('d, 'x) shelf, string list) act" where
  "shelf_keys ops = shelf_dict AttributeError (do_keys ops)"

definition shelf_len :: "'d dict_ops \<Rightarrow> (('d, 'x) shelf, int) act" where
  "shelf_len ops = shelf_dict TypeError (do_len ops)"

definition shelf_has_key :: "'d dict_ops \<Rightarrow> string \<Rightarrow> (('d, 'x) shelf, bool) act" where
  "shelf_has_key ops key = shelf_dict AttributeError (do_has_key ops key)"

definition shelf_load :: "nat \<Rightarrow> 'x unpickle_env \<Rightarrow> string \<Rightarrow> ('d, 'x) shelf \<Rightarrow> (nat res \<times> ('d, 'x) shelf) option" where
  \<comment> \<open>\<open>pickle.Unpickler(f).load()\<close>\<close>
  "shelf_load n U pickled = (\<lambda>(sd, h).
     map_option (\<lambda>(r, u). (r, (sd, up_heap u))) (unpickler_load n U (unpickler_init h pickled)))"

definition shelf_getitem ::
  "'d dict_ops \<Rightarrow> nat \<Rightarrow> 'x unpickle_env \<Rightarrow> string \<Rightarrow> ('d, 'x) shelf \<Rightarrow> (nat res \<times> ('d, 'x) shelf) option" where
  "shelf_getitem ops n U key s =
     (case shelf_dict TypeError (do_getitem ops key) s of
        (Inl e, s) \<Rightarrow> Some (Inl e, s) | (Inr pickled, s) \<Rightarrow> shelf_load n U pickled s)"

definition shelf_setitem ::
  "'d dict_ops \<Rightarrow> nat \<Rightarrow> 'x pickle_env \<Rightarrow> string \<Rightarrow> nat \<Rightarrow> (('d, 'x) shelf, unit) act" where
  "shelf_setitem ops depth E key x = (\<lambda>(sd, h).
     bindA (liftA (dumps depth E h x)) (\<lambda>pickled. shelf_dict TypeError (do_setitem ops key pickled)) (sd, h))"

definition shelf_delitem :: "'d dict_ops \<Rightarrow> string \<Rightarrow> (('d, 'x) shelf, unit) act" where
  "shelf_delitem ops key = shelf_dict TypeError (do_delitem ops key)"

definition shelf_close :: "'d dict_ops \<Rightarrow> (('d, 'x) shelf, unit) act" where
  "shelf_close ops = (\<lambda>(sd, h).
     thenA (case sd of None \<Rightarrow> retA () | Some d \<Rightarrow> shelf_dict AttributeError (do_close ops))
       (updA (\<lambda>(sd, h). (None, h))) (sd, h))"

text \<open>The \<open>bsddb\<close> interface moves a cursor and returns an entry.\<close>

record 'd bsd_ops =
  bo_set_location :: "string \<Rightarrow> ('d, string \<times> string) act"
  bo_next :: "('d, string \<times> string) act"
  bo_previous :: "('d, string \<times> string) act"
  bo_first :: "('d, string \<times> string) act"
  bo_last :: "('d, string \<times> string) act"

definition bsd_entry ::
  "('d, string \<times> string) act \<Rightarrow> nat \<Rightarrow> 'x unpickle_env \<Rightarrow> ('d, 'x) shelf \<Rightarrow> ((string \<times> nat) res \<times> ('d, 'x) shelf) option" where
  "bsd_entry act n U s =
     (case shelf_dict AttributeError act s of
        (Inl e, s) \<Rightarrow> Some (Inl e, s)
      | (Inr (key, pickled), s) \<Rightarrow>
          map_option (\<lambda>(r, s). (bindR r (\<lambda>b. Inr (key, b)), s)) (shelf_load n U pickled s))"

definition bsd_set_location where "bsd_set_location B n U key = bsd_entry (bo_set_location B key) n U"
definition bsd_next where "bsd_next B = bsd_entry (bo_next B)"
definition bsd_previous where "bsd_previous B = bsd_entry (bo_previous B)"
definition bsd_first where "bsd_first B = bsd_entry (bo_first B)"
definition bsd_last where "bsd_last B = bsd_entry (bo_last B)"

definition shelve_open :: "(string \<Rightarrow> string \<Rightarrow> 'd res) \<Rightarrow> string \<Rightarrow> string \<Rightarrow> ('d option) res" where
  \<comment> \<open>the argument is \<open>anydbm.open\<close>\<close>
  "shelve_open anydbm fname flag = bindR (anydbm fname flag) (\<lambda>d. Inr (shelf_init d))"

subsection \<open>What is stored is fetched\<close>

context string_dict
begin

lemma shelf_stores:
  assumes "ok d" "dumps depth E h x = Inr pickled"
  shows "\<exists>d'. shelf_setitem ops depth E key x (Some d, h) = (Inr (), (Some d', h)) \<and> ok d' \<and> dmap d' = (dmap d)(key \<mapsto> pickled)"
  using setitem [OF assms(1), of key pickled] assms(2)
  by (auto simp: shelf_setitem_def shelf_dict_def bindA_def)

lemma shelf_fetches:
  assumes "ok d" "dmap d key = Some pickled" "unpickler_load n U (unpickler_init h pickled) = Some (r, u)"
  shows "shelf_getitem ops n U key (Some d, h) = Some (r, (Some d, up_heap u))"
  using getitem [OF assms(1)] assms(2,3) by (simp add: shelf_getitem_def shelf_dict_def shelf_load_def)

text \<open>The object fetched is a copy of the one stored, whatever has happened to the other keys.\<close>

lemma shelf_roundtrip:
  fixes U :: "'x unpickle_env" and h' :: "'x heap"
  assumes d: "ok d" and pk: "picklable n E h r" "literal_laws (ue_lits U)" "pe_lits E = ue_lits U" "x < length h"
      "r x + length h < depth"
  shows "\<exists>d'. shelf_setitem ops depth E key x (Some d, h) = (Inr (), (Some d', h)) \<and> ok d' \<and>
    (\<forall>d''. ok d'' \<longrightarrow> dmap d'' key = dmap d' key \<longrightarrow>
      (\<exists>e b R. shelf_getitem ops n U key (Some d'', h') = Some (Inr b, (Some d'', h' @ e)) \<and> R x b \<and> same_graph h R (h' @ e)))"
proof -
  from roundtrip_heap [OF pk, of h'] obtain pickled u e b R where
    t: "dumps depth E h x = Inr pickled" "unpickler_load n U (unpickler_init h' pickled) = Some (Inr b, u)"
      "up_heap u = h' @ e" "R x b" "same_graph h R (h' @ e)" by blast
  from shelf_stores [OF d t(1), of key] obtain d' where
    d': "shelf_setitem ops depth E key x (Some d, h) = (Inr (), (Some d', h))" "ok d'" "dmap d' = (dmap d)(key \<mapsto> pickled)" by blast
  have "shelf_getitem ops n U key (Some d'', h') = Some (Inr b, (Some d'', h' @ e))"
    if "ok d''" "dmap d'' key = dmap d' key" for d''
    using shelf_fetches [OF that(1) _ t(2)] that(2) d'(3) t(3) by simp
  with d'(1,2) t(4,5) show ?thesis by blast
qed

end

primrec call_key :: "dict_call \<Rightarrow> string" where
  "call_key (SetItem k v) = k"
| "call_key (DelItem k) = k"

lemma map_calls_other: "key \<notin> set (map call_key cs) \<Longrightarrow> map_calls cs m key = m key"
proof (induction cs arbitrary: m)
  case (Cons c cs)
  then show ?case by (cases c) simp_all
qed simp

theorem dumb_shelf_roundtrip:
  fixes U :: "'x unpickle_env" and h' :: "'x heap"
  assumes d: "dumb_ok base d" and pk: "picklable n E h r" "literal_laws (ue_lits U)" "pe_lits E = ue_lits U" "x < length h"
      "r x + length h < depth" and cs: "key \<notin> set (map call_key cs)"
  shows "\<exists>d' d'' e b R. shelf_setitem dumb_ops depth E key x (Some d, h) = (Inr (), (Some d', h)) \<and>
    dumb_open base (d_files (dict_calls dumb_ops cs d')) = (Inr (), d'') \<and>
    shelf_getitem dumb_ops n U key (Some d'', h') = Some (Inr b, (Some d'', h' @ e)) \<and> R x b \<and> same_graph h R (h' @ e)"
proof -
  from dumb.shelf_roundtrip [OF d pk, of key h'] obtain d' where
    d': "shelf_setitem dumb_ops depth E key x (Some d, h) = (Inr (), (Some d', h))" "dumb_ok base d'"
    "\<forall>d''. dumb_ok base d'' \<longrightarrow> dumb_map d'' key = dumb_map d' key \<longrightarrow>
      (\<exists>e b R. shelf_getitem dumb_ops n U key (Some d'', h') = Some (Inr b, (Some d'', h' @ e)) \<and> R x b \<and> same_graph h R (h' @ e))"
    by blast
  from dumb.calls_refine [OF d'(2), of cs] have
    r: "dumb_ok base (dict_calls dumb_ops cs d')" "dumb_map (dict_calls dumb_ops cs d') key = dumb_map d' key"
    using map_calls_other [OF cs] by simp_all
  from dumb_reopen [OF r(1)] obtain d'' where
    "dumb_open base (d_files (dict_calls dumb_ops cs d')) = (Inr (), d'')" "dumb_ok base d''" "dumb_map d'' key = dumb_map d' key"
    using r(2) by auto
  with d'(1,3) show ?thesis by blast
qed

end
