(* ===== verification/StringIO.thy ===== *)
theory StringIO
  imports Files
begin

section \<open>\<open>Lib/StringIO.py\<close>: memory files\<close>

text \<open>
  The class as a record of its attributes; \<open>close\<close> deletes \<open>buf\<close> and \<open>pos\<close>, so these are
  options and reading a deleted one raises \<open>AttributeError\<close>.  The buffer is kept as \<open>buf\<close>
  followed by the pieces of \<open>buflist\<close>; the content is their concatenation, and the class is
  correct when \<open>len\<close> is its length.
\<close>

subsection \<open>Definitions\<close>

record stringio =
  sio_buf :: "string option"
  sio_len :: int
  sio_buflist :: "string list"
  sio_pos :: "int option"
  sio_closed :: bool
  sio_softspace :: int

definition attrA :: "('s \<Rightarrow> 'a option) \<Rightarrow> ('s, 'a) act" where
  "attrA f s = (case f s of None \<Rightarrow> (Inl AttributeError, s) | Some x \<Rightarrow> (Inr x, s))"

definition sio_init :: "string \<Rightarrow> stringio" where
  "sio_init buf = \<lparr>sio_buf = Some buf, sio_len = int (length buf), sio_buflist = [],
     sio_pos = Some 0, sio_closed = False, sio_softspace = 0\<rparr>"

definition sio_close :: "(stringio, unit) act" where
  "sio_close f =
     (if \<not> sio_closed f then
        let f = f\<lparr>sio_closed := True\<rparr> in
        if sio_buf f = None then (Inl AttributeError, f)
        else
          let f = f\<lparr>sio_buf := None\<rparr> in
          if sio_pos f = None then (Inl AttributeError, f) else (Inr (), f\<lparr>sio_pos := None\<rparr>)
      else (Inr (), f))"

definition sio_isatty :: "(stringio, int) act" where
  "sio_isatty = retA 0"

definition sio_flatten :: "(stringio, unit) act" where
  \<comment> \<open>\<open>if self.buflist: self.buf = self.buf + joinfields(self.buflist, ''); self.buflist = []\<close>\<close>
  "sio_flatten f =
     (if sio_buflist f \<noteq> [] then
        bindA (attrA sio_buf)
          (\<lambda>b. updA (\<lambda>f. f\<lparr>sio_buf := Some (b @ joinfields (sio_buflist f) []), sio_buflist := []\<rparr>)) f
      else (Inr (), f))"

definition sio_seek :: "int \<Rightarrow> int \<Rightarrow> (stringio, unit) act" where
  "sio_seek pos mode =
     thenA sio_flatten
       (bindA (if mode = 1 then bindA (attrA sio_pos) (\<lambda>p. retA (pos + p))
               else if mode = 2 then getA (\<lambda>f. pos + sio_len f) else retA pos)
          (\<lambda>pos. updA (\<lambda>f. f\<lparr>sio_pos := Some (max 0 pos)\<rparr>)))"

definition sio_tell :: "(stringio, int) act" where
  "sio_tell = attrA sio_pos"

definition sio_cut :: "int \<Rightarrow> (stringio, string) act" where
  \<comment> \<open>\<open>r = self.buf[self.pos:newpos]; self.pos = newpos; return r\<close>\<close>
  "sio_cut newpos =
     bindA (attrA sio_buf) (\<lambda>b. bindA (attrA sio_pos) (\<lambda>p.
       thenA (updA (\<lambda>f. f\<lparr>sio_pos := Some newpos\<rparr>)) (retA (pslice p newpos b))))"

definition sio_read :: "int \<Rightarrow> (stringio, string) act" where
  "sio_read n =
     thenA sio_flatten
       (bindA (if n < 0 then getA sio_len
               else bindA (attrA sio_pos) (\<lambda>p. getA (\<lambda>f. min (p + n) (sio_len f))))
          sio_cut)"

definition sio_readline :: "(stringio, string) act" where
  "sio_readline =
     thenA sio_flatten
       (bindA (attrA sio_buf) (\<lambda>b. bindA (attrA sio_pos) (\<lambda>p.
          let i = find_s b [NL] p
          in bindA (if i < 0 then getA sio_len else retA (i + 1)) sio_cut)))"

text \<open>
  \<open>readlines\<close> loops until \<open>readline\<close> returns the empty string; each other call moves the
  position forward, and the length of the buffer bounds the calls.
\<close>

primrec sio_readlines_loop :: "nat \<Rightarrow> string list \<Rightarrow> stringio \<Rightarrow> (string list res \<times> stringio) option" where
  "sio_readlines_loop 0 acc f = None"
| "sio_readlines_loop (Suc fuel) acc f =
     (case sio_readline f of
        (Inl e, f) \<Rightarrow> Some (Inl e, f)
      | (Inr line, f) \<Rightarrow>
          if line = [] then Some (Inr acc, f) else sio_readlines_loop fuel (acc @ [line]) f)"

definition sio_readlines :: "nat \<Rightarrow> stringio \<Rightarrow> (string list res \<times> stringio) option" where
  "sio_readlines fuel = sio_readlines_loop fuel []"

definition sio_write :: "string \<Rightarrow> (stringio, unit) act" where
  "sio_write s =
     (if s = [] then retA ()
      else
        bindA (attrA sio_pos) (\<lambda>p.
          thenA (updA (\<lambda>f. if p > sio_len f
                   then f\<lparr>sio_buflist := sio_buflist f @ [replicate (nat (p - sio_len f)) NUL], sio_len := p\<rparr>
                   else f))
            (let newpos = p + int (length s) in
             thenA (\<lambda>f.
                 (if p < sio_len f then
                    thenA sio_flatten
                      (bindA (attrA sio_buf) (\<lambda>b.
                         updA (\<lambda>f. f\<lparr>sio_buflist := [pupto p b, s, pfrom newpos b], sio_buf := Some []\<rparr>))) f
                  else (Inr (), f\<lparr>sio_buflist := sio_buflist f @ [s], sio_len := newpos\<rparr>)))
               (updA (\<lambda>f. f\<lparr>sio_pos := Some newpos\<rparr>)))))"

definition sio_writelines :: "string list \<Rightarrow> (stringio, unit) act" where
  "sio_writelines ls = sio_write (joinfields ls [])"

definition sio_flush :: "(stringio, unit) act" where
  "sio_flush = retA ()"

definition sio_getvalue :: "(stringio, string) act" where
  "sio_getvalue = thenA sio_flatten (attrA sio_buf)"

definition sio_ops :: "stringio file_ops" where
  "sio_ops = \<lparr>fo_read = sio_read, fo_readline = sio_readline, fo_tell = sio_tell, fo_seek = sio_seek,
     fo_write = sio_write, fo_isfile = False\<rparr>"

subsection \<open>The invariant\<close>

definition sio_content :: "stringio \<Rightarrow> string" where
  "sio_content f = (case sio_buf f of None \<Rightarrow> [] | Some b \<Rightarrow> b @ concat (sio_buflist f))"

definition sio_posn :: "stringio \<Rightarrow> nat" where
  "sio_posn f = (case sio_pos f of None \<Rightarrow> 0 | Some p \<Rightarrow> nat p)"

definition sio_ok :: "stringio \<Rightarrow> bool" where
  "sio_ok f \<longleftrightarrow> sio_buf f \<noteq> None \<and> (case sio_pos f of None \<Rightarrow> False | Some p \<Rightarrow> 0 \<le> p) \<and>
     sio_len f = int (length (sio_content f))"

lemma joinfields_empty: "joinfields ws [] = concat ws"
proof -
  have "foldl (\<lambda>res w. res @ ([] @ w)) r ws = r @ concat ws" for r
    by (induction ws arbitrary: r) simp_all
  from this [of "[]"] show ?thesis by (simp add: joinfields_def)
qed

lemma sio_okE:
  assumes "sio_ok f"
  obtains b p where "sio_buf f = Some b" "sio_pos f = Some (int p)" "sio_posn f = p"
    "sio_content f = b @ concat (sio_buflist f)" "sio_len f = int (length b + length (concat (sio_buflist f)))"
proof -
  from assms obtain b where b: "sio_buf f = Some b" by (auto simp: sio_ok_def)
  from assms obtain q where q: "sio_pos f = Some q" "0 \<le> q" by (auto simp: sio_ok_def split: option.splits)
  from that [of b "nat q"] b q assms show ?thesis
    by (simp add: sio_content_def sio_posn_def sio_ok_def)
qed

lemma sio_ok_init: "sio_ok (sio_init s) \<and> sio_content (sio_init s) = s \<and> sio_posn (sio_init s) = 0"
  by (simp add: sio_ok_def sio_init_def sio_content_def sio_posn_def)

text \<open>Flattening changes the representation only.\<close>

lemma sio_flatten_ok:
  assumes "sio_ok f"
  shows "sio_flatten f = (Inr (), f\<lparr>sio_buf := Some (sio_content f), sio_buflist := []\<rparr>)"
  using assms by (rule sio_okE) (auto simp: sio_flatten_def attrA_def joinfields_empty bindA_def)

lemma sio_flat_simps:
  assumes "sio_ok f"
  defines "g \<equiv> f\<lparr>sio_buf := Some (sio_content f), sio_buflist := []\<rparr>"
  shows "sio_ok g" "sio_content g = sio_content f" "sio_posn g = sio_posn f"
    "sio_pos g = Some (int (sio_posn f))" "sio_len g = int (length (sio_content f))"
  using assms(1) by (rule sio_okE; auto simp: g_def sio_ok_def sio_content_def sio_posn_def)+

lemma sio_seek_ok:
  assumes "sio_ok f"
  shows "\<exists>g. sio_seek p whence f = (Inr (), g) \<and> sio_ok g \<and> sio_content g = sio_content f \<and>
    sio_posn g = nat (if whence = 1 then p + int (sio_posn f)
      else if whence = 2 then p + int (length (sio_content f)) else p)"
proof -
  note flat = sio_flat_simps [OF assms]
  let ?g = "f\<lparr>sio_buf := Some (sio_content f), sio_buflist := []\<rparr>"
  let ?h = "\<lambda>q. ?g\<lparr>sio_pos := Some (max 0 q)\<rparr>"
  let ?q = "if whence = 1 then p + int (sio_posn f)
      else if whence = 2 then p + int (length (sio_content f)) else p"
  have "sio_ok (?h q) \<and> sio_content (?h q) = sio_content f \<and> sio_posn (?h q) = nat q" for q
    using flat by (simp add: sio_ok_def sio_content_def sio_posn_def)
  moreover have "sio_seek p whence f = (Inr (), ?h ?q)"
    using flat(4,5) by (simp add: sio_seek_def sio_flatten_ok [OF assms] attrA_def)
  ultimately show ?thesis by blast
qed

lemma sio_cut_ok:
  assumes "sio_ok f" "sio_buflist f = []" "sio_posn f = p"
  shows "sio_cut (int q) f = (Inr (take (q - p) (drop p (sio_content f))), f\<lparr>sio_pos := Some (int q)\<rparr>)"
    "sio_ok (f\<lparr>sio_pos := Some (int q)\<rparr>)" "sio_content (f\<lparr>sio_pos := Some (int q)\<rparr>) = sio_content f"
    "sio_posn (f\<lparr>sio_pos := Some (int q)\<rparr>) = q"
proof -
  from assms(1) obtain b where b: "sio_buf f = Some b" "sio_pos f = Some (int p)"
      "sio_content f = b" "sio_len f = int (length b)"
    using assms(2,3) by (auto elim!: sio_okE)
  then show "sio_cut (int q) f = (Inr (take (q - p) (drop p (sio_content f))), f\<lparr>sio_pos := Some (int q)\<rparr>)"
    by (simp add: sio_cut_def attrA_def pslice_nat)
  show "sio_ok (f\<lparr>sio_pos := Some (int q)\<rparr>)" "sio_content (f\<lparr>sio_pos := Some (int q)\<rparr>) = sio_content f"
    "sio_posn (f\<lparr>sio_pos := Some (int q)\<rparr>) = q"
    using b assms(2) by (simp_all add: sio_content_def sio_ok_def sio_posn_def)
qed

lemma sio_read_ok:
  assumes "sio_ok f"
  shows "\<exists>g. sio_read (int n) f = (Inr (take n (drop (sio_posn f) (sio_content f))), g) \<and> sio_ok g \<and>
    sio_content g = sio_content f \<and>
    drop (sio_posn g) (sio_content f) = drop n (drop (sio_posn f) (sio_content f)) \<and>
    sio_posn g = min (sio_posn f + n) (length (sio_content f))"
proof -
  note flat = sio_flat_simps [OF assms]
  let ?g = "f\<lparr>sio_buf := Some (sio_content f), sio_buflist := []\<rparr>"
  let ?q = "min (sio_posn f + n) (length (sio_content f))"
  have "sio_read (int n) f = sio_cut (int ?q) ?g"
    using flat by (simp add: sio_read_def sio_flatten_ok [OF assms] attrA_def of_nat_min)
  moreover note sio_cut_ok [OF flat(1) _ flat(3), of ?q]
  moreover have "take (?q - sio_posn f) (drop (sio_posn f) (sio_content f)) = take n (drop (sio_posn f) (sio_content f))"
    by (cases "sio_posn f + n \<le> length (sio_content f)") (auto simp: min_def)
  moreover have "drop ?q (sio_content f) = drop n (drop (sio_posn f) (sio_content f))"
    by (cases "sio_posn f + n \<le> length (sio_content f)") (auto simp: min_def add.commute)
  ultimately show ?thesis using flat by auto
qed

lemma sio_readline_ok:
  assumes "sio_ok f"
  shows "\<exists>g. sio_readline f = (Inr (first_line (drop (sio_posn f) (sio_content f))), g) \<and> sio_ok g \<and>
    sio_content g = sio_content f \<and>
    drop (sio_posn g) (sio_content f) =
      drop (length (first_line (drop (sio_posn f) (sio_content f)))) (drop (sio_posn f) (sio_content f)) \<and>
    (sio_posn f \<le> length (sio_content f) \<longrightarrow>
      sio_posn g = sio_posn f + length (first_line (drop (sio_posn f) (sio_content f))))"
proof -
  note flat = sio_flat_simps [OF assms]
  let ?g = "f\<lparr>sio_buf := Some (sio_content f), sio_buflist := []\<rparr>"
  let ?c = "sio_content f" and ?p = "sio_posn f"
  let ?l = "first_line (drop ?p ?c)"
  let ?q = "if NL \<in> set (drop ?p ?c) then ?p + length (takeWhile (\<lambda>d. d \<noteq> NL) (drop ?p ?c)) + 1 else length ?c"
  have "sio_readline f = sio_cut (int ?q) ?g"
    using flat(4,5)
    by (simp add: sio_readline_def sio_flatten_ok [OF assms] attrA_def find_char_from ac_simps)
  moreover note sio_cut_ok [OF flat(1) _ flat(3), of ?q]
  moreover have "take (?q - ?p) (drop ?p ?c) = ?l"
  proof (cases "NL \<in> set (drop ?p ?c)")
    case True
    then have "length ?l = ?q - ?p" by (simp add: first_line_takeWhile)
    then show ?thesis using first_line_take [of "drop ?p ?c"] by simp
  next
    case False
    then show ?thesis by (simp add: first_line_takeWhile)
  qed
  moreover have "drop ?q ?c = drop (length ?l) (drop ?p ?c)"
    by (auto simp: first_line_takeWhile add.commute)
  moreover have "?p \<le> length ?c \<longrightarrow> ?q = ?p + length ?l"
    by (auto simp: first_line_takeWhile)
  ultimately show ?thesis using flat by auto
qed

interpretation sio: readable_file sio_ops sio_content sio_posn sio_ok
proof unfold_locales
  fix f
  assume ok: "sio_ok f"
  then show "fo_tell sio_ops f = (Inr (int (sio_posn f)), f)"
    by (rule sio_okE) (simp add: sio_ops_def sio_tell_def attrA_def)
  show "\<exists>g. fo_seek sio_ops (int p) 0 f = (Inr (), g) \<and> sio_ok g \<and> sio_posn g = p \<and> sio_content g = sio_content f"
    for p
    using sio_seek_ok [OF ok, of "int p" 0] by (auto simp: sio_ops_def)
  show "\<exists>g. fo_readline sio_ops f = (Inr (first_line (drop (sio_posn f) (sio_content f))), g) \<and> sio_ok g \<and>
      sio_content g = sio_content f \<and> drop (sio_posn g) (sio_content f) =
      drop (length (first_line (drop (sio_posn f) (sio_content f)))) (drop (sio_posn f) (sio_content f)) \<and>
      (sio_posn f \<le> length (sio_content f) \<longrightarrow>
        sio_posn g = sio_posn f + length (first_line (drop (sio_posn f) (sio_content f))))"
    using sio_readline_ok [OF ok] by (simp add: sio_ops_def)
  show "\<exists>g. fo_read sio_ops (int n) f = (Inr (take n (drop (sio_posn f) (sio_content f))), g) \<and> sio_ok g \<and>
      sio_content g = sio_content f \<and>
      drop (sio_posn g) (sio_content f) = drop n (drop (sio_posn f) (sio_content f)) \<and>
      (sio_posn f \<le> length (sio_content f) \<longrightarrow> sio_posn g = min (sio_posn f + n) (length (sio_content f)))" for n
    using sio_read_ok [OF ok, of n] by (auto simp: sio_ops_def)
  show "\<exists>g. fo_seek sio_ops d 1 f = (Inr (), g) \<and> sio_ok g \<and> sio_posn g = nat (int (sio_posn f) + d) \<and>
      sio_content g = sio_content f" for d
    using sio_seek_ok [OF ok, of d 1] by (auto simp: sio_ops_def add.commute)
qed

subsection \<open>Writing\<close>

text \<open>
  A write leaves the content of a real file.  It leaves a sound object exactly when it does not
  start inside the buffer and end beyond it: there \<open>len\<close> keeps the old length, and what was
  written past it cannot be read back.
\<close>

lemma pupto_pos: "pupto (int p) b = take p b" by simp

lemma sio_write_ok:
  assumes "sio_ok f"
  obtains g where "sio_write s f = (Inr (), g)"
    "sio_content g = write_at (sio_posn f) s (sio_content f)"
    "sio_posn g = sio_posn f + length s"
    "sio_ok g \<longleftrightarrow> \<not> (sio_posn f < length (sio_content f) \<and> length (sio_content f) < sio_posn f + length s)"
    "sio_len g = (if sio_posn f < length (sio_content f) then int (length (sio_content f))
      else int (length (sio_content g)))"
proof (cases "s = []")
  case True
  with assms that [of f] show ?thesis
    by (auto simp: sio_write_def write_at_def sio_ok_def)
next
  case False
  from assms obtain b p where f: "sio_buf f = Some b" "sio_pos f = Some (int p)" "sio_posn f = p"
    "sio_content f = b @ concat (sio_buflist f)" "sio_len f = int (length b + length (concat (sio_buflist f)))"
    by (rule sio_okE)
  let ?c = "sio_content f"
  have len: "sio_len f = int (length ?c)" using f by simp
  have end_pos: "int p + int (length s) = int (p + length s)" by simp
  show ?thesis
  proof (cases "p < length ?c")
    case True
    let ?g = "f\<lparr>sio_buf := Some [], sio_buflist := [take p ?c, s, drop (p + length s) ?c],
      sio_pos := Some (int (p + length s))\<rparr>"
    have "sio_write s f = (Inr (), ?g)"
      using False True f(2) len unfolding sio_write_def end_pos
      by (simp add: attrA_def sio_flatten_ok [OF assms] Let_def end_pos del: of_nat_add)
    moreover have c: "sio_content ?g = write_at p s ?c"
      using False True by (simp add: sio_content_def write_at_def)
    moreover have "sio_ok ?g \<longleftrightarrow> length ?c = length (sio_content ?g)"
      by (simp add: sio_ok_def len)
    moreover have "sio_posn ?g = sio_posn f + length s"
      using f(3) by (simp add: sio_posn_def nat_add_distrib)
    moreover have "length (sio_content ?g) = max (length ?c) (p + length s)"
      unfolding c using False by (simp add: write_at_length)
    ultimately show ?thesis
      using True f(3) len by (intro that [of ?g]) (auto simp: max_def)
  next
    case past: False
    let ?z = "if p > length ?c then [replicate (p - length ?c) NUL] else []"
    let ?g = "f\<lparr>sio_buflist := sio_buflist f @ ?z @ [s], sio_len := int (p + length s),
      sio_pos := Some (int (p + length s))\<rparr>"
    have "sio_write s f = (Inr (), ?g)"
      using False past f(2) len unfolding sio_write_def end_pos
      by (auto simp: attrA_def Let_def end_pos nat_diff_distrib simp del: of_nat_add)
    moreover have c: "sio_content ?g = write_at p s ?c"
      using False past f(1,4) by (auto simp: sio_content_def write_at_def)
    moreover have "sio_ok ?g"
      using past False c f(1) by (simp add: sio_ok_def write_at_length)
    moreover have "sio_posn ?g = sio_posn f + length s"
      using f(3) by (simp add: sio_posn_def nat_add_distrib)
    moreover from calculation have "sio_len ?g = int (length (sio_content ?g))"
      by (simp add: sio_ok_def)
    ultimately show ?thesis
      using past f(3) by (intro that [of ?g]) auto
  qed
qed

lemma sio_write_straddle:
  "(let (r, f) = sio_write ''12345'' (sio_init ''abcd'');
        (r, f) = sio_seek 0 0 f;
        (v, f) = sio_read (- 1) f;
        (w, f) = sio_getvalue f
    in (v, w)) = (Inr ''1234'', Inr ''12345'')"
  by code_simp

end
