(* ===== verification/Wave.thy ===== *)
theory Wave
  imports Files
begin

section \<open>\<open>Lib/wave.py\<close>: WAVE audio files\<close>

text \<open>
  The reader and the writer over any file object (\<open>Files\<close>).  An object is its record of
  attributes beside the state of its file; a chunk holds the same file.  The array module is C
  code of the interpreter: of it the modules use \<open>array(fmt, s)\<close>, \<open>fromfile\<close>, \<open>tofile\<close>,
  \<open>byteswap\<close> and \<open>tostring\<close>, modelled on byte strings.  The size of a C \<open>long\<close>, the items
  of format \<open>l\<close>, is the parameter \<open>lsz\<close>.
\<close>

subsection \<open>Numbers in a file\<close>

definition wave_error :: "string \<Rightarrow> pyexc" where
  "wave_error msg = ModError ''wave.Error'' msg"

primrec read_le :: "nat \<Rightarrow> (int \<Rightarrow> ('s, string) act) \<Rightarrow> nat \<Rightarrow> int \<Rightarrow> ('s, int) act" where
  "read_le 0 rd i x = retA x"
| "read_le (Suc k) rd i x =
     bindA (rd 1) (\<lambda>b.
       if b = [] then raiseA EOFError
       else read_le k rd (Suc i) (x + push_bit (8 * i) (int (ord (hd b)))))"

definition wave_read_long :: "(int \<Rightarrow> ('s, string) act) \<Rightarrow> ('s, int) act" where
  "wave_read_long rd =
     bindA (read_le 4 rd 0 0) (\<lambda>x. retA (if x \<ge> 0x80000000 then x - 0x100000000 else x))"

definition wave_read_ulong :: "(int \<Rightarrow> ('s, string) act) \<Rightarrow> ('s, int) act" where
  "wave_read_ulong rd = read_le 4 rd 0 0"

definition wave_read_short :: "(int \<Rightarrow> ('s, string) act) \<Rightarrow> ('s, int) act" where
  "wave_read_short rd =
     bindA (read_le 2 rd 0 0) (\<lambda>x. retA (if x \<ge> 0x8000 then x - 0x10000 else x))"

definition put_chr :: "(string \<Rightarrow> ('s, unit) act) \<Rightarrow> int \<Rightarrow> ('s, unit) act" where
  \<comment> \<open>\<open>f.write(chr(m))\<close>\<close>
  "put_chr wr m =
     (if 0 \<le> m \<and> m < 256 then wr [chr (nat m)]
      else raiseA (ValueError ''chr() arg not in range(256)''))"

definition wave_write_short :: "(string \<Rightarrow> ('s, unit) act) \<Rightarrow> int \<Rightarrow> ('s, unit) act" where
  "wave_write_short wr x = thenA (put_chr wr (x mod 256)) (put_chr wr (x div 256))"

primrec write_le :: "nat \<Rightarrow> (string \<Rightarrow> ('s, unit) act) \<Rightarrow> int \<Rightarrow> ('s, unit) act" where
  "write_le 0 wr x = retA ()"
| "write_le (Suc k) wr x = thenA (put_chr wr (x mod 256)) (write_le k wr (x div 256))"

definition wave_write_long :: "(string \<Rightarrow> ('s, unit) act) \<Rightarrow> int \<Rightarrow> ('s, unit) act" where
  "wave_write_long wr x = write_le 4 wr (if x < 0 then x + 0x100000000 else x)"

subsection \<open>Arrays\<close>

definition array_fmts :: "nat \<Rightarrow> nat option list" where
  \<comment> \<open>the item sizes of the formats\<close>
  "array_fmts lsz = [None, Some 1, Some 2, None, Some lsz]"

definition array_itemsize :: "nat \<Rightarrow> int \<Rightarrow> nat res" where
  "array_itemsize lsz sampwidth =
     bindR (pindex (array_fmts lsz) sampwidth) (\<lambda>f. case f of None \<Rightarrow> Inl TypeError | Some k \<Rightarrow> Inr k)"

function byteswap :: "nat \<Rightarrow> string \<Rightarrow> string" where
  "byteswap k s = (if k = 0 \<or> length s < k then [] else rev (take k s) @ byteswap k (drop k s))"
  by pat_completeness auto
termination
  by (relation "measure (\<lambda>(k, s). length s)") auto

declare byteswap.simps [simp del]

definition array_fromfile :: "'f file_ops \<Rightarrow> nat \<Rightarrow> int \<Rightarrow> ('f, string) act" where
  "array_fromfile ops k n =
     (if \<not> fo_isfile ops then raiseA TypeError
      else
        bindA (fo_read ops (max 0 n * int k)) (\<lambda>s.
          if int (length s) < n * int k then raiseA EOFError else retA s))"

subsection \<open>Chunks\<close>

record wave_chunk =
  ck_name :: string
  ck_size :: int
  ck_read :: int
  ck_offset :: int

definition chunk_open :: "'f file_ops \<Rightarrow> ('f, wave_chunk) act" where
  "chunk_open ops =
     bindA (fo_read ops 4) (\<lambda>name.
       if length name < 4 then raiseA EOFError
       else
         bindA (wave_read_long (fo_read ops)) (\<lambda>size.
           bindA (fo_tell ops) (\<lambda>offset.
             retA \<lparr>ck_name = name, ck_size = size, ck_read = 0, ck_offset = offset\<rparr>)))"

definition chunk_rewind :: "'f file_ops \<Rightarrow> (wave_chunk \<times> 'f, unit) act" where
  "chunk_rewind ops =
     bindA (getA (\<lambda>(c, f). ck_offset c)) (\<lambda>offset.
       thenA (on_file (fo_seek ops offset 0)) (updA (\<lambda>(c, f). (c\<lparr>ck_read := 0\<rparr>, f))))"

definition chunk_setpos :: "'f file_ops \<Rightarrow> int \<Rightarrow> (wave_chunk \<times> 'f, unit) act" where
  "chunk_setpos ops pos =
     thenA (guardA (\<lambda>(c, f). \<not> (pos < 0 \<or> pos > ck_size c)) RuntimeError)
       (bindA (getA (\<lambda>(c, f). ck_offset c)) (\<lambda>offset.
          thenA (on_file (fo_seek ops (offset + pos) 0)) (updA (\<lambda>(c, f). (c\<lparr>ck_read := pos\<rparr>, f)))))"

definition chunk_read :: "'f file_ops \<Rightarrow> int \<Rightarrow> (wave_chunk \<times> 'f, string) act" where
  "chunk_read ops n = (\<lambda>(c, f).
     if ck_read c \<ge> ck_size c then (Inr [], (c, f))
     else
       let n = (if n > ck_size c - ck_read c then ck_size c - ck_read c else n)
       in case fo_read ops n f of
            (Inl e, f) \<Rightarrow> (Inl e, (c, f))
          | (Inr data, f) \<Rightarrow> (Inr data, (c\<lparr>ck_read := ck_read c + int (length data)\<rparr>, f)))"

lemma chunk_read_progress:
  "chunk_read ops n (c, f) = (Inr data, (c', f')) \<Longrightarrow> data \<noteq> [] \<Longrightarrow>
    ck_read c < ck_size c \<and> ck_size c' = ck_size c \<and> ck_read c < ck_read c'"
  by (auto simp: chunk_read_def Let_def split: if_splits prod.splits sum.splits)

text \<open>The loop for files that cannot seek: read up to the end of the chunk.\<close>

function chunk_skip_loop :: "'f file_ops \<Rightarrow> wave_chunk \<Rightarrow> 'f \<Rightarrow> unit res \<times> (wave_chunk \<times> 'f)" where
  "chunk_skip_loop ops c f =
     (if ck_read c < ck_size c then
        (case chunk_read ops 8192 (c, f) of
           (Inl e, s) \<Rightarrow> (Inl e, s)
         | (Inr dummy, (c', f')) \<Rightarrow>
             if dummy = [] then (Inl EOFError, (c', f')) else chunk_skip_loop ops c' f')
      else (Inr (), (c, f)))"
  by pat_completeness auto
termination
  by (relation "measure (\<lambda>(ops, c, f). nat (ck_size c - ck_read c))")
    (auto dest!: chunk_read_progress [OF sym])

declare chunk_skip_loop.simps [simp del]

definition chunk_skip :: "'f file_ops \<Rightarrow> (wave_chunk \<times> 'f, unit) act" where
  "chunk_skip ops = (\<lambda>(c, f).
     case fo_seek ops (ck_size c - ck_read c) 1 f of
       (Inr _, f) \<Rightarrow> (Inr (), (c, f))
     | (Inl e, f) \<Rightarrow> if e = RuntimeError then chunk_skip_loop ops c f else (Inl e, (c, f)))"

subsection \<open>Reading\<close>

record wave_reader =
  wr_soundpos :: int
  wr_nchannels :: int
  wr_nframes :: int
  wr_sampwidth :: int
  wr_framerate :: int
  wr_framesize :: int
  wr_comptype :: string
  wr_compname :: string
  wr_fmt_read :: bool
  wr_seek_needed :: bool
  wr_data_chunk :: "wave_chunk option"
  wr_open :: bool

definition wave_reader_new :: wave_reader where
  "wave_reader_new = \<lparr>wr_soundpos = 0, wr_nchannels = 0, wr_nframes = 0, wr_sampwidth = 0,
     wr_framerate = 0, wr_framesize = 0, wr_comptype = [], wr_compname = [], wr_fmt_read = False,
     wr_seek_needed = False, wr_data_chunk = None, wr_open = True\<rparr>"

text \<open>The body of \<open>_read_fmt_chunk\<close>: the attributes it sets, one after the other.\<close>

definition read_fmt_chunk ::
  "'f file_ops \<Rightarrow> wave_reader \<Rightarrow> (wave_chunk \<times> 'f, wave_reader) act" where
  "read_fmt_chunk ops w =
     bindA (wave_read_short (chunk_read ops)) (\<lambda>wFormatTag.
     bindA (wave_read_short (chunk_read ops)) (\<lambda>nchannels.
     bindA (wave_read_long (chunk_read ops)) (\<lambda>framerate.
     bindA (wave_read_long (chunk_read ops)) (\<lambda>dwAvgBytesPerSec.
     bindA (wave_read_short (chunk_read ops)) (\<lambda>wBlockAlign.
       if wFormatTag = 1 then
         bindA (wave_read_short (chunk_read ops)) (\<lambda>bits.
           let sampwidth = (bits + 7) div 8
           in retA (w\<lparr>wr_nchannels := nchannels, wr_framerate := framerate, wr_sampwidth := sampwidth,
                wr_framesize := nchannels * sampwidth, wr_comptype := ''NONE'',
                wr_compname := ''not compressed''\<rparr>))
       else raiseA (wave_error ''unknown format''))))))"

definition py_div :: "int \<Rightarrow> int \<Rightarrow> int res" where
  \<comment> \<open>\<open>x / y\<close> on integers\<close>
  "py_div x y = (if y = 0 then Inl ZeroDivisionError else Inr (x div y))"

text \<open>What the loop of \<open>initfp\<close> does with one chunk; the chunk comes back as it was left.\<close>

definition wave_chunk_step :: "'f file_ops \<Rightarrow> wave_reader \<Rightarrow> ('f, wave_chunk \<times> wave_reader) act" where
  "wave_chunk_step ops w =
     bindA (chunk_open ops) (\<lambda>chunk.
       if ck_name chunk = ''fmt '' then
         (\<lambda>f. case read_fmt_chunk ops w (chunk, f) of
            (Inl e, (c, f)) \<Rightarrow> (Inl e, f)
          | (Inr w, (c, f)) \<Rightarrow> (Inr (c, w\<lparr>wr_fmt_read := True\<rparr>), f))
       else if ck_name chunk = ''data'' then
         if \<not> wr_fmt_read w then raiseA (wave_error ''data chunk before fmt chunk'')
         else
           bindA (liftA (py_div (ck_size chunk) (wr_framesize w))) (\<lambda>n.
             retA (chunk, w\<lparr>wr_data_chunk := Some chunk, wr_nframes := n, wr_seek_needed := False\<rparr>))
       else retA (chunk, w))"

text \<open>
  The loop of \<open>initfp\<close> follows the chunk sizes, which the file gives: a negative one can send it
  back, so it has fuel, and running out of it is \<open>None\<close>.
\<close>

primrec wave_init_loop ::
  "nat \<Rightarrow> 'f file_ops \<Rightarrow> int \<Rightarrow> wave_reader \<Rightarrow> 'f \<Rightarrow> (wave_reader res \<times> 'f) option" where
  "wave_init_loop 0 ops formlength w f = None"
| "wave_init_loop (Suc fuel) ops formlength w f =
     (if formlength > 0 then
        (case wave_chunk_step ops (w\<lparr>wr_seek_needed := True\<rparr>) f of
           (Inl e, f) \<Rightarrow> Some (Inl e, f)
         | (Inr (chunk, w), f) \<Rightarrow>
             let formlength = formlength - 8 - ck_size chunk
             in if formlength > 0 then
                  (case chunk_skip ops (chunk, f) of
                     (Inl e, (c, f)) \<Rightarrow> Some (Inl e, f)
                   | (Inr _, (c, f)) \<Rightarrow>
                       wave_init_loop fuel ops formlength
                         (if ck_name chunk = ''data'' then w\<lparr>wr_data_chunk := Some c\<rparr> else w) f)
                else wave_init_loop fuel ops formlength w f)
      else Some (Inr w, f))"

definition wave_open_read :: "nat \<Rightarrow> 'f file_ops \<Rightarrow> 'f \<Rightarrow> (wave_reader res \<times> 'f) option" where
  "wave_open_read fuel ops f =
     (case bindA (fo_read ops 4) (\<lambda>form.
             if form \<noteq> ''RIFF'' then raiseA (wave_error ''file does not start with RIFF id'')
             else
               bindA (wave_read_long (fo_read ops)) (\<lambda>formlength.
                 if formlength \<le> 0 then raiseA (wave_error ''invalid FORM chunk data size'')
                 else
                   bindA (fo_read ops 4) (\<lambda>formdata.
                     if formdata \<noteq> ''WAVE'' then raiseA (wave_error ''not a WAVE file'')
                     else retA (formlength - 4)))) f of
        (Inl e, f) \<Rightarrow> Some (Inl e, f)
      | (Inr formlength, f) \<Rightarrow>
          (case wave_init_loop fuel ops formlength wave_reader_new f of
             None \<Rightarrow> None
           | Some (Inl e, f) \<Rightarrow> Some (Inl e, f)
           | Some (Inr w, f) \<Rightarrow>
               if \<not> wr_fmt_read w then Some (Inl (wave_error ''fmt chunk and/or data chunk missing''), f)
               else if wr_data_chunk w = None then Some (Inl AttributeError, f)
               else Some (Inr w, f)))"

definition wr_rewind :: "(wave_reader \<times> 'f, unit) act" where
  "wr_rewind = updA (\<lambda>(w, f). (w\<lparr>wr_seek_needed := True, wr_soundpos := 0\<rparr>, f))"

definition wr_close :: "(wave_reader \<times> 'f, unit) act" where
  "wr_close = updA (\<lambda>(w, f). (w\<lparr>wr_open := False\<rparr>, f))"

definition wr_tell :: "(wave_reader \<times> 'f, int) act" where
  "wr_tell = getA (\<lambda>(w, f). wr_soundpos w)"

definition wr_getparams ::
  "(wave_reader \<times> 'f, int \<times> int \<times> int \<times> int \<times> string \<times> string) act" where
  "wr_getparams = getA (\<lambda>(w, f). (wr_nchannels w, wr_sampwidth w, wr_framerate w, wr_nframes w,
     wr_comptype w, wr_compname w))"

definition wr_getmark :: "int \<Rightarrow> (wave_reader \<times> 'f, unit) act" where
  "wr_getmark mid = raiseA (wave_error ''no marks'')"

definition wr_setpos :: "int \<Rightarrow> (wave_reader \<times> 'f, unit) act" where
  "wr_setpos pos =
     thenA (guardA (\<lambda>(w, f). \<not> (pos < 0 \<or> pos > wr_nframes w)) (wave_error ''position not in range''))
       (updA (\<lambda>(w, f). (w\<lparr>wr_soundpos := pos, wr_seek_needed := True\<rparr>, f)))"

text \<open>An action on the data chunk; the reader and the chunk share the file.\<close>

definition on_chunk :: "(wave_chunk \<times> 'f, 'a) act \<Rightarrow> (wave_reader \<times> 'f, 'a) act" where
  "on_chunk m = (\<lambda>(w, f).
     case wr_data_chunk w of
       None \<Rightarrow> (Inl AttributeError, (w, f))
     | Some c \<Rightarrow> (case m (c, f) of (r, (c, f)) \<Rightarrow> (r, (w\<lparr>wr_data_chunk := Some c\<rparr>, f))))"

definition wr_seek_data :: "'f file_ops \<Rightarrow> (wave_reader \<times> 'f, unit) act" where
  "wr_seek_data ops = (\<lambda>(w, f).
     if wr_seek_needed w then
       thenA (on_chunk (chunk_rewind ops))
         (thenA
           (let pos = wr_soundpos w * wr_framesize w
            in if pos \<noteq> 0 then on_chunk (chunk_setpos ops pos) else retA ())
           (updA (\<lambda>(w, f). (w\<lparr>wr_seek_needed := False\<rparr>, f)))) (w, f)
     else (Inr (), (w, f)))"

definition chunk_fromfile :: "'f file_ops \<Rightarrow> nat \<Rightarrow> int \<Rightarrow> int \<Rightarrow> (wave_chunk \<times> 'f, string) act" where
  "chunk_fromfile ops k sampwidth nitems =
     bindA (getA (\<lambda>(c, f). ck_size c - ck_read c)) (\<lambda>left.
       let nitems = (if nitems * sampwidth > left then left div sampwidth else nitems)
       in bindA (on_file (array_fromfile ops k nitems)) (\<lambda>data.
            thenA (updA (\<lambda>(c, f). (c\<lparr>ck_read := ck_read c + nitems * sampwidth\<rparr>, f))) (retA data)))"

definition wr_readframes :: "nat \<Rightarrow> 'f file_ops \<Rightarrow> int \<Rightarrow> (wave_reader \<times> 'f, string) act" where
  "wr_readframes lsz ops nframes =
     thenA (wr_seek_data ops)
       (if nframes = 0 then retA []
        else
          (\<lambda>(w, f).
             bindA
               (if wr_sampwidth w > 1 then
                  bindA (liftA (array_itemsize lsz (wr_sampwidth w))) (\<lambda>k.
                    bindA (on_chunk (chunk_fromfile ops k (wr_sampwidth w) (nframes * wr_nchannels w)))
                      (\<lambda>data. retA (byteswap k data)))
                else on_chunk (chunk_read ops (nframes * wr_framesize w)))
               (\<lambda>data.
                  bindA (liftA (py_div (int (length data)) (wr_nchannels w * wr_sampwidth w))) (\<lambda>n.
                    thenA (updA (\<lambda>(w, f). (w\<lparr>wr_soundpos := wr_soundpos w + n\<rparr>, f))) (retA data)))
               (w, f)))"

definition wr_getnchannels :: "(wave_reader \<times> 'f, int) act" where
  "wr_getnchannels = getA (\<lambda>(w, f). wr_nchannels w)"

definition wr_getnframes :: "(wave_reader \<times> 'f, int) act" where
  "wr_getnframes = getA (\<lambda>(w, f). wr_nframes w)"

definition wr_getsampwidth :: "(wave_reader \<times> 'f, int) act" where
  "wr_getsampwidth = getA (\<lambda>(w, f). wr_sampwidth w)"

definition wr_getframerate :: "(wave_reader \<times> 'f, int) act" where
  "wr_getframerate = getA (\<lambda>(w, f). wr_framerate w)"

definition wr_getcomptype :: "(wave_reader \<times> 'f, string) act" where
  "wr_getcomptype = getA (\<lambda>(w, f). wr_comptype w)"

definition wr_getcompname :: "(wave_reader \<times> 'f, string) act" where
  "wr_getcompname = getA (\<lambda>(w, f). wr_compname w)"

subsection \<open>Writing\<close>

text \<open>
  \<open>_comptype\<close>, \<open>_compname\<close> and the two file positions are set by methods only: reading them
  before raises \<open>AttributeError\<close>.  \<open>close\<close> replaces the file by \<open>None\<close>.
\<close>

record wave_writer =
  ww_nchannels :: int
  ww_sampwidth :: int
  ww_framerate :: int
  ww_nframes :: int
  ww_nframeswritten :: int
  ww_datawritten :: int
  ww_datalength :: int
  ww_comptype :: "string option"
  ww_compname :: "string option"
  ww_form_pos :: "int option"
  ww_data_pos :: "int option"
  ww_open :: bool

type_synonym ('f, 'a) ww_act = "(wave_writer \<times> 'f, 'a) act"

definition ww_init :: wave_writer where
  "ww_init = \<lparr>ww_nchannels = 0, ww_sampwidth = 0, ww_framerate = 0, ww_nframes = 0,
     ww_nframeswritten = 0, ww_datawritten = 0, ww_datalength = 0, ww_comptype = None,
     ww_compname = None, ww_form_pos = None, ww_data_pos = None, ww_open = True\<rparr>"

definition ww_get :: "(wave_writer \<Rightarrow> 'a) \<Rightarrow> ('f, 'a) ww_act" where
  "ww_get g = getA (\<lambda>(w, f). g w)"

definition ww_set :: "(wave_writer \<Rightarrow> wave_writer) \<Rightarrow> ('f, unit) ww_act" where
  "ww_set g = updA (\<lambda>(w, f). (g w, f))"

definition ww_check :: "(wave_writer \<Rightarrow> bool) \<Rightarrow> string \<Rightarrow> ('f, unit) ww_act" where
  \<comment> \<open>\<open>if P: raise Error, msg\<close>\<close>
  "ww_check P msg = guardA (\<lambda>(w, f). \<not> P w) (wave_error msg)"

definition ww_attr :: "(wave_writer \<Rightarrow> 'a option) \<Rightarrow> ('f, 'a) ww_act" where
  "ww_attr g = bindA (ww_get g) (\<lambda>x. case x of None \<Rightarrow> raiseA AttributeError | Some v \<Rightarrow> retA v)"

definition ww_frozen :: "('f, unit) ww_act" where
  "ww_frozen =
     ww_check (\<lambda>w. ww_datawritten w \<noteq> 0) ''cannot change parameters after starting to write''"

definition ww_setnchannels :: "int \<Rightarrow> ('f, unit) ww_act" where
  "ww_setnchannels n =
     thenA ww_frozen (thenA (ww_check (\<lambda>w. n < 1) ''bad # of channels'')
       (ww_set (ww_nchannels_update (\<lambda>_. n))))"

definition ww_getnchannels :: "('f, int) ww_act" where
  "ww_getnchannels =
     thenA (ww_check (\<lambda>w. ww_nchannels w = 0) ''number of channels not set'') (ww_get ww_nchannels)"

definition ww_setsampwidth :: "int \<Rightarrow> ('f, unit) ww_act" where
  "ww_setsampwidth n =
     thenA ww_frozen (thenA (ww_check (\<lambda>w. n < 1 \<or> n > 4) ''bad sample width'')
       (ww_set (ww_sampwidth_update (\<lambda>_. n))))"

definition ww_getsampwidth :: "('f, int) ww_act" where
  "ww_getsampwidth =
     thenA (ww_check (\<lambda>w. ww_sampwidth w = 0) ''sample width not set'') (ww_get ww_sampwidth)"

definition ww_setframerate :: "int \<Rightarrow> ('f, unit) ww_act" where
  "ww_setframerate n =
     thenA ww_frozen (thenA (ww_check (\<lambda>w. n \<le> 0) ''bad frame rate'')
       (ww_set (ww_framerate_update (\<lambda>_. n))))"

definition ww_getframerate :: "('f, int) ww_act" where
  "ww_getframerate =
     thenA (ww_check (\<lambda>w. ww_framerate w = 0) ''frame rate not set'') (ww_get ww_framerate)"

definition ww_setnframes :: "int \<Rightarrow> ('f, unit) ww_act" where
  "ww_setnframes n = thenA ww_frozen (ww_set (ww_nframes_update (\<lambda>_. n)))"

definition ww_getnframes :: "('f, int) ww_act" where
  "ww_getnframes = ww_get ww_nframeswritten"

definition ww_setcomptype :: "string \<Rightarrow> string \<Rightarrow> ('f, unit) ww_act" where
  "ww_setcomptype comptype compname =
     thenA ww_frozen (thenA (ww_check (\<lambda>w. comptype \<noteq> ''NONE'') ''unsupported compression type'')
       (ww_set (\<lambda>w. w\<lparr>ww_comptype := Some comptype, ww_compname := Some compname\<rparr>)))"

definition ww_getcomptype :: "('f, string) ww_act" where
  "ww_getcomptype = ww_attr ww_comptype"

definition ww_getcompname :: "('f, string) ww_act" where
  "ww_getcompname = ww_attr ww_compname"

definition ww_setparams :: "int \<times> int \<times> int \<times> int \<times> string \<times> string \<Rightarrow> ('f, unit) ww_act" where
  "ww_setparams = (\<lambda>(nchannels, sampwidth, framerate, nframes, comptype, compname).
     thenA ww_frozen (thenA (ww_setnchannels nchannels) (thenA (ww_setsampwidth sampwidth)
       (thenA (ww_setframerate framerate) (thenA (ww_setnframes nframes)
         (ww_setcomptype comptype compname))))))"

definition ww_getparams :: "('f, int \<times> int \<times> int \<times> int \<times> string \<times> string) ww_act" where
  "ww_getparams =
     thenA (ww_check (\<lambda>w. ww_nchannels w = 0 \<or> ww_sampwidth w = 0 \<or> ww_framerate w = 0)
         ''not all parameters set'')
       (bindA (ww_attr ww_comptype) (\<lambda>comptype. bindA (ww_attr ww_compname) (\<lambda>compname.
          ww_get (\<lambda>w. (ww_nchannels w, ww_sampwidth w, ww_framerate w, ww_nframes w, comptype, compname)))))"

definition ww_setmark :: "int \<Rightarrow> int \<Rightarrow> string \<Rightarrow> ('f, unit) ww_act" where
  "ww_setmark mid pos name = raiseA (wave_error ''setmark() not supported'')"

definition ww_getmark :: "int \<Rightarrow> ('f, unit) ww_act" where
  "ww_getmark mid = raiseA (wave_error ''no marks'')"

definition ww_tell :: "('f, int) ww_act" where
  "ww_tell = ww_get ww_nframeswritten"

definition ww_file :: "('f, 'a) act \<Rightarrow> ('f, 'a) ww_act" where
  \<comment> \<open>a method of \<open>self._file\<close>, which is \<open>None\<close> after \<open>close\<close>\<close>
  "ww_file m = thenA (guardA (\<lambda>(w, f). ww_open w) AttributeError) (on_file m)"

definition ww_put :: "'f file_ops \<Rightarrow> string \<Rightarrow> ('f, unit) ww_act" where
  "ww_put ops s = ww_file (fo_write ops s)"

text \<open>\<open>_write_header\<close> in two parts: up to the first size, and the fields from there on.\<close>

definition ww_header_start :: "'f file_ops \<Rightarrow> int \<Rightarrow> ('f, unit) ww_act" where
  "ww_header_start ops initlength =
     thenA (ww_put ops ''RIFF'')
     (thenA (\<lambda>(w, f).
        if ww_nframes w = 0 then
          bindA (liftA (py_div initlength (ww_nchannels w * ww_sampwidth w)))
            (\<lambda>n. ww_set (ww_nframes_update (\<lambda>_. n))) (w, f)
        else (Inr (), (w, f)))
     (thenA (ww_set (\<lambda>w. w\<lparr>ww_datalength := ww_nframes w * ww_nchannels w * ww_sampwidth w\<rparr>))
     (bindA (ww_file (fo_tell ops)) (\<lambda>p. ww_set (ww_form_pos_update (\<lambda>_. Some p))))))"

definition ww_header_fields :: "'f file_ops \<Rightarrow> ('f, unit) ww_act" where
  "ww_header_fields ops =
     bindA (ww_get (\<lambda>w. w)) (\<lambda>w.
       thenA (wave_write_long (ww_put ops) (36 + ww_datalength w))
       (thenA (ww_put ops ''WAVE'')
       (thenA (ww_put ops ''fmt '')
       (thenA (wave_write_long (ww_put ops) 16)
       (thenA (wave_write_short (ww_put ops) 1)
       (thenA (wave_write_short (ww_put ops) (ww_nchannels w))
       (thenA (wave_write_long (ww_put ops) (ww_framerate w))
       (thenA (wave_write_long (ww_put ops) (ww_nchannels w * ww_framerate w * ww_sampwidth w))
       (thenA (wave_write_short (ww_put ops) (ww_nchannels w * ww_sampwidth w))
       (thenA (wave_write_short (ww_put ops) (ww_sampwidth w * 8))
       (thenA (ww_put ops ''data'')
       (thenA (bindA (ww_file (fo_tell ops)) (\<lambda>p. ww_set (ww_data_pos_update (\<lambda>_. Some p))))
       (wave_write_long (ww_put ops) (ww_datalength w))))))))))))))"

definition ww_write_header :: "'f file_ops \<Rightarrow> int \<Rightarrow> ('f, unit) ww_act" where
  "ww_write_header ops initlength = thenA (ww_header_start ops initlength) (ww_header_fields ops)"

definition ww_ensure_header :: "'f file_ops \<Rightarrow> int \<Rightarrow> ('f, unit) ww_act" where
  "ww_ensure_header ops datasize = (\<lambda>(w, f).
     if ww_datawritten w = 0 then
       thenA (ww_check (\<lambda>w. ww_nchannels w = 0) ''# channels not specified'')
       (thenA (ww_check (\<lambda>w. ww_sampwidth w = 0) ''sample width not specified'')
       (thenA (ww_check (\<lambda>w. ww_framerate w = 0) ''sampling rate not specified'')
       (ww_write_header ops datasize))) (w, f)
     else (Inr (), (w, f)))"

text \<open>
  \<open>_write_long(36 + self._datawritten)\<close> is a call with one argument of a function of two:
  \<open>TypeError\<close>, after the first seek.
\<close>

definition ww_patchheader :: "'f file_ops \<Rightarrow> ('f, unit) ww_act" where
  "ww_patchheader ops = (\<lambda>(w, f).
     if ww_datawritten w = ww_datalength w then (Inr (), (w, f))
     else
       thenA (bindA (ww_file (fo_tell ops)) (\<lambda>curpos. retA ()))
         (bindA (ww_attr ww_form_pos) (\<lambda>p.
            thenA (ww_file (fo_seek ops p 0)) (raiseA TypeError))) (w, f))"

definition ww_writeframesraw :: "nat \<Rightarrow> 'f file_ops \<Rightarrow> string \<Rightarrow> ('f, unit) ww_act" where
  "ww_writeframesraw lsz ops data =
     thenA (ww_ensure_header ops (int (length data)))
     (bindA (ww_get (\<lambda>w. w)) (\<lambda>w.
       bindA (liftA (py_div (int (length data)) (ww_sampwidth w * ww_nchannels w))) (\<lambda>nframes.
         thenA
           (if ww_sampwidth w > 1 then
              bindA (liftA (array_itemsize lsz (ww_sampwidth w))) (\<lambda>k.
                if length data mod k \<noteq> 0
                then raiseA (ValueError ''string length not a multiple of item size'')
                else if \<not> ww_open w \<or> \<not> fo_isfile ops then raiseA TypeError
                else
                  thenA (on_file (fo_write ops (byteswap k data)))
                    (ww_set (\<lambda>w. w\<lparr>ww_datawritten := ww_datawritten w +
                       int (length data div k) * ww_sampwidth w\<rparr>)))
            else
              thenA (ww_put ops data)
                (ww_set (\<lambda>w. w\<lparr>ww_datawritten := ww_datawritten w + int (length data)\<rparr>)))
           (ww_set (\<lambda>w. w\<lparr>ww_nframeswritten := ww_nframeswritten w + nframes\<rparr>)))))"

definition ww_writeframes :: "nat \<Rightarrow> 'f file_ops \<Rightarrow> string \<Rightarrow> ('f, unit) ww_act" where
  "ww_writeframes lsz ops data =
     thenA (ww_writeframesraw lsz ops data)
       (bindA (ww_get (\<lambda>w. ww_datalength w \<noteq> ww_datawritten w)) (\<lambda>b.
          if b then ww_patchheader ops else retA ()))"

definition ww_close :: "'f file_ops \<Rightarrow> ('f, unit) ww_act" where
  "ww_close ops =
     thenA (ww_ensure_header ops 0)
       (thenA (bindA (ww_get (\<lambda>w. ww_datalength w \<noteq> ww_datawritten w)) (\<lambda>b.
            if b then ww_patchheader ops else retA ()))
          (thenA (ww_file (retA ())) (ww_set (ww_open_update (\<lambda>_. False)))))"

subsection \<open>Little-endian numbers\<close>

primrec le_bytes :: "nat \<Rightarrow> int \<Rightarrow> string" where
  "le_bytes 0 x = []"
| "le_bytes (Suc k) x = chr (nat (x mod 256)) # le_bytes k (x div 256)"

lemma length_le_bytes [simp]: "length (le_bytes k x) = k"
  by (induction k arbitrary: x) simp_all

lemma ord_le_byte: "int (ord (chr (nat (x mod 256)) :: char)) = x mod 256"
  by (simp add: nat_less_iff)

lemma mod_Suc_256: "x mod 256 ^ Suc k = x mod 256 + 256 * (x div 256 mod 256 ^ k)" for x :: int
  by (simp add: zmod_zmult2_eq)

text \<open>A reader that delivers the bytes of \<open>R\<close> one at a time.\<close>

lemma read_le_bytes:
  assumes step: "\<And>s b xs. R s (b # xs) \<Longrightarrow> \<exists>s'. rd 1 s = (Inr [b], s') \<and> R s' xs"
  shows "R s (le_bytes k x @ t) \<Longrightarrow>
    \<exists>s'. read_le k rd i acc s = (Inr (acc + (x mod 256 ^ k) * 256 ^ i), s') \<and> R s' t"
proof (induction k arbitrary: s i acc x)
  case 0
  then show ?case by simp
next
  case (Suc k)
  let ?b = "chr (nat (x mod 256)) :: char"
  from step [of s ?b "le_bytes k (x div 256) @ t"] Suc.prems obtain u where
    u: "rd 1 s = (Inr [?b], u)" "R u (le_bytes k (x div 256) @ t)" by auto
  have p: "push_bit (8 * i) (x mod 256) = x mod 256 * 256 ^ i"
    by (simp add: push_bit_eq_mult power_mult)
  from Suc.IH [OF u(2), of "Suc i" "acc + push_bit (8 * i) (int (ord ?b))"] obtain v where
    v: "read_le k rd (Suc i) (acc + push_bit (8 * i) (int (ord ?b))) u =
        (Inr (acc + push_bit (8 * i) (int (ord ?b)) + (x div 256 mod 256 ^ k) * 256 ^ Suc i), v)" "R v t"
    by blast
  have e: "acc + push_bit (8 * i) (int (ord ?b)) + (x div 256 mod 256 ^ k) * 256 ^ Suc i =
      acc + (x mod 256 ^ Suc k) * 256 ^ i"
    unfolding ord_le_byte p mod_Suc_256 by (simp add: distrib_right)
  show ?case
    using u(1) v unfolding e by auto
qed

lemma read_long_bytes:
  assumes step: "\<And>s b xs. R s (b # xs) \<Longrightarrow> \<exists>s'. rd 1 s = (Inr [b], s') \<and> R s' xs"
    and "R s (le_bytes 4 x @ t)" "- (2 ^ 31) \<le> x" "x < 2 ^ 31"
  obtains s' where "wave_read_long rd s = (Inr x, s')" "R s' t"
proof -
  from read_le_bytes [of R rd s 4 x t 0 0, OF step assms(2)] obtain s' where
    s': "read_le 4 rd 0 0 s = (Inr (x mod 2 ^ 32), s')" "R s' t" by auto
  have "(if x mod 4294967296 \<ge> 0x80000000 then x mod 4294967296 - 0x100000000 else x mod 4294967296) = x"
  proof (cases "x < 0")
    case True
    have "(x + 2 ^ 32) mod 2 ^ 32 = x + 2 ^ 32"
      using assms(3) True by (intro mod_pos_pos_trivial) simp_all
    then have "x mod 2 ^ 32 = x + 2 ^ 32" by (simp only: mod_add_self2)
    with assms(3) True show ?thesis by simp
  next
    case False
    with assms(4) have "x mod 2 ^ 32 = x" by (intro mod_pos_pos_trivial) simp_all
    with assms(4) show ?thesis by simp
  qed
  with s'(1) have "wave_read_long rd s = (Inr x, s')" by (simp add: wave_read_long_def)
  with s'(2) that show ?thesis by blast
qed

lemma read_short_bytes:
  assumes step: "\<And>s b xs. R s (b # xs) \<Longrightarrow> \<exists>s'. rd 1 s = (Inr [b], s') \<and> R s' xs"
    and "R s (le_bytes 2 x @ t)"
  obtains s' y where "wave_read_short rd s = (Inr y, s')" "R s' t" "0 \<le> x \<Longrightarrow> x < 2 ^ 15 \<Longrightarrow> y = x"
proof -
  from read_le_bytes [of R rd s 2 x t 0 0, OF step assms(2)] obtain s' where
    s': "read_le 2 rd 0 0 s = (Inr (x mod 2 ^ 16), s')" "R s' t" by auto
  have "x mod 2 ^ 16 = x" if "0 \<le> x" "x < 2 ^ 15"
    using that by (intro mod_pos_pos_trivial) simp_all
  with s' that show ?thesis by (simp add: wave_read_short_def)
qed

lemma byteswap_short: "length s < k \<or> k = 0 \<Longrightarrow> byteswap k s = []"
  by (subst byteswap.simps) auto

lemma byteswap_item: "0 < k \<Longrightarrow> length a = k \<Longrightarrow> byteswap k (a @ s) = rev a @ byteswap k s"
  by (subst byteswap.simps) simp

lemma byteswap_dvd:
  "0 < k \<Longrightarrow> k dvd length s \<Longrightarrow> byteswap k (byteswap k s) = s \<and> length (byteswap k s) = length s"
proof (induction "length s" arbitrary: s rule: less_induct)
  case less
  show ?case
  proof (cases "length s < k")
    case True
    with less.prems have "s = []" by (auto dest: dvd_imp_le)
    with less.prems(1) show ?thesis by (simp add: byteswap_short)
  next
    case False
    then have s: "s = take k s @ drop k s" "length (take k s) = k" by simp_all
    then have b: "byteswap k s = rev (take k s) @ byteswap k (drop k s)"
      using byteswap_item [OF less.prems(1)] by metis
    have "k dvd length (drop k s)" using less.prems(2) by (simp add: dvd_diff_nat)
    with less.hyps [of "drop k s"] less.prems(1) False
    have "byteswap k (byteswap k (drop k s)) = drop k s" "length (byteswap k (drop k s)) = length (drop k s)"
      by simp_all
    with b False less.prems(1) show ?thesis by (simp add: byteswap_item)
  qed
qed

subsection \<open>Reading back what is in the file\<close>

definition fmt_bytes :: "int \<Rightarrow> int \<Rightarrow> int \<Rightarrow> string" where
  "fmt_bytes nch sw fr = le_bytes 2 1 @ le_bytes 2 nch @ le_bytes 4 fr @
     le_bytes 4 (nch * fr * sw) @ le_bytes 2 (nch * sw) @ le_bytes 2 (sw * 8)"

definition wave_header :: "int \<Rightarrow> int \<Rightarrow> int \<Rightarrow> int \<Rightarrow> string" where
  "wave_header nchannels sampwidth framerate datalength =
     ''RIFF'' @ le_bytes 4 (36 + datalength) @ ''WAVE'' @ ''fmt '' @ le_bytes 4 16 @ le_bytes 2 1 @
     le_bytes 2 nchannels @ le_bytes 4 framerate @ le_bytes 4 (nchannels * framerate * sampwidth) @
     le_bytes 2 (nchannels * sampwidth) @ le_bytes 2 (sampwidth * 8) @ ''data'' @ le_bytes 4 datalength"

definition wave_fits :: "int \<Rightarrow> int \<Rightarrow> int \<Rightarrow> int \<Rightarrow> bool" where
  \<comment> \<open>the numbers the header's fields can hold\<close>
  "wave_fits nchannels sampwidth framerate datalength \<longleftrightarrow>
     1 \<le> nchannels \<and> nchannels < 2 ^ 15 \<and> sampwidth \<in> {1, 2, 4} \<and> 1 \<le> framerate \<and> framerate < 2 ^ 31 \<and>
     nchannels * framerate * sampwidth < 2 ^ 31 \<and> nchannels * sampwidth < 2 ^ 16 \<and>
     0 \<le> datalength \<and> 36 + datalength < 2 ^ 31"

context readable_file
begin

text \<open>The file stands in the content \<open>C\<close> before its suffix \<open>xs\<close>.\<close>

definition at :: "string \<Rightarrow> string \<Rightarrow> 'f \<Rightarrow> bool" where
  "at C xs f \<longleftrightarrow> ok f \<and> content f = C \<and> (\<exists>pre. C = pre @ xs \<and> posn f = length pre)"

lemma at_read:
  assumes "at C (s @ t) f"
  obtains g where "fo_read ops (int (length s)) f = (Inr s, g)" "at C t g"
proof -
  from assms obtain pre where p: "ok f" "content f = C" "C = pre @ s @ t" "posn f = length pre"
    by (auto simp: at_def)
  from read_some [OF p(1), of "length s"] p obtain g where
    "fo_read ops (int (length s)) f = (Inr s, g)" "ok g" "content g = C" "posn g = length (pre @ s)"
    by auto
  with p(3) that show ?thesis by (auto simp: at_def)
qed

lemma at_byte: "at C (b # xs) f \<Longrightarrow> \<exists>g. fo_read ops 1 f = (Inr [b], g) \<and> at C xs g"
  using at_read [of C "[b]" xs f] by auto

lemma at_long:
  assumes "at C (le_bytes 4 x @ t) f" "- (2 ^ 31) \<le> x" "x < 2 ^ 31"
  obtains g where "wave_read_long (fo_read ops) f = (Inr x, g)" "at C t g"
  using read_long_bytes [of "\<lambda>f xs. at C xs f" "fo_read ops", OF at_byte assms] by blast

lemma at_tell: "at C xs f \<Longrightarrow> fo_tell ops f = (Inr (int (length C - length xs)), f)"
  using tell [of f] by (auto simp: at_def)

lemma at_seek:
  assumes "at C xs f" "C = pre @ ys"
  obtains g where "fo_seek ops (int (length pre)) 0 f = (Inr (), g)" "at C ys g"
  using seek [of f "length pre"] assms by (auto simp: at_def)

lemma at_seek_here:
  assumes "at C xs f"
  obtains g where "fo_seek ops 0 1 f = (Inr (), g)" "at C xs g"
  using seek_rel [of f 0] assms by (auto simp: at_def)

text \<open>A chunk whose rest is \<open>xs\<close>.\<close>

definition in_chunk :: "string \<Rightarrow> wave_chunk \<Rightarrow> string \<Rightarrow> string \<Rightarrow> wave_chunk \<times> 'f \<Rightarrow> bool" where
  "in_chunk C c0 t xs = (\<lambda>(c, f). at C (xs @ t) f \<and>
     c = c0\<lparr>ck_read := ck_size c0 - int (length xs)\<rparr>)"

lemma chunk_read_at:
  assumes "in_chunk C c0 t (s @ xs) cf" "s \<noteq> []"
  obtains cf' where "chunk_read ops (int (length s)) cf = (Inr s, cf')" "in_chunk C c0 t xs cf'"
proof -
  from assms obtain c f where cf: "cf = (c, f)" "at C (s @ xs @ t) f"
    "c = c0\<lparr>ck_read := ck_size c0 - int (length (s @ xs))\<rparr>"
    by (auto simp: in_chunk_def)
  from at_read [OF cf(2)] obtain g where g: "fo_read ops (int (length s)) f = (Inr s, g)" "at C (xs @ t) g" .
  have "\<not> int (length xs) \<le> - int (length s)" using assms(2) by (cases s) auto
  with cf assms(2) g show ?thesis
    by (intro that [of "(c\<lparr>ck_read := ck_read c + int (length s)\<rparr>, g)"])
      (auto simp: chunk_read_def in_chunk_def Let_def)
qed

lemma chunk_byte: "in_chunk C c0 t (b # xs) cf \<Longrightarrow> \<exists>cf'. chunk_read ops 1 cf = (Inr [b], cf') \<and> in_chunk C c0 t xs cf'"
  using chunk_read_at [of C c0 t "[b]" xs cf] by (metis append_Cons append_Nil length_Cons list.distinct(1) list.size(3) of_nat_1 One_nat_def)

lemma chunk_long:
  assumes "in_chunk C c0 t (le_bytes 4 x @ xs) cf" "- (2 ^ 31) \<le> x" "x < 2 ^ 31"
  obtains cf' where "wave_read_long (chunk_read ops) cf = (Inr x, cf')" "in_chunk C c0 t xs cf'"
proof (rule read_long_bytes [where R = "\<lambda>cf xs. in_chunk C c0 t xs cf" and rd = "chunk_read ops"
      and s = cf and x = x and t = xs])
  show "\<exists>s'. chunk_read ops 1 s = (Inr [b], s') \<and> in_chunk C c0 t ys s'" if "in_chunk C c0 t (b # ys) s" for s b ys
    using that by (rule chunk_byte)
qed (use assms that in blast)+

lemma chunk_short:
  assumes "in_chunk C c0 t (le_bytes 2 x @ xs) cf"
  obtains cf' y where "wave_read_short (chunk_read ops) cf = (Inr y, cf')" "in_chunk C c0 t xs cf'"
    "0 \<le> x \<Longrightarrow> x < 2 ^ 15 \<Longrightarrow> y = x"
proof (rule read_short_bytes [where R = "\<lambda>cf xs. in_chunk C c0 t xs cf" and rd = "chunk_read ops"
      and s = cf and x = x and t = xs])
  show "\<exists>s'. chunk_read ops 1 s = (Inr [b], s') \<and> in_chunk C c0 t ys s'" if "in_chunk C c0 t (b # ys) s" for s b ys
    using that by (rule chunk_byte)
qed (use assms that in blast)+

lemma chunk_open_at:
  assumes "at C (name @ le_bytes 4 sz @ t) f" "length name = 4" "- (2 ^ 31) \<le> sz" "sz < 2 ^ 31"
  obtains g where "chunk_open ops f =
      (Inr \<lparr>ck_name = name, ck_size = sz, ck_read = 0, ck_offset = int (length C - length t)\<rparr>, g)" "at C t g"
proof -
  from at_read [OF assms(1)] assms(2) obtain g where
    g: "fo_read ops 4 f = (Inr name, g)" "at C (le_bytes 4 sz @ t) g" by auto
  from at_long [OF g(2) assms(3,4)] obtain h where
    h: "wave_read_long (fo_read ops) g = (Inr sz, h)" "at C t h" .
  from that [of h] h g(1) at_tell [OF h(2)] assms(2) show ?thesis
    by (simp add: chunk_open_def)
qed

end

subsection \<open>A written file read back\<close>

context readable_file
begin

lemma read_fmt_at:
  assumes fits: "wave_fits nch sw fr len"
    and c: "in_chunk C c0 t (fmt_bytes nch sw fr) cf"
  obtains cf' where "read_fmt_chunk ops w cf =
      (Inr (w\<lparr>wr_nchannels := nch, wr_framerate := fr, wr_sampwidth := sw, wr_framesize := nch * sw,
        wr_comptype := ''NONE'', wr_compname := ''not compressed''\<rparr>), cf')" "in_chunk C c0 t [] cf'"
proof -
  note short = chunk_short [of C c0 t] and long = chunk_long [of C c0 t]
  let ?short = "wave_read_short (chunk_read ops)" and ?long = "wave_read_long (chunk_read ops)"
  from c have c: "in_chunk C c0 t (le_bytes 2 1 @ le_bytes 2 nch @ le_bytes 4 fr @
      le_bytes 4 (nch * fr * sw) @ le_bytes 2 (nch * sw) @ le_bytes 2 (sw * 8) @ []) cf"
    by (simp add: fmt_bytes_def)
  from fits have n: "0 \<le> nch" "nch < 2 ^ 15" "- (2 ^ 31) \<le> fr" "fr < 2 ^ 31"
    "0 \<le> sw * 8" "sw * 8 < 2 ^ 15" "(sw * 8 + 7) div 8 = sw"
    by (auto simp: wave_fits_def)
  have avg: "- (2 ^ 31) \<le> nch * fr * sw" "nch * fr * sw < 2 ^ 31"
  proof -
    have "0 \<le> nch * fr * sw" using fits by (auto simp: wave_fits_def)
    then show "- (2 ^ 31) \<le> nch * fr * sw" by simp
    show "nch * fr * sw < 2 ^ 31" using fits by (simp add: wave_fits_def)
  qed
  have one: "0 \<le> (1 :: int)" "(1 :: int) < 2 ^ 15" by simp_all
  from short [OF c] one obtain c1 where 1: "?short cf = (Inr 1, c1)"
    "in_chunk C c0 t (le_bytes 2 nch @ le_bytes 4 fr @ le_bytes 4 (nch * fr * sw) @
       le_bytes 2 (nch * sw) @ le_bytes 2 (sw * 8) @ []) c1" by metis
  from short [OF 1(2)] n obtain c2 where 2: "?short c1 = (Inr nch, c2)"
    "in_chunk C c0 t (le_bytes 4 fr @ le_bytes 4 (nch * fr * sw) @
       le_bytes 2 (nch * sw) @ le_bytes 2 (sw * 8) @ []) c2" by metis
  from long [OF 2(2)] n obtain c3 where 3: "?long c2 = (Inr fr, c3)"
    "in_chunk C c0 t (le_bytes 4 (nch * fr * sw) @ le_bytes 2 (nch * sw) @ le_bytes 2 (sw * 8) @ []) c3" by metis
  from long [OF 3(2) avg] obtain c4 where 4: "?long c3 = (Inr (nch * fr * sw), c4)"
    "in_chunk C c0 t (le_bytes 2 (nch * sw) @ le_bytes 2 (sw * 8) @ []) c4" by metis
  from short [OF 4(2)] obtain c5 y where 5: "?short c4 = (Inr y, c5)"
    "in_chunk C c0 t (le_bytes 2 (sw * 8) @ []) c5" by metis
  from short [OF 5(2)] n obtain c6 where 6: "?short c5 = (Inr (sw * 8), c6)"
    "in_chunk C c0 t [] c6" by metis
  from that [OF _ 6(2)] 1(1) 2(1) 3(1) 4(1) 5(1) 6(1) n show ?thesis
    by (simp add: read_fmt_chunk_def)
qed

lemma wave_open_at:
  assumes fits: "wave_fits nch sw fr (int (length data))"
    and C: "C = wave_header nch sw fr (int (length data)) @ data"
    and f: "at C C f" and fuel: "2 < fuel"
  obtains w g where "wave_open_read fuel ops f = Some (Inr w, g)" "at C data g"
    "w = \<lparr>wr_soundpos = 0, wr_nchannels = nch, wr_nframes = int (length data) div (nch * sw),
       wr_sampwidth = sw, wr_framerate = fr, wr_framesize = nch * sw, wr_comptype = ''NONE'',
       wr_compname = ''not compressed'', wr_fmt_read = True, wr_seek_needed = False,
       wr_data_chunk = Some \<lparr>ck_name = ''data'', ck_size = int (length data), ck_read = 0, ck_offset = 44\<rparr>,
       wr_open = True\<rparr>"
proof -
  let ?len = "int (length data)"
  let ?D = "''data'' @ le_bytes 4 ?len @ data"
  let ?F = "''fmt '' @ le_bytes 4 16 @ fmt_bytes nch sw fr @ ?D"
  from fits have len: "0 \<le> ?len" "36 + ?len < 2 ^ 31" and fs: "nch * sw \<noteq> 0"
    by (auto simp: wave_fits_def)
  have "at C (''RIFF'' @ le_bytes 4 (36 + ?len) @ ''WAVE'' @ ?F) f"
    using f unfolding C wave_header_def fmt_bytes_def by simp
  from at_read [OF this] obtain f1 where 1: "fo_read ops 4 f = (Inr ''RIFF'', f1)"
    "at C (le_bytes 4 (36 + ?len) @ ''WAVE'' @ ?F) f1" by auto
  from at_long [OF 1(2)] len obtain f2 where 2: "wave_read_long (fo_read ops) f1 = (Inr (36 + ?len), f2)"
    "at C (''WAVE'' @ ?F) f2" by auto
  from at_read [OF 2(2)] obtain f3 where 3: "fo_read ops 4 f2 = (Inr ''WAVE'', f3)" "at C ?F f3" by auto
  have "length ''fmt '' = 4" "- (2 ^ 31) \<le> (16 :: int)" "(16 :: int) < 2 ^ 31" by simp_all
  from chunk_open_at [OF 3(2) this] obtain f4 where f4: "chunk_open ops f3 =
      (Inr \<lparr>ck_name = ''fmt '', ck_size = 16, ck_read = 0,
         ck_offset = int (length C - length (fmt_bytes nch sw fr @ ?D))\<rparr>, f4)"
    "at C (fmt_bytes nch sw fr @ ?D) f4" by blast
  then obtain c1 where 4: "chunk_open ops f3 = (Inr c1, f4)" "at C (fmt_bytes nch sw fr @ ?D) f4"
    "ck_name c1 = ''fmt ''" "ck_size c1 = 16" "ck_read c1 = 0" by force
  have "in_chunk C c1 ?D (fmt_bytes nch sw fr) (c1, f4)"
    using 4 by (simp add: in_chunk_def fmt_bytes_def)
  from read_fmt_at [OF fits this] obtain w1 c2 f5 where 5:
    "read_fmt_chunk ops (wave_reader_new\<lparr>wr_seek_needed := True\<rparr>) (c1, f4) = (Inr w1, (c2, f5))"
    "w1 = wave_reader_new\<lparr>wr_seek_needed := True, wr_nchannels := nch, wr_framerate := fr,
       wr_sampwidth := sw, wr_framesize := nch * sw, wr_comptype := ''NONE'',
       wr_compname := ''not compressed''\<rparr>"
    "in_chunk C c1 ?D [] (c2, f5)" by (metis surj_pair)
  then have c2: "ck_size c2 = 16" "ck_read c2 = 16" "ck_name c2 = ''fmt ''" "at C ?D f5"
    using 4 by (auto simp: in_chunk_def)
  from at_seek_here [OF c2(4)] obtain f6 where 6: "fo_seek ops 0 1 f5 = (Inr (), f6)" "at C ?D f6" .
  have "length ''data'' = 4" "- (2 ^ 31) \<le> ?len" "?len < 2 ^ 31" using len by simp_all
  from chunk_open_at [OF 6(2) this] obtain f7 c3 where 7: "chunk_open ops f6 = (Inr c3, f7)" "at C data f7"
    "c3 = \<lparr>ck_name = ''data'', ck_size = ?len, ck_read = 0, ck_offset = int (length C - length data)\<rparr>" by blast
  have off: "length C - length data = 44" by (simp add: C wave_header_def)
  obtain k where k: "fuel = Suc (Suc (Suc k))"
    using fuel by (metis Suc_lessE numeral_2_eq_2 Suc_less_eq2 less_imp_Suc_add add_Suc_right)
  let ?w1 = "w1\<lparr>wr_fmt_read := True\<rparr>"
  let ?w2 = "?w1\<lparr>wr_seek_needed := True\<rparr>"
  let ?w3 = "?w2\<lparr>wr_data_chunk := Some c3, wr_nframes := ?len div (nch * sw), wr_seek_needed := False\<rparr>"
  have step1: "wave_chunk_step ops (wave_reader_new\<lparr>wr_seek_needed := True\<rparr>) f3 = (Inr (c2, ?w1), f5)"
    using 4 5(1) by (simp add: wave_chunk_step_def)
  have "wr_framesize ?w2 = nch * sw" using 5(2) by simp
  then have step2: "wave_chunk_step ops ?w2 f6 = (Inr (c3, ?w3), f7)"
    using 7 fs by (simp add: wave_chunk_step_def py_div_def)
  have "wave_init_loop fuel ops (32 + ?len) wave_reader_new f3 = Some (Inr ?w3, f7)"
    using step1 step2 c2 6(1) 7(3) len
    by (simp add: k chunk_skip_def)
  moreover have "wr_fmt_read ?w3" "wr_data_chunk ?w3 = Some c3" by simp_all
  ultimately have "wave_open_read fuel ops f = Some (Inr ?w3, f7)"
    using 1(1) 2(1) 3(1) len by (simp add: wave_open_read_def)
  moreover have "?w3 = \<lparr>wr_soundpos = 0, wr_nchannels = nch, wr_nframes = ?len div (nch * sw),
       wr_sampwidth = sw, wr_framerate = fr, wr_framesize = nch * sw, wr_comptype = ''NONE'',
       wr_compname = ''not compressed'', wr_fmt_read = True, wr_seek_needed = False,
       wr_data_chunk = Some \<lparr>ck_name = ''data'', ck_size = ?len, ck_read = 0, ck_offset = 44\<rparr>, wr_open = True\<rparr>"
    using 5(2) 7(3) off by (simp add: wave_reader_new_def)
  ultimately show ?thesis using that 7(2) by blast
qed

end

definition data_reader :: "int \<Rightarrow> int \<Rightarrow> int \<Rightarrow> int \<Rightarrow> wave_reader \<Rightarrow> bool" where
  \<comment> \<open>an opened reader of \<open>len\<close> bytes of data, at their start\<close>
  "data_reader nch sw fr len w \<longleftrightarrow>
     w = \<lparr>wr_soundpos = 0, wr_nchannels = nch, wr_nframes = len div (nch * sw),
       wr_sampwidth = sw, wr_framerate = fr, wr_framesize = nch * sw, wr_comptype = ''NONE'',
       wr_compname = ''not compressed'', wr_fmt_read = True, wr_seek_needed = False,
       wr_data_chunk = Some \<lparr>ck_name = ''data'', ck_size = len, ck_read = 0, ck_offset = 44\<rparr>,
       wr_open = True\<rparr>"

lemma itemsize_cases:
  "array_itemsize lsz 2 = Inr 2" "array_itemsize 4 4 = Inr 4" "array_itemsize lsz 3 = Inl TypeError"
  by (simp_all add: array_itemsize_def array_fmts_def pindex_def eval_nat_numeral)

context readable_file
begin

lemma readframes_at:
  assumes fits: "wave_fits nch sw fr (int (length data))"
    and len: "int (length data) = n * (nch * sw)" and n: "0 < n"
    and sw: "sw = 1 \<or> fo_isfile ops \<and> (sw = 2 \<or> sw = 4 \<and> lsz = 4)"
    and w: "data_reader nch sw fr (int (length data)) w" and g: "at C data g"
  obtains w' g' where "wr_readframes lsz ops n (w, g) =
      (Inr (if sw = 1 then data else byteswap (nat sw) data), (w', g'))"
    "wr_soundpos w' = n"
proof -
  let ?c = "\<lparr>ck_name = ''data'', ck_size = int (length data), ck_read = 0, ck_offset = 44\<rparr>"
  have fs: "nch * sw \<noteq> 0" "0 < nch" "0 < sw" using fits by (auto simp: wave_fits_def)
  have pos: "0 < int (length data)" using len n fs by simp
  then have ne: "data \<noteq> []" by auto
  have q: "int (length data) div (nch * sw) = n" using len fs(1) by simp
  from at_read [of C data "[]" g] g obtain h where h: "fo_read ops (int (length data)) g = (Inr data, h)" "at C [] h"
    by auto
  have seek: "wr_seek_data ops (w, g) = (Inr (), (w, g))"
    using w by (simp add: wr_seek_data_def data_reader_def)
  show ?thesis
  proof (cases "sw = 1")
    case True
    have "chunk_read ops (n * nch) (?c, g) = (Inr data, (?c\<lparr>ck_read := int (length data)\<rparr>, h))"
      using h(1) len True ne pos by (simp add: chunk_read_def)
    then have "wr_readframes lsz ops n (w, g) = (Inr data,
        (w\<lparr>wr_data_chunk := Some (?c\<lparr>ck_read := int (length data)\<rparr>), wr_soundpos := n\<rparr>, h))"
      using True w n seek q fs by (simp add: wr_readframes_def on_chunk_def data_reader_def py_div_def)
    from that [OF _, of "w\<lparr>wr_data_chunk := Some (?c\<lparr>ck_read := int (length data)\<rparr>), wr_soundpos := n\<rparr>" h] this True
    show ?thesis by simp
  next
    case False
    with sw have big: "sw > 1" and isf: "fo_isfile ops" and item: "array_itemsize lsz sw = Inr (nat sw)"
      by (auto simp: itemsize_cases)
    have k: "int (nat sw) = sw" using big by simp
    have items: "n * nch * sw = int (length data)" using len by (simp add: ac_simps)
    have "0 \<le> n * nch" using n fs by simp
    then have "array_fromfile ops (nat sw) (n * nch) g = (Inr data, h)"
      using isf h(1) items k by (simp add: array_fromfile_def max_def)
    then have "chunk_fromfile ops (nat sw) sw (n * nch) (?c, g) =
        (Inr data, (?c\<lparr>ck_read := int (length data)\<rparr>, h))"
      using items by (simp add: chunk_fromfile_def)
    moreover have "int (length (byteswap (nat sw) data)) = int (length data)"
    proof -
      have "int (nat sw) dvd int (length data)" using items k by (metis dvd_triv_right)
      then have "nat sw dvd length data" by (simp only: int_dvd_int_iff)
      then show ?thesis using byteswap_dvd [of "nat sw" data] big by simp
    qed
    ultimately have "wr_readframes lsz ops n (w, g) = (Inr (byteswap (nat sw) data),
        (w\<lparr>wr_data_chunk := Some (?c\<lparr>ck_read := int (length data)\<rparr>), wr_soundpos := n\<rparr>, h))"
      using big item w n seek q fs by (simp add: wr_readframes_def on_chunk_def data_reader_def py_div_def)
    from that [OF _, of "w\<lparr>wr_data_chunk := Some (?c\<lparr>ck_read := int (length data)\<rparr>), wr_soundpos := n\<rparr>" h] this False
    show ?thesis by simp
  qed
qed

lemma wave_read_back:
  assumes "wave_fits nch sw fr (int (length data))" "int (length data) = n * (nch * sw)" "0 < n"
    and "sw = 1 \<or> fo_isfile ops \<and> (sw = 2 \<or> sw = 4 \<and> lsz = 4)"
    and "ok f" "posn f = 0" "content f = wave_header nch sw fr (int (length data)) @ data"
    and "2 < fuel"
  shows "\<exists>w g w' g'. wave_open_read fuel ops f = Some (Inr w, g) \<and>
    wr_getparams (w, g) = (Inr (nch, sw, fr, n, ''NONE'', ''not compressed''), (w, g)) \<and>
    wr_readframes lsz ops n (w, g) = (Inr (if sw = 1 then data else byteswap (nat sw) data), (w', g')) \<and>
    wr_soundpos w' = n"
proof -
  let ?C = "wave_header nch sw fr (int (length data)) @ data"
  have "at ?C ?C f" using assms(5-7) by (simp add: at_def)
  from wave_open_at [OF assms(1) refl this assms(8)] obtain w g where
    w: "wave_open_read fuel ops f = Some (Inr w, g)" "at ?C data g"
      "data_reader nch sw fr (int (length data)) w"
    by (metis data_reader_def)
  from readframes_at [OF assms(1-4) w(3,2)] obtain w' g' where
    r: "wr_readframes lsz ops n (w, g) = (Inr (if sw = 1 then data else byteswap (nat sw) data), (w', g'))"
      "wr_soundpos w' = n" .
  have "nch * sw \<noteq> 0" using assms(1) by (auto simp: wave_fits_def)
  then have "wr_getparams (w, g) = (Inr (nch, sw, fr, n, ''NONE'', ''not compressed''), (w, g))"
    using w(3) assms(2) by (simp add: wr_getparams_def data_reader_def)
  with w(1) r show ?thesis by blast
qed

end

subsection \<open>Writing to a built-in file\<close>

lemma ww_put_end: "ww_open w \<Longrightarrow> ww_put pf_ops s (w, file_end d) = (Inr (), (w, file_end (d @ s)))"
  by (simp add: ww_put_def ww_file_def pf_ops_def pf_write_def file_end_def write_at_end)

lemma ww_tell_end: "ww_open w \<Longrightarrow> ww_file (fo_tell pf_ops) (w, file_end d) = (Inr (int (length d)), (w, file_end d))"
  by (simp add: ww_file_def pf_ops_def pf_tell_def file_end_def)

lemma put_chr_end:
  "ww_open w \<Longrightarrow> put_chr (ww_put pf_ops) (x mod 256) (w, file_end d) =
    (Inr (), (w, file_end (d @ [chr (nat (x mod 256))])))"
  by (simp add: put_chr_def ww_put_end)

lemma write_le_end:
  "ww_open w \<Longrightarrow> write_le k (ww_put pf_ops) x (w, file_end d) = (Inr (), (w, file_end (d @ le_bytes k x)))"
  by (induction k arbitrary: x d) (simp_all add: put_chr_end)

lemma write_long_end:
  "ww_open w \<Longrightarrow> 0 \<le> x \<Longrightarrow>
    wave_write_long (ww_put pf_ops) x (w, file_end d) = (Inr (), (w, file_end (d @ le_bytes 4 x)))"
  by (simp add: wave_write_long_def write_le_end)

lemma write_short_end:
  assumes "ww_open w" "0 \<le> x" "x < 2 ^ 16"
  shows "wave_write_short (ww_put pf_ops) x (w, file_end d) = (Inr (), (w, file_end (d @ le_bytes 2 x)))"
proof -
  have "x div 256 mod 256 = x div 256" using assms(2,3) by (intro mod_pos_pos_trivial) simp_all
  then show ?thesis
    using put_chr_end [OF assms(1), of x d] put_chr_end [OF assms(1), of "x div 256"]
    by (simp add: wave_write_short_def numeral_2_eq_2)
qed

lemma ww_header_end:
  assumes fits: "wave_fits nch sw fr len" and open_w: "ww_open w"
    and w: "ww_nchannels w = nch" "ww_sampwidth w = sw" "ww_framerate w = fr" "ww_nframes w = n"
    and len: "len = (if n = 0 then init div (nch * sw) else n) * nch * sw"
  obtains w' where "ww_write_header pf_ops init (w, file_end d) =
      (Inr (), (w', file_end (d @ wave_header nch sw fr len)))"
    "w' = w\<lparr>ww_nframes := (if n = 0 then init div (nch * sw) else n), ww_datalength := len,
       ww_form_pos := Some (int (length d) + 4), ww_data_pos := Some (int (length d) + 40)\<rparr>"
proof -
  let ?w1 = "w\<lparr>ww_nframes := (if n = 0 then init div (nch * sw) else n), ww_datalength := len, ww_form_pos := Some (int (length d) + 4)\<rparr>"
  have fs: "nch * sw \<noteq> 0" using fits by (auto simp: wave_fits_def)
  have b: "0 \<le> 36 + len" "0 \<le> len" "0 \<le> nch" "nch < 2 ^ 16" "0 \<le> fr" "0 \<le> nch * fr * sw" "0 \<le> nch * sw"
    "nch * sw < 2 ^ 16" "0 \<le> sw * 8" "sw * 8 < 2 ^ 16"
    using fits by (auto simp: wave_fits_def)
  have o1: "ww_open ?w1" using open_w by simp
  have upd: "w\<lparr>ww_nframes := n\<rparr> = w" using w(4) by simp
  have start: "ww_header_start pf_ops init (w, file_end d) = (Inr (), (?w1, file_end (d @ ''RIFF'')))"
    using open_w w fs len
    by (simp add: ww_header_start_def ww_put_end ww_tell_end ww_set_def py_div_def upd)
  have fields: "ww_nchannels ?w1 = nch" "ww_sampwidth ?w1 = sw" "ww_framerate ?w1 = fr" "ww_datalength ?w1 = len"
    using w by simp_all
  have rest: "ww_header_fields pf_ops (v, file_end (d @ ''RIFF'')) =
      (Inr (), (v\<lparr>ww_data_pos := Some (int (length d) + 40)\<rparr>, file_end (d @ wave_header nch sw fr len)))"
    if v: "ww_open v" "ww_nchannels v = nch" "ww_sampwidth v = sw" "ww_framerate v = fr" "ww_datalength v = len" for v
    using v b
    by (simp add: ww_header_fields_def ww_put_end ww_tell_end ww_set_def ww_get_def
        write_long_end write_short_end wave_header_def fmt_bytes_def)
  have "ww_write_header pf_ops init (w, file_end d) =
      (Inr (), (?w1\<lparr>ww_data_pos := Some (int (length d) + 40)\<rparr>, file_end (d @ wave_header nch sw fr len)))"
    unfolding ww_write_header_def using start rest [OF o1 fields] by simp
  then show ?thesis by (intro that [of "?w1\<lparr>ww_data_pos := Some (int (length d) + 40)\<rparr>"]) simp_all
qed

lemma ww_setparams_ok:
  assumes "wave_fits nch sw fr len"
  shows "ww_setparams (nch, sw, fr, n, ''NONE'', nm) (ww_init, f) =
    (Inr (), (ww_init\<lparr>ww_nchannels := nch, ww_sampwidth := sw, ww_framerate := fr, ww_nframes := n,
       ww_comptype := Some ''NONE'', ww_compname := Some nm\<rparr>, f))"
proof -
  have "\<not> nch < 1" "\<not> (sw < 1 \<or> sw > 4)" "\<not> fr \<le> 0" using assms by (auto simp: wave_fits_def)
  then show ?thesis
    by (simp add: ww_setparams_def ww_frozen_def ww_check_def ww_setnchannels_def ww_set_def
        ww_setsampwidth_def ww_setframerate_def ww_setnframes_def ww_setcomptype_def ww_init_def)
qed

lemma ww_writeframesraw_end:
  assumes fits: "wave_fits nch sw fr (int (length data))"
    and len: "int (length data) = n * (nch * sw)" and m: "m = 0 \<or> m = n"
    and lsz: "sw = 4 \<longrightarrow> lsz = 4"
    and w: "ww_open w" "ww_nchannels w = nch" "ww_sampwidth w = sw" "ww_framerate w = fr" "ww_nframes w = m"
      "ww_datawritten w = 0" "ww_nframeswritten w = 0"
  shows "ww_writeframesraw lsz pf_ops data (w, file_end d) =
      (Inr (), (w\<lparr>ww_nframes := n, ww_datalength := int (length data),
          ww_form_pos := Some (int (length d) + 4), ww_data_pos := Some (int (length d) + 40),
          ww_datawritten := int (length data), ww_nframeswritten := n\<rparr>,
        file_end (d @ wave_header nch sw fr (int (length data)) @
          (if sw = 1 then data else byteswap (nat sw) data))))"
proof -
  let ?len = "int (length data)"
  let ?h = "wave_header nch sw fr ?len"
  let ?v = "w\<lparr>ww_nframes := n, ww_datalength := ?len,
       ww_form_pos := Some (int (length d) + 4), ww_data_pos := Some (int (length d) + 40)\<rparr>"
  have fs: "nch * sw \<noteq> 0" "nch \<noteq> 0" "sw \<noteq> 0" "fr \<noteq> 0" using fits by (auto simp: wave_fits_def)
  have q: "?len div (nch * sw) = n" "?len div (sw * nch) = n" using len fs(1) by (simp_all add: mult.commute)
  then have mn: "(if m = 0 then ?len div (nch * sw) else m) = n" using m by auto
  have "?len = (if m = 0 then ?len div (nch * sw) else m) * nch * sw"
    unfolding mn using len by (simp add: ac_simps)
  from ww_header_end [OF fits w(1-5) this, of d] have
    v: "ww_write_header pf_ops ?len (w, file_end d) = (Inr (), (?v, file_end (d @ ?h)))"
    unfolding mn by blast
  have ensure: "ww_ensure_header pf_ops ?len (w, file_end d) = (Inr (), (?v, file_end (d @ ?h)))"
    using v w fs by (simp add: ww_ensure_header_def ww_check_def)
  have vf: "ww_open ?v" "ww_nchannels ?v = nch" "ww_sampwidth ?v = sw" "ww_datawritten ?v = 0"
    "ww_nframeswritten ?v = 0" using w by simp_all
  have raw: "ww_writeframesraw lsz pf_ops data (w, file_end d) =
      (Inr (), (v\<lparr>ww_datawritten := ?len, ww_nframeswritten := n\<rparr>,
        file_end (d @ ?h @ (if sw = 1 then data else byteswap (nat sw) data))))"
    if ens: "ww_ensure_header pf_ops ?len (w, file_end d) = (Inr (), (v, file_end (d @ ?h)))"
      and vf: "ww_open v" "ww_nchannels v = nch" "ww_sampwidth v = sw" "ww_datawritten v = 0"
        "ww_nframeswritten v = 0" for v
  proof (cases "sw = 1")
    case True
    then show ?thesis
      using ens vf q fs by (simp add: ww_writeframesraw_def ww_get_def ww_set_def py_div_def ww_put_end)
  next
    case False
    with fits have sw: "sw > 1" "sw = 2 \<or> sw = 4" by (auto simp: wave_fits_def)
    then have item: "array_itemsize lsz sw = Inr (nat sw)"
      using lsz by (auto simp: itemsize_cases)
    have isw: "int (nat sw) = sw" using sw(1) by simp
    then have "int (nat sw) dvd ?len" using len by simp
    then have dv: "nat sw dvd length data" by (simp only: int_dvd_int_iff)
    then have "int (length data div nat sw * nat sw) = ?len" by (simp only: dvd_div_mult_self)
    then have items: "int (length data div nat sw) * sw = ?len" by (simp only: of_nat_mult isw)
    have mod: "length data mod nat sw = 0" using dv by simp
    have wr: "on_file (fo_write pf_ops s) (v, file_end t) = (Inr (), (v, file_end (t @ s)))" for s t
      by (simp add: on_file_def pf_ops_def pf_write_def file_end_def write_at_end)
    have isf: "fo_isfile pf_ops" by (simp add: pf_ops_def)
    show ?thesis
      using ens vf q fs(1) item items mod sw(1) wr isf False
      by (simp add: ww_writeframesraw_def ww_get_def ww_set_def py_div_def)
  qed
  show ?thesis using raw [OF ensure vf] by simp
qed

lemma ww_writeframes_end:
  assumes "ww_writeframesraw lsz ops data s = (Inr (), (w, f))" "ww_datalength w = ww_datawritten w"
  shows "ww_writeframes lsz ops data s = (Inr (), (w, f))"
  using assms by (simp add: ww_writeframes_def ww_get_def bindA_def)

lemma ww_close_end:
  assumes "ww_open w" "ww_datawritten w = len" "ww_datalength w = len" "0 < len"
  shows "ww_close ops (w, f) = (Inr (), (w\<lparr>ww_open := False\<rparr>, f))"
  using assms by (simp add: ww_close_def ww_ensure_header_def ww_get_def bindA_def ww_file_def ww_set_def)

text \<open>
  The whole cycle on built-in files: set the parameters, write the frames, close; then open the
  file, and its parameters and frames are those written.
\<close>

definition wave_save :: "nat \<Rightarrow> int \<times> int \<times> int \<times> int \<times> string \<times> string \<Rightarrow> string \<Rightarrow> unit res \<times> pyfile" where
  "wave_save lsz params data =
     (case thenA (ww_setparams params) (thenA (ww_writeframes lsz pf_ops data) (ww_close pf_ops))
             (ww_init, file_end []) of (r, (w, f)) \<Rightarrow> (r, f))"

definition wave_load ::
  "nat \<Rightarrow> nat \<Rightarrow> pyfile \<Rightarrow> ((int \<times> int \<times> int \<times> int \<times> string \<times> string) \<times> string) res option" where
  "wave_load fuel lsz f =
     (case wave_open_read fuel pf_ops (f\<lparr>f_pos := 0\<rparr>) of
        None \<Rightarrow> None
      | Some (Inl e, f) \<Rightarrow> Some (Inl e)
      | Some (Inr w, f) \<Rightarrow>
          Some (fst (bindA wr_getparams (\<lambda>params.
            bindA (bindA wr_getnframes (wr_readframes lsz pf_ops)) (\<lambda>data. retA (params, data))) (w, f))))"

lemma wave_roundtrip:
  assumes fits: "wave_fits nch sw fr (int (length data))"
    and len: "int (length data) = n * (nch * sw)" and n: "0 < n" and m: "m = 0 \<or> m = n"
    and lsz: "sw = 4 \<longrightarrow> lsz = 4" and fuel: "2 < fuel"
  shows "\<exists>f. wave_save lsz (nch, sw, fr, m, ''NONE'', nm) data = (Inr (), f) \<and>
    wave_load fuel lsz f = Some (Inr ((nch, sw, fr, n, ''NONE'', ''not compressed''), data))"
proof -
  let ?bytes = "if sw = 1 then data else byteswap (nat sw) data"
  let ?w = "ww_init\<lparr>ww_nchannels := nch, ww_sampwidth := sw, ww_framerate := fr, ww_nframes := m,
      ww_comptype := Some ''NONE'', ww_compname := Some nm\<rparr>"
  let ?f = "file_end (wave_header nch sw fr (int (length data)) @ ?bytes)"
  have w: "ww_open ?w" "ww_nchannels ?w = nch" "ww_sampwidth ?w = sw" "ww_framerate ?w = fr" "ww_nframes ?w = m"
      "ww_datawritten ?w = 0" "ww_nframeswritten ?w = 0" by (simp_all add: ww_init_def)
  define bytes where "bytes = ?bytes"
  let ?v = "?w\<lparr>ww_nframes := n, ww_datalength := int (length data), ww_form_pos := Some 4,
      ww_data_pos := Some 40, ww_datawritten := int (length data), ww_nframeswritten := n\<rparr>"
  have "ww_writeframesraw lsz pf_ops data (?w, file_end []) =
      (Inr (), (?v, file_end (wave_header nch sw fr (int (length data)) @ bytes)))"
    unfolding bytes_def using ww_writeframesraw_end [OF fits len m lsz w, of "[]"] by simp
  then have w': "ww_writeframes lsz pf_ops data (?w, file_end []) =
      (Inr (), (?v, file_end (wave_header nch sw fr (int (length data)) @ bytes)))"
    by (rule ww_writeframes_end) simp
  have fs: "0 < nch" "0 < sw" using fits by (auto simp: wave_fits_def)
  then have pos: "0 < int (length data)" using len n by simp
  have cl: "ww_close pf_ops (?v, f) = (Inr (), (?v\<lparr>ww_open := False\<rparr>, f))" for f
    by (rule ww_close_end [OF _ _ _ pos]) (simp_all add: ww_init_def)
  have "thenA (ww_setparams (nch, sw, fr, m, ''NONE'', nm)) (thenA (ww_writeframes lsz pf_ops data) (ww_close pf_ops))
      (ww_init, file_end []) = (Inr (), (?v\<lparr>ww_open := False\<rparr>, file_end (wave_header nch sw fr (int (length data)) @ bytes)))"
    by (rule thenA_step, rule ww_setparams_ok [OF fits], rule thenA_step, rule w', rule cl)
  then have "wave_save lsz (nch, sw, fr, m, ''NONE'', nm) data =
      (Inr (), file_end (wave_header nch sw fr (int (length data)) @ bytes))"
    by (simp add: wave_save_def)
  then have save: "wave_save lsz (nch, sw, fr, m, ''NONE'', nm) data = (Inr (), ?f)"
    unfolding bytes_def .
  have swap: "byteswap (nat sw) ?bytes = data" "length ?bytes = length data" if "sw \<noteq> 1"
  proof -
    have "sw dvd int (length data)" using len by simp
    moreover have "int (nat sw) = sw" using fs(2) by simp
    ultimately have "int (nat sw) dvd int (length data)" by simp
    then have "nat sw dvd length data" by (simp only: int_dvd_int_iff)
    with byteswap_dvd [of "nat sw" data] fs(2) that
    show "byteswap (nat sw) ?bytes = data" "length ?bytes = length data" by simp_all
  qed
  have lb: "int (length ?bytes) = int (length data)" using swap(2) by (cases "sw = 1") simp_all
  have isf: "sw = 1 \<or> fo_isfile pf_ops \<and> (sw = 2 \<or> sw = 4 \<and> lsz = 4)"
    using fits lsz by (auto simp: wave_fits_def pf_ops_def)
  have fits': "wave_fits nch sw fr (int (length ?bytes))" and len': "int (length ?bytes) = n * (nch * sw)"
    using fits len lb by simp_all
  have C: "f_data (?f\<lparr>f_pos := 0\<rparr>) = wave_header nch sw fr (int (length ?bytes)) @ ?bytes"
    unfolding lb by (simp add: file_end_def)
  have p0: "f_pos (?f\<lparr>f_pos := 0\<rparr>) = 0" by simp
  from pf.wave_read_back [OF fits' len' n isf TrueI p0 C fuel] obtain w1 g1 w2 g2 where r:
    "wave_open_read fuel pf_ops (?f\<lparr>f_pos := 0\<rparr>) = Some (Inr w1, g1)"
    "wr_getparams (w1, g1) = (Inr (nch, sw, fr, n, ''NONE'', ''not compressed''), (w1, g1))"
    "wr_readframes lsz pf_ops n (w1, g1) = (Inr (if sw = 1 then ?bytes else byteswap (nat sw) ?bytes), (w2, g2))"
    by metis
  have "wr_getnframes (w1, g1) = (Inr n, (w1, g1))"
    using r(2) by (simp add: wr_getparams_def wr_getnframes_def)
  moreover have "(if sw = 1 then ?bytes else byteswap (nat sw) ?bytes) = data"
    using swap(1) by simp
  ultimately have "wave_load fuel lsz ?f = Some (Inr ((nch, sw, fr, n, ''NONE'', ''not compressed''), data))"
    unfolding wave_load_def using r by simp
  with save show ?thesis by blast
qed

subsection \<open>Where the code does not do what it means to\<close>

text \<open>Frames written in two calls: the sizes do not match and patching the header raises.\<close>

lemma ww_close_raises:
  assumes "ww_open w" "ww_datawritten w \<noteq> 0" "ww_datawritten w \<noteq> ww_datalength w" "ww_form_pos w = Some p" "0 \<le> p"
  shows "fst (ww_close pf_ops (w, f)) = Inl TypeError"
  using assms
  by (simp add: ww_close_def ww_ensure_header_def ww_get_def bindA_def thenA_def ww_patchheader_def ww_file_def
      on_file_def pf_ops_def pf_tell_def pf_seek_def ww_attr_def raiseA_def)

lemma wave_two_writes_raise:
  assumes fits: "wave_fits nch 1 fr (int (length a))" and a: "int (length a) = n * nch" "a \<noteq> []" and b: "b \<noteq> []"
  shows "fst (thenA (ww_setparams (nch, 1, fr, 0, ''NONE'', nm)) (thenA (ww_writeframesraw lsz pf_ops a)
    (thenA (ww_writeframesraw lsz pf_ops b) (ww_close pf_ops))) (ww_init, file_end [])) = Inl TypeError"
proof -
  let ?w = "ww_init\<lparr>ww_nchannels := nch, ww_sampwidth := 1, ww_framerate := fr, ww_nframes := 0,
      ww_comptype := Some ''NONE'', ww_compname := Some nm\<rparr>"
  let ?v = "?w\<lparr>ww_nframes := n, ww_datalength := int (length a), ww_form_pos := Some 4,
      ww_data_pos := Some 40, ww_datawritten := int (length a), ww_nframeswritten := n\<rparr>"
  let ?u = "?v\<lparr>ww_datawritten := int (length a) + int (length b),
      ww_nframeswritten := n + int (length b) div nch\<rparr>"
  let ?f = "file_end (wave_header nch 1 fr (int (length a)) @ a)"
  have w: "ww_open ?w" "ww_nchannels ?w = nch" "ww_sampwidth ?w = 1" "ww_framerate ?w = fr" "ww_nframes ?w = 0"
      "ww_datawritten ?w = 0" "ww_nframeswritten ?w = 0" by (simp_all add: ww_init_def)
  have len: "int (length a) = n * (nch * 1)" using a(1) by simp
  have 1: "ww_writeframesraw lsz pf_ops a (?w, file_end []) = (Inr (), (?v, ?f))"
    using ww_writeframesraw_end [OF fits len _ _ w, of lsz "[]"] by simp
  have "nch \<noteq> 0" using fits by (auto simp: wave_fits_def)
  moreover have "ww_open ?v" "ww_datawritten ?v \<noteq> 0" "ww_nchannels ?v = nch" "ww_sampwidth ?v = 1"
    using a(2) by (simp_all add: ww_init_def)
  ultimately have 2: "ww_writeframesraw lsz pf_ops b (?v, ?f) = (Inr (), (?u, file_end ((wave_header nch 1 fr (int (length a)) @ a) @ b)))"
    by (simp add: ww_writeframesraw_def ww_ensure_header_def ww_get_def ww_set_def py_div_def ww_put_end)
  have "fst (ww_close pf_ops (?u, f)) = Inl TypeError" for f
  proof (rule ww_close_raises [where p = 4])
    have "0 < length a" "0 < length b" using a(2) b by simp_all
    then have "int (length a) + int (length b) \<noteq> 0" by linarith
    moreover have "ww_datawritten ?u = int (length a) + int (length b)" by simp
    ultimately show "ww_datawritten ?u \<noteq> 0" by metis
  qed (use b in \<open>simp_all add: ww_init_def\<close>)
  then obtain g where 3: "ww_close pf_ops (?u, file_end ((wave_header nch 1 fr (int (length a)) @ a) @ b)) = (Inl TypeError, g)"
    by (metis prod.collapse)
  have "thenA (ww_setparams (nch, 1, fr, 0, ''NONE'', nm)) (thenA (ww_writeframesraw lsz pf_ops a)
    (thenA (ww_writeframesraw lsz pf_ops b) (ww_close pf_ops))) (ww_init, file_end []) = (Inl TypeError, g)"
    by (rule thenA_step, rule ww_setparams_ok [OF fits], rule thenA_step, rule 1, rule thenA_step, rule 2, rule 3)
  then show ?thesis by simp
qed

text \<open>An empty first write leaves a header behind, and the next write adds a second one.\<close>

lemma wave_header_twice:
  assumes fits: "wave_fits nch 1 fr (int (length a))" and a: "int (length a) = n * nch"
  shows "f_data (snd (snd (thenA (ww_setparams (nch, 1, fr, 0, ''NONE'', nm)) (thenA (ww_writeframesraw lsz pf_ops [])
    (ww_writeframesraw lsz pf_ops a)) (ww_init, file_end [])))) =
    wave_header nch 1 fr 0 @ wave_header nch 1 fr (int (length a)) @ a"
proof -
  let ?w = "ww_init\<lparr>ww_nchannels := nch, ww_sampwidth := 1, ww_framerate := fr, ww_nframes := 0,
      ww_comptype := Some ''NONE'', ww_compname := Some nm\<rparr>"
  let ?v = "?w\<lparr>ww_datalength := 0, ww_form_pos := Some 4, ww_data_pos := Some 40\<rparr>"
  have w: "ww_open u" "ww_nchannels u = nch" "ww_sampwidth u = 1" "ww_framerate u = fr" "ww_nframes u = 0"
      "ww_datawritten u = 0" "ww_nframeswritten u = 0" if "u \<in> {?w, ?v}" for u
    using that by (auto simp: ww_init_def)
  have fits0: "wave_fits nch 1 fr (int (length []))" using fits by (auto simp: wave_fits_def)
  have v: "?w\<lparr>ww_nframes := 0, ww_datalength := 0, ww_form_pos := Some 4, ww_data_pos := Some 40,
      ww_datawritten := 0, ww_nframeswritten := 0\<rparr> = ?v" by (simp add: ww_init_def)
  have 1: "ww_writeframesraw lsz pf_ops [] (?w, file_end []) = (Inr (), (?v, file_end (wave_header nch 1 fr 0)))"
  proof -
    have win: "?w \<in> {?w, ?v}" by (simp only: insert_iff simp_thms)
    have "int (length []) = 0 * (nch * 1)" by simp
    from ww_writeframesraw_end [OF fits0 this _ _ w [OF win], of lsz "[]"] v show ?thesis by simp
  qed
  have len: "int (length a) = n * (nch * 1)" using a by simp
  have vin: "?v \<in> {?w, ?v}" by (simp only: insert_iff simp_thms)
  obtain u where 2: "ww_writeframesraw lsz pf_ops a (?v, file_end (wave_header nch 1 fr 0)) =
      (Inr (), (u, file_end (wave_header nch 1 fr 0 @ wave_header nch 1 fr (int (length a)) @ a)))"
  proof -
    have m0: "(0 :: int) = 0 \<or> 0 = n" and l1: "(1 :: int) = 4 \<longrightarrow> lsz = 4" by simp_all
    show ?thesis
      using ww_writeframesraw_end [OF fits len m0 l1 w [OF vin], of "wave_header nch 1 fr 0"]
      unfolding if_P [OF refl] by (rule that)
  qed
  have "thenA (ww_setparams (nch, 1, fr, 0, ''NONE'', nm)) (thenA (ww_writeframesraw lsz pf_ops [])
    (ww_writeframesraw lsz pf_ops a)) (ww_init, file_end []) =
      (Inr (), (u, file_end (wave_header nch 1 fr 0 @ wave_header nch 1 fr (int (length a)) @ a)))"
    by (rule thenA_step, rule ww_setparams_ok [OF fits], rule thenA_step, rule 1, rule 2)
  then show ?thesis by (simp add: file_end_def)
qed

text \<open>A chunk that says its size is \<open>- 8\<close> sends the reader back to itself for ever.\<close>

definition looping_file :: string where
  "looping_file = ''RIFF'' @ le_bytes 4 100 @ ''WAVE'' @ ''junk'' @ le_bytes 4 0xFFFFFFF8"

lemma wave_loop_step:
  "wave_chunk_step pf_ops w \<lparr>f_data = looping_file, f_pos = 12\<rparr> =
    (Inr (\<lparr>ck_name = ''junk'', ck_size = - 8, ck_read = 0, ck_offset = 20\<rparr>, w), \<lparr>f_data = looping_file, f_pos = 20\<rparr>)"
proof -
  have "chunk_open pf_ops \<lparr>f_data = looping_file, f_pos = 12\<rparr> =
    (Inr \<lparr>ck_name = ''junk'', ck_size = - 8, ck_read = 0, ck_offset = 20\<rparr>, \<lparr>f_data = looping_file, f_pos = 20\<rparr>)"
    by code_simp
  then show ?thesis by (simp add: wave_chunk_step_def)
qed

lemma wave_loop_back:
  "wave_init_loop fuel pf_ops 96 w \<lparr>f_data = looping_file, f_pos = 12\<rparr> = None"
proof (induction fuel arbitrary: w)
  case (Suc fuel)
  show ?case
    by (simp add: wave_loop_step chunk_skip_def pf_ops_def pf_seek_def Suc [unfolded pf_ops_def]
        wave_loop_step [unfolded pf_ops_def])
qed simp

lemma wave_open_loops: "wave_open_read fuel pf_ops \<lparr>f_data = looping_file, f_pos = 0\<rparr> = None"
proof -
  have "bindA (fo_read pf_ops 4) (\<lambda>form.
             if form \<noteq> ''RIFF'' then raiseA (wave_error ''file does not start with RIFF id'')
             else
               bindA (wave_read_long (fo_read pf_ops)) (\<lambda>formlength.
                 if formlength \<le> 0 then raiseA (wave_error ''invalid FORM chunk data size'')
                 else
                   bindA (fo_read pf_ops 4) (\<lambda>formdata.
                     if formdata \<noteq> ''WAVE'' then raiseA (wave_error ''not a WAVE file'')
                     else retA (formlength - 4)))) \<lparr>f_data = looping_file, f_pos = 0\<rparr> =
     (Inr 96, \<lparr>f_data = looping_file, f_pos = 12\<rparr>)"
    by code_simp
  then show ?thesis by (simp add: wave_open_read_def wave_loop_back)
qed

end
