(* ===== verification/Xdrlib.thy ===== *)
theory Xdrlib
  imports Str "HOL-Library.Word"
begin

unbundle bit_operations_syntax

section \<open>\<open>Lib/xdrlib.py\<close>: External Data Representation\<close>

text \<open>
  The portable \<open>Packer\<close> and \<open>Unpacker\<close> (\<open>_USE_MACHINE_REP\<close> false).  A packer is its
  buffer; an unpacker is its buffer and position, which \<open>set_position\<close> can make any integer.
  The optional C module \<open>_xdr\<close> is a parameter: absent, the floating point methods raise
  \<open>ConversionError\<close>.  \<open>int(x)\<close> of a long integer raises \<open>OverflowError\<close> beyond
  \<open>sys.maxint\<close>, which is the parameter \<open>maxint\<close> of the methods that call it on more than
  eight bits.
\<close>

subsection \<open>Definitions: the packer\<close>

type_synonym packer = string

record unpacker =
  ubuf :: string
  upos :: int

record 'f xdr_module =
  xm_pack_float :: "'f \<Rightarrow> string + string"
  xm_pack_double :: "'f \<Rightarrow> string + string"
  xm_unpack_float :: "string \<Rightarrow> string + 'f"
  xm_unpack_double :: "string \<Rightarrow> string + 'f"

definition XdrError :: "string \<Rightarrow> pyexc" where
  "XdrError msg = ModError ''xdrlib.Error'' msg"

definition ConversionError :: "string \<Rightarrow> pyexc" where
  "ConversionError msg = ModError ''xdrlib.ConversionError'' msg"

definition byte :: "int \<Rightarrow> char" where
  \<comment> \<open>\<open>chr(int(x & 0xff))\<close>\<close>
  "byte x = chr (nat (x AND 0xff))"

definition packer_reset :: "(packer, unit) act" where
  "packer_reset = updA (\<lambda>_. [])"

definition get_buffer :: "(packer, string) act" where
  "get_buffer = getA (\<lambda>buf. buf)"

definition add_buf :: "string \<Rightarrow> (packer, unit) act" where
  "add_buf data = updA (\<lambda>buf. buf @ data)"

definition pack_uint :: "int \<Rightarrow> (packer, unit) act" where
  "pack_uint x =
     add_buf [byte (drop_bit 24 x), byte (drop_bit 16 x), byte (drop_bit 8 x), byte x]"

definition pack_bool :: "bool \<Rightarrow> (packer, unit) act" where
  "pack_bool x = (if x then add_buf [NUL, NUL, NUL, CHR 0x01] else add_buf [NUL, NUL, NUL, NUL])"

definition int_of_long :: "int \<Rightarrow> int \<Rightarrow> int res" where
  \<comment> \<open>\<open>int(x)\<close>\<close>
  "int_of_long maxint x = (if - maxint - 1 \<le> x \<and> x \<le> maxint then Inr x else Inl OverflowError)"

text \<open>
  A hexadecimal literal without \<open>L\<close> is read as an unsigned C \<open>long\<close> and kept as a signed
  one: on a 32-bit interpreter \<open>0xffffffff\<close> is \<open>-1\<close>.
\<close>

definition hex_literal :: "int \<Rightarrow> int \<Rightarrow> int" where
  "hex_literal maxint v = (if v \<le> maxint then v else v - 2 * (maxint + 1))"

definition pack_uhyper :: "int \<Rightarrow> int \<Rightarrow> (packer, unit) act" where
  "pack_uhyper maxint x =
     thenA (bindA (liftA (int_of_long maxint (drop_bit 32 x AND hex_literal maxint 0xffffffff))) pack_uint)
       (bindA (liftA (int_of_long maxint (x AND hex_literal maxint 0xffffffff))) pack_uint)"

definition xdr_call :: "(string + 'b) \<Rightarrow> 'b res" where
  \<comment> \<open>\<open>except _xdr.error, msg: raise ConversionError(msg)\<close>\<close>
  "xdr_call r = (case r of Inl msg \<Rightarrow> Inl (ConversionError msg) | Inr x \<Rightarrow> Inr x)"

definition pack_float :: "'f xdr_module option \<Rightarrow> 'f \<Rightarrow> (packer, unit) act" where
  "pack_float xdr x =
     (case xdr of
        None \<Rightarrow> raiseA (ConversionError ''Not supported'')
      | Some m \<Rightarrow> bindA (liftA (xdr_call (xm_pack_float m x))) add_buf)"

definition pack_double :: "'f xdr_module option \<Rightarrow> 'f \<Rightarrow> (packer, unit) act" where
  "pack_double xdr x =
     (case xdr of
        None \<Rightarrow> raiseA (ConversionError ''Not supported'')
      | Some m \<Rightarrow> bindA (liftA (xdr_call (xm_pack_double m x))) add_buf)"

definition pack_fstring :: "int \<Rightarrow> string \<Rightarrow> (packer, unit) act" where
  "pack_fstring n s =
     (if n < 0 then raiseA (ValueError ''fstring size must be nonnegative'')
      else
        let n = ((n + 3) div 4) * 4;
            data = pupto n s;
            data = data @ replicate (nat (n - int (length data))) NUL
        in add_buf data)"

definition pack_string :: "string \<Rightarrow> (packer, unit) act" where
  "pack_string s = (let n = int (length s) in thenA (pack_uint n) (pack_fstring n s))"

definition pack_list :: "'a list \<Rightarrow> ('a \<Rightarrow> (packer, unit) act) \<Rightarrow> (packer, unit) act" where
  "pack_list xs pack_item =
     thenA (forA (\<lambda>item. thenA (pack_uint 1) (pack_item item)) xs) (pack_uint 0)"

definition pack_farray :: "int \<Rightarrow> 'a list \<Rightarrow> ('a \<Rightarrow> (packer, unit) act) \<Rightarrow> (packer, unit) act" where
  "pack_farray n xs pack_item =
     (if int (length xs) \<noteq> n then raiseA (ValueError ''wrong array size'') else forA pack_item xs)"

definition pack_array :: "'a list \<Rightarrow> ('a \<Rightarrow> (packer, unit) act) \<Rightarrow> (packer, unit) act" where
  "pack_array xs pack_item =
     (let n = int (length xs) in thenA (pack_uint n) (pack_farray n xs pack_item))"

subsection \<open>Definitions: the unpacker\<close>

definition unpacker_reset :: "string \<Rightarrow> unpacker" where
  "unpacker_reset data = \<lparr>ubuf = data, upos = 0\<rparr>"

definition get_position :: "(unpacker, int) act" where
  "get_position = getA upos"

definition set_position :: "int \<Rightarrow> (unpacker, unit) act" where
  "set_position position = updA (upos_update (\<lambda>_. position))"

definition xdr_done :: "(unpacker, unit) act" where
  "xdr_done =
     guardA (\<lambda>u. \<not> upos u < int (length (ubuf u))) (XdrError ''unextracted data remains'')"

definition take_data :: "int \<Rightarrow> (unpacker, string) act" where
  \<comment> \<open>advance by \<open>k\<close>, then slice: the position moves even when \<open>EOFError\<close> is raised\<close>
  "take_data k =
     bindA (getA upos) (\<lambda>i.
       thenA (updA (upos_update (\<lambda>_. i + k)))
         (bindA (getA (\<lambda>u. pslice i (i + k) (ubuf u))) (\<lambda>data.
            if int (length data) < k then raiseA EOFError else retA data)))"

definition byte_at :: "string \<Rightarrow> nat \<Rightarrow> int" where
  "byte_at data k = int (ord (data ! k))"

definition unpack_uint :: "(unpacker, int) act" where
  "unpack_uint =
     bindA (take_data 4) (\<lambda>data.
       retA (((push_bit 24 (byte_at data 0) OR push_bit 16 (byte_at data 1))
         OR push_bit 8 (byte_at data 2)) OR byte_at data 3))"

definition unpack_int :: "(unpacker, int) act" where
  "unpack_int =
     bindA unpack_uint (\<lambda>x. retA (if x \<ge> 0x80000000 then x - 0x100000000 else x))"

definition unpack_uhyper :: "(unpacker, int) act" where
  "unpack_uhyper =
     bindA unpack_uint (\<lambda>hi. bindA unpack_uint (\<lambda>lo. retA (push_bit 32 hi OR lo)))"

definition unpack_hyper :: "(unpacker, int) act" where
  "unpack_hyper =
     bindA unpack_uhyper (\<lambda>x.
       retA (if x \<ge> 0x8000000000000000 then x - 0x10000000000000000 else x))"

definition unpack_float :: "'f xdr_module option \<Rightarrow> (unpacker, 'f) act" where
  "unpack_float xdr =
     (case xdr of
        None \<Rightarrow> raiseA (ConversionError ''Not supported'')
      | Some m \<Rightarrow> bindA (take_data 4) (\<lambda>data. liftA (xdr_call (xm_unpack_float m data))))"

definition unpack_double :: "'f xdr_module option \<Rightarrow> (unpacker, 'f) act" where
  "unpack_double xdr =
     (case xdr of
        None \<Rightarrow> raiseA (ConversionError ''Not supported'')
      | Some m \<Rightarrow> bindA (take_data 8) (\<lambda>data. liftA (xdr_call (xm_unpack_double m data))))"

definition unpack_fstring :: "int \<Rightarrow> (unpacker, string) act" where
  "unpack_fstring n =
     (if n < 0 then raiseA (ValueError ''fstring size must be nonnegative'')
      else
        bindA (getA upos) (\<lambda>i.
          let j = i + (n + 3) div 4 * 4
          in thenA (guardA (\<lambda>u. \<not> j > int (length (ubuf u))) EOFError)
               (thenA (updA (upos_update (\<lambda>_. j))) (getA (\<lambda>u. pslice i (i + n) (ubuf u))))))"

definition unpack_string :: "(unpacker, string) act" where
  "unpack_string = bindA unpack_uint unpack_fstring"

definition repr_uint :: "int \<Rightarrow> string" where
  \<comment> \<open>the value is a long integer from \<open>0x80000000\<close> on\<close>
  "repr_uint x = (if x < 0x80000000 then int_repr x else int_repr x @ ''L'')"

text \<open>
  The loop of \<open>unpack_list\<close> ends at a zero word; an item reader that moves backwards may keep
  it running, so it has fuel, and running out of it is \<open>None\<close>.
\<close>

primrec unpack_list_loop ::
  "nat \<Rightarrow> 'a list \<Rightarrow> (unpacker, 'a) act \<Rightarrow> unpacker \<Rightarrow> ('a list res \<times> unpacker) option" where
  "unpack_list_loop 0 acc unpack_item u = None"
| "unpack_list_loop (Suc fuel) acc unpack_item u =
     (case unpack_uint u of
        (Inl e, u) \<Rightarrow> Some (Inl e, u)
      | (Inr x, u) \<Rightarrow>
          if x = 0 then Some (Inr acc, u)
          else if x \<noteq> 1 then Some (Inl (ConversionError (''0 or 1 expected, got '' @ repr_uint x)), u)
          else
            (case unpack_item u of
               (Inl e, u) \<Rightarrow> Some (Inl e, u)
             | (Inr item, u) \<Rightarrow> unpack_list_loop fuel (acc @ [item]) unpack_item u))"

definition unpack_list :: "nat \<Rightarrow> (unpacker, 'a) act \<Rightarrow> unpacker \<Rightarrow> ('a list res \<times> unpacker) option" where
  "unpack_list fuel unpack_item = unpack_list_loop fuel [] unpack_item"

primrec unpack_items :: "nat \<Rightarrow> 'a list \<Rightarrow> (unpacker, 'a) act \<Rightarrow> (unpacker, 'a list) act" where
  "unpack_items 0 acc unpack_item = retA acc"
| "unpack_items (Suc n) acc unpack_item =
     bindA unpack_item (\<lambda>item. unpack_items n (acc @ [item]) unpack_item)"

definition unpack_farray :: "int \<Rightarrow> (unpacker, 'a) act \<Rightarrow> (unpacker, 'a list) act" where
  "unpack_farray n unpack_item = unpack_items (nat n) [] unpack_item"

definition unpack_array :: "(unpacker, 'a) act \<Rightarrow> (unpacker, 'a list) act" where
  "unpack_array unpack_item = bindA unpack_uint (\<lambda>n. unpack_farray n unpack_item)"

subsection \<open>The wire format of integers\<close>

text \<open>
  The packer keeps an integer modulo \<open>2 ^ 32\<close>: the big-endian bytes of the word.
\<close>

definition enc_uint :: "int \<Rightarrow> string" where
  "enc_uint x = [byte (drop_bit 24 x), byte (drop_bit 16 x), byte (drop_bit 8 x), byte x]"

definition dec_uint :: "string \<Rightarrow> int" where
  "dec_uint data =
     ((push_bit 24 (byte_at data 0) OR push_bit 16 (byte_at data 1)) OR push_bit 8 (byte_at data 2))
       OR byte_at data 3"

lemma byte_take_bit: "int (ord (byte x)) = take_bit 8 x"
proof -
  have "(0xff :: int) = mask 8" by (simp add: mask_eq_exp_minus_1)
  then have "x AND 0xff = take_bit 8 x" by (simp only: take_bit_eq_mask)
  moreover have "nat (take_bit 8 x) < 256"
    using take_bit_int_less_exp [of 8 x] by (simp add: nat_less_iff)
  ultimately show ?thesis
    unfolding byte_def by (simp add: of_char_of take_bit_nat_eq_self)
qed

lemma dec_enc_uint: "dec_uint (enc_uint x) = take_bit 32 x"
  unfolding dec_uint_def enc_uint_def byte_at_def
proof (rule bit_eqI)
  fix n :: nat
  consider "n < 8" | "8 \<le> n" "n < 16" | "16 \<le> n" "n < 24" | "24 \<le> n" "n < 32" | "32 \<le> n"
    by linarith
  then show "bit (((push_bit 24 (int (ord ([byte (drop_bit 24 x), byte (drop_bit 16 x), byte (drop_bit 8 x), byte x] ! 0)))
      OR push_bit 16 (int (ord ([byte (drop_bit 24 x), byte (drop_bit 16 x), byte (drop_bit 8 x), byte x] ! 1))))
      OR push_bit 8 (int (ord ([byte (drop_bit 24 x), byte (drop_bit 16 x), byte (drop_bit 8 x), byte x] ! 2))))
      OR int (ord ([byte (drop_bit 24 x), byte (drop_bit 16 x), byte (drop_bit 8 x), byte x] ! 3))) n
    \<longleftrightarrow> bit (take_bit 32 x) n"
    by cases (auto simp: byte_take_bit bit_simps)
qed

lemma pack_uint_enc: "pack_uint x buf = (Inr (), buf @ enc_uint x)"
  by (simp add: pack_uint_def add_buf_def enc_uint_def)

lemma length_enc_uint [simp]: "length (enc_uint x) = 4"
  by (simp add: enc_uint_def)

subsection \<open>Items\<close>

text \<open>
  What an item's packer and unpacker promise each other: the packer appends an encoding, and the
  unpacker positioned before that encoding returns the item and stops right after it.
\<close>

locale xdr_item =
  fixes pack :: "'a \<Rightarrow> (packer, unit) act"
    and unpack :: "(unpacker, 'a) act"
    and enc :: "'a \<Rightarrow> string"
    and valid :: "'a \<Rightarrow> bool"
  assumes pack_enc: "valid x \<Longrightarrow> pack x buf = (Inr (), buf @ enc x)"
    and unpack_enc: "valid x \<Longrightarrow>
      unpack \<lparr>ubuf = pre @ enc x @ post, upos = int (length pre)\<rparr> =
        (Inr x, \<lparr>ubuf = pre @ enc x @ post, upos = int (length (pre @ enc x))\<rparr>)"

definition enc_array :: "('a \<Rightarrow> string) \<Rightarrow> 'a list \<Rightarrow> string" where
  "enc_array enc xs = enc_uint (int (length xs)) @ concat (map enc xs)"

definition enc_list :: "('a \<Rightarrow> string) \<Rightarrow> 'a list \<Rightarrow> string" where
  "enc_list enc xs = concat (map (\<lambda>x. enc_uint 1 @ enc x) xs) @ enc_uint 0"

lemma take_data_at:
  assumes "length d = k"
  shows "take_data (int k) \<lparr>ubuf = pre @ d @ post, upos = int (length pre)\<rparr> =
    (Inr d, \<lparr>ubuf = pre @ d @ post, upos = int (length pre + k)\<rparr>)"
proof -
  have "pslice (int (length pre)) (int (length pre) + int k) (pre @ d @ post) = d"
    using pslice_nat [of "length pre" "length pre + k" "pre @ d @ post"] assms by simp
  with assms show ?thesis by (simp add: take_data_def)
qed

lemma unpack_uint_at:
  "unpack_uint \<lparr>ubuf = pre @ enc_uint x @ post, upos = int (length pre)\<rparr> =
    (Inr (take_bit 32 x), \<lparr>ubuf = pre @ enc_uint x @ post, upos = int (length pre + 4)\<rparr>)"
  using take_data_at [of "enc_uint x" 4 pre post] dec_enc_uint [of x]
  by (simp add: unpack_uint_def dec_uint_def)

lemma unpack_uint_at_val:
  "0 \<le> x \<Longrightarrow> x < 2 ^ 32 \<Longrightarrow>
    unpack_uint \<lparr>ubuf = pre @ enc_uint x @ post, upos = int (length pre)\<rparr> =
    (Inr x, \<lparr>ubuf = pre @ enc_uint x @ post, upos = int (length pre + 4)\<rparr>)"
  using unpack_uint_at [of pre x post] by (simp add: take_bit_int_eq_self)

interpretation uint: xdr_item pack_uint unpack_uint enc_uint "\<lambda>x. 0 \<le> x \<and> x < 2 ^ 32"
  by unfold_locales (simp_all add: pack_uint_enc unpack_uint_at_val)

lemma unpack_int_at:
  assumes "- (2 ^ 31) \<le> x" "x < 2 ^ 31"
  shows "unpack_int \<lparr>ubuf = pre @ enc_uint x @ post, upos = int (length pre)\<rparr> =
    (Inr x, \<lparr>ubuf = pre @ enc_uint x @ post, upos = int (length pre + 4)\<rparr>)"
proof -
  have "take_bit 32 x = (if x < 0 then x + 2 ^ 32 else x)"
  proof (cases "x < 0")
    case True
    have "(x + 2 ^ 32) mod 2 ^ 32 = x + 2 ^ 32"
      using assms True by (intro mod_pos_pos_trivial) simp_all
    moreover have "(x + 2 ^ 32) mod 2 ^ 32 = x mod 2 ^ 32" by (rule mod_add_self2)
    ultimately show ?thesis using True by (simp add: take_bit_eq_mod)
  next
    case False
    with assms show ?thesis by (simp add: take_bit_int_eq_self)
  qed
  with assms show ?thesis
    by (simp add: unpack_int_def unpack_uint_at)
qed

interpretation sint: xdr_item pack_uint unpack_int enc_uint "\<lambda>x. - (2 ^ 31) \<le> x \<and> x < 2 ^ 31"
  by unfold_locales (simp_all add: pack_uint_enc unpack_int_at)

context xdr_item
begin

lemma pack_items: "list_all valid xs \<Longrightarrow> forA pack xs buf = (Inr (), buf @ concat (map enc xs))"
  by (induction xs arbitrary: buf) (simp_all add: pack_enc)

lemma unpack_items_enc:
  "list_all valid xs \<Longrightarrow>
    unpack_items (length xs) acc unpack
      \<lparr>ubuf = pre @ concat (map enc xs) @ post, upos = int (length pre)\<rparr> =
    (Inr (acc @ xs), \<lparr>ubuf = pre @ concat (map enc xs) @ post,
       upos = int (length (pre @ concat (map enc xs)))\<rparr>)"
proof (induction xs arbitrary: acc pre)
  case Nil
  then show ?case by simp
next
  case (Cons x xs)
  from Cons.IH [of "acc @ [x]" "pre @ enc x"] Cons.prems
    unpack_enc [of x pre "concat (map enc xs) @ post"] show ?case
    by (simp add: add.assoc)
qed

text \<open>Arrays of items are items again.\<close>

lemma array_item:
  "xdr_item (\<lambda>xs. pack_array xs pack) (unpack_array unpack) (enc_array enc)
     (\<lambda>xs. list_all valid xs \<and> int (length xs) < 2 ^ 32)"
proof
  fix xs :: "'a list" and buf
  assume "list_all valid xs \<and> int (length xs) < 2 ^ 32"
  then show "pack_array xs pack buf = (Inr (), buf @ enc_array enc xs)"
    by (simp add: pack_array_def pack_farray_def pack_uint_enc pack_items enc_array_def)
next
  fix xs :: "'a list" and pre post
  assume v: "list_all valid xs \<and> int (length xs) < 2 ^ 32"
  let ?n = "enc_uint (int (length xs))" and ?b = "concat (map enc xs)"
  have "unpack_uint \<lparr>ubuf = pre @ ?n @ (?b @ post), upos = int (length pre)\<rparr> =
      (Inr (int (length xs)), \<lparr>ubuf = pre @ ?n @ (?b @ post), upos = int (length pre + 4)\<rparr>)"
    using v by (intro unpack_uint_at_val) simp_all
  moreover have "unpack_items (length xs) [] unpack
      \<lparr>ubuf = (pre @ ?n) @ ?b @ post, upos = int (length (pre @ ?n))\<rparr> =
      (Inr ([] @ xs), \<lparr>ubuf = (pre @ ?n) @ ?b @ post, upos = int (length ((pre @ ?n) @ ?b))\<rparr>)"
    using v by (intro unpack_items_enc) simp
  ultimately show "unpack_array unpack \<lparr>ubuf = pre @ enc_array enc xs @ post, upos = int (length pre)\<rparr> =
      (Inr xs, \<lparr>ubuf = pre @ enc_array enc xs @ post, upos = int (length (pre @ enc_array enc xs))\<rparr>)"
    by (simp add: unpack_array_def unpack_farray_def enc_array_def)
qed

text \<open>The counted form without its count, and the list with a flag word before each item.\<close>

lemma farray_roundtrip:
  assumes "list_all valid xs"
  shows "pack_farray (int (length xs)) xs pack buf = (Inr (), buf @ concat (map enc xs))"
    and "unpack_farray (int (length xs)) unpack
      \<lparr>ubuf = pre @ concat (map enc xs) @ post, upos = int (length pre)\<rparr> =
      (Inr xs, \<lparr>ubuf = pre @ concat (map enc xs) @ post, upos = int (length (pre @ concat (map enc xs)))\<rparr>)"
  using unpack_items_enc [OF assms, of "[]" pre post]
  by (simp_all add: pack_farray_def unpack_farray_def pack_items [OF assms])

lemma pack_list_enc: "list_all valid xs \<Longrightarrow> pack_list xs pack buf = (Inr (), buf @ enc_list enc xs)"
proof -
  assume v: "list_all valid xs"
  have "forA (\<lambda>item. thenA (pack_uint 1) (pack item)) xs buf =
      (Inr (), buf @ concat (map (\<lambda>x. enc_uint 1 @ enc x) xs))"
    using v by (induction xs arbitrary: buf) (simp_all add: pack_uint_enc pack_enc)
  then show ?thesis by (simp add: pack_list_def pack_uint_enc enc_list_def)
qed

lemma unpack_list_enc:
  "list_all valid xs \<Longrightarrow> length xs < fuel \<Longrightarrow>
    unpack_list_loop fuel acc unpack \<lparr>ubuf = pre @ enc_list enc xs @ post, upos = int (length pre)\<rparr> =
    Some (Inr (acc @ xs), \<lparr>ubuf = pre @ enc_list enc xs @ post, upos = int (length (pre @ enc_list enc xs))\<rparr>)"
proof (induction xs arbitrary: acc pre fuel)
  case Nil
  then obtain k where "fuel = Suc k" by (cases fuel) auto
  then show ?case using unpack_uint_at_val [of 0 pre post] by (simp add: enc_list_def)
next
  case (Cons x xs)
  then obtain k where k: "fuel = Suc k" "length xs < k" by (cases fuel) auto
  have e: "enc_list enc (x # xs) = enc_uint 1 @ enc x @ enc_list enc xs"
    by (simp add: enc_list_def)
  let ?buf = "pre @ enc_uint 1 @ enc x @ enc_list enc xs @ post"
  have 1: "unpack_uint \<lparr>ubuf = ?buf, upos = int (length pre)\<rparr> =
      (Inr 1, \<lparr>ubuf = ?buf, upos = int (length (pre @ enc_uint 1))\<rparr>)"
    using unpack_uint_at_val [of 1 pre "enc x @ enc_list enc xs @ post"] by simp
  have 2: "unpack \<lparr>ubuf = ?buf, upos = int (length (pre @ enc_uint 1))\<rparr> =
      (Inr x, \<lparr>ubuf = ?buf, upos = int (length (pre @ enc_uint 1 @ enc x))\<rparr>)"
    using unpack_enc [of x "pre @ enc_uint 1" "enc_list enc xs @ post"] Cons.prems by simp
  have "unpack_list_loop k (acc @ [x]) unpack
      \<lparr>ubuf = (pre @ enc_uint 1 @ enc x) @ enc_list enc xs @ post, upos = int (length (pre @ enc_uint 1 @ enc x))\<rparr> =
    Some (Inr ((acc @ [x]) @ xs), \<lparr>ubuf = (pre @ enc_uint 1 @ enc x) @ enc_list enc xs @ post,
      upos = int (length ((pre @ enc_uint 1 @ enc x) @ enc_list enc xs))\<rparr>)"
    using Cons.prems k by (intro Cons.IH) simp_all
  with 1 2 show ?case
    unfolding e k(1) by simp
qed

end

subsection \<open>Opaque data and strings\<close>

definition pad4 :: "nat \<Rightarrow> nat" where
  "pad4 n = (n + 3) div 4 * 4"

definition enc_string :: "string \<Rightarrow> string" where
  "enc_string s = enc_uint (int (length s)) @ s @ replicate (pad4 (length s) - length s) NUL"

lemma pad4_int: "(int n + 3) div 4 * 4 = int (pad4 n)"
  by (simp add: pad4_def zdiv_int)

lemma pad4_ge: "n \<le> pad4 n"
  unfolding pad4_def by presburger

lemma pad4_dvd: "4 dvd pad4 n" "pad4 n < n + 4"
  unfolding pad4_def by presburger+

lemma pack_fstring_enc:
  "pack_fstring (int (length s)) s buf = (Inr (), buf @ s @ replicate (pad4 (length s) - length s) NUL)"
  using pad4_ge [of "length s"]
  by (simp add: pack_fstring_def Let_def pad4_int add_buf_def nat_diff_distrib)

lemma unpack_fstring_at:
  assumes "length d = pad4 n - n" "length s = n"
  shows "unpack_fstring (int n) \<lparr>ubuf = pre @ s @ d @ post, upos = int (length pre)\<rparr> =
    (Inr s, \<lparr>ubuf = pre @ s @ d @ post, upos = int (length (pre @ s @ d))\<rparr>)"
proof -
  have "pslice (int (length pre)) (int (length pre) + int n) (pre @ s @ d @ post) = s"
    using pslice_nat [of "length pre" "length pre + n" "pre @ s @ d @ post"] assms by simp
  moreover have "int (length s) + int (length d) = int (pad4 n)"
    using assms pad4_ge [of n] by simp
  ultimately show ?thesis
    using assms pad4_ge [of n] by (simp add: unpack_fstring_def pad4_int Let_def)
qed

lemma string_item: "xdr_item pack_string unpack_string enc_string (\<lambda>s. int (length s) < 2 ^ 32)"
proof
  fix s buf
  show "pack_string s buf = (Inr (), buf @ enc_string s)"
    by (simp add: pack_string_def Let_def pack_uint_enc pack_fstring_enc enc_string_def)
next
  fix s :: string and pre post
  assume v: "int (length s) < 2 ^ 32"
  let ?n = "enc_uint (int (length s))" and ?d = "replicate (pad4 (length s) - length s) NUL"
  have "unpack_uint \<lparr>ubuf = pre @ ?n @ (s @ ?d @ post), upos = int (length pre)\<rparr> =
      (Inr (int (length s)), \<lparr>ubuf = pre @ ?n @ (s @ ?d @ post), upos = int (length pre + 4)\<rparr>)"
    using v by (intro unpack_uint_at_val) simp_all
  moreover have "unpack_fstring (int (length s)) \<lparr>ubuf = (pre @ ?n) @ s @ ?d @ post, upos = int (length (pre @ ?n))\<rparr> =
      (Inr s, \<lparr>ubuf = (pre @ ?n) @ s @ ?d @ post, upos = int (length ((pre @ ?n) @ s @ ?d))\<rparr>)"
    by (intro unpack_fstring_at) simp_all
  ultimately show "unpack_string \<lparr>ubuf = pre @ enc_string s @ post, upos = int (length pre)\<rparr> =
      (Inr s, \<lparr>ubuf = pre @ enc_string s @ post, upos = int (length (pre @ enc_string s))\<rparr>)"
    by (simp add: unpack_string_def enc_string_def)
qed

interpretation str: xdr_item pack_string unpack_string enc_string "\<lambda>s. int (length s) < 2 ^ 32"
  by (rule string_item)

interpretation str_array: xdr_item "\<lambda>xs. pack_array xs pack_string" "unpack_array unpack_string"
  "enc_array enc_string"
  "\<lambda>xs. list_all (\<lambda>s. int (length s) < 2 ^ 32) xs \<and> int (length xs) < 2 ^ 32"
  by (rule str.array_item)

text \<open>
  A packed byte string never gets shorter than its declared size, but one longer than the size is
  not cut to it: the size is rounded up before the slice.
\<close>

lemma pack_fstring_length:
  "0 \<le> n \<Longrightarrow> \<exists>d. pack_fstring n s buf = (Inr (), buf @ d) \<and> length d = pad4 (nat n)"
proof -
  assume n: "0 \<le> n"
  then have e: "(n + 3) div 4 * 4 = int (pad4 (nat n))"
    using pad4_int [of "nat n"] by simp
  show ?thesis
    using n by (simp add: pack_fstring_def e Let_def add_buf_def of_nat_diff)
qed

lemma pack_fstring_overlong: "snd (pack_fstring 1 ''abcd'' []) = ''abcd''"
  by code_simp

subsection \<open>Hyper integers\<close>

definition enc_uhyper :: "int \<Rightarrow> string" where
  "enc_uhyper x = enc_uint (drop_bit 32 x) @ enc_uint x"

lemma and_mask32: "(x :: int) AND 0xffffffff = take_bit 32 x"
proof -
  have "(0xffffffff :: int) = mask 32" by (simp add: mask_eq_exp_minus_1)
  then show ?thesis by (simp only: take_bit_eq_mask)
qed

lemma enc_uint_take_bit: "enc_uint (take_bit 32 x) = enc_uint x"
proof -
  have "take_bit 8 (drop_bit k (take_bit 32 x)) = take_bit 8 (drop_bit k x)" if "k \<le> 24" for k
    using that by (intro bit_eqI) (auto simp: bit_simps)
  then have "byte (drop_bit k (take_bit 32 x)) = byte (drop_bit k x)" if "k \<le> 24" for k
    using that by (metis byte_take_bit of_char_eq_iff of_nat_eq_iff)
  from this [of 24] this [of 16] this [of 8] this [of 0] show ?thesis
    by (simp add: enc_uint_def)
qed

lemma take_bit_32_le: "take_bit 32 (x :: int) \<le> 2 ^ 32 - 1" "0 \<le> take_bit 32 (x :: int)"
  using take_bit_int_less_exp [of 32 x] by simp_all

lemma int_of_long_32: "2 ^ 32 - 1 \<le> maxint \<Longrightarrow> int_of_long maxint (take_bit 32 y) = Inr (take_bit 32 y)"
proof -
  assume "2 ^ 32 - 1 \<le> maxint"
  with take_bit_32_le [of y] have "- maxint - 1 \<le> take_bit 32 y" "take_bit 32 y \<le> maxint" by linarith+
  then show ?thesis by (simp add: int_of_long_def)
qed

lemma pack_uhyper_enc:
  "2 ^ 32 - 1 \<le> maxint \<Longrightarrow> pack_uhyper maxint x buf = (Inr (), buf @ enc_uhyper x)"
  by (simp add: pack_uhyper_def hex_literal_def and_mask32 int_of_long_32 pack_uint_enc enc_uint_take_bit
    enc_uhyper_def)

lemma unpack_uhyper_at:
  "unpack_uhyper \<lparr>ubuf = pre @ enc_uhyper x @ post, upos = int (length pre)\<rparr> =
    (Inr (take_bit 64 x), \<lparr>ubuf = pre @ enc_uhyper x @ post, upos = int (length (pre @ enc_uhyper x))\<rparr>)"
proof -
  let ?h = "enc_uint (drop_bit 32 x)" and ?l = "enc_uint x"
  have "push_bit 32 (take_bit 32 (drop_bit 32 x)) OR take_bit 32 x = take_bit 64 x"
    by (rule bit_eqI) (auto simp: bit_simps)
  with unpack_uint_at [of pre "drop_bit 32 x" "?l @ post"] unpack_uint_at [of "pre @ ?h" x post]
  show ?thesis by (simp add: unpack_uhyper_def enc_uhyper_def)
qed

interpretation uhyper: xdr_item "pack_uhyper maxint" unpack_uhyper enc_uhyper
  "\<lambda>x. 0 \<le> x \<and> x < 2 ^ 64 \<and> 2 ^ 32 - 1 \<le> maxint" for maxint
  by unfold_locales (simp_all add: pack_uhyper_enc unpack_uhyper_at take_bit_int_eq_self)

interpretation hyper: xdr_item "pack_uhyper maxint" unpack_hyper enc_uhyper
  "\<lambda>x. - (2 ^ 63) \<le> x \<and> x < 2 ^ 63 \<and> 2 ^ 32 - 1 \<le> maxint" for maxint
proof unfold_locales
  fix x :: int and pre post
  assume v: "- (2 ^ 63) \<le> x \<and> x < 2 ^ 63 \<and> 2 ^ 32 - 1 \<le> maxint"
  have "take_bit 64 x = (if x < 0 then x + 2 ^ 64 else x)"
  proof (cases "x < 0")
    case True
    have "(x + 2 ^ 64) mod 2 ^ 64 = x + 2 ^ 64"
      using v True by (intro mod_pos_pos_trivial) simp_all
    moreover have "(x + 2 ^ 64) mod 2 ^ 64 = x mod 2 ^ 64" by (rule mod_add_self2)
    ultimately show ?thesis using True by (simp add: take_bit_eq_mod)
  next
    case False
    with v show ?thesis by (simp add: take_bit_int_eq_self)
  qed
  with v show "unpack_hyper \<lparr>ubuf = pre @ enc_uhyper x @ post, upos = int (length pre)\<rparr> =
      (Inr x, \<lparr>ubuf = pre @ enc_uhyper x @ post, upos = int (length (pre @ enc_uhyper x))\<rparr>)"
    by (simp add: unpack_hyper_def unpack_uhyper_at)
qed (simp add: pack_uhyper_enc)

text \<open>
  Where \<open>sys.maxint\<close> is \<open>2 ^ 31 - 1\<close> the mask is \<open>-1\<close> and masks nothing: a hyper integer
  outside the range of a plain integer raises \<open>OverflowError\<close> after its upper half is packed.
\<close>

lemma pack_hyper_32bit:
  assumes "- (2 ^ 63) \<le> x" "x < 2 ^ 63"
  shows "pack_uhyper (2 ^ 31 - 1) x buf =
    (if - (2 ^ 31) \<le> x \<and> x < 2 ^ 31 then (Inr (), buf @ enc_uhyper x)
     else (Inl OverflowError, buf @ enc_uint (drop_bit 32 x)))"
proof -
  have "- (2 ^ 31) \<le> drop_bit 32 x" "drop_bit 32 x < 2 ^ 31"
    using assms by (simp_all add: drop_bit_eq_div)
  then have "int_of_long (2 ^ 31 - 1) (drop_bit 32 x) = Inr (drop_bit 32 x)"
    by (simp add: int_of_long_def)
  then show ?thesis
    by (auto simp: pack_uhyper_def hex_literal_def int_of_long_def pack_uint_enc enc_uhyper_def)
qed

subsection \<open>Positions\<close>

text \<open>No item reader of the module moves the position outside what the buffer could hold.\<close>

lemma unpack_short: "int (length (ubuf u)) < upos u + 4 \<Longrightarrow> 0 \<le> upos u \<Longrightarrow>
  unpack_uint u = (Inl EOFError, u\<lparr>upos := upos u + 4\<rparr>)"
proof -
  assume a: "int (length (ubuf u)) < upos u + 4" "0 \<le> upos u"
  then have "length (pslice (upos u) (upos u + 4) (ubuf u)) < 4"
    by (simp add: pslice_nonneg min_def)
  then show ?thesis by (simp add: unpack_uint_def take_data_def)
qed

end
