(* ===== verification/Sunau.thy ===== *)
theory Sunau
  imports Wave Xdrlib
begin

section \<open>\<open>Lib/sunau.py\<close>: Sun and NeXT audio files\<close>

text \<open>
  The reader and the writer over any file object, as in \<open>Wave\<close>: an object is its record of
  attributes beside the state of its file, and \<open>close\<close> replaces the file by \<open>None\<close>.  The two
  conversions of the \<open>audioop\<close> extension module are parameters of the operations that call them;
  \<open>maxint\<close> is the largest plain integer, which \<open>int()\<close> of a field may exceed.
\<close>

subsection \<open>Numbers in a file\<close>

definition AUDIO_FILE_MAGIC :: int where "AUDIO_FILE_MAGIC = 0x2e736e64"
definition AUDIO_FILE_ENCODING_MULAW_8 :: int where "AUDIO_FILE_ENCODING_MULAW_8 = 1"
definition AUDIO_FILE_ENCODING_LINEAR_8 :: int where "AUDIO_FILE_ENCODING_LINEAR_8 = 2"
definition AUDIO_FILE_ENCODING_LINEAR_16 :: int where "AUDIO_FILE_ENCODING_LINEAR_16 = 3"
definition AUDIO_FILE_ENCODING_LINEAR_24 :: int where "AUDIO_FILE_ENCODING_LINEAR_24 = 4"
definition AUDIO_FILE_ENCODING_LINEAR_32 :: int where "AUDIO_FILE_ENCODING_LINEAR_32 = 5"
definition AUDIO_FILE_ENCODING_ALAW_8 :: int where "AUDIO_FILE_ENCODING_ALAW_8 = 27"
definition AUDIO_UNKNOWN_SIZE :: int where "AUDIO_UNKNOWN_SIZE = 0xFFFFFFFF"

lemmas au_constants = AUDIO_FILE_MAGIC_def AUDIO_FILE_ENCODING_MULAW_8_def AUDIO_FILE_ENCODING_LINEAR_8_def
  AUDIO_FILE_ENCODING_LINEAR_16_def AUDIO_FILE_ENCODING_LINEAR_24_def AUDIO_FILE_ENCODING_LINEAR_32_def
  AUDIO_FILE_ENCODING_ALAW_8_def AUDIO_UNKNOWN_SIZE_def

definition simple_encodings :: "int list" where
  "simple_encodings = [AUDIO_FILE_ENCODING_MULAW_8, AUDIO_FILE_ENCODING_LINEAR_8,
     AUDIO_FILE_ENCODING_LINEAR_16, AUDIO_FILE_ENCODING_LINEAR_24, AUDIO_FILE_ENCODING_LINEAR_32,
     AUDIO_FILE_ENCODING_ALAW_8]"

definition sunau_error :: "string \<Rightarrow> pyexc" where
  "sunau_error msg = ModError ''sunau.Error'' msg"

primrec read_be :: "nat \<Rightarrow> (int \<Rightarrow> ('s, string) act) \<Rightarrow> int \<Rightarrow> ('s, int) act" where
  "read_be 0 rd x = retA x"
| "read_be (Suc k) rd x =
     bindA (rd 1) (\<lambda>b.
       if b = [] then raiseA EOFError else read_be k rd (x * 256 + int (ord (hd b))))"

definition read_u32 :: "(int \<Rightarrow> ('s, string) act) \<Rightarrow> ('s, int) act" where
  "read_u32 rd = read_be 4 rd 0"

primrec be_digits :: "nat \<Rightarrow> int \<Rightarrow> int list \<Rightarrow> int list" where
  \<comment> \<open>\<open>d, m = divmod(x, 256); data.insert(0, m); x = d\<close>\<close>
  "be_digits 0 x data = data"
| "be_digits (Suc k) x data = be_digits k (x div 256) (x mod 256 # data)"

definition write_u32 :: "(string \<Rightarrow> ('s, unit) act) \<Rightarrow> int \<Rightarrow> ('s, unit) act" where
  "write_u32 wr x = forA (put_chr wr) (be_digits 4 x [])"

subsection \<open>Reading\<close>

record au_reader =
  ar_soundpos :: int
  ar_hdr_size :: int
  ar_data_size :: int
  ar_encoding :: int
  ar_sampwidth :: int
  ar_framesize :: int
  ar_framerate :: int
  ar_nchannels :: int
  ar_info :: string
  ar_open :: bool

definition au_widths :: "int \<Rightarrow> (int \<times> int) res" where
  \<comment> \<open>\<open>_sampwidth\<close> and \<open>_framesize\<close> of an encoding\<close>
  "au_widths encoding =
     (if encoding \<notin> set simple_encodings then Inl (sunau_error ''encoding not (yet) supported'')
      else if encoding \<in> {AUDIO_FILE_ENCODING_MULAW_8, AUDIO_FILE_ENCODING_LINEAR_8, AUDIO_FILE_ENCODING_ALAW_8}
      then Inr (2, 1)
      else if encoding = AUDIO_FILE_ENCODING_LINEAR_16 then Inr (2, 2)
      else if encoding = AUDIO_FILE_ENCODING_LINEAR_24 then Inr (3, 3)
      else if encoding = AUDIO_FILE_ENCODING_LINEAR_32 then Inr (4, 4)
      else Inl (sunau_error ''unknown encoding''))"

definition cut_nul :: "string \<Rightarrow> string" where
  \<comment> \<open>the info field up to its first NUL\<close>
  "cut_nul info = takeWhile (\<lambda>c. c \<noteq> NUL) info"

definition au_field :: "int \<Rightarrow> 'f file_ops \<Rightarrow> ('f, int) act" where
  \<comment> \<open>\<open>int(_read_u32(file))\<close>\<close>
  "au_field maxint ops = bindA (read_u32 (fo_read ops)) (\<lambda>x. liftA (int_of_long maxint x))"

definition au_open_read :: "int \<Rightarrow> 'f file_ops \<Rightarrow> ('f, au_reader) act" where
  "au_open_read maxint ops =
     bindA (au_field maxint ops) (\<lambda>magic.
     if magic \<noteq> AUDIO_FILE_MAGIC then raiseA (sunau_error ''bad magic number'')
     else
     bindA (au_field maxint ops) (\<lambda>hdr_size.
     if hdr_size < 24 then raiseA (sunau_error ''header size too small'')
     else if hdr_size > 100 then raiseA (sunau_error ''header size rediculously large'')
     else
     bindA (read_u32 (fo_read ops)) (\<lambda>size.
     bindA (liftA (if size \<noteq> AUDIO_UNKNOWN_SIZE then int_of_long maxint size else Inr size)) (\<lambda>data_size.
     bindA (au_field maxint ops) (\<lambda>encoding.
     bindA (liftA (au_widths encoding)) (\<lambda>(sampwidth, framesize).
     bindA (au_field maxint ops) (\<lambda>framerate.
     bindA (au_field maxint ops) (\<lambda>nchannels.
     bindA (if hdr_size > 24 then fo_read ops (hdr_size - 24) else retA []) (\<lambda>info.
       retA \<lparr>ar_soundpos = 0, ar_hdr_size = hdr_size, ar_data_size = data_size, ar_encoding = encoding,
         ar_sampwidth = sampwidth, ar_framesize = framesize * nchannels, ar_framerate = framerate,
         ar_nchannels = nchannels, ar_info = cut_nul info, ar_open = True\<rparr>)))))))))"

type_synonym ('f, 'a) ar_act = "(au_reader \<times> 'f, 'a) act"

definition ar_get :: "(au_reader \<Rightarrow> 'a) \<Rightarrow> ('f, 'a) ar_act" where
  "ar_get g = getA (\<lambda>(w, f). g w)"

definition ar_file :: "('f, 'a) act \<Rightarrow> ('f, 'a) ar_act" where
  "ar_file m = thenA (guardA (\<lambda>(w, f). ar_open w) AttributeError) (on_file m)"

definition ar_getnchannels :: "('f, int) ar_act" where
  "ar_getnchannels = ar_get ar_nchannels"

definition ar_getsampwidth :: "('f, int) ar_act" where
  "ar_getsampwidth = ar_get ar_sampwidth"

definition ar_getframerate :: "('f, int) ar_act" where
  "ar_getframerate = ar_get ar_framerate"

definition ar_getnframes :: "('f, int) ar_act" where
  "ar_getnframes =
     bindA (ar_get (\<lambda>w. w)) (\<lambda>w.
       if ar_data_size w = AUDIO_UNKNOWN_SIZE then retA AUDIO_UNKNOWN_SIZE
       else if ar_encoding w \<in> set simple_encodings then liftA (py_div (ar_data_size w) (ar_framesize w))
       else retA 0)"

definition ar_getcomptype :: "('f, string) ar_act" where
  "ar_getcomptype = ar_get (\<lambda>w.
     if ar_encoding w = AUDIO_FILE_ENCODING_MULAW_8 then ''ULAW''
     else if ar_encoding w = AUDIO_FILE_ENCODING_ALAW_8 then ''ALAW''
     else ''NONE'')"

definition ar_getcompname :: "('f, string) ar_act" where
  "ar_getcompname = ar_get (\<lambda>w.
     if ar_encoding w = AUDIO_FILE_ENCODING_MULAW_8 then ''CCITT G.711 u-law''
     else if ar_encoding w = AUDIO_FILE_ENCODING_ALAW_8 then ''CCITT G.711 A-law''
     else ''not compressed'')"

definition ar_getparams :: "('f, int \<times> int \<times> int \<times> int \<times> string \<times> string) ar_act" where
  "ar_getparams =
     bindA ar_getnchannels (\<lambda>nch. bindA ar_getsampwidth (\<lambda>sw. bindA ar_getframerate (\<lambda>fr.
     bindA ar_getnframes (\<lambda>n. bindA ar_getcomptype (\<lambda>ct. bindA ar_getcompname (\<lambda>cn.
       retA (nch, sw, fr, n, ct, cn)))))))"

definition ar_getmark :: "int \<Rightarrow> ('f, unit) ar_act" where
  "ar_getmark mid = raiseA (sunau_error ''no marks'')"

definition ar_readframes ::
  "(string \<Rightarrow> int \<Rightarrow> string res) \<Rightarrow> 'f file_ops \<Rightarrow> int \<Rightarrow> ('f, string option) ar_act" where
  "ar_readframes ulaw2lin ops nframes =
     bindA (ar_get (\<lambda>w. w)) (\<lambda>w.
       if ar_encoding w \<in> set simple_encodings then
         bindA (if nframes = AUDIO_UNKNOWN_SIZE then ar_file (fo_read ops (- 1))
                else ar_file (fo_read ops (nframes * ar_framesize w * ar_nchannels w))) (\<lambda>data.
         bindA (if ar_encoding w = AUDIO_FILE_ENCODING_MULAW_8 then liftA (ulaw2lin data (ar_sampwidth w))
                else retA data) (\<lambda>data.
           retA (Some data)))
       else retA None)"

definition ar_rewind :: "'f file_ops \<Rightarrow> ('f, unit) ar_act" where
  "ar_rewind ops =
     thenA (updA (\<lambda>(w, f). (w\<lparr>ar_soundpos := 0\<rparr>, f)))
       (bindA (ar_get ar_hdr_size) (\<lambda>p. ar_file (fo_seek ops p 0)))"

definition ar_tell :: "('f, int) ar_act" where
  "ar_tell = ar_get ar_soundpos"

definition ar_setpos :: "'f file_ops \<Rightarrow> int \<Rightarrow> ('f, unit) ar_act" where
  "ar_setpos ops pos =
     thenA
       (if pos < 0 then raiseA (sunau_error ''position not in range'')
        else bindA ar_getnframes (\<lambda>n.
          if pos > n then raiseA (sunau_error ''position not in range'') else retA ()))
       (bindA (ar_get (\<lambda>w. pos * ar_framesize w + ar_hdr_size w)) (\<lambda>p.
          thenA (ar_file (fo_seek ops p 0)) (updA (\<lambda>(w, f). (w\<lparr>ar_soundpos := pos\<rparr>, f)))))"

definition ar_close :: "('f, unit) ar_act" where
  "ar_close = updA (\<lambda>(w, f). (w\<lparr>ar_open := False\<rparr>, f))"

subsection \<open>Writing\<close>

record au_writer =
  aw_framerate :: int
  aw_nchannels :: int
  aw_sampwidth :: int
  aw_framesize :: int
  aw_nframes :: int
  aw_nframeswritten :: int
  aw_datawritten :: int
  aw_datalength :: int
  aw_info :: string
  aw_comptype :: string
  aw_open :: bool

definition aw_init :: au_writer where
  "aw_init = \<lparr>aw_framerate = 0, aw_nchannels = 0, aw_sampwidth = 0, aw_framesize = 0,
     aw_nframes = AUDIO_UNKNOWN_SIZE, aw_nframeswritten = 0, aw_datawritten = 0, aw_datalength = 0,
     aw_info = [], aw_comptype = ''ULAW'', aw_open = True\<rparr>"

type_synonym ('f, 'a) aw_act = "(au_writer \<times> 'f, 'a) act"

definition aw_get :: "(au_writer \<Rightarrow> 'a) \<Rightarrow> ('f, 'a) aw_act" where
  "aw_get g = getA (\<lambda>(w, f). g w)"

definition aw_set :: "(au_writer \<Rightarrow> au_writer) \<Rightarrow> ('f, unit) aw_act" where
  "aw_set g = updA (\<lambda>(w, f). (g w, f))"

definition aw_check :: "(au_writer \<Rightarrow> bool) \<Rightarrow> string \<Rightarrow> ('f, unit) aw_act" where
  \<comment> \<open>\<open>if P: raise Error, msg\<close>\<close>
  "aw_check P msg = guardA (\<lambda>(w, f). \<not> P w) (sunau_error msg)"

definition aw_file :: "('f, 'a) act \<Rightarrow> ('f, 'a) aw_act" where
  "aw_file m = thenA (guardA (\<lambda>(w, f). aw_open w) AttributeError) (on_file m)"

definition aw_put :: "'f file_ops \<Rightarrow> string \<Rightarrow> ('f, unit) aw_act" where
  "aw_put ops s = aw_file (fo_write ops s)"

definition aw_frozen :: "('f, unit) aw_act" where
  "aw_frozen = aw_check (\<lambda>w. aw_nframeswritten w \<noteq> 0) ''cannot change parameters after starting to write''"

definition aw_setnchannels :: "int \<Rightarrow> ('f, unit) aw_act" where
  "aw_setnchannels n =
     thenA aw_frozen (thenA (aw_check (\<lambda>w. n \<notin> {1, 2, 4}) ''only 1, 2, or 4 channels supported'')
       (aw_set (aw_nchannels_update (\<lambda>_. n))))"

definition aw_getnchannels :: "('f, int) aw_act" where
  "aw_getnchannels =
     thenA (aw_check (\<lambda>w. aw_nchannels w = 0) ''number of channels not set'') (aw_get aw_nchannels)"

definition aw_setsampwidth :: "int \<Rightarrow> ('f, unit) aw_act" where
  "aw_setsampwidth n =
     thenA aw_frozen (thenA (aw_check (\<lambda>w. n \<notin> {1, 2, 4}) ''bad sample width'')
       (aw_set (aw_sampwidth_update (\<lambda>_. n))))"

definition aw_getsampwidth :: "('f, int) aw_act" where
  \<comment> \<open>the test is of the frame rate\<close>
  "aw_getsampwidth =
     thenA (aw_check (\<lambda>w. aw_framerate w = 0) ''sample width not specified'') (aw_get aw_sampwidth)"

definition aw_setframerate :: "int \<Rightarrow> ('f, unit) aw_act" where
  "aw_setframerate n = thenA aw_frozen (aw_set (aw_framerate_update (\<lambda>_. n)))"

definition aw_getframerate :: "('f, int) aw_act" where
  "aw_getframerate =
     thenA (aw_check (\<lambda>w. aw_framerate w = 0) ''frame rate not set'') (aw_get aw_framerate)"

definition aw_setnframes :: "int \<Rightarrow> ('f, unit) aw_act" where
  "aw_setnframes n =
     thenA aw_frozen (thenA (aw_check (\<lambda>w. n < 0) ''# of frames cannot be negative'')
       (aw_set (aw_nframes_update (\<lambda>_. n))))"

definition aw_getnframes :: "('f, int) aw_act" where
  "aw_getnframes = aw_get aw_nframeswritten"

definition aw_setcomptype :: "string \<Rightarrow> string \<Rightarrow> ('f, unit) aw_act" where
  "aw_setcomptype ct name =
     (if ct \<in> {''NONE'', ''ULAW''} then aw_set (aw_comptype_update (\<lambda>_. ct))
      else raiseA (sunau_error ''unknown compression type''))"

definition aw_getcomptype :: "('f, string) aw_act" where
  "aw_getcomptype = aw_get aw_comptype"

definition aw_getcompname :: "('f, string) aw_act" where
  "aw_getcompname = aw_get (\<lambda>w.
     if aw_comptype w = ''ULAW'' then ''CCITT G.711 u-law''
     else if aw_comptype w = ''ALAW'' then ''CCITT G.711 A-law''
     else ''not compressed'')"

definition aw_setparams :: "int \<times> int \<times> int \<times> int \<times> string \<times> string \<Rightarrow> ('f, unit) aw_act" where
  "aw_setparams = (\<lambda>(nchannels, sampwidth, framerate, nframes, comptype, compname).
     thenA (aw_setnchannels nchannels) (thenA (aw_setsampwidth sampwidth)
       (thenA (aw_setframerate framerate) (thenA (aw_setnframes nframes)
         (aw_setcomptype comptype compname)))))"

definition aw_getparams :: "('f, int \<times> int \<times> int \<times> int \<times> string \<times> string) aw_act" where
  "aw_getparams =
     bindA aw_getnchannels (\<lambda>nch. bindA aw_getsampwidth (\<lambda>sw. bindA aw_getframerate (\<lambda>fr.
     bindA aw_getnframes (\<lambda>n. bindA aw_getcomptype (\<lambda>ct. bindA aw_getcompname (\<lambda>cn.
       retA (nch, sw, fr, n, ct, cn)))))))"

definition aw_tell :: "('f, int) aw_act" where
  "aw_tell = aw_get aw_nframeswritten"

text \<open>\<open>_write_header\<close>: the encoding with the size of a sample, and the fields.\<close>

definition aw_encoding :: "au_writer \<Rightarrow> (int \<times> int) res" where
  "aw_encoding w =
     (if aw_comptype w = ''NONE'' then
        if aw_sampwidth w = 1 then Inr (AUDIO_FILE_ENCODING_LINEAR_8, 1)
        else if aw_sampwidth w = 2 then Inr (AUDIO_FILE_ENCODING_LINEAR_16, 2)
        else if aw_sampwidth w = 4 then Inr (AUDIO_FILE_ENCODING_LINEAR_32, 4)
        else Inl (sunau_error ''internal error'')
      else if aw_comptype w = ''ULAW'' then Inr (AUDIO_FILE_ENCODING_MULAW_8, 1)
      else Inl (sunau_error ''internal error''))"

definition aw_header_size :: "au_writer \<Rightarrow> int" where
  "aw_header_size w = (25 + int (length (aw_info w)) + 7) AND NOT 7"

definition aw_length :: "au_writer \<Rightarrow> int \<Rightarrow> int" where
  \<comment> \<open>the data length the header announces\<close>
  "aw_length w framesize =
     (if aw_nframes w = AUDIO_UNKNOWN_SIZE then AUDIO_UNKNOWN_SIZE else aw_nframes w * framesize)"

definition aw_write_header :: "'f file_ops \<Rightarrow> ('f, unit) aw_act" where
  "aw_write_header ops =
     bindA (aw_get (\<lambda>w. w)) (\<lambda>w.
     bindA (liftA (aw_encoding w)) (\<lambda>(encoding, size).
       let framesize = size * aw_nchannels w; length' = aw_length w framesize
       in thenA (aw_set (aw_framesize_update (\<lambda>_. framesize)))
         (thenA (write_u32 (aw_put ops) AUDIO_FILE_MAGIC)
         (thenA (write_u32 (aw_put ops) (aw_header_size w))
         (thenA (write_u32 (aw_put ops) length')
         (thenA (aw_set (aw_datalength_update (\<lambda>_. length')))
         (thenA (write_u32 (aw_put ops) encoding)
         (thenA (write_u32 (aw_put ops) (aw_framerate w))
         (thenA (write_u32 (aw_put ops) (aw_nchannels w))
         (thenA (aw_put ops (aw_info w))
         (aw_put ops (replicate (nat (aw_header_size w - int (length (aw_info w)) - 24)) NUL))))))))))))"

definition aw_ensure_header :: "'f file_ops \<Rightarrow> ('f, unit) aw_act" where
  "aw_ensure_header ops =
     bindA (aw_get (\<lambda>w. w)) (\<lambda>w.
       if aw_nframeswritten w = 0 then
         thenA (aw_check (\<lambda>w. aw_nchannels w = 0) ''# of channels not specified'')
         (thenA (aw_check (\<lambda>w. aw_sampwidth w = 0) ''sample width not specified'')
         (thenA (aw_check (\<lambda>w. aw_framerate w = 0) ''frame rate not specified'')
         (aw_write_header ops)))
       else retA ())"

definition aw_patchheader :: "'f file_ops \<Rightarrow> ('f, unit) aw_act" where
  "aw_patchheader ops =
     thenA (aw_file (fo_seek ops 8 0))
     (thenA (bindA (aw_get aw_datawritten) (write_u32 (aw_put ops)))
     (thenA (aw_set (\<lambda>w. w\<lparr>aw_datalength := aw_datawritten w\<rparr>))
     (aw_file (fo_seek ops 0 2))))"

definition aw_patch_needed :: "'f file_ops \<Rightarrow> ('f, unit) aw_act" where
  "aw_patch_needed ops =
     bindA (aw_get (\<lambda>w. aw_nframeswritten w \<noteq> aw_nframes w \<or> aw_datalength w \<noteq> aw_datawritten w))
       (\<lambda>b. if b then aw_patchheader ops else retA ())"

definition aw_writeframesraw ::
  "(string \<Rightarrow> int \<Rightarrow> string res) \<Rightarrow> 'f file_ops \<Rightarrow> string \<Rightarrow> ('f, unit) aw_act" where
  "aw_writeframesraw lin2ulaw ops data =
     thenA (aw_ensure_header ops)
     (bindA (aw_get (\<lambda>w. w)) (\<lambda>w.
      bindA (liftA (py_div (int (length data)) (aw_framesize w))) (\<lambda>nframes.
      bindA (liftA (if aw_comptype w = ''ULAW'' then lin2ulaw data (aw_sampwidth w) else Inr data)) (\<lambda>data.
      thenA (aw_put ops data)
        (aw_set (\<lambda>w. w\<lparr>aw_nframeswritten := aw_nframeswritten w + nframes,
           aw_datawritten := aw_datawritten w + int (length data)\<rparr>))))))"

definition aw_writeframes ::
  "(string \<Rightarrow> int \<Rightarrow> string res) \<Rightarrow> 'f file_ops \<Rightarrow> string \<Rightarrow> ('f, unit) aw_act" where
  "aw_writeframes lin2ulaw ops data =
     thenA (aw_writeframesraw lin2ulaw ops data) (aw_patch_needed ops)"

definition aw_close :: "'f file_ops \<Rightarrow> ('f, unit) aw_act" where
  \<comment> \<open>\<open>flush\<close> has no effect on the bytes\<close>
  "aw_close ops =
     thenA (aw_ensure_header ops) (thenA (aw_patch_needed ops)
       (thenA (aw_file (retA ())) (aw_set (aw_open_update (\<lambda>_. False)))))"

subsection \<open>The bytes of a number\<close>

lemma be_digits_append: "be_digits k x data = be_digits k x [] @ data"
proof (induction k arbitrary: x data)
  case (Suc k)
  from Suc [of "x div 256" "x mod 256 # data"] Suc [of "x div 256" "[x mod 256]"] show ?case by simp
qed simp

lemma be_digits_Suc: "be_digits (Suc k) x [] = be_digits k (x div 256) [] @ [x mod 256]"
  using be_digits_append [of k "x div 256" "[x mod 256]"] by simp

lemma be_digits_range: "list_all (\<lambda>m. 0 \<le> m \<and> m < 256) (be_digits k x [])"
  by (induction k arbitrary: x) (simp_all add: be_digits_Suc del: be_digits.simps(2))

lemma length_be_digits: "length (be_digits k x []) = k"
  by (induction k arbitrary: x) (simp_all add: be_digits_Suc del: be_digits.simps(2))

lemma be_digits_value: "foldl (\<lambda>a m. a * 256 + m) a (be_digits k x []) = a * 256 ^ k + x mod 256 ^ k"
proof (induction k arbitrary: x)
  case (Suc k)
  have "x mod 256 ^ Suc k = 256 * (x div 256 mod 256 ^ k) + x mod 256"
    using zmod_zmult2_eq [of "256 ^ k" x 256] by simp
  then show ?case
    by (simp only: be_digits_Suc foldl_append Suc foldl_Cons foldl_Nil power_Suc distrib_right mult.assoc)
qed simp

definition be_bytes :: "nat \<Rightarrow> int \<Rightarrow> string" where
  "be_bytes k x = map (\<lambda>m. chr (nat m)) (be_digits k x [])"

lemma length_be_bytes [simp]: "length (be_bytes k x) = k"
  by (simp add: be_bytes_def length_be_digits)

lemma be_bytes_value: "foldl (\<lambda>a b. a * 256 + int (ord b)) a (be_bytes k x) = a * 256 ^ k + x mod 256 ^ k"
proof -
  have "list_all (\<lambda>m. 0 \<le> m \<and> m < 256) ds \<Longrightarrow>
      foldl (\<lambda>a b. a * 256 + int (ord b)) a (map (\<lambda>m. chr (nat m)) ds) = foldl (\<lambda>a m. a * 256 + m) a ds" for ds
    by (induction ds arbitrary: a) (simp_all add: nat_less_iff)
  from this [OF be_digits_range] show ?thesis unfolding be_bytes_def be_digits_value by blast
qed

subsection \<open>Reading a header\<close>

definition au_header :: "int \<Rightarrow> int \<Rightarrow> int \<Rightarrow> int \<Rightarrow> string" where
  \<comment> \<open>the header the writer writes: 24 bytes of fields and 8 of padding\<close>
  "au_header len encoding fr nch =
     be_bytes 4 AUDIO_FILE_MAGIC @ be_bytes 4 32 @ be_bytes 4 len @ be_bytes 4 encoding @
     be_bytes 4 fr @ be_bytes 4 nch @ replicate 8 NUL"

context readable_file
begin

lemma read_be_at:
  "at C (s @ t) f \<Longrightarrow>
    \<exists>g. read_be (length s) (fo_read ops) x f = (Inr (foldl (\<lambda>a b. a * 256 + int (ord b)) x s), g) \<and> at C t g"
proof (induction s arbitrary: f x)
  case (Cons b s)
  from at_byte [of C b "s @ t" f] Cons.prems obtain h where h: "fo_read ops 1 f = (Inr [b], h)" "at C (s @ t) h"
    by auto
  with Cons.IH [OF h(2)] show ?case by simp
qed simp

lemma read_u32_at:
  assumes "at C (be_bytes 4 x @ t) f" "0 \<le> x" "x < 2 ^ 32"
  obtains g where "read_u32 (fo_read ops) f = (Inr x, g)" "at C t g"
  using read_be_at [OF assms(1), of 0] assms(2,3) by (auto simp: read_u32_def be_bytes_value)

lemma au_field_at:
  assumes "at C (be_bytes 4 x @ t) f" "0 \<le> x" "x < 2 ^ 32" "x \<le> maxint"
  obtains g where "au_field maxint ops f = (Inr x, g)" "at C t g"
proof -
  from read_u32_at [OF assms(1-3)] obtain g where g: "read_u32 (fo_read ops) f = (Inr x, g)" "at C t g" .
  moreover have "int_of_long maxint x = Inr x" using assms(2,4) by (simp add: int_of_long_def)
  ultimately show ?thesis by (intro that [of g]) (simp_all add: au_field_def)
qed

lemma au_open_at:
  assumes len: "0 \<le> len" "len < 2 ^ 32" "len \<le> maxint \<or> len = AUDIO_UNKNOWN_SIZE"
    and enc: "au_widths encoding = Inr (sw, fs)" and fr: "0 \<le> fr" "fr < 2 ^ 32" "fr \<le> maxint"
    and nch: "0 \<le> nch" "nch < 2 ^ 32" "nch \<le> maxint" and mx: "AUDIO_FILE_MAGIC \<le> maxint"
    and f: "at C (au_header len encoding fr nch @ t) f"
  obtains g where "au_open_read maxint ops f =
      (Inr \<lparr>ar_soundpos = 0, ar_hdr_size = 32, ar_data_size = len, ar_encoding = encoding, ar_sampwidth = sw,
        ar_framesize = fs * nch, ar_framerate = fr, ar_nchannels = nch, ar_info = [], ar_open = True\<rparr>, g)"
    "at C t g"
proof -
  have e: "0 \<le> encoding" "encoding < 2 ^ 32" "encoding \<le> maxint"
    using enc mx by (auto simp: au_widths_def simple_encodings_def au_constants split: if_splits)
  have m: "0 \<le> AUDIO_FILE_MAGIC" "AUDIO_FILE_MAGIC < 2 ^ 32" "(32 :: int) \<le> maxint" "(32 :: int) < 2 ^ 32"
    using mx by (simp_all add: AUDIO_FILE_MAGIC_def)
  from f au_field_at [of C AUDIO_FILE_MAGIC _ f maxint] m mx obtain f1 where
    1: "au_field maxint ops f = (Inr AUDIO_FILE_MAGIC, f1)"
      "at C (be_bytes 4 32 @ be_bytes 4 len @ be_bytes 4 encoding @ be_bytes 4 fr @ be_bytes 4 nch @ replicate 8 NUL @ t) f1"
    by (auto simp: au_header_def)
  from au_field_at [OF 1(2) _ m(4,3)] obtain f2 where
    2: "au_field maxint ops f1 = (Inr 32, f2)"
      "at C (be_bytes 4 len @ be_bytes 4 encoding @ be_bytes 4 fr @ be_bytes 4 nch @ replicate 8 NUL @ t) f2"
    by auto
  from read_u32_at [OF 2(2) len(1,2)] obtain f3 where
    3: "read_u32 (fo_read ops) f2 = (Inr len, f3)"
      "at C (be_bytes 4 encoding @ be_bytes 4 fr @ be_bytes 4 nch @ replicate 8 NUL @ t) f3" .
  have size: "(if len \<noteq> AUDIO_UNKNOWN_SIZE then int_of_long maxint len else Inr len) = Inr len"
    using len by (auto simp: int_of_long_def)
  from au_field_at [OF 3(2) e] obtain f4 where
    4: "au_field maxint ops f3 = (Inr encoding, f4)" "at C (be_bytes 4 fr @ be_bytes 4 nch @ replicate 8 NUL @ t) f4" .
  from au_field_at [OF 4(2) fr] obtain f5 where
    5: "au_field maxint ops f4 = (Inr fr, f5)" "at C (be_bytes 4 nch @ replicate 8 NUL @ t) f5" .
  from au_field_at [OF 5(2) nch] obtain f6 where
    6: "au_field maxint ops f5 = (Inr nch, f6)" "at C (replicate 8 NUL @ t) f6" .
  from at_read [OF 6(2)] obtain f7 where
    7: "fo_read ops 8 f6 = (Inr (replicate 8 NUL), f7)" "at C t f7" by auto
  have "cut_nul (replicate 8 NUL) = []" by (simp add: cut_nul_def)
  with 1(1) 2(1) 3(1) 4(1) 5(1) 6(1) 7(1) size enc show ?thesis
    by (intro that [OF _ 7(2)]) (simp add: au_open_read_def)
qed

lemma readframes_simple:
  assumes w: "ar_encoding w \<in> set simple_encodings" "ar_encoding w \<noteq> AUDIO_FILE_ENCODING_MULAW_8" "ar_open w"
    and f: "at C t f" and k: "k \<noteq> AUDIO_UNKNOWN_SIZE" "0 \<le> k * ar_framesize w * ar_nchannels w"
  obtains g where "ar_readframes ul ops k (w, f) =
      (Inr (Some (take (nat (k * ar_framesize w * ar_nchannels w)) t)), (w, g))"
proof -
  define n where "n = nat (k * ar_framesize w * ar_nchannels w)"
  have i: "k * ar_framesize w * ar_nchannels w = int n" using k(2) by (simp add: n_def)
  from f have "ok f" "ahead f = t" by (auto simp: at_def ahead_def)
  with read_ahead [of f n] obtain g where "fo_read ops (int n) f = (Inr (take n t), g)" by metis
  then have "ar_readframes ul ops k (w, f) = (Inr (Some (take n t)), (w, g))"
    using w k(1) by (simp add: ar_readframes_def ar_get_def ar_file_def i)
  then show ?thesis using that by (simp add: n_def)
qed

end

subsection \<open>Writing to a built-in file\<close>

lemma aw_put_end: "aw_open w \<Longrightarrow> aw_put pf_ops s (w, file_end d) = (Inr (), (w, file_end (d @ s)))"
  by (simp add: aw_put_def aw_file_def write_file_end)

lemma aw_put_chr_end:
  "aw_open w \<Longrightarrow> 0 \<le> m \<Longrightarrow> m < 256 \<Longrightarrow>
    put_chr (aw_put pf_ops) m (w, file_end d) = (Inr (), (w, file_end (d @ [chr (nat m)])))"
  by (simp add: put_chr_def aw_put_end)

lemma write_u32_end:
  assumes "aw_open w"
  shows "write_u32 (aw_put pf_ops) x (w, file_end d) = (Inr (), (w, file_end (d @ be_bytes 4 x)))"
proof -
  have "list_all (\<lambda>m. 0 \<le> m \<and> m < 256) ds \<Longrightarrow> forA (put_chr (aw_put pf_ops)) ds (w, file_end d) =
      (Inr (), (w, file_end (d @ map (\<lambda>m. chr (nat m)) ds)))" for ds
    by (induction ds arbitrary: d) (simp_all add: aw_put_chr_end assms)
  from this [OF be_digits_range] show ?thesis by (simp add: write_u32_def be_bytes_def)
qed

text \<open>Over bytes that are there already.\<close>

lemma aw_put_over:
  "aw_open w \<Longrightarrow> aw_put pf_ops [x] (w, \<lparr>f_data = a @ y # c, f_pos = length a\<rparr>) =
    (Inr (), (w, \<lparr>f_data = a @ x # c, f_pos = length a + 1\<rparr>))"
  by (simp add: aw_put_def aw_file_def pf_ops_def pf_write_def write_at_def)

lemma write_u32_over:
  assumes "aw_open w" "length b = 4"
  shows "write_u32 (aw_put pf_ops) x (w, \<lparr>f_data = a @ b @ c, f_pos = length a\<rparr>) =
    (Inr (), (w, \<lparr>f_data = a @ be_bytes 4 x @ c, f_pos = length a + 4\<rparr>))"
proof -
  have "list_all (\<lambda>m. 0 \<le> m \<and> m < 256) ds \<Longrightarrow> length b = length ds \<Longrightarrow>
      forA (put_chr (aw_put pf_ops)) ds (w, \<lparr>f_data = a @ b @ c, f_pos = length a\<rparr>) =
      (Inr (), (w, \<lparr>f_data = a @ map (\<lambda>m. chr (nat m)) ds @ c, f_pos = length a + length ds\<rparr>))" for ds
  proof (induction ds arbitrary: a b)
    case (Cons m ds)
    then obtain y b' where b: "b = y # b'" "length b' = length ds" by (cases b) auto
    have "put_chr (aw_put pf_ops) m (w, \<lparr>f_data = a @ b @ c, f_pos = length a\<rparr>) =
        (Inr (), (w, \<lparr>f_data = (a @ [chr (nat m)]) @ b' @ c, f_pos = length (a @ [chr (nat m)])\<rparr>))"
      using Cons.prems(1) b assms(1) aw_put_over [of w "chr (nat m)" a y "b' @ c"] by (simp add: put_chr_def)
    with Cons.IH [of b' "a @ [chr (nat m)]"] Cons.prems(1) b(2) show ?case by simp
  qed simp
  from this [OF be_digits_range] assms(2) show ?thesis
    by (simp add: write_u32_def be_bytes_def length_be_digits)
qed

lemma aw_patch_end:
  assumes "aw_open w"
  shows "aw_patchheader pf_ops (w, file_end (au_header len encoding fr nch @ t)) =
    (Inr (), (w\<lparr>aw_datalength := aw_datawritten w\<rparr>, file_end (au_header (aw_datawritten w) encoding fr nch @ t)))"
proof -
  define a where "a = be_bytes 4 AUDIO_FILE_MAGIC @ be_bytes 4 32"
  define c where "c = be_bytes 4 encoding @ be_bytes 4 fr @ be_bytes 4 nch @ replicate 8 NUL @ t"
  have h: "au_header n encoding fr nch @ t = a @ be_bytes 4 n @ c" for n
    by (simp add: au_header_def a_def c_def)
  have a: "length a = 8" by (simp add: a_def)
  define w' where "w' = w\<lparr>aw_datalength := aw_datawritten w\<rparr>"
  have 1: "aw_file (fo_seek pf_ops 8 0) (w, file_end (a @ be_bytes 4 len @ c)) =
      (Inr (), (w, \<lparr>f_data = a @ be_bytes 4 len @ c, f_pos = length a\<rparr>))"
    using assms by (simp add: aw_file_def pf_ops_def pf_seek_def file_end_def a)
  have 2: "bindA (aw_get aw_datawritten) (write_u32 (aw_put pf_ops))
      (w, \<lparr>f_data = a @ be_bytes 4 len @ c, f_pos = length a\<rparr>) =
      (Inr (), (w, \<lparr>f_data = a @ be_bytes 4 (aw_datawritten w) @ c, f_pos = length a + 4\<rparr>))"
    using write_u32_over [OF assms, of "be_bytes 4 len" "aw_datawritten w" a c] by (simp add: aw_get_def)
  have 3: "aw_set (\<lambda>w. w\<lparr>aw_datalength := aw_datawritten w\<rparr>) (w, g) = (Inr (), (w', g))" for g
    by (simp add: aw_set_def w'_def)
  have 4: "aw_file (fo_seek pf_ops 0 2) (w', \<lparr>f_data = d, f_pos = p\<rparr>) = (Inr (), (w', file_end d))" for d p
    using assms by (simp add: aw_file_def pf_ops_def pf_seek_def file_end_def w'_def)
  show ?thesis
    unfolding aw_patchheader_def h w'_def [symmetric]
    by (rule thenA_step, rule 1, rule thenA_step, rule 2, rule thenA_step, rule 3, rule 4)
qed

definition au_linear :: "int \<Rightarrow> int" where
  \<comment> \<open>the encoding for a sample width\<close>
  "au_linear sw = (if sw = 1 then AUDIO_FILE_ENCODING_LINEAR_8 else if sw = 2 then AUDIO_FILE_ENCODING_LINEAR_16
     else AUDIO_FILE_ENCODING_LINEAR_32)"

lemma aw_header_end:
  assumes w: "aw_open w" "aw_nframeswritten w = 0" "aw_nchannels w = nch" "nch \<noteq> 0" "aw_sampwidth w = sw"
      "sw \<in> {1, 2, 4}" "aw_framerate w = fr" "fr \<noteq> 0" "aw_comptype w = ''NONE''" "aw_info w = []"
  defines "len \<equiv> aw_length w (sw * nch)"
  shows "aw_ensure_header pf_ops (w, file_end d) =
    (Inr (), (w\<lparr>aw_framesize := sw * nch, aw_datalength := len\<rparr>, file_end (d @ au_header len (au_linear sw) fr nch)))"
proof -
  have e: "aw_encoding w = Inr (au_linear sw, sw)" using w by (auto simp: aw_encoding_def au_linear_def)
  have h: "aw_header_size w = 32" using w by (simp add: aw_header_size_def)
  define w1 where "w1 = w\<lparr>aw_framesize := sw * nch\<rparr>"
  define w2 where "w2 = w1\<lparr>aw_datalength := len\<rparr>"
  have o: "aw_open w1" "aw_open w2" using w by (simp_all add: w1_def w2_def)
  have s: "aw_set (aw_framesize_update (\<lambda>_. sw * nch)) (w, g) = (Inr (), (w1, g))"
    "aw_set (aw_datalength_update (\<lambda>_. len)) (w1, g) = (Inr (), (w2, g))" for g
    by (simp_all add: aw_set_def w1_def w2_def)
  have "aw_write_header pf_ops (w, file_end d) =
      (Inr (), (w2, file_end (d @ au_header len (au_linear sw) fr nch)))"
    using e h w(3,7,10) by (simp add: aw_write_header_def aw_get_def Let_def s write_u32_end [OF o(1)]
      write_u32_end [OF o(2)] aw_put_end [OF o(2)] au_header_def flip: len_def)
  moreover have "sw \<noteq> 0" using w(6) by auto
  ultimately show ?thesis
    using w by (simp add: aw_ensure_header_def aw_get_def aw_check_def w1_def w2_def)
qed

lemma aw_patch_needed_end:
  assumes "aw_open w" "aw_datawritten w = dw"
    and "aw_nframeswritten w \<noteq> aw_nframes w \<or> len = dw" "aw_datalength w = len"
  shows "aw_patch_needed pf_ops (w, file_end (au_header len encoding fr nch @ t)) =
    (Inr (), (w\<lparr>aw_datalength := dw\<rparr>, file_end (au_header dw encoding fr nch @ t)))"
proof (cases "aw_nframeswritten w \<noteq> aw_nframes w \<or> aw_datalength w \<noteq> aw_datawritten w")
  case True
  with aw_patch_end [OF assms(1), of len encoding fr nch t] assms(2) show ?thesis
    by (simp add: aw_patch_needed_def aw_get_def)
next
  case False
  with assms have "len = dw" "w\<lparr>aw_datalength := dw\<rparr> = w" by auto
  with False show ?thesis by (simp add: aw_patch_needed_def aw_get_def bindA_def)
qed

definition au_save :: "(string \<Rightarrow> int \<Rightarrow> string res) \<Rightarrow> int \<times> int \<times> int \<times> int \<times> string \<times> string \<Rightarrow> string \<Rightarrow> unit res \<times> pyfile" where
  \<comment> \<open>\<open>setparams\<close>, \<open>writeframes\<close> and \<open>close\<close> on a new file\<close>
  "au_save ul params data =
     (case thenA (aw_setparams params)
             (thenA (aw_writeframes ul pf_ops data) (aw_close pf_ops))
             (aw_init, file_end []) of (r, (w, f)) \<Rightarrow> (r, f))"

definition au_load :: "(string \<Rightarrow> int \<Rightarrow> string res) \<Rightarrow> int \<Rightarrow> int \<Rightarrow> pyfile \<Rightarrow> ((int \<times> int \<times> int \<times> int \<times> string \<times> string) \<times> string option) res" where
  \<comment> \<open>opening, \<open>getparams\<close> and \<open>readframes(k)\<close>\<close>
  "au_load ul maxint k f =
     (case au_open_read maxint pf_ops (f\<lparr>f_pos := 0\<rparr>) of
        (Inl e, f) \<Rightarrow> Inl e
      | (Inr w, f) \<Rightarrow> fst (bindA ar_getparams (\<lambda>ps.
          bindA (ar_readframes ul pf_ops k) (\<lambda>d. retA (ps, d))) (w, f)))"

definition au_fits :: "int \<Rightarrow> int \<Rightarrow> int \<Rightarrow> int \<Rightarrow> bool" where
  "au_fits maxint nch sw fr \<longleftrightarrow> nch \<in> {1, 2, 4} \<and> sw \<in> {1, 2, 4} \<and> 0 < fr \<and> fr < 2 ^ 32 \<and> fr \<le> maxint \<and>
     AUDIO_FILE_MAGIC \<le> maxint"

lemma au_save_ok:
  assumes fits: "nch \<in> {1, 2, 4}" "sw \<in> {1, 2, 4}" "0 < fr" and len: "int (length data) = n * (nch * sw)"
    and n: "0 < n" and m: "0 \<le> m" "m \<noteq> AUDIO_UNKNOWN_SIZE"
  shows "au_save ul (nch, sw, fr, m, ''NONE'', nm) data =
    (Inr (), file_end (au_header (int (length data)) (au_linear sw) fr nch @ data))"
proof -
  define dl where "dl = int (length data)"
  define w0 where "w0 = aw_init\<lparr>aw_nchannels := nch, aw_sampwidth := sw, aw_framerate := fr, aw_nframes := m,
    aw_comptype := ''NONE''\<rparr>"
  define w1 where "w1 = w0\<lparr>aw_framesize := sw * nch, aw_datalength := aw_length w0 (sw * nch)\<rparr>"
  define w2 where "w2 = w1\<lparr>aw_nframeswritten := n, aw_datawritten := dl\<rparr>"
  define w3 where "w3 = w2\<lparr>aw_datalength := dl\<rparr>"
  have pos: "0 < sw * nch" "sw \<noteq> 0" "nch \<noteq> 0" using fits by auto
  have "dl = n * (sw * nch)" using len unfolding dl_def by (simp add: ac_simps)
  with pos(1) have q: "dl div (sw * nch) = n" by (metis less_irrefl nonzero_mult_div_cancel_right)
  have l1: "aw_length w0 (sw * nch) = m * (sw * nch)" using m by (simp add: aw_length_def w0_def)
  have 0: "aw_setparams (nch, sw, fr, m, ''NONE'', nm) (aw_init, f) = (Inr (), (w0, f))" for f
    using fits m by (auto simp: aw_setparams_def aw_setnchannels_def aw_setsampwidth_def aw_setframerate_def
      aw_setnframes_def aw_setcomptype_def aw_frozen_def aw_check_def aw_set_def w0_def aw_init_def)
  have w0: "aw_open w0" "aw_nframeswritten w0 = 0" "aw_nchannels w0 = nch" "nch \<noteq> 0" "aw_sampwidth w0 = sw"
    "sw \<in> {1, 2, 4}" "aw_framerate w0 = fr" "fr \<noteq> 0" "aw_comptype w0 = ''NONE''" "aw_info w0 = []"
    using fits by (auto simp: w0_def aw_init_def)
  have o1: "aw_open w1" "aw_framesize w1 = sw * nch" "aw_comptype w1 = ''NONE''" "aw_nframeswritten w1 = 0"
    "aw_datawritten w1 = 0"
    using w0 by (simp_all add: w1_def w0_def aw_init_def)
  have 1: "aw_ensure_header pf_ops (w0, file_end []) =
      (Inr (), (w1, file_end (au_header (m * (sw * nch)) (au_linear sw) fr nch)))"
    using aw_header_end [OF w0, of "[]"] unfolding l1 by (simp add: w1_def l1)
  have 2: "aw_writeframesraw ul pf_ops data (w0, file_end []) =
      (Inr (), (w2, file_end (au_header (m * (sw * nch)) (au_linear sw) fr nch @ data)))" for ul
    using 1 pos q by (simp add: aw_writeframesraw_def aw_get_def py_div_def o1 aw_put_end aw_set_def w2_def flip: dl_def)
  have o2: "aw_open w2" "aw_nframeswritten w2 = n" "aw_nframes w2 = m" "aw_datawritten w2 = dl"
      "aw_datalength w2 = m * (sw * nch)"
    by (simp_all add: w2_def o1(1)) (simp_all add: w1_def w0_def l1 [unfolded w0_def])
  have nm: "n \<noteq> m \<or> m * (sw * nch) = dl" using len unfolding dl_def by (auto simp: ac_simps)
  have 3: "aw_patch_needed pf_ops (w2, file_end (au_header (m * (sw * nch)) (au_linear sw) fr nch @ data)) =
      (Inr (), (w3, file_end (au_header dl (au_linear sw) fr nch @ data)))"
    unfolding w3_def by (rule aw_patch_needed_end [OF o2(1,4) _ o2(5)]) (use nm o2(2,3) in simp)
  have 4: "aw_writeframes ul pf_ops data (w0, file_end []) =
      (Inr (), (w3, file_end (au_header dl (au_linear sw) fr nch @ data)))" for ul
    unfolding aw_writeframes_def by (rule thenA_step, rule 2, rule 3)
  have o3: "aw_open w3" "aw_nframeswritten w3 = n" "aw_datawritten w3 = dl" "aw_datalength w3 = dl"
      "w3\<lparr>aw_datalength := dl\<rparr> = w3"
    by (simp_all add: w3_def o2)
  have 5: "aw_ensure_header pf_ops (w3, f) = (Inr (), (w3, f))" for f
    using n by (simp add: aw_ensure_header_def aw_get_def o3)
  have 6: "aw_patch_needed pf_ops (w3, file_end (au_header dl (au_linear sw) fr nch @ data)) =
      (Inr (), (w3, file_end (au_header dl (au_linear sw) fr nch @ data)))"
    using aw_patch_needed_end [OF o3(1,3) _ o3(4), of "au_linear sw" fr nch data] unfolding o3(5) by simp
  have 7: "aw_close pf_ops (w3, file_end (au_header dl (au_linear sw) fr nch @ data)) =
      (Inr (), (w3\<lparr>aw_open := False\<rparr>, file_end (au_header dl (au_linear sw) fr nch @ data)))"
    unfolding aw_close_def
    by (rule thenA_step, rule 5, rule thenA_step, rule 6) (simp add: aw_file_def aw_set_def o3)
  have "thenA (aw_setparams (nch, sw, fr, m, ''NONE'', nm))
      (thenA (aw_writeframes ul pf_ops data) (aw_close pf_ops)) (aw_init, file_end []) =
      (Inr (), (w3\<lparr>aw_open := False\<rparr>, file_end (au_header dl (au_linear sw) fr nch @ data)))"
    by (rule thenA_step, rule 0, rule thenA_step, rule 4, rule 7)
  then show ?thesis by (simp add: au_save_def dl_def)
qed

text \<open>
  What the reader makes of a saved file.  \<open>readframes(k)\<close> multiplies by the number of channels,
  which \<open>_framesize\<close> includes already; samples of one byte are announced as two.
\<close>

lemma au_load_saved:
  assumes fits: "au_fits maxint nch sw fr" and len: "int (length data) = n * (nch * sw)"
    and small: "int (length data) < AUDIO_UNKNOWN_SIZE" "int (length data) \<le> maxint" and k: "0 \<le> k"
  shows "au_load ul maxint k (file_end (au_header (int (length data)) (au_linear sw) fr nch @ data)) =
    Inr ((nch, if sw = 1 then 2 else sw, fr, n, ''NONE'', ''not compressed''),
      Some (take (nat (k * (sw * nch) * nch)) data))"
proof -
  let ?C = "au_header (int (length data)) (au_linear sw) fr nch @ data"
  have f: "nch \<in> {1, 2, 4}" "sw \<in> {1, 2, 4}" "0 < fr" "fr < 2 ^ 32" "fr \<le> maxint" "AUDIO_FILE_MAGIC \<le> maxint"
    using fits by (simp_all add: au_fits_def)
  have enc: "au_widths (au_linear sw) = Inr (if sw = 1 then 2 else sw, sw)"
    "au_linear sw \<in> set simple_encodings" "au_linear sw \<noteq> AUDIO_FILE_ENCODING_MULAW_8"
    "au_linear sw \<noteq> AUDIO_FILE_ENCODING_ALAW_8"
    using f(2) by (auto simp: au_widths_def au_linear_def simple_encodings_def au_constants)
  have at: "pf.at ?C ?C ((file_end ?C)\<lparr>f_pos := 0\<rparr>)" by (simp add: pf.at_def file_end_def)
  have b: "int (length data) < 2 ^ 32" "(0::int) \<le> int (length data)" "0 \<le> nch" "nch < 2 ^ 32" "nch \<le> maxint"
    using small f(1,6) by (auto simp: au_constants)
  define w where "w = \<lparr>ar_soundpos = 0, ar_hdr_size = 32, ar_data_size = int (length data),
    ar_encoding = au_linear sw, ar_sampwidth = if sw = 1 then 2 else sw, ar_framesize = sw * nch, ar_framerate = fr,
    ar_nchannels = nch, ar_info = [], ar_open = True\<rparr>"
  obtain g where g: "au_open_read maxint pf_ops ((file_end ?C)\<lparr>f_pos := 0\<rparr>) = (Inr w, g)" "pf.at ?C data g"
    using pf.au_open_at [OF b(2,1) disjI1 enc(1) _ f(4,5) b(3-5) f(6) at] small(2) f(3) unfolding w_def by auto
  have wf: "ar_encoding w = au_linear sw" "ar_framesize w = sw * nch" "ar_nchannels w = nch" "ar_open w"
    "ar_data_size w = int (length data)" "ar_sampwidth w = (if sw = 1 then 2 else sw)" "ar_framerate w = fr"
    by (simp_all add: w_def)
  have nz: "sw * nch \<noteq> 0" "0 < sw * nch" using f(1,2) by auto
  have "int (length data) = n * (sw * nch)" using len by (simp add: ac_simps)
  then have q: "int (length data) div (sw * nch) = n" using nz(1) by (metis nonzero_mult_div_cancel_right)
  have ps: "ar_getparams (w, g) = (Inr (nch, if sw = 1 then 2 else sw, fr, n, ''NONE'', ''not compressed''), (w, g))"
    using small(1) enc(2-4) nz(1) q
    by (simp add: ar_getparams_def ar_getnchannels_def ar_getsampwidth_def ar_getframerate_def ar_getnframes_def
        ar_getcomptype_def ar_getcompname_def ar_get_def wf py_div_def bindA_def)
  obtain h where "ar_readframes ul pf_ops k (w, g) = (Inr (Some (take (nat (k * (sw * nch) * nch)) data)), (w, h))"
  proof (cases "k = AUDIO_UNKNOWN_SIZE")
    case False
    have "0 \<le> k * ar_framesize w * ar_nchannels w" using k nz b(3) by (simp add: wf)
    from pf.readframes_simple [OF _ _ wf(4) g(2) False this, of ul] enc(2,3) obtain h where
      "ar_readframes ul pf_ops k (w, g) = (Inr (Some (take (nat (k * (sw * nch) * nch)) data)), (w, h))"
      by (simp add: wf) blast
    then show ?thesis by (rule that)
  next
    case True
    have "AUDIO_UNKNOWN_SIZE \<le> AUDIO_UNKNOWN_SIZE * ((sw * nch) * nch)"
      using f(1,2) by (auto simp: au_constants)
    then have "int (length data) \<le> AUDIO_UNKNOWN_SIZE * ((sw * nch) * nch)" using small(1) by linarith
    then have "int (length data) \<le> k * (sw * nch) * nch" using True by (simp add: ac_simps)
    then have "length data \<le> nat (k * (sw * nch) * nch)" by linarith
    moreover have "drop (f_pos g) (f_data g) = data" using g(2) by (auto simp: pf.at_def)
    ultimately have "ar_readframes ul pf_ops k (w, g) =
        (Inr (Some (take (nat (k * (sw * nch) * nch)) data)), (w, g\<lparr>f_pos := f_pos g + length data\<rparr>))"
      using True enc(2,3) by (simp add: ar_readframes_def ar_get_def ar_file_def wf pf_ops_def pf_read_def)
    then show ?thesis by (rule that)
  qed
  with g(1) ps show ?thesis by (simp add: au_load_def)
qed

lemma au_roundtrip:
  assumes "au_fits maxint nch sw fr" "int (length data) = n * (nch * sw)" "0 < n"
    and "int (length data) < AUDIO_UNKNOWN_SIZE" "int (length data) \<le> maxint"
    and "0 \<le> m" "m \<noteq> AUDIO_UNKNOWN_SIZE" "0 \<le> k"
  shows "\<exists>f. au_save ul (nch, sw, fr, m, ''NONE'', nm) data = (Inr (), f) \<and>
    au_load lin maxint k f = Inr ((nch, if sw = 1 then 2 else sw, fr, n, ''NONE'', ''not compressed''),
      Some (take (nat (k * (sw * nch) * nch)) data))"
proof -
  have "nch \<in> {1, 2, 4}" "sw \<in> {1, 2, 4}" "0 < fr" using assms(1) by (simp_all add: au_fits_def)
  from au_save_ok [OF this assms(2,3,6,7)] au_load_saved [OF assms(1,2,4,5,8)] show ?thesis by auto
qed

text \<open>One frame asked of two channels: two frames come.\<close>

lemma au_two_channels:
  "\<exists>f. au_save ul (2, 2, 8000, 2, ''NONE'', []) ''aabbccdd'' = (Inr (), f) \<and>
    au_load ul (2 ^ 31 - 1) 1 f = Inr ((2, 2, 8000, 2, ''NONE'', ''not compressed''), Some ''aabbccdd'')"
  using au_roundtrip [of "2 ^ 31 - 1" 2 2 8000 "''aabbccdd''" 2 2 1 ul "[]" ul] by (simp add: au_fits_def au_constants)

text \<open>\<open>getsampwidth\<close> of the writer looks at the frame rate.\<close>

lemma aw_getsampwidth_unset:
  "thenA (aw_setframerate 8000) aw_getsampwidth (aw_init, f) = (Inr 0, (aw_init\<lparr>aw_framerate := 8000\<rparr>, f))"
  "fst (thenA (aw_setsampwidth 2) aw_getsampwidth (aw_init, f)) = Inl (sunau_error ''sample width not specified'')"
  by (simp_all add: aw_setframerate_def aw_setsampwidth_def aw_getsampwidth_def aw_frozen_def aw_check_def aw_set_def
      aw_get_def aw_init_def thenA_def bindA_def)

text \<open>The reader never moves \<open>_soundpos\<close> when it reads.\<close>

lemma ar_tell_after_read:
  assumes "ar_readframes ul ops k (w, f) = (Inr d, (v, g))"
  shows "ar_tell (v, g) = (Inr (ar_soundpos w), (v, g))"
  using assms by (auto simp: ar_readframes_def ar_tell_def ar_get_def ar_file_def on_file_def bindA_def thenA_def
      guardA_def Let_def split: if_splits sum.splits prod.splits)

text \<open>u-law data of two-byte samples: the writer counts twice the frames.\<close>

lemma aw_ulaw_count:
  assumes "ul data 2 = Inr u" "length data = 2 * n" "0 < n"
  shows "\<exists>w f. thenA (aw_setparams (1, 2, 8000, 0, ''ULAW'', [])) (aw_writeframesraw ul pf_ops data) (aw_init, file_end []) =
    (Inr (), (w, f)) \<and> aw_nframeswritten w = 2 * int n"
proof -
  define w0 where "w0 = aw_init\<lparr>aw_nchannels := 1, aw_sampwidth := 2, aw_framerate := 8000, aw_nframes := 0\<rparr>"
  have 0: "aw_setparams (1, 2, 8000, 0, ''ULAW'', []) (aw_init, file_end []) = (Inr (), (w0, file_end []))"
    by (simp add: aw_setparams_def aw_setnchannels_def aw_setsampwidth_def aw_setframerate_def aw_setnframes_def
        aw_setcomptype_def aw_frozen_def aw_check_def aw_set_def w0_def aw_init_def)
  have e: "aw_encoding w0 = Inr (AUDIO_FILE_ENCODING_MULAW_8, 1)" "aw_header_size w0 = 32" "aw_length w0 1 = 0"
    by (simp_all add: aw_encoding_def w0_def aw_init_def aw_header_size_def aw_length_def au_constants)
  define w2 where "w2 = w0\<lparr>aw_framesize := 1, aw_datalength := 0\<rparr>"
  have s: "aw_set (aw_framesize_update (\<lambda>_. 1)) (w0, g) = (Inr (), (w0\<lparr>aw_framesize := 1\<rparr>, g))"
    "aw_set (aw_datalength_update (\<lambda>_. 0)) (w0\<lparr>aw_framesize := 1\<rparr>, g) = (Inr (), (w2, g))" for g
    by (simp_all add: aw_set_def w2_def)
  have o: "aw_open (w0\<lparr>aw_framesize := 1\<rparr>)" "aw_open w2" "aw_nchannels w0 = 1" "aw_info w0 = []" "aw_sampwidth w0 \<noteq> 0"
    "aw_framerate w0 \<noteq> 0" "aw_nframeswritten w0 = 0" "aw_framesize w2 = 1" "aw_comptype w2 = ''ULAW''" "aw_sampwidth w2 = 2"
    "aw_nframeswritten w2 = 0"
    by (simp_all add: w0_def w2_def aw_init_def)
  obtain d where "aw_write_header pf_ops (w0, file_end []) = (Inr (), (w2, file_end d))"
    using e by (simp add: aw_write_header_def aw_get_def Let_def s write_u32_end [OF o(1)] write_u32_end [OF o(2)]
      aw_put_end [OF o(2)] o(3,4))
  then have "aw_ensure_header pf_ops (w0, file_end []) = (Inr (), (w2, file_end d))"
    using o by (simp add: aw_ensure_header_def aw_get_def aw_check_def)
  then have "aw_writeframesraw ul pf_ops data (w0, file_end []) =
      (Inr (), (w2\<lparr>aw_nframeswritten := 2 * int n, aw_datawritten := aw_datawritten w2 + int (length u)\<rparr>, file_end (d @ u)))"
    using assms o by (simp add: aw_writeframesraw_def aw_get_def py_div_def aw_put_end aw_set_def)
  with 0 show ?thesis by simp
qed

end
