(* ===== verification/Urlparse.thy ===== *)
theory Urlparse
  imports Str
begin

section \<open>\<open>Lib/urlparse.py\<close>: URLs (RFC 1808)\<close>

text \<open>
  The module's tables, its parser with the cache it keeps (a map from the argument triple to the
  result, threaded through as the module's state), and \<open>urlunparse\<close>, \<open>urljoin\<close> and
  \<open>urldefrag\<close>.  \<open>urljoin\<close> and \<open>urldefrag\<close> also thread the cache.
\<close>

subsection \<open>Definitions\<close>

definition uses_relative :: "string list" where
  "uses_relative = [''ftp'', ''http'', ''gopher'', ''nntp'', ''wais'', ''file'', ''prospero'', '''']"

definition uses_netloc :: "string list" where
  "uses_netloc =
     [''ftp'', ''http'', ''gopher'', ''nntp'', ''telnet'', ''wais'', ''prospero'', '''']"

definition uses_params :: "string list" where
  "uses_params = [''ftp'', ''hdl'', ''prospero'', ''http'', '''']"

definition uses_query :: "string list" where
  "uses_query = [''http'', ''wais'', '''']"

definition uses_fragment :: "string list" where
  "uses_fragment =
     [''ftp'', ''hdl'', ''http'', ''gopher'', ''news'', ''nntp'', ''wais'', ''file'', ''prospero'', '''']"

definition scheme_chars :: string where
  "scheme_chars = letters @ digits @ ''+-.''"

type_synonym parts = "string \<times> string \<times> string \<times> string \<times> string \<times> string"
type_synonym url_key = "string \<times> string \<times> bool"
type_synonym parse_cache = "url_key \<rightharpoonup> parts"

definition clear_cache :: parse_cache where
  "clear_cache = Map.empty"

text \<open>The computation of \<open>urlparse\<close> when the key is not in the cache.\<close>

definition split_scheme :: "string \<Rightarrow> string \<Rightarrow> string \<times> string" where
  "split_scheme url scheme =
     (let i = find_s url '':'' 0
      in if i > 0 \<and> list_all (\<lambda>c. c \<in> set scheme_chars) (pupto i url)
         then (lower (pupto i url), pfrom (i + 1) url) else (scheme, url))"

definition split_netloc :: "string \<Rightarrow> string \<Rightarrow> string \<times> string" where
  "split_netloc scheme url =
     (if scheme \<in> set uses_netloc \<and> take 2 url = ''//'' then
        let i = find_s url ''/'' 2; i = (if i < 0 then int (length url) else i)
        in (pslice 2 i url, pfrom i url)
      else ([], url))"

definition cut_at :: "int \<Rightarrow> string \<Rightarrow> string \<times> string" where
  \<comment> \<open>\<open>if i >= 0: url, part = url[:i], url[i+1:]\<close>, where \<open>part\<close> was empty\<close>
  "cut_at i url = (if i \<ge> 0 then (pupto i url, pfrom (i + 1) url) else (url, []))"

definition urlparse_new :: "string \<Rightarrow> string \<Rightarrow> bool \<Rightarrow> parts" where
  "urlparse_new url scheme allow_framents =
     (let (scheme, url) = split_scheme url scheme;
          (netloc, url) = split_netloc scheme url;
          (url, fragment) =
            (if allow_framents \<and> scheme \<in> set uses_fragment then cut_at (rfind url ''#'' 0) url
             else (url, []));
          (url, query) =
            (if scheme \<in> set uses_query then cut_at (find_s url ''?'' 0) url else (url, []));
          (url, params) =
            (if scheme \<in> set uses_params then cut_at (find_s url '';'' 0) url else (url, []))
      in (scheme, netloc, url, params, query, fragment))"

definition urlparse :: "string \<Rightarrow> string \<Rightarrow> bool \<Rightarrow> parse_cache \<Rightarrow> parts \<times> parse_cache" where
  "urlparse url scheme allow_framents cache =
     (let key = (url, scheme, allow_framents) in
      case cache key of
        Some tuple \<Rightarrow> (tuple, cache)
      | None \<Rightarrow>
          let tuple = urlparse_new url scheme allow_framents in (tuple, cache(key \<mapsto> tuple)))"

definition urlunparse :: "parts \<Rightarrow> string" where
  "urlunparse = (\<lambda>(scheme, netloc, url, params, query, fragment).
     let url = (if netloc \<noteq> [] then
                  let url = (if take 1 url \<noteq> ''/'' then ''/'' @ url else url)
                  in ''//'' @ netloc @ url
                else url);
         url = (if scheme \<noteq> [] then scheme @ '':'' @ url else url);
         url = (if params \<noteq> [] then url @ '';'' @ params else url);
         url = (if query \<noteq> [] then url @ ''?'' @ query else url);
         url = (if fragment \<noteq> [] then url @ ''#'' @ fragment else url)
     in url)"

text \<open>\<open>while '.' in segments: segments.remove('.')\<close>\<close>

function remove_dots :: "string list \<Rightarrow> string list" where
  "remove_dots segments =
     (if ''.'' \<in> set segments then remove_dots (remove1 ''.'' segments) else segments)"
  by pat_completeness auto
termination
  by (relation "measure length") (auto simp: length_remove1 dest: length_pos_if_in_set)

declare remove_dots.simps [simp del]

text \<open>
  The loop that removes one \<open>a/..\<close> at a time: the inner scan from 1 to \<open>n\<close>, and the
  outer loop that starts again after each removal.
\<close>

function find_parent :: "string list \<Rightarrow> nat \<Rightarrow> nat \<Rightarrow> nat option" where
  "find_parent segments i n =
     (if i < n then
        if segments ! i = ''..'' \<and> segments ! (i - 1) \<noteq> [] then Some i
        else find_parent segments (i + 1) n
      else None)"
  by pat_completeness auto
termination
  by (relation "measure (\<lambda>(segments, i, n). n - i)") auto

declare find_parent.simps [simp del]

lemma find_parent_bounds: "find_parent segs i n = Some k \<Longrightarrow> i \<le> k \<and> k < n"
proof (induction segs i n rule: find_parent.induct)
  case (1 segs i n)
  then show ?case
    by (cases "i < n"; cases "segs ! i = ''..'' \<and> segs ! (i - 1) \<noteq> []")
      (auto simp: find_parent.simps [of segs i n])
qed

function remove_parents :: "string list \<Rightarrow> string list" where
  "remove_parents segments =
     (case find_parent segments 1 (length segments - 1) of
        Some i \<Rightarrow> remove_parents (take (i - 1) segments @ drop (i + 1) segments)
      | None \<Rightarrow> segments)"
  by pat_completeness auto
termination
  by (relation "measure length") (auto dest!: find_parent_bounds)

declare remove_parents.simps [simp del]

definition resolve_segments :: "string list \<Rightarrow> string list" where
  "resolve_segments segments =
     (let segments = (if last segments = ''.'' then butlast segments @ [''''] else segments);
          segments = remove_dots segments;
          segments = remove_parents segments
      in if length segments \<ge> 2 \<and> last segments = ''..''
         then take (length segments - 2) segments @ [''''] else segments)"

definition strip_port :: "string \<Rightarrow> string" where
  "strip_port netloc =
     (let i = find_s netloc ''@'' 0; i = (if i < 0 then 0 else i); i = find_s netloc '':'' i
      in if i \<ge> 0 then pupto i netloc else netloc)"

definition or_else :: "string \<Rightarrow> string \<Rightarrow> string" where
  \<comment> \<open>\<open>a or b\<close> on strings\<close>
  "or_else a b = (if a \<noteq> [] then a else b)"

definition urljoin :: "string \<Rightarrow> string \<Rightarrow> bool \<Rightarrow> parse_cache \<Rightarrow> string \<times> parse_cache" where
  "urljoin base url allow_framents cache =
     (if base = [] then (url, cache)
      else
        let ((bscheme, bnetloc, bpath, bparams, bquery, bfragment), cache) =
              urlparse base [] allow_framents cache;
            ((scheme, netloc, path, params, query, fragment), cache) =
              urlparse url bscheme allow_framents cache;
            netloc =
              (if scheme \<noteq> bscheme \<and> netloc = [] \<and>
                  scheme \<in> set uses_relative \<and> bscheme \<in> set uses_relative \<and>
                  scheme \<in> set uses_netloc \<and> bscheme \<in> set uses_netloc
               then strip_port bnetloc else netloc)
        in if scheme \<noteq> bscheme \<or> scheme \<notin> set uses_relative
           then (urlunparse (scheme, netloc, path, params, query, fragment), cache)
           else if scheme \<in> set uses_netloc \<and> netloc \<noteq> []
           then (urlunparse (scheme, netloc, path, params, query, fragment), cache)
           else
             let netloc = (if scheme \<in> set uses_netloc then bnetloc else netloc)
             in if take 1 path = ''/''
                then (urlunparse (scheme, netloc, path, params, query, fragment), cache)
                else if path = []
                then (urlunparse (scheme, netloc, bpath, params, or_else query bquery, fragment), cache)
                else
                  let i = rfind bpath ''/'' 0;
                      path = (if i \<ge> 0 then pupto i bpath @ ''/'' @ path else path);
                      segments = resolve_segments (splitfields path ''/'' 0)
                  in (urlunparse (scheme, netloc, joinfields segments ''/'', params, query, fragment), cache))"

definition urldefrag :: "string \<Rightarrow> parse_cache \<Rightarrow> (string \<times> string) \<times> parse_cache" where
  "urldefrag url cache =
     (let ((s, n, p, a, q, frag), cache) = urlparse url [] True cache;
          defrag = urlunparse (s, n, p, a, q, [])
      in ((defrag, frag), cache))"

subsection \<open>The cache\<close>

text \<open>A cache is sound when every entry is what the parser computes for its key.\<close>

definition cache_ok :: "parse_cache \<Rightarrow> bool" where
  "cache_ok cache \<longleftrightarrow> (\<forall>u s a t. cache (u, s, a) = Some t \<longrightarrow> t = urlparse_new u s a)"

lemma cache_ok_clear: "cache_ok clear_cache"
  by (simp add: cache_ok_def clear_cache_def)

lemma urlparse_cached:
  "cache_ok cache \<Longrightarrow> fst (urlparse u s a cache) = urlparse_new u s a \<and> cache_ok (snd (urlparse u s a cache))"
  by (auto simp: urlparse_def cache_ok_def Let_def split: option.splits)

lemma urljoin_cached:
  assumes "cache_ok cache"
  shows "fst (urljoin b u a cache) = fst (urljoin b u a clear_cache) \<and> cache_ok (snd (urljoin b u a cache))"
proof -
  obtain t c where t: "urlparse b [] a cache = (t, c)" by fastforce
  obtain t' c' where t': "urlparse b [] a clear_cache = (t', c')" by fastforce
  from t t' urlparse_cached [OF assms, of b "[]" a] urlparse_cached [OF cache_ok_clear, of b "[]" a]
  have eq: "t' = t" and ok: "cache_ok c" "cache_ok c'" by auto
  obtain sc rest where s: "t = (sc, rest)" by (cases t)
  obtain v d where v: "urlparse u sc a c = (v, d)" by fastforce
  obtain v' d' where v': "urlparse u sc a c' = (v', d')" by fastforce
  from v v' urlparse_cached [OF ok(1), of u sc a] urlparse_cached [OF ok(2), of u sc a]
  have eq': "v' = v" and "cache_ok d" by auto
  with assms show ?thesis
    by (cases rest) (auto simp: urljoin_def t t' eq s v v' eq' Let_def split: prod.splits)
qed

subsection \<open>The module's own test\<close>

text \<open>The lines of \<open>test_input\<close>, and \<open>test\<close> without its printing of every URL: the base, the
  cache and the expected values reported as not met.\<close>

definition test_input :: "string list" where
  "test_input =
    [[],
     ''      http://a/b/c/d'',
     [],
     ''      g:h        = <URL:g:h>'',
     ''      http:g     = <URL:http://a/b/c/g>'',
     ''      http:      = <URL:http://a/b/c/d>'',
     ''      g          = <URL:http://a/b/c/g>'',
     ''      ./g        = <URL:http://a/b/c/g>'',
     ''      g/         = <URL:http://a/b/c/g/>'',
     ''      /g         = <URL:http://a/g>'',
     ''      //g        = <URL:http://g>'',
     ''      ?y         = <URL:http://a/b/c/d?y>'',
     ''      g?y        = <URL:http://a/b/c/g?y>'',
     ''      g?y/./x    = <URL:http://a/b/c/g?y/./x>'',
     ''      .          = <URL:http://a/b/c/>'',
     ''      ./         = <URL:http://a/b/c/>'',
     ''      ..         = <URL:http://a/b/>'',
     ''      ../        = <URL:http://a/b/>'',
     ''      ../g       = <URL:http://a/b/g>'',
     ''      ../..      = <URL:http://a/>'',
     ''      ../../g    = <URL:http://a/g>'',
     ''      ../../../g = <URL:http://a/../g>'',
     ''      ./../g     = <URL:http://a/b/g>'',
     ''      ./g/.      = <URL:http://a/b/c/g/>'',
     ''      /./g       = <URL:http://a/./g>'',
     ''      g/./h      = <URL:http://a/b/c/g/h>'',
     ''      g/../h     = <URL:http://a/b/c/h>'',
     ''      http:g     = <URL:http://a/b/c/g>'',
     ''      http:      = <URL:http://a/b/c/d>'']"

text \<open>The body of \<open>test\<close>'s loop: the base, the cache and the mismatches reported so far.\<close>

definition test_line ::
  "string \<Rightarrow> string \<times> parse_cache \<times> string list \<Rightarrow> string \<times> parse_cache \<times> string list" where
  "test_line line = (\<lambda>(base, cache, mismatches).
     let wds = split_s line None 0 in
     if wds = [] then (base, cache, mismatches)
     else
       let url = wds ! 0;
           (parts, cache) = urlparse url [] True cache;
           (abs, cache) = urljoin base url True cache;
           base = (if base = [] then abs else base);
           wrapped = ''<URL:'' @ abs @ ''>''
       in (base, cache,
           if length wds = 3 \<and> wds ! 1 = ''='' \<and> wrapped \<noteq> wds ! 2
           then mismatches @ [wds ! 2] else mismatches))"

definition urlparse_test :: "string list \<Rightarrow> string \<times> parse_cache \<times> string list" where
  "urlparse_test lines = fold test_line lines ([], clear_cache, [])"

subsection \<open>Printing and parsing\<close>

text \<open>
  The parts that \<open>urlunparse\<close> prints without loss: a lower-case scheme of scheme characters,
  every other part allowed by the scheme, and no part containing a delimiter that the parser
  looks for in or after it.
\<close>

definition wf_parts :: "parts \<Rightarrow> bool" where
  "wf_parts = (\<lambda>(scheme, netloc, path, params, query, fragment).
     scheme \<noteq> [] \<and> list_all (\<lambda>c. c \<in> set scheme_chars) scheme \<and> lower scheme = scheme \<and>
     (if netloc \<noteq> [] then scheme \<in> set uses_netloc \<and> CHR ''/'' \<notin> set netloc \<and> take 1 path = ''/''
      else take 2 path \<noteq> ''//'') \<and>
     (params \<noteq> [] \<longrightarrow> scheme \<in> set uses_params) \<and>
     (query \<noteq> [] \<longrightarrow> scheme \<in> set uses_query) \<and>
     (fragment \<noteq> [] \<longrightarrow> scheme \<in> set uses_fragment) \<and>
     {CHR '';'', CHR ''?'', CHR ''#''} \<inter> set (netloc @ path) = {} \<and>
     {CHR ''?'', CHR ''#''} \<inter> set params = {} \<and>
     CHR ''#'' \<notin> set query \<and> CHR ''#'' \<notin> set fragment)"

definition opt_part :: "char \<Rightarrow> string \<Rightarrow> string" where
  "opt_part c b = (if b = [] then [] else c # b)"

lemma opt_part_Nil [simp]: "opt_part c [] = []"
  by (simp add: opt_part_def)

lemma set_opt_part: "set (opt_part c b) = (if b = [] then {} else insert c (set b))"
  by (simp add: opt_part_def)

lemma takeWhile_neq_append:
  "c \<notin> set a \<Longrightarrow> takeWhile (\<lambda>d. d \<noteq> c) (a @ c # b) = a"
  by (induction a) auto

lemma find_first: "c \<notin> set a \<Longrightarrow> find_s (a @ c # b) [c] 0 = int (length a)"
  by (simp add: find_char takeWhile_neq_append)

lemma cut_first:
  assumes "c \<notin> set a"
  shows "cut_at (find_s (a @ opt_part c b) [c] 0) (a @ opt_part c b) = (a, b)"
proof (cases "b = []")
  case True
  with assms show ?thesis by (simp add: cut_at_def find_char)
next
  case False
  have "pfrom (int (length a) + 1) (a @ c # b) = b"
    using pfrom_nat [of "Suc (length a)" "a @ c # b"] by (simp add: add.commute)
  with False assms show ?thesis
    by (simp add: cut_at_def opt_part_def find_first)
qed

lemma cut_last:
  assumes "c \<notin> set a" "c \<notin> set b"
  shows "cut_at (rfind (a @ opt_part c b) [c] 0) (a @ opt_part c b) = (a, b)"
proof (cases "b = []")
  case True
  with assms show ?thesis by (simp add: cut_at_def rfind_char)
next
  case False
  have "takeWhile (\<lambda>d. d \<noteq> c) (rev b @ c # rev a) = rev b"
    using assms by (intro takeWhile_neq_append) simp
  then have "rfind (a @ c # b) [c] 0 = int (length a)"
    by (simp add: rfind_char)
  moreover have "pfrom (int (length a) + 1) (a @ c # b) = b"
    using pfrom_nat [of "Suc (length a)" "a @ c # b"] by (simp add: add.commute)
  ultimately show ?thesis
    using False by (simp add: cut_at_def opt_part_def)
qed

lemma colon_not_scheme: "list_all (\<lambda>c. c \<in> set scheme_chars) s \<Longrightarrow> CHR '':'' \<notin> set s"
proof
  assume "list_all (\<lambda>c. c \<in> set scheme_chars) s" "CHR '':'' \<in> set s"
  then have "CHR '':'' \<in> set scheme_chars" by (auto simp: list_all_iff)
  moreover have "CHR '':'' \<notin> set scheme_chars" by code_simp
  ultimately show False by simp
qed

lemma split_scheme_print:
  assumes "s \<noteq> []" "list_all (\<lambda>c. c \<in> set scheme_chars) s" "lower s = s"
  shows "split_scheme (s @ CHR '':'' # rest) d = (s, rest)"
proof -
  have "find_s (s @ CHR '':'' # rest) '':'' 0 = int (length s)"
    using colon_not_scheme [OF assms(2)] by (rule find_first)
  moreover have "pfrom (int (length s) + 1) (s @ CHR '':'' # rest) = rest"
    using pfrom_nat [of "Suc (length s)" "s @ CHR '':'' # rest"] by (simp add: add.commute)
  ultimately show ?thesis
    using assms by (simp add: split_scheme_def)
qed

lemma find_slash_netloc:
  assumes "CHR ''/'' \<notin> set n"
  shows "find_s (''//'' @ n @ ''/'' @ p) ''/'' 2 = int (2 + length n)" (is "find_s ?s _ _ = _")
proof -
  have st: "nat (start_index ?s 2) = 2"
    using start_index_nat [of ?s 2] by simp
  have occ: "occurs ''/'' ?s (2 + length n)"
    unfolding occurs_iff_append by (rule exI [of _ "''//'' @ n"], rule exI [of _ p]) simp
  have nocc: "\<not> occurs ''/'' ?s k" if "2 \<le> k" "k < 2 + length n" for k
  proof
    assume "occurs ''/'' ?s k"
    then have "?s ! k = CHR ''/''" by (auto simp: occurs_iff_append nth_append)
    moreover have "?s ! k = n ! (k - 2)"
      using that by (auto simp: nth_append nth_Cons' numeral_2_eq_2)
    moreover have "n ! (k - 2) \<in> set n"
      using that by (intro nth_mem) linarith
    ultimately show False using assms by metis
  qed
  show ?thesis
  proof (cases rule: find_s_cases [of ?s "''/''" 2])
    case none
    with occ st show ?thesis by auto
  next
    case (found r)
    then have "r = 2 + length n"
      using occ nocc st by (metis le_add1 linorder_neqE_nat)
    with found show ?thesis by simp
  qed
qed

lemma split_netloc_print:
  assumes "CHR ''/'' \<notin> set n" "n \<noteq> []" "scheme \<in> set uses_netloc" "take 1 p = ''/''"
  shows "split_netloc scheme (''//'' @ n @ p @ r) = (n, p @ r)"
proof -
  from assms(4) obtain q where p: "p = CHR ''/'' # q" by (cases p) auto
  have f: "find_s (''//'' @ n @ p @ r) ''/'' 2 = int (2 + length n)"
    using find_slash_netloc [OF assms(1), of "q @ r"] by (simp add: p)
  have "pslice 2 (int (2 + length n)) (''//'' @ n @ p @ r) = n"
    using pslice_nat [of 2 "2 + length n" "''//'' @ n @ p @ r"] by simp
  moreover have "pfrom (int (2 + length n)) (''//'' @ n @ p @ r) = p @ r"
    unfolding pfrom_nat by simp
  ultimately show ?thesis
    using assms(3) unfolding split_netloc_def f by (simp add: Let_def)
qed

lemma split_netloc_none:
  "take 2 u \<noteq> ''//'' \<Longrightarrow> split_netloc scheme u = ([], u)"
  by (simp add: split_netloc_def)

lemma take2_opt_part:
  assumes "take 2 p \<noteq> ''//''" "CHR ''/'' \<noteq> c1" "CHR ''/'' \<noteq> c2" "CHR ''/'' \<noteq> c3"
  shows "take 2 (p @ opt_part c1 a @ opt_part c2 b @ opt_part c3 d) \<noteq> ''//''"
proof (cases p)
  case Nil
  with assms show ?thesis by (auto simp: opt_part_def)
next
  case (Cons x xs)
  with assms show ?thesis
    by (cases xs) (auto simp: opt_part_def numeral_2_eq_2)
qed

text \<open>What \<open>urlunparse\<close> prints for such parts, as one concatenation.\<close>

lemma urlunparse_wf:
  assumes "scheme \<noteq> []" "netloc \<noteq> [] \<longrightarrow> take 1 path = ''/''"
  shows "urlunparse (scheme, netloc, path, params, query, fragment) =
    scheme @ CHR '':'' # (if netloc = [] then [] else ''//'' @ netloc) @ path @
      opt_part CHR '';'' params @ opt_part CHR ''?'' query @ opt_part CHR ''#'' fragment"
  using assms by (auto simp: urlunparse_def opt_part_def)

lemma cut_params_query_fragment:
  assumes "{CHR '';'', CHR ''?'', CHR ''#''} \<inter> set p = {}"
    and "{CHR ''?'', CHR ''#''} \<inter> set params = {}"
    and "CHR ''#'' \<notin> set query" "CHR ''#'' \<notin> set fragment"
  shows "cut_at (rfind (p @ opt_part CHR '';'' params @ opt_part CHR ''?'' query @ opt_part CHR ''#'' fragment) ''#'' 0)
      (p @ opt_part CHR '';'' params @ opt_part CHR ''?'' query @ opt_part CHR ''#'' fragment) =
      (p @ opt_part CHR '';'' params @ opt_part CHR ''?'' query, fragment)"
    and "cut_at (find_s (p @ opt_part CHR '';'' params @ opt_part CHR ''?'' query) ''?'' 0)
      (p @ opt_part CHR '';'' params @ opt_part CHR ''?'' query) = (p @ opt_part CHR '';'' params, query)"
    and "cut_at (find_s (p @ opt_part CHR '';'' params) '';'' 0) (p @ opt_part CHR '';'' params) = (p, params)"
  using assms
    cut_last [of "CHR ''#''" "p @ opt_part CHR '';'' params @ opt_part CHR ''?'' query" fragment]
    cut_first [of "CHR ''?''" "p @ opt_part CHR '';'' params" query]
    cut_first [of "CHR '';''" p params]
  by (auto simp: set_opt_part)

lemma urlparse_new_urlunparse:
  assumes wf: "wf_parts (scheme, netloc, path, params, query, fragment)"
  shows "urlparse_new (urlunparse (scheme, netloc, path, params, query, fragment)) d True =
    (scheme, netloc, path, params, query, fragment)"
proof -
  let ?rest = "opt_part CHR '';'' params @ opt_part CHR ''?'' query @ opt_part CHR ''#'' fragment"
  from wf have s: "scheme \<noteq> []" "list_all (\<lambda>c. c \<in> set scheme_chars) scheme" "lower scheme = scheme"
    and n: "netloc \<noteq> [] \<Longrightarrow> scheme \<in> set uses_netloc \<and> CHR ''/'' \<notin> set netloc \<and> take 1 path = ''/''"
      "netloc = [] \<Longrightarrow> take 2 path \<noteq> ''//''"
    and cuts: "{CHR '';'', CHR ''?'', CHR ''#''} \<inter> set path = {}"
      "{CHR ''?'', CHR ''#''} \<inter> set params = {}" "CHR ''#'' \<notin> set query" "CHR ''#'' \<notin> set fragment"
    and use: "params \<noteq> [] \<longrightarrow> scheme \<in> set uses_params" "query \<noteq> [] \<longrightarrow> scheme \<in> set uses_query"
      "fragment \<noteq> [] \<longrightarrow> scheme \<in> set uses_fragment"
    by (auto simp: wf_parts_def split: if_splits)
  note c = cut_params_query_fragment [OF cuts]
  have "split_scheme (urlunparse (scheme, netloc, path, params, query, fragment)) d =
      (scheme, (if netloc = [] then [] else ''//'' @ netloc) @ path @ ?rest)"
    using urlunparse_wf [OF s(1), of netloc path] n(1) split_scheme_print [OF s] by auto
  moreover have "split_netloc scheme ((if netloc = [] then [] else ''//'' @ netloc) @ path @ ?rest) =
      (netloc, path @ ?rest)"
    using split_netloc_print [of netloc scheme path ?rest] n split_netloc_none take2_opt_part [of path]
    by (cases "netloc = []") auto
  ultimately show ?thesis
    using c use unfolding urlparse_new_def by (auto simp: Let_def split: prod.splits if_splits)
qed

end
