(* ===== verification/Spec2Isabelle.thy ===== *)
theory Spec2Isabelle
  imports Calendar Commands Copy Dospath Fnmatch Formatter Getopt Macpath Mailbox Mimewriter Multifile Nturl2path Pickle_Types Polys PyQueue Quopri Regsub_Words Sched Shelve StringIO Sunau Urlparse
begin

text \<open>
  A verification library for the Python modules of the Python 1.4 standard library
  (\<open>src/Lib\<close>).  The modules are Python code: strings are byte sequences (\<open>string\<close>), plain
  and long integers are \<open>int\<close>, exceptions are values (\<open>pyexc\<close>, \<open>'a res\<close>), and a
  method of a mutable object is a state-passing action \<open>('s, 'a) act\<close> that returns the state it
  leaves behind also when it raises.  A width matters only where the code converts: \<open>chr\<close>,
  \<open>ord\<close>, the binary fields of files, \<open>int()\<close> of a long integer and the literals
  that exceed \<open>sys.maxint\<close>.

  Theories, in the order of their imports:

  \<^item> \<open>Py_Prelude\<close>: exceptions, results and actions, slices with Python's bounds, characters.
  \<^item> \<open>Str\<close>: \<open>Lib/string.py\<close>, every function under its name (\<open>lower\<close>, \<open>strip\<close>, \<open>splitfields\<close>,
    \<open>joinfields\<close>, \<open>find_s\<close>, \<open>atoi\<close>, \<open>zfill\<close>, \<open>expandtabs\<close>, \<open>translate\<close>, \<open>maketrans\<close>, \dots).
    \<open>words\<close> is the specification of \<open>split\<close>.
  \<^item> \<open>Osfs\<close>: \<open>Lib/stat.py\<close> and the record \<open>osys\<close> of the system calls the path modules use.
  \<^item> \<open>Walk\<close>: the walk of a directory tree the path modules share.
  \<^item> \<open>Path_Laws\<close>: the contracts \<open>path_joiner\<close> and \<open>ext_splitter\<close> as locales; \<open>Posixpath\<close>,
    \<open>Ntpath\<close>, \<open>Macpath\<close> interpret them; \<open>Dospath\<close> holds what \<open>Lib/dospath.py\<close> has of its own.
  \<^item> \<open>Commands\<close> and \<open>Nturl2path\<close>: shell quoting and the conversion of paths to URLs.
  \<^item> \<open>Urlparse\<close>: \<open>urlparse\<close> with its cache as a map passed along, \<open>urlunparse\<close>, \<open>urljoin\<close>.
  \<^item> \<open>Getopt\<close>: the option parser; \<open>opt_use\<close> with \<open>render_opt\<close> and \<open>meaning\<close> is its specification.
  \<^item> \<open>Xdrlib\<close>: packer and unpacker; the locale \<open>xdr_item\<close> is the contract between a
    \<open>pack_x\<close> and its \<open>unpack_x\<close>, closed under arrays and lists.
  \<^item> \<open>Files\<close>: file objects as a record of operations \<open>file_ops\<close>, the locale \<open>line_file\<close> with
    the laws a reader by lines relies on, its extension \<open>readable_file\<close> for \<open>read(n)\<close>, and a
    concrete file \<open>pyfile\<close>.
  \<^item> \<open>StringIO\<close>: \<open>Lib/StringIO.py\<close>, with its abstraction to a byte string and a position; it
    interprets \<open>readable_file\<close>, so every reader proved over the locale works on it.
  \<^item> \<open>PyQueue\<close>: \<open>Lib/Queue.py\<close> as threads that step between lock operations; the locale
    \<open>queue_organisation\<close> is what the methods need of an overridden representation.
  \<^item> \<open>Sched\<close>: \<open>Lib/bisect.py\<close>, \<open>Lib/sched.py\<close> and \<open>Lib/mutex.py\<close>.
  \<^item> \<open>Formatter\<close>: \<open>AbstractFormatter\<close> over an abstract writer, \<open>DumbWriter\<close> and the test driver.
  \<^item> \<open>Wave\<close>: chunk reading, \<open>Wave_read\<close> and \<open>Wave_write\<close> over \<open>file_ops\<close>.
  \<^item> \<open>Sunau\<close>: \<open>Au_read\<close> (\<open>ar_\<close>) and \<open>Au_write\<close> (\<open>aw_\<close>) of \<open>Lib/sunau.py\<close>, built alike.
  \<^item> \<open>Lines\<close>: the loop over the lines of a file, with its value over \<open>line_file\<close>.
  \<^item> \<open>Quopri\<close>, \<open>Rfc822\<close>, \<open>Mimewriter\<close>, \<open>Multifile\<close>, \<open>Mailbox\<close>: quoted-printable text, messages
    (headers, addresses, dates), the writer of MIME messages, multipart readers and mailboxes.
    The readers are proved over \<open>line_file\<close>; \<open>Mailbox\<close> shows that a part of a file is such a
    file again (\<open>sublocale\<close> \<open>sub\<close>), so \<open>Message\<close> reads a part like a file.
  \<^item> \<open>Literals\<close>: values as text, the backquotes and literals of the interpreter (string quoting of
    \<open>Objects/stringobject.c\<close>, literals of \<open>Python/compile.c\<close>, \<open>atoi(s, 0)\<close>); the locale
    \<open>literal_laws\<close> says that reading inverts writing, \<open>core\<close> interprets it.
  \<^item> \<open>Py_Heap\<close>: a heap, a list of objects that refer to others by index (what \<open>id()\<close> gives), with
    dictionary keys and assignment to items.  \<open>Copy\<close>: \<open>Lib/copy.py\<close> on it, the memo being a map
    of addresses (\<open>copy_inv\<close>: it relates originals and copies, the original is untouched).
  \<^item> \<open>Pickle\<close>: \<open>Lib/pickle.py\<close> over the heap.  \<open>save\<close> and the \<open>save_x\<close> write text, \<open>load_step\<close> is one round of the
    loop of \<open>load\<close>.  Imports, constructors, \<open>__getstate__\<close> and the like are fields of
    \<open>pickle_env\<close> and \<open>unpickle_env\<close>.  \<open>Pickle_Laws\<close>: the text of an object is code that pushes its
    counterpart, a simulation between the heaps (\<open>graph_inv\<close>, \<open>sim\<close>, \<open>codes\<close>), and the loop
    ends; \<open>Pickle_Types\<close>: no text makes the unpickler build a dangling reference.
  \<^item> \<open>Dict_Laws\<close>: the locale \<open>string_dict\<close>, a dictionary that stands for a map from strings to
    strings.  \<open>Dumbdbm\<close>: \<open>Lib/dumbdbm.py\<close> over a map from file names to contents; \<open>dumb_ok\<close> says
    that the entries lie in the data file, share no block and are those of the directory, and
    \<open>dumb\<close> interprets \<open>string_dict\<close>.  \<open>Shelve\<close>: \<open>Lib/shelve.py\<close> over any such dictionary, its
    round trip put together from those of \<open>Pickle_Laws\<close> and \<open>string_dict\<close>.
  \<^item> \<open>Regexpr\<close>: the built-in module \<open>regex\<close> (\<open>Modules/regexpr.c\<close>, \<open>Modules/regexmodule.c\<close>): \<open>compile_loop\<close>
    makes a list of instructions of a pattern, \<open>match_run\<close> runs them with the failure stack and
    rewrites its loops, \<open>search_loop\<close> searches with the fast map.  \<open>Regex_Laws\<close>: the machine computes
    the greedy match of patterns of single characters and \<open>.*\<close> (\<open>run_greedy\<close>), and every match lies
    in the text (\<open>reg_search_bounds\<close>); \<open>Regex_Sets\<close>: what a set contains (\<open>in_seq\<close>).
    \<open>Fnmatch\<close>: \<open>Lib/fnmatch.py\<close> against the direct reading \<open>shell_match\<close>.  \<open>Regsub\<close>: \<open>Lib/regsub.py\<close>; the
    locale \<open>regex_object\<close> is what it needs of a compiled pattern, \<open>rx\<close> interprets it;
    \<open>Regsub_Words\<close> follows \<open>capwords\<close> from its pattern to its result.
  \<^item> \<open>Polys\<close>: \<open>Lib/poly.py\<close> and \<open>Lib/zmod.py\<close>; \<open>poly_val\<close> is what a list denotes.
  \<^item> \<open>Calendar\<close>: \<open>Lib/calendar.py\<close>, with the cache of months as state.

  Fuel.  \<open>tree_walk\<close> (the three \<open>walk\<close>s), \<open>sched_run\<close>, \<open>wave_init_loop\<close> and \<open>unpack_list_loop\<close> may run for ever in
  the source; they take fuel and return an option.  So do the loops that read lines
  (\<open>line_loop\<close> and those of \<open>Rfc822\<close>, \<open>Multifile\<close>, \<open>Mailbox\<close>), which end only if the file does.
  Enough fuel: the length of the text (\<open>quoted_printable_roundtrip\<close>, \<open>message_splits_text\<close>),
  the lines and parts (\<open>multipart_parts_read\<close>, \<open>unix_mailbox_messages\<close>), the height of the directory tree
  (\<open>posix_walk_terminates\<close>), twice the length of the queue (\<open>sched_runs_in_time_order\<close>), the
  number of chunks (\<open>wave_write_then_read\<close>).  For \<open>wave_init_loop\<close> there is a file on which no
  fuel is enough (\<open>wave_chunk_loop_diverges\<close>).  The loop of \<open>load\<close> reads a byte in
  every round, so its fuel is the length of the text and it never runs out (\<open>loads_total\<close>).  The
  first argument of \<open>save\<close>, \<open>safe\<close>, \<open>key_of\<close> is the depth of recursion the interpreter allows;
  \<open>pickle_roundtrip\<close> says which depth is enough.  The matcher of regular expressions and the loops
  of \<open>Regsub\<close> are \<open>partial_function\<close>s: that they return is part of \<open>fnmatch_is_shell_matching\<close> and
  \<open>capwords_capitalizes_words\<close>, and \<open>gsub\<close> returns if every search does (\<open>gsub_returns\<close>).  Every other loop is a total function.

  Not modelled: opening named files, \<open>print\<close>, module self tests that only print (the one of
  \<open>urlparse\<close> is modelled), memory exhaustion, and the modules listed as such in the manifest:
  bindings of C extension modules, sockets and processes, interpreter hooks, floating point.
\<close>

section \<open>Properties of the components\<close>



text \<open>
  C2: fnmatchcase, which translates the shell pattern to a regular expression, compiles it and
  runs the matcher with its failure stack and its self-modifying loops, decides exactly the
  direct reading of the pattern, for every pattern and name that together are shorter than the
  failure stack, whatever earlier calls have left in its cache; the syntax of regex is
  restored.
\<close>

theorem fnmatch_is_shell_matching:
  assumes "fn_ok st" "length name + length pat < MAX_FAILURES"
  shows "\<exists>st'. fnmatchcase name pat st = Some (Inr (shell_match pat name), st') \<and> fn_ok st' \<and> fn_syntax st' = fn_syntax st"
  using assms by (rule fnmatchcase_shell)

theorem fnmatch_is_shell_matching_witness:
  "\<exists>st'. fnmatchcase ''spam.py'' ''s*.[!a-o]?'' \<lparr>fn_syntax = 3, fn_cache = Map.empty\<rparr> = Some (Inr True, st') \<and>
    fn_ok st' \<and> fn_syntax st' = 3"
proof -
  have "shell_match ''s*.[!a-o]?'' ''spam.py''" by code_simp
  then show ?thesis
    using fnmatch_is_shell_matching [of "\<lparr>fn_syntax = 3, fn_cache = Map.empty\<rparr>" "''spam.py''" "''s*.[!a-o]?''"]
    by (simp add: fn_ok_def MAX_FAILURES_def)
qed



text \<open>
  C4: Whatever the number of threads and the interleaving of their put, get, get_nowait,
  qsize, empty and full calls, items leave the queue in the order they entered it, a bounded
  queue never exceeds its bound, and no thread ever releases a lock that is not held or pops
  an empty list.
\<close>

theorem queue_threads_fifo:
  assumes "initial (fifo_init n) c" "queue_run fifo_org c es d"
  shows "puts es = gets es @ queue (q_rep (fst d)) \<and>
    (n > 0 \<longrightarrow> int (length (queue (q_rep (fst d)))) \<le> n) \<and> no_crash (snd d)"
  using fifo_run [OF assms] by blast

theorem queue_threads_fifo_witness:
  "(let (es, d) = schedule fifo_org [0, 0, 0, 1, 0, 0, 0, 2, 1, 1, 1, 1, 1, 1] (queue_init (fifo_init 1), [PutF (7::nat), GetE, PutF 8])
    in es = [In 7, Out 7] \<and> snd d = [Returned, Got 7, PutF 8] \<and>
      puts es = gets es @ queue (q_rep (fst d)) \<and> int (length (queue (q_rep (fst d)))) \<le> 1 \<and> no_crash (snd d))"
proof -
  let ?c = "(queue_init (fifo_init 1), [PutF (7::nat), GetE, PutF 8])"
    and ?is = "[0, 0, 0, 1, 0, 0, 0, 2, 1, 1, 1, 1, 1, 1]"
  have i: "initial (fifo_init 1) ?c"
    by (simp add: initial_def is_start_def)
  have e: "schedule fifo_org ?is ?c =
      ([In 7, Out 7], \<lparr>q_mutex = False, q_esema = True, q_fsema = False, q_rep = \<lparr>maxsize = 1, queue = []\<rparr>\<rparr>,
        [Returned, Got 7, PutF 8])"
    by (simp add: queue_init_def fifo_init_def fifo_org_def fifo_empty_def fifo_full_def fifo_put_def fifo_get_def)
  from queue_threads_fifo [OF i schedule_run [of fifo_org ?c ?is]] show ?thesis unfolding e by simp
qed

text \<open>
  C5: capwords with its default pattern returns, for every text however long, the text with
  each maximal run of letters, digits and underscores capitalised and everything else
  unchanged, with a fresh or a used compiled pattern in the cache.
\<close>

theorem capwords_capitalizes_words:
  assumes "caps_cache cache"
  shows "\<exists>cache'. with_pattern (regex_compile 0 id) capwords_pattern (rs_capwords regex_ops s) cache = Some (Inr (cap_words s), cache') \<and>
    caps_cache cache'"
  using assms by (rule capwords_words)

theorem capwords_capitalizes_words_witness:
  "\<exists>cache'. with_pattern (regex_compile 0 id) capwords_pattern (rs_capwords regex_ops ''spam-and_EGGS  x'') Map.empty =
      Some (Inr ''Spam-And_eggs  X'', cache') \<and> caps_cache cache'"
proof -
  have "cap_words ''spam-and_EGGS  x'' = ''Spam-And_eggs  X''" by code_simp
  then show ?thesis
    using capwords_capitalizes_words [of Map.empty "''spam-and_EGGS  x''"] by (simp add: caps_cache_def)
qed

text \<open>
  C6: A dumbdbm database refines a map from strings to strings: after any sequence of
  assignments and deletions on a new database (overwriting in place, moving a value that has
  outgrown its blocks, rewriting the directory), reading a key gives what the map holds or
  KeyError, and so it does when the files are opened again.
\<close>

theorem dumbdbm_is_persistent_map:
  assumes "fs (base @ ''.dir'') = None"
  shows "\<exists>d e. dumb_open base fs = (Inr (), d) \<and> dumb_open base (d_files (dict_calls dumb_ops cs d)) = (Inr (), e) \<and>
    dumb_getitem key (dict_calls dumb_ops cs d) =
      (case map_calls cs Map.empty key of None \<Rightarrow> Inl KeyError | Some v \<Rightarrow> Inr v, dict_calls dumb_ops cs d) \<and>
    dumb_getitem key e = (case map_calls cs Map.empty key of None \<Rightarrow> Inl KeyError | Some v \<Rightarrow> Inr v, e)"
  using assms by (rule dumb_persistent)

theorem dumbdbm_is_persistent_map_witness:
  "\<exists>d e. dumb_open ''db'' (\<lambda>_. None) = (Inr (), d) \<and>
    dumb_open ''db'' (d_files (dict_calls dumb_ops [SetItem ''k'' ''old'', SetItem ''l'' ''x'', SetItem ''k'' ''new'', DelItem ''l''] d)) = (Inr (), e) \<and>
    dumb_getitem ''k'' e = (Inr ''new'', e)"
  using dumbdbm_is_persistent_map [of "\<lambda>_. None" "''db''" "[SetItem ''k'' ''old'', SetItem ''l'' ''x'', SetItem ''k'' ''new'', DelItem ''l'']" "''k''"]
  by auto

text \<open>
  C7: The header lines MimeWriter writes before the body are read back by rfc822.Message: the
  same lines in the same order, every header (looked up without case) with the value given
  last, continuation lines included, and the file positioned at the body.
\<close>

theorem mime_headers_roundtrip:
  assumes "list_all good_header hs" "strip ctype \<noteq> []" "NL \<notin> set ctype"
  shows "\<exists>data m g. mime_save (map (\<lambda>(k, ls). (k, joinfields ls [NL])) hs) ctype body = (Inr (), file_end data) \<and>
    message_init (length data + 1) pf_ops True \<lparr>f_data = data, f_pos = 0\<rparr> = Some (Inr (), (m, g)) \<and>
    msg_headers m = concat (map header_lines ((''Content-Type'', [ctype]) # hs)) \<and> msg_status m = [] \<and>
    (\<forall>k. getheader m k =
       map_of (rev (map (\<lambda>(k, ls). (lower k, value_read ls)) ((''Content-Type'', [ctype]) # hs))) (lower k)) \<and>
    drop (f_pos g) (f_data g) = body"
  using assms by (rule mime_roundtrip)

theorem mime_headers_roundtrip_witness:
  "\<exists>data m g. mime_save [(''Subject'', ''a'' @ [NL] @ '' b'')] ''text/plain'' ''hello'' = (Inr (), file_end data) \<and>
    message_init (length data + 1) pf_ops True \<lparr>f_data = data, f_pos = 0\<rparr> = Some (Inr (), (m, g)) \<and>
    getheader m ''SUBJECT'' = Some (''a'' @ [NL] @ '' b'') \<and> drop (f_pos g) (f_data g) = ''hello''"
proof -
  have h: "list_all good_header [(''Subject'', [''a'', '' b''])]" by code_simp
  have c: "strip ''text/plain'' \<noteq> []" "NL \<notin> set ''text/plain''" by code_simp+
  have v: "map_of (rev (map (\<lambda>(k, ls). (lower k, value_read ls))
      ((''Content-Type'', [''text/plain'']) # [(''Subject'', [''a'', '' b''])]))) (lower ''SUBJECT'') =
      Some (''a'' @ [NL] @ '' b'')" by code_simp
  have j: "map (\<lambda>(k, ls). (k, joinfields ls [NL])) [(''Subject'', [''a'', '' b''])] = [(''Subject'', ''a'' @ [NL] @ '' b'')]"
    by code_simp
  from mime_headers_roundtrip [OF h c, of "''hello''"] show ?thesis unfolding j using v by metis
qed

text \<open>
  C8: For a heap of data in which cycles run through lists and dictionaries, deepcopy returns
  a copy of the same shape and does not touch the original: every object has one copy, equal
  to it up to the copying, distinct objects have distinct copies, and no list or dictionary of
  the copy is one of the original.
\<close>

theorem deepcopy_is_independent_copy:
  assumes "copyable n (ce_lits E) h r" "x < length h" "r x + length h < d"
  shows "\<exists>b e R. deep_copy d n E x h = (Inr b, h @ e) \<and> R x b \<and> same_shape h R (h @ e) \<and> mutable_new h R"
  using assms by (rule deep_copy_shape)

theorem deepcopy_is_independent_copy_witness:
  "\<exists>b e R. deep_copy 9 9 data_copy_env 0 [PTuple [1, 2], PList [3, 2], PStr ''a'', PDict [(2, 1)]] =
      (Inr b, [PTuple [1, 2], PList [3, 2], PStr ''a'', PDict [(2, 1)]] @ e) \<and> R 0 b \<and>
    same_shape [PTuple [1, 2], PList [3, 2], PStr ''a'', PDict [(2, 1)]] R
      ([PTuple [1, 2], PList [3, 2], PStr ''a'', PDict [(2, 1)]] @ e) \<and>
    mutable_new ([PTuple [1, 2], PList [3, 2], PStr ''a'', PDict [(2, 1)]] :: (unit, nat) pyobj list) R"
proof -
  have "copyable 9 (ce_lits data_copy_env) [PTuple [1, 2], PList [3, 2], PStr ''a'', PDict [(2, 1)]] (\<lambda>a. [2, 1, 0, 1] ! a)"
    by code_simp
  then show ?thesis by (rule deepcopy_is_independent_copy) simp_all
qed





text \<open>
  C11: quopri.encode returns on any text and writes lines of at most 76 characters and the
  newline, and quopri.decode of what it wrote gives the text back (with a newline at its end).
\<close>

theorem quoted_printable_roundtrip:
  assumes "length s < fuel"
  shows "\<exists>e f g. qp_encode fuel pf_ops q ([], \<lparr>f_data = s, f_pos = 0\<rparr>) = Some (Inr None, e, f) \<and>
    list_all (\<lambda>l. length l \<le> 77) (text_lines e) \<and>
    qp_decode (length e + 1) pf_ops ([], \<lparr>f_data = e, f_pos = 0\<rparr>) = Some (Inr (), end_line s, g)"
  using qp_roundtrip [OF assms] by blast

theorem quoted_printable_roundtrip_witness:
  "\<exists>e f g. qp_encode 6 pf_ops False ([], \<lparr>f_data = ''a=b'' @ [CHR 0xE9], f_pos = 0\<rparr>) = Some (Inr None, e, f) \<and>
    list_all (\<lambda>l. length l \<le> 77) (text_lines e) \<and>
    qp_decode (length e + 1) pf_ops ([], \<lparr>f_data = e, f_pos = 0\<rparr>) = Some (Inr (), end_line (''a=b'' @ [CHR 0xE9]), g)"
  by (rule quoted_printable_roundtrip) simp

text \<open>
  C12: When no thread can take a step, every thread that has not finished waits at the start
  of get on an empty queue or at the start of put on a full one: the three locks cannot
  deadlock the threads in any other way.
\<close>

theorem queue_waits_only_for_room_or_items:
  assumes "initial (fifo_init n) c" "queue_run fifo_org c es (s, ts)"
    and "\<forall>i < length ts. pc_step fifo_org (ts ! i) s = None" "i < length ts" "\<not> is_done (ts ! i)"
  shows "(ts ! i = GetE \<and> queue (q_rep s) = []) \<or>
    (\<exists>x. ts ! i = PutF x \<and> n > 0 \<and> int (length (queue (q_rep s))) = n)"
  using assms by (rule fifo_stuck)

theorem queue_waits_only_for_room_or_items_witness:
  "([GetE] ! 0 = (GetE :: nat pc) \<and> queue (q_rep (queue_init (fifo_init 1 :: nat fifo))) = []) \<or>
    (\<exists>x. [GetE] ! 0 = PutF (x :: nat) \<and> (1::int) > 0 \<and>
      int (length (queue (q_rep (queue_init (fifo_init 1 :: nat fifo))))) = 1)"
  by (rule queue_waits_only_for_room_or_items [OF _ run_refl])
    (simp_all add: initial_def is_start_def is_done_def queue_init_def)



text \<open>
  C14: For every compiled pattern: the pieces splitx returns, put together, are the text; no
  delimiter is empty; split returns exactly the fields between the delimiters; and a positive
  maxsplit bounds the number of splits.
\<close>

theorem splitx_keeps_the_text:
  assumes "rs_splitx regex_ops s m p = Some (Inr ws, q)"
  shows "concat ws = s \<and> [] \<notin> set (delim_texts ws) \<and>
    rs_split regex_ops s m p = Some (Inr (field_texts ws), q) \<and>
    (if 0 < m then int (length (delim_texts ws)) \<le> m else True)"
  using rx.splitx_parts [OF assms] by simp

theorem splitx_keeps_the_text_witness:
  "\<exists>p q. regex_compile 0 id '',*'' = Inr p \<and> rs_split regex_ops ''a,,b,c'' 1 p = Some (Inr [''a'', ''b,c''], q)"
proof -
  have "(case regex_compile 0 id '',*'' of Inl e \<Rightarrow> False
      | Inr p \<Rightarrow> map_option fst (rs_splitx regex_ops ''a,,b,c'' 1 p) = Some (Inr [''a'', '',,'', ''b,c'']))"
    by code_simp
  then obtain p q where p: "regex_compile 0 id '',*'' = Inr p"
      "rs_splitx regex_ops ''a,,b,c'' 1 p = Some (Inr [''a'', '',,'', ''b,c''], q)"
    by (auto split: sum.splits)
  with splitx_keeps_the_text [OF p(2)] show ?thesis by simp
qed



text \<open>
  C16: A command line written from options (short ones with the value attached or apart, long
  ones with =value or the value apart) followed by arguments is parsed to exactly those
  options and arguments.
\<close>

theorem getopt_reads_rendered_options:
  assumes "list_all (allowed_use so lo) us" "stops args rest"
  shows "getopt (concat (map render_opt us) @ args) so lo = Inr (map meaning us, rest)"
  using assms by (rule getopt_render)

theorem getopt_reads_rendered_options_witness:
  "getopt [''-v'', ''-oout'', ''--level=3'', ''--'', ''-x''] ''vo:'' [''level='', ''verbose''] =
     Inr ([(''-v'', []), (''-o'', ''out''), (''--level'', ''3'')], [''-x''])"
  using getopt_reads_rendered_options [of "''vo:''" "[''level='', ''verbose'']"
    "[Short CHR ''v'', ShortJoined CHR ''o'' ''out'', LongJoined ''level'' ''3'']" "[''--'', ''-x'']" "[''-x'']"]
  by (simp add: stops_def long_declared_def short_has_arg.simps)



text \<open>
  C18: Whatever the chunks a text is cut into, the text the AbstractFormatter sends to its
  writer is the words of the whole, separated by single blanks.
\<close>

theorem flowing_data_normalised:
  "flow_text (snd (foldl (\<lambda>fw d. add_flowing_data trace_writer d fw) (formatter_init, []) ds)) =
    joinfields (words (concat ds)) '' ''"
  by (rule flowing_chunks)

text \<open>
  C19: The text that the formatter and the DumbWriter write for a file has the same words in
  the same order as the file: nothing is lost, repeated or joined at the line breaks.
\<close>

theorem dumb_writer_keeps_words:
  assumes "[] \<notin> set lines"
  shows "words (formatter_test lines) = words (concat lines)"
  using assms by (rule formatter_test_words)

theorem dumb_writer_keeps_words_witness:
  "words (formatter_test [''ab c'' @ [NL], [NL], ''d'' @ [NL]]) = words (concat [''ab c'' @ [NL], [NL], ''d'' @ [NL]])"
  by (rule dumb_writer_keeps_words) simp

text \<open>
  C20: With words of at most 72 characters, no line the DumbWriter writes is longer than its
  72 columns and the newline.
\<close>

theorem dumb_writer_line_width:
  assumes "list_all (\<lambda>l. l \<noteq> [] \<and> last l = NL \<and> list_all (\<lambda>v. length v \<le> 72) (words l)) lines"
  shows "list_all (\<lambda>l. length l \<le> 73) (text_lines (formatter_test lines))"
  using assms by (rule formatter_test_width)

theorem dumb_writer_line_width_witness:
  "list_all (\<lambda>l. length l \<le> 73) (text_lines (formatter_test [''ab c'' @ [NL], [NL], ''d'' @ [NL]]))"
  by (rule dumb_writer_line_width) simp

text \<open>
  C21: The Message built from a part of a mailbox reads nothing outside that part: its header
  lines, separator and what is left to read make up exactly the bytes of the part.
\<close>

theorem mailbox_message_own_part:
  assumes "0 \<le> start" "start \<le> stop" "stop \<le> int (length d)" "nat (stop - start) < fuel"
  shows "\<exists>m g sep. mb_message fuel pf_sized_ops (subfile_init start stop) \<lparr>f_data = d, f_pos = p\<rparr> = Some (Inr (), (m, g)) \<and>
    pslice start stop d = msg_unixfrom m @ concat (msg_headers m) @ sep @ spf.sub.ahead g \<and> sep \<in> {[], [NL], [CR, NL]}"
  using assms by (rule mb_message_reads_part)

theorem mailbox_message_own_part_witness:
  "\<exists>m g sep. mb_message 9 pf_sized_ops (subfile_init 1 7) \<lparr>f_data = ''xa: b'' @ [NL, NL] @ ''c'', f_pos = 4\<rparr> = Some (Inr (), (m, g)) \<and>
    pslice 1 7 (''xa: b'' @ [NL, NL] @ ''c'') = msg_unixfrom m @ concat (msg_headers m) @ sep @ spf.sub.ahead g \<and>
    sep \<in> {[], [NL], [CR, NL]}"
  by (rule mailbox_message_own_part) simp_all

text \<open>
  C22: rfc822.Message cuts the text at the position of its file into the unix From line, the
  header lines and a separator line without losing a byte, and remembers the positions where
  the headers and the body start.
\<close>

theorem message_splits_text:
  assumes "p \<le> length d" "length d < fuel"
  shows "\<exists>m g sep. message_init fuel pf_ops True \<lparr>f_data = d, f_pos = p\<rparr> = Some (Inr (), (m, g)) \<and> f_data g = d \<and>
    drop p d = msg_unixfrom m @ concat (msg_headers m) @ sep @ drop (f_pos g) d \<and> sep \<in> {[], [NL], [CR, NL]} \<and>
    msg_startofheaders m = Some (int p) \<and> msg_startofbody m = Some (int (f_pos g))"
  using pf.message_init_keeps [of "\<lparr>f_data = d, f_pos = p\<rparr>" fuel] assms by (simp add: pf.ahead_def) metis

theorem message_splits_text_witness:
  "\<exists>m g sep. message_init 9 pf_ops True \<lparr>f_data = ''a: b'' @ [NL, NL] @ ''c'', f_pos = 0\<rparr> = Some (Inr (), (m, g)) \<and>
    f_data g = ''a: b'' @ [NL, NL] @ ''c'' \<and>
    drop 0 (''a: b'' @ [NL, NL] @ ''c'') = msg_unixfrom m @ concat (msg_headers m) @ sep @ drop (f_pos g) (''a: b'' @ [NL, NL] @ ''c'') \<and>
    sep \<in> {[], [NL], [CR, NL]} \<and> msg_startofheaders m = Some (int 0) \<and> msg_startofbody m = Some (int (f_pos g))"
  by (rule message_splits_text) simp_all

text \<open>
  C23: MultiFile reads the parts of a multipart text one after the other, each with exactly
  its lines, and stops behind the closing mark of the separator, also inside outer separators.
\<close>

theorem multipart_parts_read:
  assumes "good_sep sep" "NL \<notin> set sep" "parts \<noteq> []" "mf_level m = 0" "mf_stack m = sep # stack"
    and "list_all (plain_lines (sep # stack)) parts" "list_all (\<lambda>ls. length ls + length parts < fuel) parts"
  shows "\<exists>n g. mf_parts fuel pf_ops [] (m, \<lparr>f_data = multipart_text sep parts @ rest, f_pos = 0\<rparr>) = Some (Inr parts, (n, g)) \<and>
    drop (f_pos g) (f_data g) = rest \<and> mf_last n \<and> mf_level n = 1"
proof -
  let ?f = "\<lparr>f_data = multipart_text sep parts @ rest, f_pos = 0\<rparr>"
  have "pf.ahead ?f = multipart_text sep parts @ rest" by (simp add: pf.ahead_def)
  from pf.mf_parts_read [OF assms(1-3) TrueI assms(4-6) this assms(7), of "[]"] show ?thesis
    by (auto simp: pf.ahead_def)
qed

theorem multipart_parts_read_witness:
  "\<exists>n g. mf_parts 4 pf_ops [] (\<lparr>mf_stack = [''x''], mf_level = 0, mf_last = False, mf_start = 0, mf_posstack = [0],
      mf_lastpos = None, mf_err = []\<rparr>, \<lparr>f_data = multipart_text ''x'' [[''ab'' @ [NL]], [[NL]]] @ ''end'', f_pos = 0\<rparr>) =
      Some (Inr [[''ab'' @ [NL]], [[NL]]], (n, g)) \<and>
    drop (f_pos g) (f_data g) = ''end'' \<and> mf_last n \<and> mf_level n = 1"
proof -
  have p: "list_all (plain_lines [''x'']) [[''ab'' @ [NL]], [[NL]]]" by code_simp
  have g: "good_sep ''x''" by code_simp
  show ?thesis by (rule multipart_parts_read [OF g _ _ _ _ p]) simp_all
qed

text \<open>
  C24: With a clock that only the delay function moves, scheduler.run empties a sorted queue:
  it waits until the time of each event and then runs its action, in the order of the queue.
\<close>

theorem sched_runs_in_time_order:
  fixes fs :: "('t::linordered_ab_group_add, 'a, 'g, 'w) sched_funs"
    and clock :: "'w \<Rightarrow> 't" and tick :: "'t \<Rightarrow> 'w \<Rightarrow> 'w" and act :: "'a \<Rightarrow> 'g \<Rightarrow> 'w \<Rightarrow> 'w"
  assumes "\<And>s. timefunc fs s = (Inr (clock (sc_world s)), s)"
    and "\<And>d s. delayfunc fs d s = (Inr (), s\<lparr>sc_world := tick d (sc_world s)\<rparr>)"
    and "\<And>a g s. apply_action fs a g s = (Inr (), s\<lparr>sc_world := act a g (sc_world s)\<rparr>)"
    and "\<And>d w. clock (tick d w) = clock w + d" "\<And>w. tick 0 w = w"
    and "\<And>a g w. clock (act a g w) = clock w"
    and "2 * length q < fuel"
  shows "sched_run fuel fs \<lparr>sc_queue = q, sc_world = w\<rparr> =
      Some (Inr (), \<lparr>sc_queue = [],
        sc_world = foldl (\<lambda>w e. act (ev_action e) (ev_argument e)
          (if clock w < ev_time e then tick (ev_time e - clock w) w else w)) w q\<rparr>)"
  using assms by (rule sched_run_simulated)

theorem sched_runs_in_time_order_witness:
  "sched_run 5 \<lparr>timefunc = (\<lambda>s. (Inr (fst (sc_world s)), s)),
      delayfunc = (\<lambda>d s. (Inr (), s\<lparr>sc_world := (fst (sc_world s) + d, snd (sc_world s))\<rparr>)),
      apply_action = (\<lambda>a g s. (Inr (), s\<lparr>sc_world := (fst (sc_world s), snd (sc_world s) @ [a + g])\<rparr>))\<rparr>
    \<lparr>sc_queue = [Event (3::int) 0 (1::int) (1::int), Event 5 0 2 2], sc_world = (0, [])\<rparr> =
    Some (Inr (), \<lparr>sc_queue = [], sc_world = (5, [2, 4])\<rparr>)"
  by (subst sched_runs_in_time_order [where clock = fst and tick = "\<lambda>d w. (fst w + d, snd w)"
    and act = "\<lambda>a g w. (fst w, snd w @ [a + g])"]) simp_all

text \<open>
  C25: bisect.insort puts the new item into a sorted list after every item that is not
  greater, so the list stays sorted and equal items keep their order.
\<close>

theorem insort_sorted_stable:
  assumes "sorted a"
  shows "insort_py a x = filter (\<lambda>y. y \<le> x) a @ x # filter (\<lambda>y. x < y) a \<and>
    sorted (insort_py a x) \<and> mset (insort_py a x) = add_mset x (mset a)"
  using insort_py_stable [OF assms] insort_py_sorted [OF assms] by blast

theorem insort_sorted_stable_witness:
  "insort_py [1, 3, 3, 4] (3::int) = [1, 3, 3, 3, 4]"
  using insort_sorted_stable [of "[1, 3, 3, 4]" "3::int"] by simp


text \<open>
  C27: Packing an array of strings and unpacking it anywhere inside a buffer returns the array
  and stops right behind it.
\<close>

theorem xdr_string_array_roundtrip:
  assumes "list_all (\<lambda>s. int (length s) < 2 ^ 32) xs" "int (length xs) < 2 ^ 32"
    and "pack_array xs pack_string [] = (Inr (), b)"
  shows "unpack_array unpack_string \<lparr>ubuf = pre @ b @ post, upos = int (length pre)\<rparr> =
    (Inr xs, \<lparr>ubuf = pre @ b @ post, upos = int (length (pre @ b))\<rparr>)"
  using assms str_array.pack_enc [of xs "[]"] str_array.unpack_enc [of xs pre post] by auto

theorem xdr_string_array_roundtrip_witness:
  "unpack_array unpack_string \<lparr>ubuf = ''xy'' @ enc_array enc_string [''a'', ''bcdef''] @ ''z'', upos = 2\<rparr> =
    (Inr [''a'', ''bcdef''], \<lparr>ubuf = ''xy'' @ enc_array enc_string [''a'', ''bcdef''] @ ''z'',
       upos = int (length (''xy'' @ enc_array enc_string [''a'', ''bcdef'']))\<rparr>)"
  using xdr_string_array_roundtrip [of "[''a'', ''bcdef'']" "enc_array enc_string [''a'', ''bcdef'']" "''xy''" "''z''"]
    str_array.pack_enc [of "[''a'', ''bcdef'']" "[]"] by simp

text \<open>
  C28: On a StringIO that tracks its length, write acts as a write into the byte string at the
  current position (padding with zeros past the end), and the length stays right exactly when
  the write does not straddle the end.
\<close>

theorem stringio_write_refines:
  assumes "sio_ok f"
  shows "\<exists>g. sio_write s f = (Inr (), g) \<and>
    sio_content g = write_at (sio_posn f) s (sio_content f) \<and> sio_posn g = sio_posn f + length s \<and>
    (sio_ok g \<longleftrightarrow> \<not> (sio_posn f < length (sio_content f) \<and> length (sio_content f) < sio_posn f + length s))"
  by (rule sio_write_ok [OF assms]) blast

theorem stringio_write_refines_witness:
  "\<exists>g. sio_write ''xy'' (sio_init ''abc'') = (Inr (), g) \<and> sio_content g = ''xyc''"
  using stringio_write_refines [of "sio_init ''abc''" "''xy''"] sio_ok_init [of "''abc''"]
  by (auto simp: write_at_def)

text \<open>
  C29: urlparse of the URL that urlunparse builds from a well-formed six-tuple returns that
  tuple.
\<close>

theorem urlparse_inverts_urlunparse:
  assumes "wf_parts (scheme, netloc, path, params, query, fragment)"
  shows "urlparse_new (urlunparse (scheme, netloc, path, params, query, fragment)) d True =
    (scheme, netloc, path, params, query, fragment)"
  using assms by (rule urlparse_new_urlunparse)

theorem urlparse_inverts_urlunparse_witness:
  "urlparse_new (urlunparse (''http'', ''host:80'', ''/a/b'', ''p'', ''q=1'', ''f'')) [] True =
    (''http'', ''host:80'', ''/a/b'', ''p'', ''q=1'', ''f'')"
  by (rule urlparse_inverts_urlunparse) code_simp

text \<open>
  C30: normpath of a normalised path is the path itself.
\<close>

theorem posix_normpath_idempotent: "posix_normpath (posix_normpath p) = posix_normpath p"
  by (rule posix_normpath_idem)

text \<open>
  C31: Whenever plus, minus, times and power of poly.py return, the list they return denotes
  the sum, difference, product and power of the polynomials, at every point of every
  commutative ring.
\<close>

theorem poly_operations_denote:
  fixes x :: "'a::comm_ring_1"
  shows "(case poly_plus a b of Inl _ \<Rightarrow> True | Inr r \<Rightarrow> poly_val r x = poly_val a x + poly_val b x) \<and>
    (case poly_minus a b of Inl _ \<Rightarrow> True | Inr r \<Rightarrow> poly_val r x = poly_val a x - poly_val b x) \<and>
    (case poly_times a b of Inl _ \<Rightarrow> True | Inr r \<Rightarrow> poly_val r x = poly_val a x * poly_val b x) \<and>
    (case poly_power a n of Inl _ \<Rightarrow> True | Inr r \<Rightarrow> poly_val r x = poly_val a x ^ n)"
proof (intro conjI)
  show "case poly_plus a b of Inl _ \<Rightarrow> True | Inr r \<Rightarrow> poly_val r x = poly_val a x + poly_val b x"
    by (cases "poly_plus a b") (simp_all add: poly_plus_val(1) [of a b])
  show "case poly_minus a b of Inl _ \<Rightarrow> True | Inr r \<Rightarrow> poly_val r x = poly_val a x - poly_val b x"
    by (cases "poly_minus a b") (simp_all add: poly_minus_val [of a b])
  show "case poly_times a b of Inl _ \<Rightarrow> True | Inr r \<Rightarrow> poly_val r x = poly_val a x * poly_val b x"
    by (cases "poly_times a b") (simp_all add: poly_times_val [of a b])
  show "case poly_power a n of Inl _ \<Rightarrow> True | Inr r \<Rightarrow> poly_val r x = poly_val a x ^ n"
    by (cases "poly_power a n") (simp_all add: poly_power_val [of a n])
qed










text \<open>
  C37: Writing frames to a Wave_write in two pieces without announcing their number raises
  TypeError when the header is patched at close: _patchheader calls _write_long without the
  file.
\<close>

theorem wave_header_patch_raises:
  assumes "wave_fits nch 1 fr (int (length a))" "int (length a) = n * nch" "a \<noteq> []" "b \<noteq> []"
  shows "fst (thenA (ww_setparams (nch, 1, fr, 0, ''NONE'', nm)) (thenA (ww_writeframesraw lsz pf_ops a)
    (thenA (ww_writeframesraw lsz pf_ops b) (ww_close pf_ops))) (ww_init, file_end [])) = Inl TypeError"
  using assms by (rule wave_two_writes_raise)

theorem wave_header_patch_raises_witness:
  "fst (thenA (ww_setparams (1, 1, 8000, 0, ''NONE'', [])) (thenA (ww_writeframesraw 4 pf_ops ''ab'')
    (thenA (ww_writeframesraw 4 pf_ops ''c'') (ww_close pf_ops))) (ww_init, file_end [])) = Inl TypeError"
  by (rule wave_header_patch_raises [where n = 2]) (simp_all add: wave_fits_def)

text \<open>
  C38: Wave_read does not return on a file whose chunk announces the size -8: the loop re-
  reads the same chunk for ever, whatever the fuel.
\<close>

theorem wave_chunk_loop_diverges: "wave_open_read fuel pf_ops \<lparr>f_data = looping_file, f_pos = 0\<rparr> = None"
  by (rule wave_open_loops)

text \<open>
  C39: plus raises IndexError exactly when some argument is not empty and every coefficient of
  the sum is zero: normalize runs off the start of the list instead of returning the zero
  polynomial.
\<close>

theorem poly_zero_sum_raises:
  "poly_plus a b = Inl e \<longleftrightarrow> e = IndexError \<and> 0 < length a + length b \<and> (\<forall>i. coeff a i + coeff b i = 0)"
  unfolding poly_plus_Inl by simp


end
